(* ===== verification/VPU_Prelude.thy ===== *)
theory VPU_Prelude
  imports Main "HOL-Library.Word" "HOL-Library.Monad_Syntax"
begin

text \<open>
  What every component shares: the machine integers of the C code, the byte buffers it
  reads and writes with their bounds, the byte orders, the decimal and hexadecimal
  directives of \<open>snprintf\<close> that the path names use, and the collections of simp rules.

  An access outside a buffer, a dereference of a null pointer or a failed assertion has
  no meaning in C. A computation that can do one returns an \<open>option\<close>, and
  \<^const>\<open>None\<close> is that undefined behaviour. A return code of the C code is a value.
\<close>

unbundle bit_operations_syntax

subsection \<open>Integers\<close>

type_synonym u8 = "8 word"
type_synonym u16 = "16 word"
type_synonym u32 = "32 word"
type_synonym u64 = "64 word"

named_theorems mem_simps \<open>reads and writes of buffers inside their bounds\<close>
named_theorems byte_simps \<open>conversions between words and byte sequences\<close>
named_theorems model_defs \<open>definitions of operations that proofs unfold together\<close>

text \<open>
  What a loop that need not stop does with a given number of iterations: it has returned,
  it has done something undefined, or it is still running.
\<close>

datatype 'a loop_result = Returned 'a | Undefined | Running

subsection \<open>Buffers\<close>

definition rd :: "'a list \<Rightarrow> nat \<Rightarrow> 'a option" where
  "rd buf i = (if i < length buf then Some (buf ! i) else None)"

definition rd_n :: "'a list \<Rightarrow> nat \<Rightarrow> nat \<Rightarrow> 'a list option" where
  "rd_n buf off n = (if off + n \<le> length buf then Some (take n (drop off buf)) else None)"

definition wr_n :: "'a list \<Rightarrow> nat \<Rightarrow> 'a list \<Rightarrow> 'a list option" where
  "wr_n buf off bs =
     (if off + length bs \<le> length buf
      then Some (take off buf @ bs @ drop (off + length bs) buf) else None)"

lemma rd_Some [mem_simps]: "i < length buf \<Longrightarrow> rd buf i = Some (buf ! i)"
  by (simp add: rd_def)

lemma rd_n_Some [mem_simps]: "off + n \<le> length buf \<Longrightarrow> rd_n buf off n = Some (take n (drop off buf))"
  by (simp add: rd_n_def)

lemma wr_n_Some [mem_simps]:
  "off + length bs \<le> length buf \<Longrightarrow>
     wr_n buf off bs = Some (take off buf @ bs @ drop (off + length bs) buf)"
  by (simp add: wr_n_def)

lemma rd_eq_Some: "rd buf i = Some b \<longleftrightarrow> i < length buf \<and> b = buf ! i"
  by (auto simp: rd_def)

lemma rd_n_eq_Some: "rd_n buf off n = Some bs \<longleftrightarrow> off + n \<le> length buf \<and> bs = take n (drop off buf)"
  by (auto simp: rd_n_def)

lemma rd_n_None: "rd_n buf off n = None \<longleftrightarrow> length buf < off + n"
  by (auto simp: rd_n_def)

lemma wr_n_eq_Some:
  "wr_n buf off bs = Some buf' \<longleftrightarrow>
     off + length bs \<le> length buf \<and> buf' = take off buf @ bs @ drop (off + length bs) buf"
  by (auto simp: wr_n_def)

lemma wr_n_None: "wr_n buf off bs = None \<longleftrightarrow> length buf < off + length bs"
  by (auto simp: wr_n_def)

lemma rd_n_length: "rd_n buf off n = Some bs \<Longrightarrow> length bs = n"
  by (auto simp: rd_n_eq_Some)

lemma wr_n_length: "wr_n buf off bs = Some buf' \<Longrightarrow> length buf' = length buf"
  by (auto simp: wr_n_eq_Some)

lemma wr_n_take: "wr_n buf off bs = Some buf' \<Longrightarrow> take (off + length bs) buf' = take off buf @ bs"
  by (auto simp: wr_n_eq_Some)

lemma wr_n_drop: "wr_n buf off bs = Some buf' \<Longrightarrow> drop (off + length bs) buf' = drop (off + length bs) buf"
  by (auto simp: wr_n_eq_Some)

lemma wr_n_rd_n: "wr_n buf off bs = Some buf' \<Longrightarrow> rd_n buf' off (length bs) = Some bs"
  by (auto simp: wr_n_eq_Some rd_n_def)

subsection \<open>Byte orders\<close>

text \<open>
  The machine is little-endian (the build is for x86-64): a word is stored with its least
  significant byte first. \<open>htons\<close>, \<open>htonl\<close> and \<open>htobe64\<close> reverse the bytes, so what they
  store is the big-endian sequence.
\<close>

fun le_of :: "u8 list \<Rightarrow> 'a::len word" where
  "le_of [] = 0"
| "le_of (b # bs) = ucast b OR push_bit 8 (le_of bs)"

fun to_le :: "nat \<Rightarrow> 'a::len word \<Rightarrow> u8 list" where
  "to_le 0 w = []"
| "to_le (Suc n) w = ucast w # to_le n (drop_bit 8 w)"

definition be_of :: "u8 list \<Rightarrow> 'a::len word" where
  "be_of bs = le_of (rev bs)"

definition to_be :: "nat \<Rightarrow> 'a::len word \<Rightarrow> u8 list" where
  "to_be n w = rev (to_le n w)"

lemma length_to_le [simp]: "length (to_le n w) = n"
  by (induction n w rule: to_le.induct) auto

lemma length_to_be [simp]: "length (to_be n w) = n"
  by (simp add: to_be_def)

lemma le_of_to_le: "le_of (to_le n w) = take_bit (8 * n) w"
proof (induction n w rule: to_le.induct)
  case (1 w)
  then show ?case by simp
next
  case (2 n w)
  have "ucast (ucast w :: u8) OR push_bit 8 (take_bit (8 * n) (drop_bit 8 w)) = take_bit (8 * Suc n) w"
    by (rule bit_word_eqI) (auto simp: bit_simps)
  with 2 show ?case by simp
qed

lemma take_bit_full: "LENGTH('a) \<le> k \<Longrightarrow> take_bit k (w :: 'a::len word) = w"
  by (rule bit_word_eqI) (auto simp: bit_simps)

lemma le_roundtrip [byte_simps]:
  "LENGTH('a) \<le> 8 * n \<Longrightarrow> le_of (to_le n w) = (w :: 'a::len word)"
  by (simp add: le_of_to_le take_bit_full)

lemma be_roundtrip [byte_simps]:
  "LENGTH('a) \<le> 8 * n \<Longrightarrow> be_of (to_be n w) = (w :: 'a::len word)"
  by (simp add: be_of_def to_be_def le_roundtrip)

lemma to_le_le_of:
  "8 * length bs \<le> LENGTH('a) \<Longrightarrow> to_le (length bs) (le_of bs :: 'a::len word) = bs"
proof (induction bs)
  case Nil
  then show ?case by simp
next
  case (Cons b bs)
  have 1: "ucast (ucast b OR push_bit 8 (le_of bs) :: 'a word) = b"
    using Cons.prems by (intro bit_word_eqI) (auto simp: bit_simps)
  have 2: "8 * length bs + 8 \<le> LENGTH('a)" using Cons.prems by simp
  have 3: "drop_bit 8 (ucast b OR push_bit 8 (le_of bs) :: 'a word) = take_bit (LENGTH('a) - 8) (le_of bs)"
    by (rule bit_word_eqI) (auto simp: bit_simps dest: bit_imp_le_length)
  have 4: "to_le n (take_bit k (w :: 'a word)) = to_le n w" if "8 * n \<le> k" for n k w
    using that
  proof (induction n arbitrary: k w)
    case 0
    then show ?case by simp
  next
    case (Suc n)
    have a: "ucast (take_bit k w) = (ucast w :: u8)"
      using Suc.prems by (intro bit_word_eqI) (auto simp: bit_simps)
    have b: "drop_bit 8 (take_bit k w) = take_bit (k - 8) (drop_bit 8 w)"
      using Suc.prems by (intro bit_word_eqI) (auto simp: bit_simps)
    show ?case using Suc.IH[of "k - 8" "drop_bit 8 w"] Suc.prems by (simp add: a b)
  qed
  show ?case using Cons.IH Cons.prems 2 by (simp add: 1 3 4 del: drop_bit_or)
qed

lemma to_be_be_of:
  "8 * length bs \<le> LENGTH('a) \<Longrightarrow> to_be (length bs) (be_of bs :: 'a::len word) = bs"
  using to_le_le_of[of "rev bs", where 'a = 'a] by (simp add: be_of_def to_be_def)

text \<open>Reads of integers from a buffer, in either byte order.\<close>

definition rd_be16 :: "u8 list \<Rightarrow> nat \<Rightarrow> u16 option" where
  "rd_be16 buf i = map_option be_of (rd_n buf i 2)"

definition rd_be32 :: "u8 list \<Rightarrow> nat \<Rightarrow> u32 option" where
  "rd_be32 buf i = map_option be_of (rd_n buf i 4)"

definition rd_le64 :: "u8 list \<Rightarrow> nat \<Rightarrow> u64 option" where
  "rd_le64 buf i = map_option le_of (rd_n buf i 8)"

lemma rd_n_append_left: "i + n \<le> length xs \<Longrightarrow> rd_n (xs @ ys) i n = rd_n xs i n"
  by (simp add: rd_n_def)

lemma rd_n_append_right: "length xs \<le> i \<Longrightarrow> rd_n (xs @ ys) i n = rd_n ys (i - length xs) n"
  by (auto simp: rd_n_def)

lemma rd_n_whole: "rd_n xs 0 (length xs) = Some xs"
  by (simp add: rd_n_def)

lemma rd_n_prefix: "n = length xs \<Longrightarrow> rd_n (xs @ ys) 0 n = Some xs"
  by (simp add: rd_n_def)

lemma rd_n_at: "off = length pre \<Longrightarrow> n = length bs \<Longrightarrow> rd_n (pre @ bs @ post) off n = Some bs"
  by (simp add: rd_n_def)

lemma rd_be16_at: "off = length pre \<Longrightarrow> rd_be16 (pre @ to_be 2 x @ post) off = Some x"
  by (simp add: rd_be16_def rd_n_at be_roundtrip)

lemma unat_of_nat16: "i < 65536 \<Longrightarrow> unat (of_nat i :: u16) = i"
  by (simp add: unat_of_nat)

lemma unat_of_nat32: "n < 4294967296 \<Longrightarrow> unat (of_nat n :: u32) = n"
  by (simp add: unat_of_nat)

subsection \<open>Number formats of snprintf\<close>

text \<open>\<open>%0nd\<close> of a non-negative number, \<open>%016lx\<close> and \<open>%d\<close>.\<close>

definition digit_char :: "nat \<Rightarrow> char" where
  "digit_char d = (if d < 10 then char_of (48 + d) else char_of (87 + d))"

fun digits_rev :: "nat \<Rightarrow> nat \<Rightarrow> string" where
  "digits_rev b n = (if b < 2 \<or> n < b then [digit_char n]
     else digit_char (n mod b) # digits_rev b (n div b))"

declare digits_rev.simps [simp del]

definition fmt_num :: "nat \<Rightarrow> nat \<Rightarrow> nat \<Rightarrow> string" where
  "fmt_num b w n = (let s = rev (digits_rev b n) in replicate (w - length s) (CHR ''0'') @ s)"

abbreviation fmt_dec :: "nat \<Rightarrow> nat \<Rightarrow> string" where
  "fmt_dec w n \<equiv> fmt_num 10 w n"

abbreviation fmt_hex :: "nat \<Rightarrow> nat \<Rightarrow> string" where
  "fmt_hex w n \<equiv> fmt_num 16 w n"

text \<open>\<open>snprintf (buf, n, ...)\<close> keeps at most \<open>n - 1\<close> characters.\<close>

definition snprintf :: "nat \<Rightarrow> string \<Rightarrow> string" where
  "snprintf n s = take (n - 1) s"

lemma snprintf_fits: "length s < n \<Longrightarrow> snprintf n s = s"
  by (simp add: snprintf_def)

lemma length_snprintf: "0 < n \<Longrightarrow> length (snprintf n s) < n"
  by (auto simp: snprintf_def)

lemma length_digits_rev: "0 < k \<Longrightarrow> 2 \<le> b \<Longrightarrow> n < b ^ k \<Longrightarrow> length (digits_rev b n) \<le> k"
proof (induction k arbitrary: n)
  case 0
  then show ?case by simp
next
  case (Suc k)
  show ?case
  proof (cases "n < b")
    case True
    then show ?thesis by (simp add: digits_rev.simps)
  next
    case False
    with Suc.prems have "0 < k" by (cases k) auto
    moreover have "n div b < b ^ k" using Suc.prems by (simp add: less_mult_imp_div_less mult.commute)
    ultimately have "length (digits_rev b (n div b)) \<le> k" using Suc by simp
    with False Suc.prems show ?thesis by (simp add: digits_rev.simps[of b n])
  qed
qed

lemma length_fmt_num: "0 < w \<Longrightarrow> 2 \<le> b \<Longrightarrow> n < b ^ w \<Longrightarrow> length (fmt_num b w n) = w"
  using length_digits_rev[of w b n] by (simp add: fmt_num_def Let_def)

text \<open>A number is recovered from its format, so equal formats come from equal numbers.\<close>

definition digit_val :: "char \<Rightarrow> nat" where
  "digit_val c = (if of_char c < (58 :: nat) then of_char c - 48 else of_char c - 87)"

fun undigits :: "nat \<Rightarrow> string \<Rightarrow> nat" where
  "undigits b [] = 0"
| "undigits b (c # cs) = digit_val c + b * undigits b cs"

lemma digit_val_char: "d < 16 \<Longrightarrow> digit_val (digit_char d) = d"
  by (simp add: digit_val_def digit_char_def)

lemma undigits_digits: "2 \<le> b \<Longrightarrow> b \<le> 16 \<Longrightarrow> undigits b (digits_rev b n) = n"
proof (induction n rule: less_induct)
  case (less n)
  show ?case
  proof (cases "n < b")
    case True
    then show ?thesis using less.prems by (simp add: digits_rev.simps digit_val_char)
  next
    case False
    then have "n div b < n" using less.prems by simp
    moreover have "n mod b < b" using less.prems(1) by (intro mod_less_divisor) simp
    then have "digit_val (digit_char (n mod b)) = n mod b"
      using less.prems(2) by (intro digit_val_char) simp
    ultimately show ?thesis using False less by (simp add: digits_rev.simps[of b n])
  qed
qed

lemma undigits_zeros: "undigits b (xs @ replicate k (CHR ''0'')) = undigits b xs"
proof -
  have "digit_val (CHR ''0'') = 0" by (simp add: digit_val_def)
  then have "undigits b (replicate k (CHR ''0'')) = 0" by (induction k) auto
  then show ?thesis by (induction xs) auto
qed

lemma undigits_fmt_num: "2 \<le> b \<Longrightarrow> b \<le> 16 \<Longrightarrow> undigits b (rev (fmt_num b w n)) = n"
  by (simp add: fmt_num_def Let_def undigits_zeros undigits_digits)

lemma fmt_num_inj: "fmt_num b w n = fmt_num b w m \<Longrightarrow> 2 \<le> b \<Longrightarrow> b \<le> 16 \<Longrightarrow> n = m"
  by (metis undigits_fmt_num)

end
