(* ===== verification/Conf_Tree.thy ===== *)
theory Conf_Tree
  imports VPU_Prelude "HOL-Library.Sublist"
begin

text \<open>
  The configuration tree, \<open>src/src/yaml_conf.c\<close>: nodes with a name, a value and children, found by
  dotted keys, set by \<open>ConfSet\<close> and built by \<open>ConfYamlParse\<close> from the events of libyaml, which
  are a parameter (the list that \<open>yaml_parser_parse\<close> delivers; a failure of it is an event of its own,
  and the end of the list is one too).

  A pointer to a node that is written through is a position: the node itself or one of its children.
  Strings are null-terminated, so a name or value is a \<^typ>\<open>string\<close>; \<^const>\<open>None\<close> is a null pointer. The
  root, whose name is null, has the empty name.
\<close>

subsection \<open>Nodes\<close>

datatype conf_node = ConfNode (cn_name: string) (cn_val: "string option") (cn_seq: bool) (cn_override: bool)
  (cn_head: "conf_node list")

definition ConfNodeNew :: conf_node where
  "ConfNodeNew = ConfNode '''' None False True []"

fun set_name :: "string \<Rightarrow> conf_node \<Rightarrow> conf_node" where
  "set_name s (ConfNode nm v q ov h) = ConfNode s v q ov h"

fun set_val :: "string option \<Rightarrow> conf_node \<Rightarrow> conf_node" where
  "set_val s (ConfNode nm v q ov h) = ConfNode nm s q ov h"

fun set_seq :: "conf_node \<Rightarrow> conf_node" where
  "set_seq (ConfNode nm v q ov h) = ConfNode nm v True ov h"

fun set_override :: "bool \<Rightarrow> conf_node \<Rightarrow> conf_node" where
  "set_override b (ConfNode nm v q ov h) = ConfNode nm v q b h"

fun set_head :: "conf_node list \<Rightarrow> conf_node \<Rightarrow> conf_node" where
  "set_head cs (ConfNode nm v q ov h) = ConfNode nm v q ov cs"

lemma conf_node_sel [simp]:
  "cn_name (set_name s n) = s" "cn_val (set_name s n) = cn_val n" "cn_seq (set_name s n) = cn_seq n"
  "cn_override (set_name s n) = cn_override n" "cn_head (set_name s n) = cn_head n"
  "cn_name (set_val v n) = cn_name n" "cn_val (set_val v n) = v" "cn_seq (set_val v n) = cn_seq n"
  "cn_override (set_val v n) = cn_override n" "cn_head (set_val v n) = cn_head n"
  "cn_name (set_override b n) = cn_name n" "cn_val (set_override b n) = cn_val n"
  "cn_override (set_override b n) = b" "cn_head (set_override b n) = cn_head n"
  "cn_name (set_head cs n) = cn_name n" "cn_val (set_head cs n) = cn_val n" "cn_seq (set_head cs n) = cn_seq n"
  "cn_override (set_head cs n) = cn_override n" "cn_head (set_head cs n) = cs"
  "cn_name (set_seq n) = cn_name n" "cn_val (set_seq n) = cn_val n" "cn_head (set_seq n) = cn_head n"
  "cn_override (set_seq n) = cn_override n" "cn_seq (set_seq n)"
  by (cases n; simp)+

subsection \<open>Keys\<close>

text \<open>The tokens \<open>strtok_r\<close> cuts a key into at the dots.\<close>

fun toks :: "string \<Rightarrow> string \<Rightarrow> string list" where
  "toks acc [] = (if acc = [] then [] else [rev acc])"
| "toks acc (c # cs) =
     (if c = CHR ''.'' then (if acc = [] then toks [] cs else rev acc # toks [] cs) else toks (c # acc) cs)"

fun child_index :: "conf_node list \<Rightarrow> string \<Rightarrow> nat option" where
  "child_index [] name = None"
| "child_index (c # cs) name = (if cn_name c = name then Some 0 else map_option Suc (child_index cs name))"

definition ConfNodeLookupChild :: "conf_node \<Rightarrow> string \<Rightarrow> conf_node option" where
  "ConfNodeLookupChild node name = map_option ((!) (cn_head node)) (child_index (cn_head node) name)"

definition ConfNodeLookupChildValue :: "conf_node \<Rightarrow> string \<Rightarrow> string option" where
  "ConfNodeLookupChildValue node name =
     (case ConfNodeLookupChild node name of Some child \<Rightarrow> cn_val child | None \<Rightarrow> None)"

fun get_path :: "conf_node \<Rightarrow> string list \<Rightarrow> conf_node option" where
  "get_path node [] = Some node"
| "get_path node (token # ts) =
     (case ConfNodeLookupChild node token of None \<Rightarrow> None | Some c \<Rightarrow> get_path c ts)"

text \<open>A key without tokens makes \<open>strcmp\<close> compare with a null pointer, once the root has a child.\<close>

definition ConfGetNode :: "conf_node option \<Rightarrow> string \<Rightarrow> conf_node option option" where
  "ConfGetNode root key = do {
     node \<leftarrow> root;
     (case toks [] key of
        [] \<Rightarrow> (if cn_head node = [] then Some None else None)
      | ts \<Rightarrow> Some (get_path node ts))}"

text \<open>The return code and the value, which may be null.\<close>

definition ConfGet :: "conf_node option \<Rightarrow> string \<Rightarrow> (int \<times> string option) option" where
  "ConfGet root name = do {
     node \<leftarrow> ConfGetNode root name;
     (case node of None \<Rightarrow> Some (0, None) | Some n \<Rightarrow> Some (1, cn_val n))}"

definition ConfGetChildValue :: "conf_node \<Rightarrow> string \<Rightarrow> int \<times> string option" where
  "ConfGetChildValue base name =
     (case ConfNodeLookupChild base name of None \<Rightarrow> (0, None) | Some n \<Rightarrow> (1, cn_val n))"

definition update_child :: "nat \<Rightarrow> (conf_node \<Rightarrow> conf_node) \<Rightarrow> conf_node \<Rightarrow> conf_node" where
  "update_child i f node = set_head ((cn_head node)[i := f (cn_head node ! i)]) node"

definition add_child :: "conf_node \<Rightarrow> conf_node \<Rightarrow> conf_node" where
  "add_child child node = set_head (cn_head node @ [child]) node"

text \<open>The walk of \<open>ConfSet\<close>: it follows the key, makes the nodes that are missing and sets the last.\<close>

fun set_path :: "conf_node \<Rightarrow> string list \<Rightarrow> string \<Rightarrow> bool \<Rightarrow> conf_node" where
  "set_path node [] val ov = (if cn_override node then set_override ov (set_val (Some val) node) else node)"
| "set_path node (token # ts) val ov =
     (case child_index (cn_head node) token of
        Some i \<Rightarrow> update_child i (\<lambda>c. set_path c ts val ov) node
      | None \<Rightarrow> add_child (set_path (set_name token ConfNodeNew) ts val ov) node)"

definition ConfSet :: "conf_node option \<Rightarrow> string \<Rightarrow> string \<Rightarrow> bool \<Rightarrow> (int \<times> conf_node option) option" where
  "ConfSet root name val ov = do {
     node \<leftarrow> ConfGetNode root name;
     r \<leftarrow> root;
     (if toks [] name = [] then None
      else (case node of
          Some n \<Rightarrow> (if \<not> cn_override n then Some (0, root) else Some (1, Some (set_path r (toks [] name) val ov)))
        | None \<Rightarrow> Some (1, Some (set_path r (toks [] name) val ov))))}"

text \<open>The child of a sequence that starts with \<open>key\<close> and has that \<open>value\<close> for it.\<close>

fun has_pair :: "conf_node list \<Rightarrow> string \<Rightarrow> string \<Rightarrow> bool option" where
  "has_pair [] key val = Some False"
| "has_pair (s # ss) key val =
     (if cn_name s = key
      then (case cn_val s of None \<Rightarrow> None | Some v \<Rightarrow> (if v = val then Some True else has_pair ss key val))
      else has_pair ss key val)"

fun find_pair :: "conf_node list \<Rightarrow> string \<Rightarrow> string \<Rightarrow> conf_node option option" where
  "find_pair [] key val = Some None"
| "find_pair (c # cs) key val =
     (case cn_val c of
        None \<Rightarrow> None
      | Some v \<Rightarrow>
          (if prefix v key
           then do {b \<leftarrow> has_pair (cn_head c) key val; if b then Some (Some c) else find_pair cs key val}
           else find_pair cs key val))"

definition ConfNodeLookupKeyValue :: "conf_node \<Rightarrow> string \<Rightarrow> string \<Rightarrow> conf_node option option" where
  "ConfNodeLookupKeyValue base key val = find_pair (cn_head base) key val"

subsection \<open>Values\<close>

definition tolower :: "char \<Rightarrow> char" where
  "tolower c = (if 65 \<le> (of_char c :: nat) \<and> (of_char c :: nat) \<le> 90 then char_of ((of_char c :: nat) + 32) else c)"

definition ConfValIsTrue :: "string \<Rightarrow> bool" where
  "ConfValIsTrue v \<longleftrightarrow> (\<exists>t \<in> set [''1'', ''yes'', ''true'', ''on'']. map tolower v = map tolower t)"

definition ConfValIsFalse :: "string \<Rightarrow> bool" where
  "ConfValIsFalse v \<longleftrightarrow> (\<exists>t \<in> set [''0'', ''no'', ''false'', ''off'']. map tolower v = map tolower t)"

definition ConfNodeChildValueIsTrue :: "conf_node \<Rightarrow> string \<Rightarrow> bool" where
  "ConfNodeChildValueIsTrue node key =
     (case ConfNodeLookupChildValue node key of Some v \<Rightarrow> ConfValIsTrue v | None \<Rightarrow> False)"

definition PathIsAbsolute :: "string \<Rightarrow> bool" where
  "PathIsAbsolute path \<longleftrightarrow> 1 < length path \<and> hd path = CHR ''/''"

definition PathIsRelative :: "string \<Rightarrow> bool" where
  "PathIsRelative path \<longleftrightarrow> \<not> PathIsAbsolute path"

text \<open>
  The path of an include file. The last character of the include path is looked at without a
  test that it has one.
\<close>

definition ConfLoadCompleteIncludePath :: "conf_node option \<Rightarrow> string \<Rightarrow> string option" where
  "ConfLoadCompleteIncludePath root file =
     (if PathIsRelative file
      then do {
        (r, v) \<leftarrow> ConfGet root ''include-path'';
        if r = 1
        then do {
          defaultpath \<leftarrow> v;
          if defaultpath = [] then None
          else Some (defaultpath @ (if last defaultpath \<noteq> CHR ''/'' then ''/'' else '''') @ file)}
        else Some file}
      else Some file)"

subsection \<open>The YAML loader\<close>

datatype yaml_event =
    Stream_start | Stream_end | Document_start "(int \<times> int) option" | Document_end
  | Scalar string | Sequence_start | Sequence_end | Mapping_start | Mapping_end | Alias | Parse_error

datatype conf_pos = Self | Child nat

datatype key_state = CONF_KEY | CONF_VAL

definition node_at :: "conf_pos \<Rightarrow> conf_node \<Rightarrow> conf_node" where
  "node_at pos parent = (case pos of Self \<Rightarrow> parent | Child i \<Rightarrow> cn_head parent ! i)"

definition put_at :: "conf_pos \<Rightarrow> conf_node \<Rightarrow> conf_node \<Rightarrow> conf_node" where
  "put_at pos node parent = (case pos of Self \<Rightarrow> node | Child i \<Rightarrow> update_child i (\<lambda>_. node) parent)"

definition Mangle :: "string \<Rightarrow> string" where
  "Mangle s = map (\<lambda>c. if c = CHR ''_'' then CHR ''-'' else c) s"

definition seq_name :: "nat \<Rightarrow> string" where
  "seq_name i = snprintf 16 (fmt_dec 0 i)"

text \<open>The name of a new node for a key, and the value of a sequence entry's first key.\<close>

definition key_name :: "conf_node \<Rightarrow> string \<Rightarrow> string" where
  "key_name parent val =
     (if CHR ''_'' \<in> set val \<and> \<not> (cn_name parent = ''address-groups'' \<or> cn_name parent = ''port-groups'')
      then Mangle val else val)"

definition first_key :: "conf_node \<Rightarrow> string \<Rightarrow> conf_node" where
  "first_key parent val = (if cn_seq parent \<and> cn_val parent = None then set_val (Some (Mangle val)) parent else parent)"

definition key_node :: "conf_node \<Rightarrow> string \<Rightarrow> conf_node \<times> conf_pos" where
  "key_node parent val =
     (case child_index (cn_head parent) val of
        Some i \<Rightarrow> (parent, Child i)
      | None \<Rightarrow> (add_child (set_name (key_name parent val) ConfNodeNew) parent, Child (length (cn_head parent))))"

text \<open>
  The loop with its local variables \<open>node\<close>, \<open>state\<close> and \<open>seq_idx\<close>; a call for a nested layer works on
  the node and goes on with the events that are left. The result is the return code, the node and the
  events left, \<^const>\<open>None\<close> when the bound on the turns was too small.
\<close>

fun yaml_loop ::
  "nat \<Rightarrow> bool \<Rightarrow> yaml_event list \<Rightarrow> conf_node \<Rightarrow> conf_pos \<Rightarrow> key_state \<Rightarrow> nat \<Rightarrow> (int \<times> conf_node \<times> yaml_event list) option" where
  "yaml_loop 0 inseq evs parent node state idx = None"
| "yaml_loop (Suc n) inseq evs parent node state idx =
     (case evs of
        [] \<Rightarrow> Some (-1, parent, [])
      | Parse_error # r \<Rightarrow> Some (-1, parent, r)
      | Document_start v # r \<Rightarrow>
          (if v = Some (1, 1) then yaml_loop n inseq r parent node state idx else Some (-1, parent, r))
      | Scalar val # r \<Rightarrow>
          (if inseq
           then yaml_loop n inseq r (add_child (set_val (Some val) (set_name (seq_name idx) ConfNodeNew)) parent) node state (Suc idx)
           else (case state of
               CONF_KEY \<Rightarrow> (let (p, pos) = key_node (first_key parent val) val in yaml_loop n inseq r p pos CONF_VAL idx)
             | CONF_VAL \<Rightarrow>
                 (let nd = node_at node parent;
                      nd' = (if cn_override nd then set_val (Some val) nd else nd) in
                  yaml_loop n inseq r (put_at node nd' parent) node CONF_KEY idx)))
      | Sequence_start # r \<Rightarrow>
          (case yaml_loop n True r (node_at node parent) Self CONF_KEY 0 of
             None \<Rightarrow> None
           | Some (ret, nd, r') \<Rightarrow>
               (if ret \<noteq> 0 then Some (-1, put_at node nd parent, r')
                else yaml_loop n inseq r' (put_at node nd parent) node CONF_KEY idx))
      | Sequence_end # r \<Rightarrow> Some (0, parent, r)
      | Mapping_start # r \<Rightarrow>
          (if inseq
           then (case yaml_loop n False r (set_name (seq_name idx) (set_seq ConfNodeNew)) Self CONF_KEY 0 of
                None \<Rightarrow> None
              | Some (ret, nd, r') \<Rightarrow>
                  (let p = put_at node (add_child nd (node_at node parent)) parent in
                   if ret \<noteq> 0 then Some (-1, p, r') else yaml_loop n inseq r' p node CONF_KEY (Suc idx)))
           else (case yaml_loop n inseq r (node_at node parent) Self CONF_KEY 0 of
                None \<Rightarrow> None
              | Some (ret, nd, r') \<Rightarrow>
                  (if ret \<noteq> 0 then Some (-1, put_at node nd parent, r')
                   else yaml_loop n inseq r' (put_at node nd parent) node CONF_KEY idx)))
      | Mapping_end # r \<Rightarrow> Some (0, parent, r)
      | Stream_end # r \<Rightarrow> Some (0, parent, r)
      | _ # r \<Rightarrow> yaml_loop n inseq r parent node state idx)"

definition ConfYamlParse :: "bool \<Rightarrow> yaml_event list \<Rightarrow> conf_node \<Rightarrow> (int \<times> conf_node \<times> yaml_event list) option" where
  "ConfYamlParse inseq evs parent = yaml_loop (Suc (length evs)) inseq evs parent Self CONF_KEY 0"

text \<open>\<open>ConfYamlLoadFile\<close>; \<^const>\<open>None\<close> among the arguments is a file that cannot be opened.\<close>

definition ConfYamlLoadFile :: "yaml_event list option \<Rightarrow> conf_node option \<Rightarrow> (int \<times> conf_node option) option" where
  "ConfYamlLoadFile file root =
     (case file of
        None \<Rightarrow> Some (-1, root)
      | Some evs \<Rightarrow> do {
          r \<leftarrow> root;
          (ret, r', _) \<leftarrow> ConfYamlParse False evs r;
          Some (ret, Some r')})"

definition ConfInit :: "conf_node option \<Rightarrow> conf_node option" where
  "ConfInit root = (if root \<noteq> None then root else Some ConfNodeNew)"

definition ConfDeInit :: "conf_node option \<Rightarrow> conf_node option" where
  "ConfDeInit root = None"

subsection \<open>The loader returns\<close>

text \<open>One turn per event.\<close>

lemma yl_simps [simp]:
  "yaml_loop (Suc n) inseq [] p nd st i = Some (-1, p, [])"
  "yaml_loop (Suc n) inseq (Parse_error # r) p nd st i = Some (-1, p, r)"
  "yaml_loop (Suc n) inseq (Document_start v # r) p nd st i =
     (if v = Some (1, 1) then yaml_loop n inseq r p nd st i else Some (-1, p, r))"
  "yaml_loop (Suc n) inseq (Stream_start # r) p nd st i = yaml_loop n inseq r p nd st i"
  "yaml_loop (Suc n) inseq (Document_end # r) p nd st i = yaml_loop n inseq r p nd st i"
  "yaml_loop (Suc n) inseq (Alias # r) p nd st i = yaml_loop n inseq r p nd st i"
  "yaml_loop (Suc n) inseq (Sequence_end # r) p nd st i = Some (0, p, r)"
  "yaml_loop (Suc n) inseq (Mapping_end # r) p nd st i = Some (0, p, r)"
  "yaml_loop (Suc n) inseq (Stream_end # r) p nd st i = Some (0, p, r)"
  "yaml_loop (Suc n) True (Scalar val # r) p nd st i =
     yaml_loop n True r (add_child (set_val (Some val) (set_name (seq_name i) ConfNodeNew)) p) nd st (Suc i)"
  "yaml_loop (Suc n) False (Scalar val # r) p nd CONF_KEY i =
     yaml_loop n False r (fst (key_node (first_key p val) val)) (snd (key_node (first_key p val) val)) CONF_VAL i"
  "yaml_loop (Suc n) False (Scalar val # r) p nd CONF_VAL i =
     yaml_loop n False r (put_at nd (if cn_override (node_at nd p) then set_val (Some val) (node_at nd p) else node_at nd p) p) nd CONF_KEY i"
  by (simp_all add: case_prod_beta Let_def)

lemma yl_nested:
  "yaml_loop (Suc n) inseq (Sequence_start # r) p nd st i =
     (case yaml_loop n True r (node_at nd p) Self CONF_KEY 0 of None \<Rightarrow> None
      | Some (ret, q, r') \<Rightarrow> if ret \<noteq> 0 then Some (-1, put_at nd q p, r') else yaml_loop n inseq r' (put_at nd q p) nd CONF_KEY i)"
  "yaml_loop (Suc n) False (Mapping_start # r) p nd st i =
     (case yaml_loop n False r (node_at nd p) Self CONF_KEY 0 of None \<Rightarrow> None
      | Some (ret, q, r') \<Rightarrow> if ret \<noteq> 0 then Some (-1, put_at nd q p, r') else yaml_loop n False r' (put_at nd q p) nd CONF_KEY i)"
  "yaml_loop (Suc n) True (Mapping_start # r) p nd st i =
     (case yaml_loop n False r (set_name (seq_name i) (set_seq ConfNodeNew)) Self CONF_KEY 0 of None \<Rightarrow> None
      | Some (ret, q, r') \<Rightarrow>
          if ret \<noteq> 0 then Some (-1, put_at nd (add_child q (node_at nd p)) p, r')
          else yaml_loop n True r' (put_at nd (add_child q (node_at nd p)) p) nd CONF_KEY (Suc i))"
  by (simp_all add: Let_def split: option.split)

declare yaml_loop.simps(2) [simp del]

lemma yaml_loop_enough:
  "length evs < n \<Longrightarrow> \<exists>ret p r. yaml_loop n inseq evs parent node state idx = Some (ret, p, r) \<and> length r \<le> length evs"
proof (induction n arbitrary: inseq evs parent node state idx)
  case 0
  then show ?case by simp
next
  case (Suc n)
  show ?case
  proof (cases evs)
    case Nil
    then show ?thesis by simp
  next
    case (Cons e r)
    then have r: "length r < n" using Suc.prems by simp
    have go: "\<exists>ret q r''. yaml_loop n inseq' r' p nd st i = Some (ret, q, r'') \<and> length r'' \<le> Suc (length r)"
      if "length r' \<le> length r" for inseq' r' p nd st i
      using Suc.IH[of r' inseq' p nd st i] that r by fastforce
    have nest: "\<exists>ret p r''. (case yaml_loop n inseq' r nd Self CONF_KEY 0 of None \<Rightarrow> None
         | Some (ret, nd', r') \<Rightarrow> if ret \<noteq> 0 then Some (-1, P nd', r') else yaml_loop n inseq r' (P nd') node CONF_KEY idx')
           = Some (ret, p, r'') \<and> length r'' \<le> Suc (length r)" for inseq' nd P idx'
    proof -
      obtain ret nd' r' where 1: "yaml_loop n inseq' r nd Self CONF_KEY 0 = Some (ret, nd', r')" "length r' \<le> length r"
        using Suc.IH[OF r, of inseq' nd Self CONF_KEY 0] by blast
      from go[OF 1(2), of inseq "P nd'" node CONF_KEY idx'] show ?thesis using 1 by (cases "ret = 0") auto
    qed
    show ?thesis
    proof (cases e)
      case (Scalar val)
      then show ?thesis using Cons go[of r] by (cases inseq; cases state) auto
    next
      case Sequence_start
      then show ?thesis using Cons nest[where inseq' = True and nd = "node_at node parent" and P = "\<lambda>nd. put_at node nd parent" and idx' = idx] by (simp add: yl_nested)
    next
      case Mapping_start
      show ?thesis
      proof (cases inseq)
        case True
        then have i: "inseq = True" by simp
        show ?thesis unfolding i using Cons Mapping_start nest[where inseq' = False and nd = "set_name (seq_name idx) (set_seq ConfNodeNew)" and
            P = "\<lambda>nd. put_at node (add_child nd (node_at node parent)) parent" and idx' = "Suc idx", unfolded i] by (simp add: yl_nested)
      next
        case False
        then have i: "inseq = False" by simp
        show ?thesis unfolding i using Cons Mapping_start nest[where inseq' = False and nd = "node_at node parent" and P = "\<lambda>nd. put_at node nd parent" and idx' = idx, unfolded i]
          by (simp add: yl_nested)
      qed
    qed (use Cons go[of r] in auto)
  qed
qed

lemma yaml_loop_mono:
  "yaml_loop n inseq evs parent node state idx = Some res \<Longrightarrow> n \<le> m \<Longrightarrow> yaml_loop m inseq evs parent node state idx = Some res"
proof (induction n arbitrary: m inseq evs parent node state idx res)
  case 0
  then show ?case by simp
next
  case (Suc n)
  from Suc.prems(2) obtain k where m: "m = Suc k" "n \<le> k" by (cases m) auto
  note IH = Suc.IH[OF _ m(2)]
  show ?case
  proof (cases evs)
    case Nil
    then show ?thesis using Suc.prems(1) m by simp
  next
    case (Cons e r)
    have nest: "(case yaml_loop k inseq' r nd Self CONF_KEY 0 of None \<Rightarrow> None
         | Some (ret, nd', r') \<Rightarrow> if ret \<noteq> 0 then Some (-1, P nd', r') else yaml_loop k inseq r' (P nd') node CONF_KEY idx') = Some res"
      if "(case yaml_loop n inseq' r nd Self CONF_KEY 0 of None \<Rightarrow> None
         | Some (ret, nd', r') \<Rightarrow> if ret \<noteq> 0 then Some (-1, P nd', r') else yaml_loop n inseq r' (P nd') node CONF_KEY idx') = Some res"
      for inseq' nd P idx'
    proof -
      from that obtain ret nd' r' where a: "yaml_loop n inseq' r nd Self CONF_KEY 0 = Some (ret, nd', r')"
        "(if ret \<noteq> 0 then Some (-1, P nd', r') else yaml_loop n inseq r' (P nd') node CONF_KEY idx') = Some res"
        by (cases "yaml_loop n inseq' r nd Self CONF_KEY 0") auto
      show ?thesis
      proof (cases "ret = 0")
        case True
        then have "yaml_loop n inseq r' (P nd') node CONF_KEY idx' = Some res" using a(2) by simp
        from IH[OF this] IH[OF a(1)] True show ?thesis by simp
      next
        case False
        then show ?thesis using a(2) IH[OF a(1)] by simp
      qed
    qed
    show ?thesis
    proof (cases e)
      case (Scalar val)
      then show ?thesis using Suc.prems(1) m(1) Cons by (cases inseq; cases state) (auto intro: IH)
    next
      case Sequence_start
      then show ?thesis using Suc.prems(1) m(1) Cons nest[where inseq' = True and nd = "node_at node parent" and P = "\<lambda>nd. put_at node nd parent" and idx' = idx]
        by (simp add: yl_nested)
    next
      case Mapping_start
      show ?thesis
      proof (cases inseq)
        case True
        then have i: "inseq = True" by simp
        show ?thesis unfolding i using Suc.prems(1)[unfolded i] m(1) Cons Mapping_start nest[where inseq' = False and nd = "set_name (seq_name idx) (set_seq ConfNodeNew)" and
            P = "\<lambda>nd. put_at node (add_child nd (node_at node parent)) parent" and idx' = "Suc idx", unfolded i] by (simp add: yl_nested)
      next
        case False
        then have i: "inseq = False" by simp
        show ?thesis unfolding i using Suc.prems(1)[unfolded i] m(1) Cons Mapping_start nest[where inseq' = False and nd = "node_at node parent" and P = "\<lambda>nd. put_at node nd parent" and idx' = idx, unfolded i]
          by (simp add: yl_nested)
      qed
    qed (use Suc.prems(1) m(1) Cons in \<open>auto intro: IH split: if_splits\<close>)
  qed
qed

text \<open>The loader without its bound.\<close>

definition yaml_run ::
  "bool \<Rightarrow> yaml_event list \<Rightarrow> conf_node \<Rightarrow> conf_pos \<Rightarrow> key_state \<Rightarrow> nat \<Rightarrow> int \<times> conf_node \<times> yaml_event list \<Rightarrow> bool" where
  "yaml_run inseq evs parent node state idx res \<longleftrightarrow> (\<exists>n. yaml_loop n inseq evs parent node state idx = Some res)"

lemma yaml_runI: "yaml_loop n inseq evs parent node state idx = Some res \<Longrightarrow> yaml_run inseq evs parent node state idx res"
  unfolding yaml_run_def by blast

lemma yaml_run_enough:
  assumes "yaml_run inseq evs parent node state idx res" "length evs < n"
  shows "yaml_loop n inseq evs parent node state idx = Some res"
proof -
  obtain k where k: "yaml_loop k inseq evs parent node state idx = Some res" using assms(1) by (auto simp: yaml_run_def)
  obtain res' where r: "yaml_loop n inseq evs parent node state idx = Some res'"
    using yaml_loop_enough[OF assms(2)] by blast
  from yaml_loop_mono[OF k, of "max k n"] yaml_loop_mono[OF r, of "max k n"] r show ?thesis by simp
qed

lemma yaml_run_two:
  assumes "yaml_run i1 e1 p1 n1 s1 x1 r1" "yaml_run i2 e2 p2 n2 s2 x2 r2"
  shows "\<exists>n. yaml_loop n i1 e1 p1 n1 s1 x1 = Some r1 \<and> yaml_loop n i2 e2 p2 n2 s2 x2 = Some r2"
proof -
  let ?n = "Suc (max (length e1) (length e2))"
  have "length e1 < ?n" "length e2 < ?n" by simp_all
  with yaml_run_enough[OF assms(1)] yaml_run_enough[OF assms(2)] show ?thesis by blast
qed

text \<open>One rule per event.\<close>

named_theorems yaml_rules \<open>runs of the loader, one event at a time\<close>

lemma run_skip [yaml_rules]:
  "yaml_run inseq r p nd st i res \<Longrightarrow> yaml_run inseq (Stream_start # r) p nd st i res"
  "yaml_run inseq r p nd st i res \<Longrightarrow> yaml_run inseq (Document_start (Some (1, 1)) # r) p nd st i res"
  "yaml_run inseq r p nd st i res \<Longrightarrow> yaml_run inseq (Document_end # r) p nd st i res"
  by (auto simp: yaml_run_def intro: exI[of _ "Suc n" for n])

lemma run_end [yaml_rules]:
  "yaml_run inseq (Mapping_end # r) p nd st i (0, p, r)"
  "yaml_run inseq (Sequence_end # r) p nd st i (0, p, r)"
  "yaml_run inseq (Stream_end # r) p nd st i (0, p, r)"
  by (rule yaml_runI[of 1], simp)+

lemma run_item [yaml_rules]:
  "yaml_run True r (add_child (set_val (Some v) (set_name (seq_name i) ConfNodeNew)) p) nd st (Suc i) res \<Longrightarrow>
     yaml_run True (Scalar v # r) p nd st i res"
  by (auto simp: yaml_run_def intro: exI[of _ "Suc n" for n])

lemma run_key [yaml_rules]:
  "key_node (first_key p k) k = (p', pos) \<Longrightarrow> yaml_run False r p' pos CONF_VAL i res \<Longrightarrow>
     yaml_run False (Scalar k # r) p nd CONF_KEY i res"
  by (auto simp: yaml_run_def intro: exI[of _ "Suc n" for n])

lemma run_val [yaml_rules]:
  "cn_override (node_at nd p) \<Longrightarrow> yaml_run False r (put_at nd (set_val (Some v) (node_at nd p)) p) nd CONF_KEY i res \<Longrightarrow>
     yaml_run False (Scalar v # r) p nd CONF_VAL i res"
  by (auto simp: yaml_run_def Let_def intro: exI[of _ "Suc n" for n])

lemma run_seq [yaml_rules]:
  assumes "yaml_run True r (node_at nd p) Self CONF_KEY 0 (0, q, r')" "yaml_run inseq r' (put_at nd q p) nd CONF_KEY i res"
  shows "yaml_run inseq (Sequence_start # r) p nd st i res"
proof -
  from yaml_run_two[OF assms] obtain n where "yaml_loop n True r (node_at nd p) Self CONF_KEY 0 = Some (0, q, r')"
    "yaml_loop n inseq r' (put_at nd q p) nd CONF_KEY i = Some res" by blast
  then show ?thesis by (intro yaml_runI[of "Suc n"]) (simp add: yl_nested)
qed

lemma run_map [yaml_rules]:
  assumes "yaml_run False r (node_at nd p) Self CONF_KEY 0 (0, q, r')" "yaml_run False r' (put_at nd q p) nd CONF_KEY i res"
  shows "yaml_run False (Mapping_start # r) p nd st i res"
proof -
  from yaml_run_two[OF assms] obtain n where "yaml_loop n False r (node_at nd p) Self CONF_KEY 0 = Some (0, q, r')"
    "yaml_loop n False r' (put_at nd q p) nd CONF_KEY i = Some res" by blast
  then show ?thesis by (intro yaml_runI[of "Suc n"]) (simp add: yl_nested)
qed

lemma run_item_map [yaml_rules]:
  assumes "yaml_run False r (set_name (seq_name i) (set_seq ConfNodeNew)) Self CONF_KEY 0 (0, q, r')"
    "yaml_run True r' (put_at nd (add_child q (node_at nd p)) p) nd CONF_KEY (Suc i) res"
  shows "yaml_run True (Mapping_start # r) p nd st i res"
proof -
  from yaml_run_two[OF assms] obtain n where
    "yaml_loop n False r (set_name (seq_name i) (set_seq ConfNodeNew)) Self CONF_KEY 0 = Some (0, q, r')"
    "yaml_loop n True r' (put_at nd (add_child q (node_at nd p)) p) nd CONF_KEY (Suc i) = Some res" by blast
  then show ?thesis by (intro yaml_runI[of "Suc n"]) (simp add: yl_nested)
qed

subsection \<open>What the loader builds\<close>

text \<open>A document, its events, and the node it fills.\<close>

datatype ydoc = YScalar string | YMap "(string \<times> ydoc) list" | YSeq "ydoc list"

fun yev :: "ydoc \<Rightarrow> yaml_event list" where
  "yev (YScalar s) = [Scalar s]"
| "yev (YMap kvs) = Mapping_start # concat (map (\<lambda>(k, v). Scalar k # yev v) kvs) @ [Mapping_end]"
| "yev (YSeq xs) = Sequence_start # concat (map yev xs) @ [Sequence_end]"

definition named :: "string \<Rightarrow> conf_node" where
  "named k = set_name k ConfNodeNew"

definition item_node :: "nat \<Rightarrow> ydoc \<Rightarrow> conf_node" where
  "item_node i x = (case x of YScalar s \<Rightarrow> named (seq_name i) | _ \<Rightarrow> set_name (seq_name i) (set_seq ConfNodeNew))"

lemma enumerate_size [termination_simp]: "(i, x) \<in> set (enumerate n xs) \<Longrightarrow> size x < Suc (size_list size xs)"
proof -
  assume "(i, x) \<in> set (enumerate n xs)"
  then have "x \<in> set xs" by (auto simp: in_set_enumerate_eq)
  then show ?thesis by (simp add: size_list_estimation' less_Suc_eq_le)
qed

function fill :: "ydoc \<Rightarrow> conf_node \<Rightarrow> conf_node" where
  "fill (YScalar s) n = set_val (Some s) n"
| "fill (YMap kvs) n = set_head (cn_head n @ map (\<lambda>(k, v). fill v (named k)) kvs)
     (if kvs = [] then n else first_key n (fst (hd kvs)))"
| "fill (YSeq xs) n = set_head (cn_head n @ map (\<lambda>(i, x). fill x (item_node i x)) (enumerate 0 xs)) n"
  by pat_completeness auto
termination by (relation "measure (size \<circ> fst)") (auto simp: enumerate_size size_list_estimation' less_Suc_eq_le dest: enumerate_size)

text \<open>Keys distinct and without underscores, and no sequence directly in a sequence.\<close>

fun is_yseq :: "ydoc \<Rightarrow> bool" where
  "is_yseq (YSeq xs) = True"
| "is_yseq _ = False"

fun yok :: "ydoc \<Rightarrow> bool" where
  "yok (YScalar s) = True"
| "yok (YMap kvs) \<longleftrightarrow> distinct (map fst kvs) \<and> (\<forall>(k, v) \<in> set kvs. CHR ''_'' \<notin> set k \<and> yok v)"
| "yok (YSeq xs) \<longleftrightarrow> (\<forall>x \<in> set xs. yok x \<and> \<not> is_yseq x)"

lemma Mangle_id: "CHR ''_'' \<notin> set k \<Longrightarrow> Mangle k = k"
  unfolding Mangle_def by (rule map_idI) auto

lemma child_index_None: "child_index cs k = None \<longleftrightarrow> k \<notin> cn_name ` set cs"
  by (induction cs) auto

lemma named_sel [simp]:
  "cn_name (named k) = k" "cn_val (named k) = None" "cn_override (named k)" "cn_head (named k) = []" "\<not> cn_seq (named k)"
  by (simp_all add: named_def ConfNodeNew_def)

lemma first_key_sel [simp]:
  "cn_name (first_key p k) = cn_name p" "cn_head (first_key p k) = cn_head p" "cn_seq (first_key p k) = cn_seq p"
  by (simp_all add: first_key_def)

lemma set_head_same [simp]: "set_head (cn_head n) n = n" "set_head a (set_head b n) = set_head a n"
  by (cases n; simp)+

lemma first_key_again: "first_key (set_head cs (first_key n k)) k' = set_head cs (first_key n k)"
  by (cases n) (auto simp: first_key_def)

lemma first_key_head: "first_key (set_head cs n) k = set_head cs (first_key n k)"
  by (cases n) (auto simp: first_key_def)

lemma update_added: "update_child (length (cn_head p)) f (add_child c p) = add_child (f c) p"
  by (cases p) (simp add: update_child_def add_child_def)

lemma at_added [simp]: "node_at (Child (length (cn_head p))) (add_child c p) = c"
  by (simp add: node_at_def add_child_def)

lemma put_added [simp]: "put_at (Child (length (cn_head p))) d (add_child c p) = add_child d p"
  by (simp add: put_at_def update_added)

lemma fill_name [simp]: "cn_name (fill v n) = cn_name n"
  by (cases v) auto

text \<open>
  A value right after its key, for the new node of the key. The rest of the run then works on the
  parent with the node filled.
\<close>

definition fills :: "ydoc \<Rightarrow> bool" where
  "fills v \<longleftrightarrow> (\<forall>r p k res i. yaml_run False r (add_child (fill v (named k)) p) (Child (length (cn_head p))) CONF_KEY i res \<longrightarrow>
     yaml_run False (yev v @ r) (add_child (named k) p) (Child (length (cn_head p))) CONF_VAL i res)"

lemma fill_entries:
  assumes "\<forall>(k, v) \<in> set kvs. CHR ''_'' \<notin> set k \<and> fills v" "distinct (map fst kvs)"
    and "fst ` set kvs \<inter> cn_name ` set (cn_head p) = {}"
  shows "yaml_run False (concat (map (\<lambda>(k, v). Scalar k # yev v) kvs) @ Mapping_end # r) p pos CONF_KEY i (0, fill (YMap kvs) p, r)"
  using assms
proof (induction kvs arbitrary: p pos)
  case Nil
  then show ?case by (simp add: run_end)
next
  case (Cons kv kvs)
  obtain k v where kv: "kv = (k, v)" by fastforce
  let ?p1 = "first_key p k"
  have k: "CHR ''_'' \<notin> set k" "fills v" using Cons.prems(1) kv by auto
  have "child_index (cn_head ?p1) k = None" using Cons.prems(3) kv by (auto simp: child_index_None)
  then have kn: "key_node ?p1 k = (add_child (named k) ?p1, Child (length (cn_head ?p1)))"
    using k(1) by (auto simp: key_node_def key_name_def named_def)
  let ?p2 = "add_child (fill v (named k)) ?p1"
  have h2: "cn_head ?p2 = cn_head p @ [fill v (named k)]" by (simp add: add_child_def)
  have "fst ` set kvs \<inter> cn_name ` set (cn_head ?p2) = {}"
    using Cons.prems(2,3) kv by (auto simp: h2 image_iff)
  from Cons.IH[OF _ _ this, of "Child (length (cn_head ?p1))"] Cons.prems(1,2)
  have "yaml_run False (concat (map (\<lambda>(k, v). Scalar k # yev v) kvs) @ Mapping_end # r) ?p2 (Child (length (cn_head ?p1))) CONF_KEY i
      (0, fill (YMap kvs) ?p2, r)" by simp
  then have "yaml_run False (yev v @ (concat (map (\<lambda>(k, v). Scalar k # yev v) kvs) @ Mapping_end # r)) (add_child (named k) ?p1)
      (Child (length (cn_head ?p1))) CONF_VAL i (0, fill (YMap kvs) ?p2, r)"
    using k(2) unfolding fills_def by blast
  moreover have "fill (YMap kvs) ?p2 = fill (YMap (kv # kvs)) p"
    by (auto simp: kv add_child_def first_key_again)
  ultimately show ?case using run_key[OF kn] kv by simp
qed

lemma fill_items:
  assumes "\<forall>x \<in> set xs. yok x \<and> \<not> is_yseq x \<and> (\<forall>kvs. x = YMap kvs \<longrightarrow> (\<forall>(k, v) \<in> set kvs. fills v))"
  shows "yaml_run True (concat (map yev xs) @ Sequence_end # r) p Self st n
     (0, set_head (cn_head p @ map (\<lambda>(i, x). fill x (item_node i x)) (enumerate n xs)) p, r)"
  using assms
proof (induction xs arbitrary: p n st)
  case Nil
  then show ?case by (simp add: run_end)
next
  case (Cons x xs)
  let ?item = "fill x (item_node n x)"
  let ?res = "set_head (cn_head p @ map (\<lambda>(i, x). fill x (item_node i x)) (enumerate n (x # xs))) p"
  have IH: "yaml_run True (concat (map yev xs) @ Sequence_end # r) (add_child ?item p) Self st' (Suc n) (0, ?res, r)" for st'
    using Cons.IH[of "add_child ?item p" st' "Suc n"] Cons.prems by (simp add: add_child_def)
  show ?case
  proof (cases x)
    case (YScalar s)
    then show ?thesis using IH[of st] by (auto simp: named_def item_node_def intro: run_item)
  next
    case (YMap kvs)
    have ok: "yok (YMap kvs)" "\<forall>(k, v) \<in> set kvs. fills v" using Cons.prems YMap by auto
    then have e: "\<forall>(k, v) \<in> set kvs. CHR ''_'' \<notin> set k \<and> fills v" "distinct (map fst kvs)" by auto
    let ?s = "set_name (seq_name n) (set_seq ConfNodeNew)"
    have "yaml_run False (concat (map (\<lambda>(k, v). Scalar k # yev v) kvs) @ Mapping_end # (concat (map yev xs) @ Sequence_end # r))
        ?s Self CONF_KEY 0 (0, fill (YMap kvs) ?s, concat (map yev xs) @ Sequence_end # r)"
      by (rule fill_entries[OF e]) (simp add: ConfNodeNew_def)
    moreover have "put_at Self (add_child (fill (YMap kvs) ?s) (node_at Self p)) p = add_child ?item p"
      by (simp add: YMap put_at_def node_at_def item_node_def)
    ultimately show ?thesis using run_item_map[of _ n "fill (YMap kvs) ?s"] IH[of CONF_KEY] YMap by (simp add: item_node_def)
  next
    case (YSeq ys)
    then show ?thesis using Cons.prems by simp
  qed
qed

definition fills_deep :: "ydoc \<Rightarrow> bool" where
  "fills_deep v \<longleftrightarrow> fills v \<and> (\<forall>kvs. v = YMap kvs \<longrightarrow> (\<forall>(k, v) \<in> set kvs. fills v))"

lemma yok_fills: "yok v \<Longrightarrow> fills_deep v"
proof (induction v)
  case (YScalar s)
  show ?case unfolding fills_deep_def fills_def by (auto intro!: run_val)
next
  case (YMap kvs)
  have d: "fills v" if "(k, v) \<in> set kvs" for k v
  proof -
    have "yok v" using YMap.prems that by auto
    then show ?thesis using YMap.IH[OF that, of v] by (simp add: fills_deep_def)
  qed
  then have e: "\<forall>(k, v) \<in> set kvs. CHR ''_'' \<notin> set k \<and> fills v" "distinct (map fst kvs)"
    using YMap.prems by auto
  have "fills (YMap kvs)" unfolding fills_def
  proof (intro allI impI)
    fix r p k res i
    assume a: "yaml_run False r (add_child (fill (YMap kvs) (named k)) p) (Child (length (cn_head p))) CONF_KEY i res"
    have "yaml_run False (concat (map (\<lambda>(k, v). Scalar k # yev v) kvs) @ Mapping_end # r) (named k) Self CONF_KEY 0
        (0, fill (YMap kvs) (named k), r)"
      by (rule fill_entries[OF e]) simp
    then show "yaml_run False (yev (YMap kvs) @ r) (add_child (named k) p) (Child (length (cn_head p))) CONF_VAL i res"
      using run_map[of _ "Child (length (cn_head p))" "add_child (named k) p" "fill (YMap kvs) (named k)" r i res CONF_VAL] a by simp
  qed
  then show ?case using d by (auto simp: fills_deep_def)
next
  case (YSeq xs)
  have items: "\<forall>x \<in> set xs. yok x \<and> \<not> is_yseq x \<and> (\<forall>kvs. x = YMap kvs \<longrightarrow> (\<forall>(k, v) \<in> set kvs. fills v))"
  proof
    fix x
    assume x: "x \<in> set xs"
    then have "yok x" "\<not> is_yseq x" using YSeq.prems by auto
    then show "yok x \<and> \<not> is_yseq x \<and> (\<forall>kvs. x = YMap kvs \<longrightarrow> (\<forall>(k, v) \<in> set kvs. fills v))"
      using YSeq.IH[OF x] unfolding fills_deep_def by blast
  qed
  have "fills (YSeq xs)" unfolding fills_def
  proof (intro allI impI)
    fix r p k res i
    assume a: "yaml_run False r (add_child (fill (YSeq xs) (named k)) p) (Child (length (cn_head p))) CONF_KEY i res"
    have "yaml_run True (concat (map yev xs) @ Sequence_end # r) (named k) Self CONF_KEY 0 (0, fill (YSeq xs) (named k), r)"
      using fill_items[OF items, of r "named k" CONF_KEY 0] by simp
    then show "yaml_run False (yev (YSeq xs) @ r) (add_child (named k) p) (Child (length (cn_head p))) CONF_VAL i res"
      using run_seq[of _ "Child (length (cn_head p))" "add_child (named k) p" "fill (YSeq xs) (named k)" r False i res CONF_VAL] a by simp
  qed
  then show ?case by (simp add: fills_deep_def)
qed

lemma yaml_load_doc:
  assumes "yok (YMap kvs)"
  shows "ConfYamlLoadFile (Some ([Stream_start, Document_start (Some (1, 1))] @ yev (YMap kvs) @ [Document_end, Stream_end]))
      (ConfInit None) = Some (0, Some (fill (YMap kvs) ConfNodeNew))"
proof -
  have f: "\<forall>(k, v) \<in> set kvs. fills v" using yok_fills[OF assms] unfolding fills_deep_def by blast
  have e: "\<forall>(k, v) \<in> set kvs. CHR ''_'' \<notin> set k \<and> fills v" "distinct (map fst kvs)"
    using assms f by auto
  have n: "cn_head ConfNodeNew = []" by (simp add: ConfNodeNew_def)
  have "yaml_run False (concat (map (\<lambda>(k, v). Scalar k # yev v) kvs) @ Mapping_end # [Document_end, Stream_end]) ConfNodeNew Self CONF_KEY 0
      (0, fill (YMap kvs) ConfNodeNew, [Document_end, Stream_end])"
    by (rule fill_entries[OF e]) (simp add: n)
  then have "yaml_run False ([Stream_start, Document_start (Some (1, 1))] @ yev (YMap kvs) @ [Document_end, Stream_end])
      ConfNodeNew Self CONF_KEY 0 (0, fill (YMap kvs) ConfNodeNew, [])"
    using run_map[of _ Self ConfNodeNew "fill (YMap kvs) ConfNodeNew" "[Document_end, Stream_end]", OF _ run_skip(3)[OF run_end(3)]]
    by (auto simp: node_at_def put_at_def simp del: fill.simps intro!: run_skip(1,2))
  from yaml_run_enough[OF this lessI] show ?thesis
    by (simp only: ConfYamlLoadFile_def ConfYamlParse_def ConfInit_def) simp
qed

text \<open>
  C33. The loader builds the tree of the document. For every YAML 1.1 document that is a mapping, with any
  nesting of mappings, sequences and scalars, distinct keys without underscores and no
  sequence directly in a sequence, loading it into a new root succeeds and gives exactly the tree that
  \<open>fill\<close> describes: a child per key in order, numbered children for the entries of a sequence, and
  for an entry that is a mapping its first key as its value.
\<close>

theorem yaml_load_builds:
  assumes "yok (YMap kvs)"
  shows "ConfYamlLoadFile (Some ([Stream_start, Document_start (Some (1, 1))] @ yev (YMap kvs) @ [Document_end, Stream_end]))
      (ConfInit None) = Some (0, Some (fill (YMap kvs) ConfNodeNew))"
  using assms by (rule yaml_load_doc)

definition test_doc :: "(string \<times> ydoc) list" where
  "test_doc = [(''id'', YScalar ''7''), (''filedirs'', YSeq [YMap [(''dir'', YScalar ''/d''), (''disk'', YScalar ''1'')]])]"

theorem yaml_load_builds_witness:
  "ConfYamlLoadFile (Some ([Stream_start, Document_start (Some (1, 1))] @ yev (YMap test_doc) @ [Document_end, Stream_end]))
      (ConfInit None) =
     Some (0, Some (ConfNode '''' None False True
       [ConfNode ''id'' (Some ''7'') False True [],
        ConfNode ''filedirs'' None False True [ConfNode (seq_name 0) (Some ''dir'') True True
          [ConfNode ''dir'' (Some ''/d'') False True [], ConfNode ''disk'' (Some ''1'') False True []]]]))"
  using yaml_load_builds[of test_doc]
  by (simp add: test_doc_def named_def ConfNodeNew_def first_key_def Mangle_def item_node_def)

text \<open>
  The loader always returns. On any list of events, well-nested or not, it stops after at most
  one turn per event.
\<close>

theorem yaml_parse_returns:
  "\<exists>ret p r. ConfYamlParse inseq evs parent = Some (ret, p, r) \<and> length r \<le> length evs"
  unfolding ConfYamlParse_def using yaml_loop_enough[of evs "Suc (length evs)"] by blast

subsection \<open>A map with dotted keys\<close>

lemma lookup_child: "ConfNodeLookupChild n k = find (\<lambda>c. cn_name c = k) (cn_head n)"
proof -
  have "map_option ((!) cs) (child_index cs k) = find (\<lambda>c. cn_name c = k) cs" for cs
    by (induction cs) (auto simp: option.map_comp comp_def)
  then show ?thesis by (simp add: ConfNodeLookupChild_def)
qed

lemma child_index_Some: "child_index cs k = Some i \<Longrightarrow> i < length cs \<and> cn_name (cs ! i) = k"
  by (induction cs arbitrary: i) (auto split: if_splits)

lemma set_path_name [simp]: "cn_name (set_path n ts v ov) = cn_name n"
  by (cases ts) (auto simp: update_child_def add_child_def split: option.splits)

lemma child_index_update:
  "i < length cs \<Longrightarrow> cn_name c = cn_name (cs ! i) \<Longrightarrow> child_index (cs[i := c]) k = child_index cs k"
proof (induction cs arbitrary: i)
  case Nil
  then show ?case by simp
next
  case (Cons d cs)
  then show ?case by (cases i) auto
qed

lemma child_index_append: "child_index (cs @ ds) k =
   (case child_index cs k of Some i \<Rightarrow> Some i | None \<Rightarrow> map_option ((+) (length cs)) (child_index ds k))"
  by (induction cs; cases "child_index ds k") (auto split: option.splits)

lemma lookup_set_path:
  "ConfNodeLookupChild (set_path n (t # ts) v ov) k =
     (if k = t then Some (set_path (case ConfNodeLookupChild n t of Some c \<Rightarrow> c | None \<Rightarrow> named t) ts v ov)
      else ConfNodeLookupChild n k)"
proof (cases "child_index (cn_head n) t")
  case None
  then show ?thesis
    by (auto simp: ConfNodeLookupChild_def add_child_def child_index_append named_def split: option.splits)
      (auto dest: child_index_Some simp: nth_append)
next
  case (Some i)
  note i = child_index_Some[OF Some]
  have "child_index ((cn_head n)[i := set_path (cn_head n ! i) ts v ov]) k = child_index (cn_head n) k"
    using i by (intro child_index_update) auto
  then show ?thesis using Some i
    by (auto simp: ConfNodeLookupChild_def update_child_def nth_list_update intro!: option.map_cong0
        dest: child_index_Some)
qed

text \<open>
  The value of a path: \<^const>\<open>None\<close> when it has no node, \<open>Some None\<close> when it has a node without a value.
\<close>

definition val_at :: "conf_node \<Rightarrow> string list \<Rightarrow> string option option" where
  "val_at n ts = map_option cn_val (get_path n ts)"

lemma val_at_simps: "val_at n [] = Some (cn_val n)"
  "val_at n (t # ts) = (case ConfNodeLookupChild n t of None \<Rightarrow> None | Some c \<Rightarrow> val_at c ts)"
  by (auto simp: val_at_def split: option.splits)

lemma val_at_named: "val_at (named t) ts = (if ts = [] then Some None else None)"
  by (cases ts) (auto simp: val_at_simps lookup_child)

lemma val_at_set:
  assumes "\<forall>m. get_path n ts = Some m \<longrightarrow> cn_override m"
  shows "val_at (set_path n ts v ov) us =
     (if us = ts then Some (Some v) else if val_at n us = None \<and> prefix us ts then Some None else val_at n us)"
  using assms
proof (induction ts arbitrary: n us)
  case Nil
  then show ?case by (cases us) (auto simp: val_at_simps lookup_child split: option.splits)
next
  case (Cons t ts)
  show ?case
  proof (cases us)
    case Nil
    then show ?thesis
      by (auto simp: val_at_simps update_child_def add_child_def split: option.splits)
  next
    case us: (Cons u us')
    show ?thesis
    proof (cases "u = t")
      case False
      then show ?thesis by (simp add: us val_at_simps lookup_set_path del: set_path.simps)
    next
      case True
      show ?thesis
      proof (cases "ConfNodeLookupChild n t")
        case None
        have "\<forall>m. get_path (named t) ts = Some m \<longrightarrow> cn_override m"
          by (cases ts) (auto simp: lookup_child)
        from Cons.IH[OF this, of us'] show ?thesis using None True
          by (auto simp: us val_at_simps lookup_set_path val_at_named simp del: set_path.simps)
      next
        case (Some c)
        then have "\<forall>m. get_path c ts = Some m \<longrightarrow> cn_override m" using Cons.prems(1) by simp
        from Cons.IH[OF this, of us'] show ?thesis using Some True
          by (simp add: us val_at_simps lookup_set_path del: set_path.simps)
      qed
    qed
  qed
qed

text \<open>
  C34. \<open>ConfSet\<close> and \<open>ConfGet\<close> are a map with dotted keys. After a \<open>ConfSet\<close> that the key's node allows,
  \<open>ConfGet\<close> of the key gives the value; of a prefix of the key that had no node it gives a node without a value; and
  of every other key what it gave before.
\<close>

theorem conf_set_get:
  assumes "toks [] key \<noteq> []" and "toks [] key' \<noteq> []"
    and "\<forall>m. get_path root (toks [] key) = Some m \<longrightarrow> cn_override m"
  shows "\<exists>root'. ConfSet (Some root) key v ov = Some (1, Some root') \<and>
     ConfGet (Some root') key' =
       (if toks [] key' = toks [] key then Some (1, Some v)
        else if ConfGet (Some root) key' = Some (0, None) \<and> prefix (toks [] key') (toks [] key) then Some (1, None)
        else ConfGet (Some root) key')"
proof -
  have g: "ConfGetNode (Some r) k = Some (get_path r (toks [] k))" if "toks [] k \<noteq> []" for r k
    using that by (auto simp: ConfGetNode_def split: list.splits)
  have cg: "ConfGet (Some r) k = (case val_at r (toks [] k) of None \<Rightarrow> Some (0, None) | Some x \<Rightarrow> Some (1, x))"
    if "toks [] k \<noteq> []" for r k
    using that by (auto simp: ConfGet_def g val_at_def split: option.splits)
  let ?root' = "set_path root (toks [] key) v ov"
  have "ConfSet (Some root) key v ov = Some (1, Some ?root')"
    using assms(1,3) by (auto simp: ConfSet_def g split: option.splits)
  moreover have "ConfGet (Some ?root') key' =
       (if toks [] key' = toks [] key then Some (1, Some v)
        else if ConfGet (Some root) key' = Some (0, None) \<and> prefix (toks [] key') (toks [] key) then Some (1, None)
        else ConfGet (Some root) key')"
    unfolding cg[OF assms(2)] val_at_set[OF assms(3)] by (auto split: option.splits)
  ultimately show ?thesis by blast
qed

theorem conf_set_get_witness:
  "\<exists>root'. ConfSet (Some ConfNodeNew) ''cdr.ip'' ''10.0.0.1'' True = Some (1, Some root') \<and>
     ConfGet (Some root') ''cdr'' = Some (1, None)"
  using conf_set_get[of "''cdr.ip''" "''cdr''" ConfNodeNew "''10.0.0.1''" True]
  by (simp add: lookup_child ConfNodeNew_def ConfGet_def ConfGetNode_def prefix_def)

end
