(* ===== verification/Conf_Nodes.thy ===== *)
theory Conf_Nodes
  imports Conf_Tree
begin

text \<open>
  The nodes of the configuration as \<open>src/src/yaml_conf.c\<close> and \<open>yaml_conf.h\<close> keep them: structures on the heap that are linked
  into tail queues by the macros of \<open>yaml_conf.h\<close>. \<open>Conf_Tree\<close> models the same functions on trees; here the pointers
  are explicit, so that it can be said what is freed, what still points to it, and that the trees are what the
  pointers stand for.

  A pointer to a node is null, the address of a node, or the invalid pointer -1 that \<open>TAILQ_REMOVE\<close> leaves behind. A
  pointer to a pointer is the address of the field \<open>head.tqh_first\<close> or \<open>next.tqe_next\<close> of a node. The strings of a node belong to it and
  are freed with it. An access through a null, invalid or freed pointer is \<^const>\<open>None\<close>; so is a loop that does not end.
\<close>

subsection \<open>Nodes on the heap\<close>

datatype cptr = Null | Ptr nat | Wild

datatype link = Nil_link | First nat | Next nat | Wild_link

record cnode =
  nd_name :: "string option"
  nd_val :: "string option"
  nd_seq :: bool
  nd_override :: bool
  nd_parent :: cptr
  tqh_first :: cptr
  tqh_last :: link
  tqe_next :: cptr
  tqe_prev :: link

type_synonym conf_heap = "nat \<rightharpoonup> cnode"

definition at_node :: "conf_heap \<Rightarrow> nat \<Rightarrow> (cnode \<Rightarrow> cnode) \<Rightarrow> conf_heap option" where
  "at_node h a f = map_option (\<lambda>n. h(a \<mapsto> f n)) (h a)"

fun load :: "conf_heap \<Rightarrow> link \<Rightarrow> cptr option" where
  "load h (First a) = map_option tqh_first (h a)"
| "load h (Next a) = map_option tqe_next (h a)"
| "load h _ = None"

fun store :: "conf_heap \<Rightarrow> link \<Rightarrow> cptr \<Rightarrow> conf_heap option" where
  "store h (First a) p = at_node h a (\<lambda>n. n\<lparr>tqh_first := p\<rparr>)"
| "store h (Next a) p = at_node h a (\<lambda>n. n\<lparr>tqe_next := p\<rparr>)"
| "store h _ p = None"

definition TAILQ_INIT :: "conf_heap \<Rightarrow> nat \<Rightarrow> conf_heap option" where
  "TAILQ_INIT h hq = do {
     h1 \<leftarrow> at_node h hq (\<lambda>n. n\<lparr>tqh_first := Null\<rparr>);
     at_node h1 hq (\<lambda>n. n\<lparr>tqh_last := First hq\<rparr>)}"

definition TAILQ_INSERT_TAIL :: "conf_heap \<Rightarrow> nat \<Rightarrow> nat \<Rightarrow> conf_heap option" where
  "TAILQ_INSERT_TAIL h hq elm = do {
     h1 \<leftarrow> at_node h elm (\<lambda>n. n\<lparr>tqe_next := Null\<rparr>);
     q \<leftarrow> h1 hq;
     h2 \<leftarrow> at_node h1 elm (\<lambda>n. n\<lparr>tqe_prev := tqh_last q\<rparr>);
     q2 \<leftarrow> h2 hq;
     h3 \<leftarrow> store h2 (tqh_last q2) (Ptr elm);
     at_node h3 hq (\<lambda>n. n\<lparr>tqh_last := Next elm\<rparr>)}"

definition TAILQ_REMOVE :: "conf_heap \<Rightarrow> nat \<Rightarrow> nat \<Rightarrow> conf_heap option" where
  "TAILQ_REMOVE h hq elm = do {
     e \<leftarrow> h elm;
     h1 \<leftarrow> (case tqe_next e of
         Ptr m \<Rightarrow> at_node h m (\<lambda>n. n\<lparr>tqe_prev := tqe_prev e\<rparr>)
       | Null \<Rightarrow> at_node h hq (\<lambda>n. n\<lparr>tqh_last := tqe_prev e\<rparr>)
       | Wild \<Rightarrow> None);
     e1 \<leftarrow> h1 elm;
     h2 \<leftarrow> store h1 (tqe_prev e1) (tqe_next e1);
     h3 \<leftarrow> at_node h2 elm (\<lambda>n. n\<lparr>tqe_prev := Wild_link\<rparr>);
     at_node h3 elm (\<lambda>n. n\<lparr>tqe_next := Wild\<rparr>)}"

text \<open>\<open>m\<close> is what \<open>calloc\<close> returns.\<close>

definition zero_cnode :: cnode where
  "zero_cnode = \<lparr>nd_name = None, nd_val = None, nd_seq = False, nd_override = False, nd_parent = Null,
     tqh_first = Null, tqh_last = Nil_link, tqe_next = Null, tqe_prev = Nil_link\<rparr>"

definition ConfNodeNew_h :: "nat option \<Rightarrow> conf_heap \<Rightarrow> (cptr \<times> conf_heap) option" where
  "ConfNodeNew_h m h =
     (case m of
        None \<Rightarrow> Some (Null, h)
      | Some a \<Rightarrow> do {
          h1 \<leftarrow> at_node (h(a \<mapsto> zero_cnode)) a (\<lambda>n. n\<lparr>nd_override := True\<rparr>);
          h2 \<leftarrow> TAILQ_INIT h1 a;
          Some (Ptr a, h2)})"

text \<open>
  \<open>ConfNodeFree\<close>: as long as there is a first child it is taken out and freed with all below it; then the
  node itself is freed.
\<close>

partial_function (option) ConfNodeFree :: "nat \<Rightarrow> conf_heap \<Rightarrow> conf_heap option" where
  "ConfNodeFree node h = do {
     n \<leftarrow> h node;
     (case tqh_first n of
        Ptr tmp \<Rightarrow> do {
          h1 \<leftarrow> TAILQ_REMOVE h node tmp;
          h2 \<leftarrow> ConfNodeFree tmp h1;
          ConfNodeFree node h2}
      | Null \<Rightarrow> Some (h(node := None))
      | Wild \<Rightarrow> None)}"

definition ConfNodeRemove :: "nat \<Rightarrow> conf_heap \<Rightarrow> conf_heap option" where
  "ConfNodeRemove node h = do {
     n \<leftarrow> h node;
     h1 \<leftarrow> (case nd_parent n of
         Null \<Rightarrow> Some h
       | Ptr p \<Rightarrow> TAILQ_REMOVE h p node
       | Wild \<Rightarrow> None);
     ConfNodeFree node h1}"

text \<open>The lookup of a child by its name, and of a node by its key; a key without tokens compares with a null pointer.\<close>

partial_function (option) find_child :: "conf_heap \<Rightarrow> cptr \<Rightarrow> string \<Rightarrow> cptr option" where
  "find_child h p name =
     (case p of
        Null \<Rightarrow> Some Null
      | Wild \<Rightarrow> None
      | Ptr c \<Rightarrow> do {
          n \<leftarrow> h c;
          nm \<leftarrow> nd_name n;
          if nm = name then Some (Ptr c) else find_child h (tqe_next n) name})"

definition ConfNodeLookupChild_h :: "conf_heap \<Rightarrow> nat \<Rightarrow> string \<Rightarrow> cptr option" where
  "ConfNodeLookupChild_h h node name = do {n \<leftarrow> h node; find_child h (tqh_first n) name}"

fun get_path_h :: "conf_heap \<Rightarrow> nat \<Rightarrow> string list \<Rightarrow> cptr option" where
  "get_path_h h node [] = Some (Ptr node)"
| "get_path_h h node (token # ts) = do {
     p \<leftarrow> ConfNodeLookupChild_h h node token;
     (case p of Ptr c \<Rightarrow> get_path_h h c ts | _ \<Rightarrow> Some Null)}"

definition ConfGetNode_h :: "conf_heap \<Rightarrow> nat \<Rightarrow> string \<Rightarrow> cptr option" where
  "ConfGetNode_h h root key =
     (case toks [] key of
        [] \<Rightarrow> do {n \<leftarrow> h root; if tqh_first n = Null then Some Null else None}
      | ts \<Rightarrow> get_path_h h root ts)"

definition ConfRemove :: "nat \<Rightarrow> string \<Rightarrow> conf_heap \<Rightarrow> (int \<times> conf_heap) option" where
  "ConfRemove root name h = do {
     p \<leftarrow> ConfGetNode_h h root name;
     (case p of
        Ptr a \<Rightarrow> do {h' \<leftarrow> ConfNodeRemove a h; Some (1, h')}
      | _ \<Rightarrow> Some (0, h))}"

text \<open>
  The walk of \<open>ConfSet\<close> along the tokens of the key: a node that is missing is made, named, given its parent and linked. \<open>ms\<close> are
  the results of \<open>calloc\<close>.
\<close>

definition new_child :: "nat \<Rightarrow> string \<Rightarrow> nat option \<Rightarrow> conf_heap \<Rightarrow> (nat \<times> conf_heap) option" where
  "new_child parent token m h = do {
     (p, h1) \<leftarrow> ConfNodeNew_h m h;
     (case p of
        Ptr a \<Rightarrow> do {
          h2 \<leftarrow> at_node h1 a (\<lambda>n. n\<lparr>nd_name := Some token\<rparr>);
          h3 \<leftarrow> at_node h2 a (\<lambda>n. n\<lparr>nd_parent := Ptr parent\<rparr>);
          h4 \<leftarrow> TAILQ_INSERT_TAIL h3 parent a;
          Some (a, h4)}
      | _ \<Rightarrow> None)}"

definition set_value :: "nat \<Rightarrow> string \<Rightarrow> bool \<Rightarrow> conf_heap \<Rightarrow> conf_heap option" where
  "set_value node val ov h = at_node h node (\<lambda>n. n\<lparr>nd_val := Some val, nd_override := ov\<rparr>)"

fun set_loop :: "nat \<Rightarrow> string list \<Rightarrow> string \<Rightarrow> bool \<Rightarrow> nat option list \<Rightarrow> conf_heap \<Rightarrow> conf_heap option" where
  "set_loop parent [] val ov ms h = None"
| "set_loop parent (token # ts) val ov ms h = do {
     p \<leftarrow> ConfNodeLookupChild_h h parent token;
     (node, ms1, h1) \<leftarrow> (case p of
         Ptr c \<Rightarrow> Some (c, ms, h)
       | _ \<Rightarrow> (case ms of [] \<Rightarrow> None | m # ms' \<Rightarrow> do {(a, h1) \<leftarrow> new_child parent token m h; Some (a, ms', h1)}));
     (if ts = []
      then do {n \<leftarrow> h1 node; if nd_override n then set_value node val ov h1 else Some h1}
      else set_loop node ts val ov ms1 h1)}"

definition ConfSet_h :: "nat \<Rightarrow> string \<Rightarrow> string \<Rightarrow> bool \<Rightarrow> nat option list \<Rightarrow> conf_heap \<Rightarrow> (int \<times> conf_heap) option" where
  "ConfSet_h root name val ov ms h = do {
     p \<leftarrow> ConfGetNode_h h root name;
     (case p of
        Ptr a \<Rightarrow> do {
          n \<leftarrow> h a;
          if \<not> nd_override n then Some (0, h) else do {h' \<leftarrow> set_value a val ov h; Some (1, h')}}
      | _ \<Rightarrow> do {h' \<leftarrow> set_loop root (toks [] name) val ov ms h; Some (1, h')})}"

subsection \<open>Queues\<close>

text \<open>The elements between two pointers, and the links a walk over them reads.\<close>

fun seg :: "conf_heap \<Rightarrow> link \<Rightarrow> nat list \<Rightarrow> link \<Rightarrow> bool" where
  "seg h l [] m \<longleftrightarrow> m = l"
| "seg h l (a # as) m \<longleftrightarrow> load h l = Some (Ptr a) \<and> map_option tqe_prev (h a) = Some l \<and> seg h (Next a) as m"

fun links :: "link \<Rightarrow> nat list \<Rightarrow> link list" where
  "links l [] = []"
| "links l (a # as) = l # links (Next a) as"

fun end_link :: "link \<Rightarrow> nat list \<Rightarrow> link" where
  "end_link l [] = l"
| "end_link l (a # as) = end_link (Next a) as"

definition queue :: "conf_heap \<Rightarrow> nat \<Rightarrow> nat list \<Rightarrow> bool" where
  "queue h p as \<longleftrightarrow> distinct (p # as) \<and> seg h (First p) as (end_link (First p) as) \<and>
     map_option tqh_last (h p) = Some (end_link (First p) as) \<and> load h (end_link (First p) as) = Some Null"

lemma seg_end: "seg h l as m \<Longrightarrow> m = end_link l as"
  by (induction as arbitrary: l) auto

lemma end_append [simp]: "end_link l (as @ bs) = end_link (end_link l as) bs"
  by (induction as arbitrary: l) auto

lemma seg_append: "seg h l (as @ bs) m \<longleftrightarrow> seg h l as (end_link l as) \<and> seg h (end_link l as) bs m"
  by (induction as arbitrary: l) auto

lemma seg_cong:
  "\<forall>k \<in> set (links l as). load h' k = load h k \<Longrightarrow> \<forall>a \<in> set as. map_option tqe_prev (h' a) = map_option tqe_prev (h a) \<Longrightarrow>
     seg h' l as m = seg h l as m"
  by (induction as arbitrary: l) auto

lemma links_next: "set (links l as) \<subseteq> insert l (Next ` set as)"
  by (induction as arbitrary: l) auto

lemma end_link_in: "end_link l as \<in> insert l (Next ` set as)"
  by (induction as arbitrary: l) auto

lemma end_notin_links: "distinct as \<Longrightarrow> l \<notin> Next ` set as \<Longrightarrow> end_link l as \<notin> set (links l as)"
proof (induction as arbitrary: l)
  case (Cons a as)
  then have "end_link (Next a) as \<notin> set (links (Next a) as)" by fastforce
  moreover have "end_link (Next a) as \<noteq> l" using end_link_in[of "Next a" as] Cons.prems(2) by auto
  ultimately show ?case by simp
qed simp

text \<open>What an operation on a queue may change: the links of the elements and the ends of the queue.\<close>

definition same_elem :: "cnode \<Rightarrow> cnode \<Rightarrow> bool" where
  "same_elem n n' \<longleftrightarrow> n'\<lparr>tqe_next := Null, tqe_prev := Nil_link\<rparr> = n\<lparr>tqe_next := Null, tqe_prev := Nil_link\<rparr>"

definition same_head :: "cnode \<Rightarrow> cnode \<Rightarrow> bool" where
  "same_head n n' \<longleftrightarrow> n'\<lparr>tqh_first := Null, tqh_last := Nil_link\<rparr> = n\<lparr>tqh_first := Null, tqh_last := Nil_link\<rparr>"

definition queue_only :: "conf_heap \<Rightarrow> conf_heap \<Rightarrow> nat \<Rightarrow> nat list \<Rightarrow> bool" where
  "queue_only h h' p as \<longleftrightarrow> (\<forall>b. b \<notin> insert p (set as) \<longrightarrow> h' b = h b) \<and>
     (\<forall>b \<in> set as. rel_option same_elem (h b) (h' b)) \<and> rel_option same_head (h p) (h' p)"

lemma same_elem_simps [simp]:
  "same_elem n n" "same_elem n (n\<lparr>tqe_next := x\<rparr>)" "same_elem n (n\<lparr>tqe_prev := y\<rparr>)" "same_elem n (n\<lparr>tqe_next := x, tqe_prev := y\<rparr>)"
  "same_elem n (n\<lparr>tqe_prev := y, tqe_next := x\<rparr>)"
  by (cases n; simp add: same_elem_def)+

lemma same_head_simps [simp]:
  "same_head n n" "same_head n (n\<lparr>tqh_first := x\<rparr>)" "same_head n (n\<lparr>tqh_last := y\<rparr>)" "same_head n (n\<lparr>tqh_first := x, tqh_last := y\<rparr>)"
  by (cases n; simp add: same_head_def)+

lemma same_refl [simp]: "rel_option same_elem x x" "rel_option same_head x x"
  by (simp_all add: option.rel_refl)

lemma queue_first: "queue h p as \<Longrightarrow> \<exists>n. h p = Some n \<and> tqh_first n = (case as of [] \<Rightarrow> Null | a # _ \<Rightarrow> Ptr a) \<and> tqh_last n = end_link (First p) as"
  by (cases as) (auto simp: queue_def)

lemma seg_alloc: "seg h l as m \<Longrightarrow> a \<in> set as \<Longrightarrow> h a \<noteq> None"
  by (induction as arbitrary: l) auto

lemma insert_tail_ok:
  assumes q: "queue h p as" and k: "k \<notin> insert p (set as)" "h k \<noteq> None"
  shows "\<exists>h'. TAILQ_INSERT_TAIL h p k = Some h' \<and> queue h' p (as @ [k]) \<and> queue_only h h' p (as @ [k])"
proof -
  obtain nk where nk: "h k = Some nk" using k by blast
  obtain np where np: "h p = Some np" "tqh_last np = end_link (First p) as" using queue_first[OF q] by blast
  have d: "distinct (p # as)" and sg: "seg h (First p) as (end_link (First p) as)" using q by (simp_all add: queue_def)
  have e: "end_link (First p) as \<notin> set (links (First p) as)" using d by (intro end_notin_links) auto
  show ?thesis
  proof (cases as rule: rev_cases)
    case Nil
    let ?h = "h(k \<mapsto> nk\<lparr>tqe_next := Null, tqe_prev := First p\<rparr>, p \<mapsto> np\<lparr>tqh_first := Ptr k, tqh_last := Next k\<rparr>)"
    have "TAILQ_INSERT_TAIL h p k = Some ?h"
      using Nil nk np k by (simp add: TAILQ_INSERT_TAIL_def at_node_def fun_upd_twist)
    then show ?thesis using Nil nk np k by (auto simp: queue_def queue_only_def)
  next
    case (snoc xs z)
    obtain nz where nz: "h z = Some nz" using seg_alloc[OF sg, of z] snoc by auto
    have zk: "z \<noteq> k" "z \<noteq> p" "p \<noteq> k" "p \<notin> set xs" using d k snoc by auto
    let ?h = "h(k \<mapsto> nk\<lparr>tqe_next := Null, tqe_prev := Next z\<rparr>, p \<mapsto> np\<lparr>tqh_last := Next k\<rparr>, z \<mapsto> nz\<lparr>tqe_next := Ptr k\<rparr>)"
    have run: "TAILQ_INSERT_TAIL h p k = Some ?h"
      using snoc nk np nz zk by (simp add: TAILQ_INSERT_TAIL_def at_node_def fun_upd_twist)
    have "load ?h l = load h l" if l: "l \<in> set (links (First p) as)" for l
    proof -
      have "l \<noteq> Next z" using l e snoc by auto
      then have "l = First p \<or> (\<exists>x. l = Next x \<and> x \<noteq> z \<and> x \<noteq> k)" using links_next[of "First p" as] l k(1) by blast
      then show ?thesis using np nk zk by auto
    qed
    then have "seg ?h (First p) as (Next z)"
      using sg snoc nz np zk k by (subst seg_cong[of _ _ ?h h]) auto
    then have "queue ?h p (as @ [k])" using d k snoc zk by (simp add: queue_def seg_append)
    moreover have "queue_only h ?h p (as @ [k])"
      using seg_alloc[OF sg] snoc nz np nk zk by (auto simp: queue_only_def)
    ultimately show ?thesis using run by blast
  qed
qed

text \<open>A store through a link, seen through the links.\<close>

lemma load_first: "h a = Some n \<Longrightarrow> load (h(a \<mapsto> n\<lparr>tqh_first := v\<rparr>)) l = (if l = First a then Some v else load h l)"
  by (cases l) auto

lemma load_next: "h a = Some n \<Longrightarrow> load (h(a \<mapsto> n\<lparr>tqe_next := v\<rparr>)) l = (if l = Next a then Some v else load h l)"
  by (cases l) auto

lemma store_ok:
  assumes "load h l \<noteq> None"
  shows "\<exists>h'. store h l v = Some h' \<and> (\<forall>l'. load h' l' = (if l' = l then Some v else load h l')) \<and>
    (\<forall>a. map_option tqe_prev (h' a) = map_option tqe_prev (h a) \<and> map_option tqh_last (h' a) = map_option tqh_last (h a)) \<and>
    (\<forall>a. a \<notin> {b. l = First b \<or> l = Next b} \<longrightarrow> h' a = h a) \<and>
    (\<forall>a. l = First a \<longrightarrow> rel_option same_head (h a) (h' a)) \<and> (\<forall>a. l = Next a \<longrightarrow> rel_option same_elem (h a) (h' a))"
proof (cases l)
  case (First a)
  then obtain n where "h a = Some n" using assms by auto
  then show ?thesis using First by (intro exI[of _ "h(a \<mapsto> n\<lparr>tqh_first := v\<rparr>)"] conjI allI) (auto simp: at_node_def load_first load_next)
next
  case (Next a)
  then obtain n where "h a = Some n" using assms by auto
  then show ?thesis using Next by (intro exI[of _ "h(a \<mapsto> n\<lparr>tqe_next := v\<rparr>)"] conjI allI) (auto simp: at_node_def load_first load_next)
qed (use assms in simp_all)

lemma load_upd [simp]:
  "h a = Some n \<Longrightarrow> load (h(a \<mapsto> n\<lparr>tqe_prev := x\<rparr>)) l = load h l"
  "h a = Some n \<Longrightarrow> load (h(a \<mapsto> n\<lparr>tqh_last := x\<rparr>)) l = load h l"
  by (cases l; simp)+

lemma load_wild: "h a = Some n \<Longrightarrow> l \<noteq> Next a \<Longrightarrow> load (h(a \<mapsto> n\<lparr>tqe_prev := x, tqe_next := y\<rparr>)) l = load h l"
  by (cases l) auto

lemma same_elem_trans: "rel_option same_elem x y \<Longrightarrow> rel_option same_elem y z \<Longrightarrow> rel_option same_elem x z"
  by (cases x; cases y; cases z) (auto simp: same_elem_def)

lemma same_head_trans: "rel_option same_head x y \<Longrightarrow> rel_option same_head y z \<Longrightarrow> rel_option same_head x z"
  by (cases x; cases y; cases z) (auto simp: same_head_def)

text \<open>The first step of a removal: the successor, or the queue, takes over the back link.\<close>

lemma unlink_back:
  assumes q: "queue h p (xs @ k # ys)" and nk: "h k = Some nk"
  defines "l \<equiv> end_link (First p) xs"
  shows "tqe_prev nk = l \<and> tqe_next nk = (case ys of [] \<Rightarrow> Null | y # _ \<Rightarrow> Ptr y) \<and> (\<exists>h1. (case tqe_next nk of
         Ptr m \<Rightarrow> at_node h m (\<lambda>n. n\<lparr>tqe_prev := tqe_prev nk\<rparr>)
       | Null \<Rightarrow> at_node h p (\<lambda>n. n\<lparr>tqh_last := tqe_prev nk\<rparr>)
       | Wild \<Rightarrow> None) = Some h1 \<and> load h1 = load h \<and> h1 k = Some nk \<and>
      (\<forall>a. map_option tqe_prev (h1 a) = (if ys \<noteq> [] \<and> a = hd ys then Some l else map_option tqe_prev (h a))) \<and>
      map_option tqh_last (h1 p) = Some (end_link l ys) \<and>
      queue_only h h1 p ys)"
proof -
  have d: "distinct (p # xs @ k # ys)" and sg: "seg h l (k # ys) (end_link (Next k) ys)"
    using q by (simp_all add: queue_def seg_append l_def)
  obtain np where np: "h p = Some np" "tqh_last np = end_link (Next k) ys" using queue_first[OF q] by auto
  have prev: "tqe_prev nk = l" using sg nk by simp
  show ?thesis
  proof (cases ys)
    case Nil
    then have nx: "tqe_next nk = Null" using q nk by (simp add: queue_def)
    let ?h = "h(p \<mapsto> np\<lparr>tqh_last := l\<rparr>)"
    show ?thesis
      by (intro conjI exI[of _ ?h]) (use Nil nx prev np nk d in \<open>auto simp: at_node_def queue_only_def fun_eq_iff\<close>)
  next
    case (Cons y ys')
    then have nx: "tqe_next nk = Ptr y" using sg nk by simp
    obtain ny where ny: "h y = Some ny" using seg_alloc[OF sg, of y] Cons by auto
    let ?h = "h(y \<mapsto> ny\<lparr>tqe_prev := l\<rparr>)"
    show ?thesis
      by (intro conjI exI[of _ ?h]) (use Cons nx prev np nk ny d in \<open>auto simp: at_node_def queue_only_def fun_eq_iff\<close>)
  qed
qed

lemma remove_ok:
  assumes q: "queue h p (xs @ k # ys)"
  shows "\<exists>h'. TAILQ_REMOVE h p k = Some h' \<and> queue h' p (xs @ ys) \<and> queue_only h h' p (xs @ k # ys)"
proof -
  let ?l = "end_link (First p) xs"
  have d: "distinct (p # xs @ k # ys)" and sg: "seg h (First p) xs ?l" "seg h ?l (k # ys) (end_link (Next k) ys)"
    and last: "load h (end_link (Next k) ys) = Some Null"
    using q by (simp_all add: queue_def seg_append)
  obtain nk where nk: "h k = Some nk" using sg(2) by auto
  obtain h1 where h1: "(case tqe_next nk of
         Ptr m \<Rightarrow> at_node h m (\<lambda>n. n\<lparr>tqe_prev := tqe_prev nk\<rparr>)
       | Null \<Rightarrow> at_node h p (\<lambda>n. n\<lparr>tqh_last := tqe_prev nk\<rparr>)
       | Wild \<Rightarrow> None) = Some h1" "load h1 = load h" "h1 k = Some nk"
      "\<forall>a. map_option tqe_prev (h1 a) = (if ys \<noteq> [] \<and> a = hd ys then Some ?l else map_option tqe_prev (h a))"
      "map_option tqh_last (h1 p) = Some (end_link ?l ys)" "queue_only h h1 p ys"
      and pn: "tqe_prev nk = ?l" "tqe_next nk = (case ys of [] \<Rightarrow> Null | y # _ \<Rightarrow> Ptr y)"
    using unlink_back[OF q nk] by blast
  have "load h1 ?l \<noteq> None" using sg(2) h1(2) by simp
  from store_ok[OF this, of "tqe_next nk"] obtain h2 where h2: "store h1 ?l (tqe_next nk) = Some h2"
      "\<forall>l'. load h2 l' = (if l' = ?l then Some (tqe_next nk) else load h1 l')"
      "\<forall>a. map_option tqe_prev (h2 a) = map_option tqe_prev (h1 a) \<and> map_option tqh_last (h2 a) = map_option tqh_last (h1 a)"
      "\<forall>a. a \<notin> {b. ?l = First b \<or> ?l = Next b} \<longrightarrow> h2 a = h1 a"
      "\<forall>a. ?l = First a \<longrightarrow> rel_option same_head (h1 a) (h2 a)" "\<forall>a. ?l = Next a \<longrightarrow> rel_option same_elem (h1 a) (h2 a)" by blast
  have lk: "?l \<in> insert (First p) (Next ` set xs)" by (rule end_link_in)
  then have "?l \<noteq> First k" "?l \<noteq> Next k" using d by auto
  then have k2: "h2 k = Some nk" using h2(4) h1(3) by auto
  let ?h = "h2(k \<mapsto> nk\<lparr>tqe_prev := Wild_link, tqe_next := Wild\<rparr>)"
  have run: "TAILQ_REMOVE h p k = Some ?h"
    unfolding TAILQ_REMOVE_def nk bind.bind_lunit h1(1) unfolding h1(3) bind.bind_lunit pn(1) h2(1)
    using k2 by (simp add: at_node_def)
  have ld: "load ?h l' = (if l' = ?l then Some (tqe_next nk) else load h l')" if "l' \<noteq> Next k" for l'
    using load_wild[of h2 k nk l'] k2 that h2(2) h1(2) by simp
  have pv: "map_option tqe_prev (?h a) = (if ys \<noteq> [] \<and> a = hd ys then Some ?l else map_option tqe_prev (h a))" if "a \<noteq> k" for a
    using that h2(3) h1(4) by simp
  have "?l \<notin> set (links (First p) xs)" using d by (intro end_notin_links) auto
  moreover have "Next k \<notin> set (links (First p) xs)" using d links_next[of "First p" xs] by auto
  ultimately have "\<forall>l' \<in> set (links (First p) xs). load ?h l' = load h l'" using ld by (metis (no_types))
  moreover have "\<forall>a \<in> set xs. map_option tqe_prev (?h a) = map_option tqe_prev (h a)"
    using d pv by (cases ys) auto
  ultimately have s1: "seg ?h (First p) xs ?l" using sg(1) seg_cong by blast
  have s2: "seg ?h ?l ys (end_link ?l ys) \<and> load ?h (end_link ?l ys) = Some Null"
  proof (cases ys)
    case Nil
    then show ?thesis using ld[of ?l] pn(2) \<open>?l \<noteq> Next k\<close> by simp
  next
    case (Cons y ys')
    have nl: "l' \<noteq> ?l \<and> l' \<noteq> Next k" if "l' \<in> Next ` set ys" for l' using that d lk by auto
    have "load ?h l' = load h l'" if "l' \<in> set (links (Next y) ys')" for l'
    proof -
      have "l' \<in> Next ` set ys" using that links_next[of "Next y" ys'] Cons by auto
      then show ?thesis using nl ld[of l'] by metis
    qed
    moreover have "map_option tqe_prev (?h a) = map_option tqe_prev (h a)" if "a \<in> set ys'" for a
      using that d pv[of a] Cons by auto
    ultimately have "seg ?h (Next y) ys' (end_link (Next y) ys')" using seg_cong[of "Next y" ys' ?h h] sg(2) Cons by simp
    moreover have "load ?h ?l = Some (Ptr y)" using ld[of ?l] pn(2) \<open>?l \<noteq> Next k\<close> Cons by simp
    moreover have "map_option tqe_prev (?h y) = Some ?l" using pv[of y] Cons d by auto
    moreover have "end_link (Next y) ys' \<in> Next ` set ys" using end_link_in[of "Next y" ys'] Cons by auto
    ultimately show ?thesis using nl ld last Cons by auto
  qed
  have "queue ?h p (xs @ ys)"
    using d s1 s2 h1(5) h2(3) by (auto simp: queue_def seg_append)
  moreover have "queue_only h ?h p (xs @ k # ys)"
  proof -
    have o: "rel_option same_elem (h b) (h1 b)" if "b \<noteq> p" for b using h1(6) that by (cases "b \<in> set ys") (auto simp: queue_only_def)
    have o2: "rel_option same_elem (h1 b) (h2 b)" if "b \<noteq> p" for b using h2(4,6) lk that by (cases "?l = Next b") auto
    have "rel_option same_head (h1 p) (h2 p)" using h2(4,5) lk d by (cases "?l = First p") auto
    moreover have "rel_option same_head (h p) (h1 p)" using h1(6) by (simp add: queue_only_def)
    ultimately have "rel_option same_head (h p) (h2 p)" using same_head_trans by blast
    then have "rel_option same_head (h p) (?h p)" using d by simp
    moreover have "rel_option same_elem (h b) (?h b)" if "b \<in> set (xs @ k # ys)" for b
    proof -
      have "b \<noteq> p" using that d by auto
      then show ?thesis using same_elem_trans[OF o o2] nk by auto
    qed
    moreover have "?h b = h b" if b: "b \<notin> insert p (set (xs @ k # ys))" for b
    proof -
      have "?l \<noteq> First b" "?l \<noteq> Next b" using b lk by auto
      then have "h2 b = h1 b" using h2(4) by simp
      then show ?thesis using b h1(6) by (simp add: queue_only_def)
    qed
    ultimately show ?thesis unfolding queue_only_def by blast
  qed
  ultimately show ?thesis using run by blast
qed

subsection \<open>Trees on the heap\<close>

text \<open>A tree with the addresses of its nodes and their parent pointers, and what it says of the heap.\<close>

datatype gtree = G (g_addr: nat) (g_name: "string option") (g_val: "string option") (g_seq: bool) (g_override: bool)
  (g_parent: cptr) (g_kids: "gtree list")

fun addrs :: "gtree \<Rightarrow> nat list" where
  "addrs (G a nm v sq ov pa ks) = a # concat (map addrs ks)"

definition below :: "gtree \<Rightarrow> nat list" where
  "below t = concat (map addrs (g_kids t))"

lemma addrs_below: "addrs t = g_addr t # below t"
  by (cases t) (simp add: below_def)

fun erase :: "gtree \<Rightarrow> conf_node" where
  "erase (G a nm v sq ov pa ks) = ConfNode (case nm of None \<Rightarrow> '''' | Some x \<Rightarrow> x) v sq ov (map erase ks)"

definition node_data :: "cnode \<Rightarrow> string option \<times> string option \<times> bool \<times> bool \<times> cptr" where
  "node_data n = (nd_name n, nd_val n, nd_seq n, nd_override n, nd_parent n)"

definition g_data :: "gtree \<Rightarrow> string option \<times> string option \<times> bool \<times> bool \<times> cptr" where
  "g_data t = (g_name t, g_val t, g_seq t, g_override t, g_parent t)"

definition node_is :: "conf_heap \<Rightarrow> gtree \<Rightarrow> bool" where
  "node_is h t \<longleftrightarrow> map_option node_data (h (g_addr t)) = Some (g_data t)"

fun tree_at :: "conf_heap \<Rightarrow> gtree \<Rightarrow> bool" where
  "tree_at h (G a nm v sq ov pa ks) \<longleftrightarrow> node_is h (G a nm v sq ov pa ks) \<and> queue h a (map g_addr ks) \<and>
     (\<forall>k \<in> set ks. g_name k \<noteq> None \<and> tree_at h k)"

definition good :: "conf_heap \<Rightarrow> gtree \<Rightarrow> bool" where
  "good h t \<longleftrightarrow> tree_at h t \<and> distinct (addrs t)"

lemma tree_at_iff: "tree_at h t \<longleftrightarrow> node_is h t \<and> queue h (g_addr t) (map g_addr (g_kids t)) \<and> (\<forall>k \<in> set (g_kids t). g_name k \<noteq> None \<and> tree_at h k)"
  by (cases t) simp

lemma root_in [simp]: "g_addr t \<in> set (addrs t)"
  by (simp add: addrs_below)

lemma kid_addrs: "k \<in> set (g_kids t) \<Longrightarrow> set (addrs k) \<subseteq> set (below t)"
  by (auto simp: below_def)

text \<open>What a queue and a tree depend on.\<close>

definition same_links :: "cnode \<Rightarrow> cnode \<Rightarrow> bool" where
  "same_links n n' \<longleftrightarrow> tqe_next n' = tqe_next n \<and> tqe_prev n' = tqe_prev n"

definition same_ends :: "cnode \<Rightarrow> cnode \<Rightarrow> bool" where
  "same_ends n n' \<longleftrightarrow> tqh_first n' = tqh_first n \<and> tqh_last n' = tqh_last n"

lemma same_links_refl [simp]: "rel_option same_links x x" "rel_option same_ends x x" "same_links n n" "same_ends n n"
  by (simp_all add: option.rel_refl same_links_def same_ends_def)

lemma same_elem_fields: "same_elem n n' \<Longrightarrow> node_data n' = node_data n \<and> same_ends n n'"
  by (cases n; cases n') (simp add: same_elem_def same_ends_def node_data_def)

lemma same_head_fields: "same_head n n' \<Longrightarrow> node_data n' = node_data n \<and> same_links n n'"
  by (cases n; cases n') (simp add: same_head_def same_links_def node_data_def)

lemma same_ends_load: "rel_option same_ends (h a) (h' a) \<Longrightarrow> load h' (First a) = load h (First a) \<and> map_option tqh_last (h' a) = map_option tqh_last (h a)"
  by (cases "h a"; cases "h' a") (auto simp: same_ends_def)

lemma same_links_load: "rel_option same_links (h a) (h' a) \<Longrightarrow> load h' (Next a) = load h (Next a) \<and> map_option tqe_prev (h' a) = map_option tqe_prev (h a)"
  by (cases "h a"; cases "h' a") (auto simp: same_links_def)

lemma queue_frame:
  assumes "queue h p as" "rel_option same_ends (h p) (h' p)" "\<forall>b \<in> set as. rel_option same_links (h b) (h' b)"
  shows "queue h' p as"
proof -
  have p: "load h' (First p) = load h (First p)" "map_option tqh_last (h' p) = map_option tqh_last (h p)"
    using same_ends_load[of h p h'] assms(2) by blast+
  have b: "load h' (Next b) = load h (Next b)" "map_option tqe_prev (h' b) = map_option tqe_prev (h b)" if "b \<in> set as" for b
    using same_links_load[of h b h'] assms(3) that by blast+
  have l: "load h' l = load h l" if "l \<in> insert (First p) (Next ` set as)" for l using that p(1) b(1) by auto
  have "\<forall>l \<in> set (links (First p) as). load h' l = load h l" using l links_next[of "First p" as] by blast
  then have "seg h' (First p) as m = seg h (First p) as m" for m using b(2) by (intro seg_cong) auto
  moreover have "load h' (end_link (First p) as) = load h (end_link (First p) as)" using l end_link_in by blast
  ultimately show ?thesis using assms(1) p(2) by (simp add: queue_def)
qed

lemma node_is_elem: "node_is h t \<Longrightarrow> rel_option same_elem (h (g_addr t)) (h' (g_addr t)) \<Longrightarrow> node_is h' t"
  by (cases "h' (g_addr t)") (auto simp: node_is_def same_elem_fields)

lemma node_is_head: "node_is h t \<Longrightarrow> rel_option same_head (h (g_addr t)) (h' (g_addr t)) \<Longrightarrow> node_is h' t"
  by (cases "h' (g_addr t)") (auto simp: node_is_def same_head_fields)

lemma elem_ends: "rel_option same_elem x y \<Longrightarrow> rel_option same_ends x y"
  by (auto intro: option.rel_mono_strong dest: same_elem_fields)

lemma tree_frame:
  "tree_at h t \<Longrightarrow> rel_option same_elem (h (g_addr t)) (h' (g_addr t)) \<Longrightarrow> \<forall>b \<in> set (below t). h' b = h b \<Longrightarrow> tree_at h' t"
proof (induction t)
  case (G a nm v sq ov pa ks)
  let ?t = "G a nm v sq ov pa ks"
  have in_kid: "set (addrs k) \<subseteq> set (below ?t)" if "k \<in> set ks" for k using kid_addrs[of k ?t] that by simp
  have eq: "h' b = h b" if "k \<in> set ks" "b \<in> set (addrs k)" for k b using G.prems(3) in_kid that by blast
  have "node_is h' ?t" using G.prems(1,2) node_is_elem[of h ?t h'] by simp
  moreover have "\<forall>b \<in> set (map g_addr ks). rel_option same_links (h b) (h' b)" using eq by (auto dest: sym)
  then have "queue h' a (map g_addr ks)" using G.prems(1,2) queue_frame[of h a _ h'] elem_ends by auto
  moreover have "tree_at h' k" if k: "k \<in> set ks" for k
  proof (rule G.IH[OF k])
    show "tree_at h k" using G.prems(1) k by simp
    show "rel_option same_elem (h (g_addr k)) (h' (g_addr k))" using eq[OF k, of "g_addr k"] by simp
    show "\<forall>b \<in> set (below k). h' b = h b" using eq[OF k] by (simp add: addrs_below)
  qed
  ultimately show ?case using G.prems(1) by simp
qed

lemma tree_same: "tree_at h t \<Longrightarrow> \<forall>b \<in> set (addrs t). h' b = h b \<Longrightarrow> tree_at h' t"
  by (rule tree_frame) (auto simp: addrs_below)

lemma roots_in: "g_addr ` set zs \<subseteq> set (concat (map addrs zs))"
  using root_in by (induction zs) auto

lemma split_addrs: "g_kids t = xs @ c # ys \<Longrightarrow> addrs t = g_addr t # concat (map addrs xs) @ addrs c @ concat (map addrs ys)"
  using addrs_below[of t] by (simp add: below_def)

lemma below_apart:
  assumes "distinct (addrs t)" "c \<in> set (g_kids t)" "b \<in> set (below c)"
  shows "b \<notin> insert (g_addr t) (g_addr ` set (g_kids t))"
proof -
  obtain xs ys where k: "g_kids t = xs @ c # ys" using split_list[OF assms(2)] by blast
  have d: "distinct (g_addr t # concat (map addrs xs) @ addrs c @ concat (map addrs ys))" using assms(1) split_addrs[OF k] by simp
  have b: "b \<in> set (addrs c)" "b \<noteq> g_addr c" using assms(3) d by (auto simp: addrs_below[of c])
  then have "b \<notin> set (concat (map addrs xs))" "b \<notin> set (concat (map addrs ys))" "b \<noteq> g_addr t" using d by auto
  then have "b \<notin> g_addr ` set xs" "b \<notin> g_addr ` set ys" "b \<noteq> g_addr t" using roots_in[of xs] roots_in[of ys] by blast+
  then show ?thesis using b(2) k by (simp add: image_Un)
qed

text \<open>An operation on the queue of a node leaves the trees of its children alone.\<close>

lemma kid_kept:
  assumes t: "tree_at h t" "distinct (addrs t)" and q: "queue_only h h' (g_addr t) as" "set as \<subseteq> set (map g_addr (g_kids t)) \<union> N"
    and N: "N \<inter> set (addrs t) = {}" and k: "k \<in> set (g_kids t)"
  shows "tree_at h' k"
proof (rule tree_frame[of h])
  show "tree_at h k" using t(1) k by (simp add: tree_at_iff[of h t])
  obtain xs ys where ks: "g_kids t = xs @ k # ys" using split_list[OF k] by blast
  have d: "distinct (g_addr t # concat (map addrs xs) @ addrs k @ concat (map addrs ys))" using t(2) ks addrs_below[of t] by (simp add: below_def)
  have ka: "set (addrs k) \<subseteq> set (addrs t)" using kid_addrs[OF k] by (auto simp: addrs_below[of t])
  have "g_addr t \<notin> set (addrs k)" using d by simp
  then have rt: "g_addr k \<noteq> g_addr t" using root_in[of k] by metis
  show "rel_option same_elem (h (g_addr k)) (h' (g_addr k))"
  proof (cases "g_addr k \<in> set as")
    case True
    then show ?thesis using q(1) by (simp add: queue_only_def)
  next
    case False
    then have "h' (g_addr k) = h (g_addr k)" using q(1) rt by (simp add: queue_only_def)
    then show ?thesis by simp
  qed
  show "\<forall>b \<in> set (below k). h' b = h b"
  proof
    fix b assume b: "b \<in> set (below k)"
    have "b \<notin> N" using b ka N by (auto simp: addrs_below[of k])
    then have "b \<notin> insert (g_addr t) (set as)" using below_apart[OF t(2) k b] q(2) by auto
    then show "h' b = h b" using q(1) by (simp add: queue_only_def)
  qed
qed

subsection \<open>Freeing\<close>

lemma restrict_twice: "\<forall>b. b \<notin> A \<union> B \<longrightarrow> h1 b = h b \<Longrightarrow> (h1 |` (- A)) |` (- B) = h |` (- (A \<union> B))"
  by (rule ext) (auto simp: restrict_map_def)

lemma free_ok: "tree_at h t \<Longrightarrow> distinct (addrs t) \<Longrightarrow> ConfNodeFree (g_addr t) h = Some (h |` (- set (addrs t)))"
proof (induction "length (addrs t)" arbitrary: t h rule: less_induct)
  case less
  obtain a nm v sq ov pa ks where t: "t = G a nm v sq ov pa ks" by (cases t)
  have q: "queue h a (map g_addr ks)" and nd: "node_is h t" using less.prems(1) t by simp_all
  obtain n where n: "h a = Some n" "tqh_first n = (case map g_addr ks of [] \<Rightarrow> Null | b # _ \<Rightarrow> Ptr b)" using queue_first[OF q] by blast
  show ?case
  proof (cases ks)
    case Nil
    have "h(a := None) = h |` (- {a})" by (rule ext) (simp add: restrict_map_def)
    then show ?thesis using n t Nil by (simp add: ConfNodeFree.simps)
  next
    case (Cons k ks')
    let ?t = "G a nm v sq ov pa ks'"
    have q': "queue h a ([] @ g_addr k # map g_addr ks')" using q Cons by simp
    obtain h1 where h1: "TAILQ_REMOVE h a (g_addr k) = Some h1" "queue h1 a (map g_addr ks')" "queue_only h h1 a (map g_addr ks)"
      using remove_ok[OF q'] Cons by auto
    have d: "distinct (a # addrs k @ concat (map addrs ks'))" using less.prems(2) t Cons by simp
    have kept: "tree_at h1 c" if "c \<in> set ks" for c
      using kid_kept[OF less.prems, of h1 "map g_addr ks" "{}" c] h1(3) that t by simp
    have dk: "distinct (addrs k)" and tk: "tree_at h1 k" using d kept Cons by simp_all
    have "length (addrs k) < length (addrs t)" using t Cons by simp
    from less.hyps[OF this tk dk] have fk: "ConfNodeFree (g_addr k) h1 = Some (h1 |` (- set (addrs k)))" .
    let ?h2 = "h1 |` (- set (addrs k))"
    have "node_is h1 ?t"
      using node_is_head[OF nd, of h1] h1(3) t by (simp add: queue_only_def node_is_def g_data_def)
    then have t1: "tree_at h1 ?t" using h1(2) kept less.prems(1) t Cons by simp
    have eq: "\<forall>b \<in> set (addrs ?t). ?h2 b = h1 b" using d by (auto simp: restrict_map_def)
    have t2: "tree_at ?h2 ?t" by (rule tree_same[OF t1 eq])
    have "length (addrs ?t) < length (addrs t)" using t Cons by (simp add: addrs_below[of k])
    from less.hyps[OF this t2] have ft: "ConfNodeFree a ?h2 = Some (?h2 |` (- set (addrs ?t)))" using d by simp
    have "insert a (set (map g_addr ks)) \<subseteq> set (addrs k) \<union> set (addrs ?t)" using root_in Cons by fastforce
    then have "\<forall>b. b \<notin> set (addrs k) \<union> set (addrs ?t) \<longrightarrow> h1 b = h b" using h1(3) unfolding queue_only_def by blast
    from restrict_twice[OF this] have "?h2 |` (- set (addrs ?t)) = h |` (- set (addrs t))" using t Cons by (simp add: Un_commute Un_left_commute)
    moreover have "ConfNodeFree a h = ConfNodeFree a ?h2"
      using n Cons h1(1) fk by (subst ConfNodeFree.simps) simp
    ultimately show ?thesis using ft t by simp
  qed
qed

subsection \<open>Lookup\<close>

lemma erase_sel [simp]:
  "cn_name (erase t) = (case g_name t of None \<Rightarrow> '''' | Some x \<Rightarrow> x)" "cn_val (erase t) = g_val t" "cn_seq (erase t) = g_seq t"
  "cn_override (erase t) = g_override t" "cn_head (erase t) = map erase (g_kids t)"
  by (cases t; simp)+

lemma node_is_name: "node_is h t \<Longrightarrow> \<exists>n. h (g_addr t) = Some n \<and> nd_name n = g_name t \<and> nd_parent n = g_parent t \<and> nd_override n = g_override t"
  by (auto simp: node_is_def node_data_def g_data_def)

lemma find_child_seg:
  assumes "seg h l (map g_addr ks) m" "load h m = Some Null" "load h l = Some p" "\<forall>k \<in> set ks. g_name k \<noteq> None \<and> node_is h k"
  shows "find_child h p name = Some (case child_index (map erase ks) name of None \<Rightarrow> Null | Some i \<Rightarrow> Ptr (g_addr (ks ! i)))"
  using assms
proof (induction ks arbitrary: l p)
  case Nil
  then show ?case by (simp add: find_child.simps)
next
  case (Cons k ks)
  obtain n where n: "h (g_addr k) = Some n" "nd_name n = g_name k" using node_is_name[of h k] Cons.prems(4) by auto
  obtain nm where nm: "g_name k = Some nm" using Cons.prems(4) by auto
  have p: "p = Ptr (g_addr k)" using Cons.prems(1,3) by simp
  have "find_child h (tqe_next n) name = Some (case child_index (map erase ks) name of None \<Rightarrow> Null | Some i \<Rightarrow> Ptr (g_addr (ks ! i)))"
    using Cons.prems n by (intro Cons.IH[of "Next (g_addr k)"]) auto
  then show ?case using p n nm by (subst find_child.simps) (auto split: option.splits)
qed

lemma tree_kids_named: "tree_at h t \<Longrightarrow> \<forall>k \<in> set (g_kids t). g_name k \<noteq> None \<and> node_is h k \<and> tree_at h k"
  using tree_at_iff by blast

text \<open>A lookup reads one level of the tree.\<close>

definition level_at :: "conf_heap \<Rightarrow> gtree \<Rightarrow> bool" where
  "level_at h t \<longleftrightarrow> queue h (g_addr t) (map g_addr (g_kids t)) \<and> (\<forall>k \<in> set (g_kids t). g_name k \<noteq> None \<and> node_is h k)"

lemma tree_level: "tree_at h t \<Longrightarrow> level_at h t"
  using tree_at_iff unfolding level_at_def by blast

lemma level_lookup:
  assumes "level_at h t"
  shows "ConfNodeLookupChild_h h (g_addr t) name =
    Some (case child_index (cn_head (erase t)) name of None \<Rightarrow> Null | Some i \<Rightarrow> Ptr (g_addr (g_kids t ! i)))"
proof -
  have q: "queue h (g_addr t) (map g_addr (g_kids t))" using assms by (simp add: level_at_def)
  obtain n where n: "h (g_addr t) = Some n" using queue_first[OF q] by blast
  have "find_child h (tqh_first n) name =
      Some (case child_index (map erase (g_kids t)) name of None \<Rightarrow> Null | Some i \<Rightarrow> Ptr (g_addr (g_kids t ! i)))"
  proof (rule find_child_seg)
    show "seg h (First (g_addr t)) (map g_addr (g_kids t)) (end_link (First (g_addr t)) (map g_addr (g_kids t)))"
      and "load h (end_link (First (g_addr t)) (map g_addr (g_kids t))) = Some Null"
      using q unfolding queue_def by blast+
    show "load h (First (g_addr t)) = Some (tqh_first n)" using n by simp
    show "\<forall>k \<in> set (g_kids t). g_name k \<noteq> None \<and> node_is h k" using assms by (simp add: level_at_def)
  qed
  then show ?thesis using n by (simp add: ConfNodeLookupChild_h_def)
qed

lemmas lookup_ok = level_lookup[OF tree_level]

text \<open>The child a token names, in its place.\<close>

lemma child_split:
  assumes "child_index (cn_head (erase t)) token = Some i"
  obtains xs c ys where "g_kids t = xs @ c # ys" "length xs = i" "g_kids t ! i = c" "cn_name (erase c) = token"
    "cn_head (erase t) ! i = erase c"
proof -
  have i: "i < length (g_kids t)" using child_index_Some[OF assms] by simp
  then have nm: "cn_name (erase (g_kids t ! i)) = token" using child_index_Some[OF assms] by simp
  show ?thesis
    by (rule that[of "take i (g_kids t)" "g_kids t ! i" "drop (Suc i) (g_kids t)"]) (use i nm id_take_nth_drop in auto)
qed

lemma get_path_ok:
  assumes "tree_at h t"
  shows "\<exists>p. get_path_h h (g_addr t) ts = Some p \<and> (p = Null \<longleftrightarrow> get_path (erase t) ts = None) \<and> p \<noteq> Wild"
  using assms
proof (induction ts arbitrary: t)
  case (Cons token ts)
  show ?case
  proof (cases "child_index (cn_head (erase t)) token")
    case None
    then show ?thesis using lookup_ok[OF Cons.prems, of token] by (simp add: ConfNodeLookupChild_def)
  next
    case (Some i)
    from child_split[OF this] obtain xs c ys where c: "g_kids t = xs @ c # ys" "g_kids t ! i = c" "cn_head (erase t) ! i = erase c" by metis
    have "tree_at h c" using tree_kids_named[OF Cons.prems] c(1) by simp
    from Cons.IH[OF this] show ?thesis using lookup_ok[OF Cons.prems, of token] Some c(2,3) by (simp add: ConfNodeLookupChild_def)
  qed
qed simp

subsection \<open>A change below one child\<close>

lemma tree_alloc: "tree_at h t \<Longrightarrow> b \<in> set (addrs t) \<Longrightarrow> h b \<noteq> None"
proof (induction t)
  case (G a nm v sq ov pa ks)
  then show ?case by (auto simp: node_is_def)
qed

definition with_kids :: "gtree \<Rightarrow> gtree list \<Rightarrow> gtree" where
  "with_kids t ks = G (g_addr t) (g_name t) (g_val t) (g_seq t) (g_override t) (g_parent t) ks"

lemma with_kids_sel [simp]:
  "g_addr (with_kids t ks) = g_addr t" "g_name (with_kids t ks) = g_name t" "g_kids (with_kids t ks) = ks" "g_parent (with_kids t ks) = g_parent t"
  "node_is h (with_kids t ks) = node_is h t" "erase (with_kids t ks) = set_head (map erase ks) (erase t)"
  "addrs (with_kids t ks) = g_addr t # concat (map addrs ks)"
  by (cases t; simp add: with_kids_def node_is_def g_data_def)+

lemma with_same_kids: "with_kids t (g_kids t) = t"
  by (cases t) (simp add: with_kids_def)

text \<open>What a change of the tree \<open>t\<close> to \<open>t'\<close>, with the addresses \<open>N\<close> at its disposal, does to the heap.\<close>

definition changed :: "conf_heap \<Rightarrow> gtree \<Rightarrow> nat set \<Rightarrow> conf_heap \<Rightarrow> gtree \<Rightarrow> bool" where
  "changed h t N h' t' \<longleftrightarrow> good h' t' \<and> g_addr t' = g_addr t \<and> g_name t' = g_name t \<and>
     rel_option same_links (h (g_addr t)) (h' (g_addr t)) \<and> (\<forall>b. b \<notin> set (addrs t) \<union> N \<longrightarrow> h' b = h b) \<and>
     set (addrs t') \<subseteq> set (addrs t) \<union> N"

lemma change_kid:
  assumes g: "good h t" and k: "g_kids t = xs @ c # ys" and c: "changed h c N h' c'" and N: "N \<inter> set (addrs t) = {}"
  shows "changed h t N h' (with_kids t (xs @ c' # ys))"
proof -
  let ?o = "concat (map addrs xs) @ concat (map addrs ys)"
  have t: "tree_at h t" and "distinct (g_addr t # concat (map addrs xs) @ addrs c @ concat (map addrs ys))"
    using g addrs_below[of t] k by (simp_all add: good_def below_def)
  then have d: "distinct (g_addr t # ?o)" "set (addrs c) \<inter> insert (g_addr t) (set ?o) = {}" by auto
  have sub: "insert (g_addr t) (set ?o) \<subseteq> set (addrs t)" using k addrs_below[of t] by (auto simp: below_def)
  have old: "h' b = h b" if "b \<in> insert (g_addr t) (set ?o)" for b
    using c that d(2) sub N unfolding changed_def by blast
  have c': "set (addrs c') \<subseteq> set (addrs c) \<union> N" "distinct (addrs c')" "tree_at h' c'" "g_addr c' = g_addr c" "g_name c' = g_name c"
    using c by (simp_all add: changed_def good_def)
  have dis: "set (addrs c') \<inter> insert (g_addr t) (set ?o) = {}" using c'(1) d(2) sub N by blast
  have kt: "tree_at h' x" if "x \<in> set (xs @ ys)" for x
  proof (rule tree_same)
    show "tree_at h x" using tree_kids_named[OF t] that k by auto
    show "\<forall>b \<in> set (addrs x). h' b = h b" using old that by auto
  qed
  have "queue h' (g_addr t) (map g_addr (xs @ c' # ys))"
  proof (rule queue_frame)
    show "queue h (g_addr t) (map g_addr (xs @ c' # ys))" using t k c'(4) by (simp add: tree_at_iff[of h t])
    show "rel_option same_ends (h (g_addr t)) (h' (g_addr t))" using old by simp
    show "\<forall>b \<in> set (map g_addr (xs @ c' # ys)). rel_option same_links (h b) (h' b)"
    proof
      fix b assume "b \<in> set (map g_addr (xs @ c' # ys))"
      then consider "b = g_addr c" | x where "x \<in> set (xs @ ys)" "b = g_addr x" using c'(4) by auto
      then show "rel_option same_links (h b) (h' b)"
      proof cases
        case 1
        then show ?thesis using c by (simp add: changed_def)
      next
        case 2
        then have "b \<in> set ?o" by (auto intro: bexI[of _ x])
        then show ?thesis using old by simp
      qed
    qed
  qed
  moreover have "node_is h' t" using t old by (simp add: tree_at_iff[of h t] node_is_def)
  ultimately have "tree_at h' (with_kids t (xs @ c' # ys))"
    using kt c' tree_kids_named[OF t] k unfolding tree_at_iff[of h' "with_kids t (xs @ c' # ys)"] by auto
  moreover have "distinct (addrs (with_kids t (xs @ c' # ys)))" using d(1) dis c'(2) by auto
  moreover have "set (addrs c) \<subseteq> set (addrs t)" using k addrs_below[of t] by (auto simp: below_def)
  then have "\<forall>b. b \<notin> set (addrs t) \<union> N \<longrightarrow> h' b = h b" using c unfolding changed_def by blast
  moreover have "set (addrs (with_kids t (xs @ c' # ys))) \<subseteq> set (addrs t) \<union> N"
    using c'(1) \<open>set (addrs c) \<subseteq> set (addrs t)\<close> sub by auto
  ultimately show ?thesis using old by (simp add: changed_def good_def)
qed

subsection \<open>Removal\<close>

text \<open>The tree without the node of a path.\<close>

fun del_path :: "conf_node \<Rightarrow> string list \<Rightarrow> conf_node" where
  "del_path node [] = node"
| "del_path node (token # ts) =
     (case child_index (cn_head node) token of
        None \<Rightarrow> node
      | Some i \<Rightarrow>
          (if ts = [] then set_head (take i (cn_head node) @ drop (Suc i) (cn_head node)) node
           else update_child i (\<lambda>c. del_path c ts) node))"

text \<open>Every node but the root knows its parent.\<close>

fun parents_ok :: "gtree \<Rightarrow> bool" where
  "parents_ok (G a nm v sq ov pa ks) \<longleftrightarrow> (\<forall>k \<in> set ks. g_parent k = Ptr a \<and> parents_ok k)"

lemma parents_ok_kid: "parents_ok t \<Longrightarrow> k \<in> set (g_kids t) \<Longrightarrow> g_parent k = Ptr (g_addr t) \<and> parents_ok k"
  by (cases t) simp

lemma remove_kid:
  assumes g: "good h t" and k: "g_kids t = xs @ c # ys" and p: "g_parent c = Ptr (g_addr t)"
  shows "\<exists>h'. ConfNodeRemove (g_addr c) h = Some h' \<and> changed h t {} h' (with_kids t (xs @ ys)) \<and> (\<forall>b \<in> set (addrs c). h' b = None)"
proof -
  have t: "tree_at h t" "distinct (addrs t)" using g by (simp_all add: good_def)
  have q: "queue h (g_addr t) (map g_addr xs @ g_addr c # map g_addr ys)" using t(1) k by (simp add: tree_at_iff[of h t])
  obtain h1 where h1: "TAILQ_REMOVE h (g_addr t) (g_addr c) = Some h1" "queue h1 (g_addr t) (map g_addr (xs @ ys))"
      "queue_only h h1 (g_addr t) (map g_addr (g_kids t))"
    using remove_ok[OF q] k by auto
  have kept: "tree_at h1 x" if "x \<in> set (g_kids t)" for x using kid_kept[OF t h1(3) _ _ that, of "{}"] by simp
  have d: "distinct (g_addr t # concat (map addrs xs) @ addrs c @ concat (map addrs ys))"
    using t(2) k addrs_below[of t] by (simp add: below_def)
  have fr: "ConfNodeFree (g_addr c) h1 = Some (h1 |` (- set (addrs c)))" using kept[of c] d k by (intro free_ok) auto
  let ?t = "with_kids t (xs @ ys)" and ?h = "h1 |` (- set (addrs c))"
  obtain n where n: "h (g_addr c) = Some n" "nd_parent n = g_parent c"
    using node_is_name[of h c] tree_kids_named[OF t(1)] k by auto
  have run: "ConfNodeRemove (g_addr c) h = Some ?h" using n p h1(1) fr by (simp add: ConfNodeRemove_def)
  have hd: "rel_option same_head (h (g_addr t)) (h1 (g_addr t))" using h1(3) by (simp add: queue_only_def)
  have "node_is h1 ?t" using node_is_head[of h t h1] hd t(1) by (simp add: tree_at_iff[of h t])
  then have t1: "tree_at h1 ?t" using h1(2) kept k tree_kids_named[OF t(1)] unfolding tree_at_iff[of h1 ?t] by auto
  have off: "?h b = h1 b" if "b \<in> set (addrs ?t)" for b using d that by (auto simp: restrict_map_def)
  then have "\<forall>b \<in> set (addrs ?t). ?h b = h1 b" by blast
  from tree_same[OF t1 this] have "tree_at ?h ?t" .
  moreover have "distinct (addrs ?t)" using d by auto
  moreover have "rel_option same_links (h (g_addr t)) (?h (g_addr t))"
    using hd off[of "g_addr t"] by (auto intro: option.rel_mono_strong dest: same_head_fields)
  moreover have "g_addr x \<in> set (below t)" if "x \<in> set (g_kids t)" for x using kid_addrs[OF that] root_in[of x] by blast
  then have "insert (g_addr t) (set (map g_addr (g_kids t))) \<subseteq> set (addrs t)" using addrs_below[of t] by auto
  then have "\<forall>b. b \<notin> set (addrs t) \<longrightarrow> h1 b = h b" using h1(3) unfolding queue_only_def by blast
  then have "\<forall>b. b \<notin> set (addrs t) \<longrightarrow> ?h b = h b"
    using kid_addrs[of c t] k by (auto simp: restrict_map_def addrs_below[of t])
  moreover have "set (addrs ?t) \<subseteq> set (addrs t)" using k addrs_below[of t] by (auto simp: below_def)
  ultimately have "changed h t {} ?h ?t" by (simp add: changed_def good_def)
  then show ?thesis using run by (auto simp: restrict_map_def)
qed

lemma remove_path:
  assumes "good h t" "parents_ok t" "ts \<noteq> []" "get_path (erase t) ts \<noteq> None"
  shows "\<exists>x h' t'. get_path_h h (g_addr t) ts = Some (Ptr x) \<and> ConfNodeRemove x h = Some h' \<and> changed h t {} h' t' \<and>
    erase t' = del_path (erase t) ts \<and> (\<forall>b \<in> set (addrs t) - set (addrs t'). h' b = None)"
  using assms
proof (induction ts arbitrary: t)
  case (Cons token ts)
  have t: "tree_at h t" using Cons.prems(1) by (simp add: good_def)
  obtain i where i: "child_index (cn_head (erase t)) token = Some i"
    using Cons.prems(4) by (cases "child_index (cn_head (erase t)) token") (simp_all add: ConfNodeLookupChild_def)
  from child_split[OF this] obtain xs c ys where c: "g_kids t = xs @ c # ys" "length xs = i" "g_kids t ! i = c" "cn_head (erase t) ! i = erase c" by metis
  have look: "get_path_h h (g_addr t) (token # ts) = get_path_h h (g_addr c) ts" using lookup_ok[OF t, of token] i c(3) by simp
  have kd: "cn_head (erase t) = map erase xs @ erase c # map erase ys" using c(1) by simp
  have in_t: "set (addrs t) = insert (g_addr t) (set (concat (map addrs xs)) \<union> set (addrs c) \<union> set (concat (map addrs ys)))"
    using c(1) addrs_below[of t] by (auto simp: below_def)
  show ?case
  proof (cases "ts = []")
    case True
    have p: "g_parent c = Ptr (g_addr t)" using parents_ok_kid[OF Cons.prems(2)] c(1) by simp
    obtain h' where h': "ConfNodeRemove (g_addr c) h = Some h'" "changed h t {} h' (with_kids t (xs @ ys))" "\<forall>b \<in> set (addrs c). h' b = None"
      using remove_kid[OF Cons.prems(1) c(1) p] by blast
    have "erase (with_kids t (xs @ ys)) = del_path (erase t) (token # ts)" using True i c(2) kd by simp
    moreover have "\<forall>b \<in> set (addrs t) - set (addrs (with_kids t (xs @ ys))). h' b = None" using h'(3) in_t by auto
    ultimately show ?thesis using h' look True by auto
  next
    case False
    have gc: "good h c" using tree_kids_named[OF t] c(1) Cons.prems(1) addrs_below[of t] by (simp add: good_def below_def)
    have "parents_ok c" using parents_ok_kid[OF Cons.prems(2)] c(1) by simp
    moreover have "get_path (erase c) ts \<noteq> None" using Cons.prems(4) i c(4) by (simp add: ConfNodeLookupChild_def)
    ultimately obtain x h' c' where h': "get_path_h h (g_addr c) ts = Some (Ptr x)" "ConfNodeRemove x h = Some h'" "changed h c {} h' c'"
        "erase c' = del_path (erase c) ts" "\<forall>b \<in> set (addrs c) - set (addrs c'). h' b = None"
      using Cons.IH[OF gc _ False] by blast
    have ch: "changed h t {} h' (with_kids t (xs @ c' # ys))" by (rule change_kid[OF Cons.prems(1) c(1) h'(3)]) simp
    moreover have "erase (with_kids t (xs @ c' # ys)) = del_path (erase t) (token # ts)"
      using False i c(2) kd h'(4) by (simp add: update_child_def list_update_append nth_append)
    moreover have "\<forall>b \<in> set (addrs t) - set (addrs (with_kids t (xs @ c' # ys))). h' b = None" using h'(5) in_t by auto
    ultimately show ?thesis using h'(1,2) look by (metis)
  qed
qed simp

lemma del_missing: "get_path n ts = None \<Longrightarrow> del_path n ts = n"
proof (induction ts arbitrary: n)
  case (Cons token ts)
  then show ?case
    by (cases "child_index (cn_head n) token") (auto simp: ConfNodeLookupChild_def update_child_def)
qed simp

lemma get_node_path: "toks [] name \<noteq> [] \<Longrightarrow> ConfGetNode_h h root name = get_path_h h root (toks [] name)"
  by (cases "toks [] name") (simp_all add: ConfGetNode_h_def)

text \<open>
  C30. The removal of a key, when the nodes know their parents as those that \<open>ConfSet\<close> makes do. It is found exactly when it is in the tree; then the heap holds the tree
  without the node, exactly what was below it is freed, and nothing outside of the tree changes.
\<close>

theorem conf_remove_frees:
  assumes "good h t" and "parents_ok t" and "toks [] name \<noteq> []"
  shows "\<exists>r h' t'. ConfRemove (g_addr t) name h = Some (r, h') \<and> good h' t' \<and> g_addr t' = g_addr t \<and>
    r = (if get_path (erase t) (toks [] name) = None then 0 else 1) \<and>
    erase t' = del_path (erase t) (toks [] name) \<and> (\<forall>b \<in> set (addrs t) - set (addrs t'). h' b = None) \<and>
    (\<forall>b. b \<notin> set (addrs t) \<longrightarrow> h' b = h b)"
proof (cases "get_path (erase t) (toks [] name)")
  case None
  have t: "tree_at h t" using assms(1) by (simp add: good_def)
  have "get_path_h h (g_addr t) (toks [] name) = Some Null" using get_path_ok[OF t, of "toks [] name"] None by auto
  then have "ConfRemove (g_addr t) name h = Some (0, h)" using assms(3) by (simp add: ConfRemove_def get_node_path)
  then show ?thesis using assms(1) None del_missing by (intro exI[of _ 0] exI[of _ h] exI[of _ t]) simp
next
  case (Some n)
  obtain x h' t' where h': "get_path_h h (g_addr t) (toks [] name) = Some (Ptr x)" "ConfNodeRemove x h = Some h'" "changed h t {} h' t'"
      "erase t' = del_path (erase t) (toks [] name)" "\<forall>b \<in> set (addrs t) - set (addrs t'). h' b = None"
    using remove_path[OF assms] Some by auto
  have "ConfRemove (g_addr t) name h = Some (1, h')" using h'(1,2) assms(3) by (simp add: ConfRemove_def get_node_path)
  then show ?thesis using h'(3-5) Some by (intro exI[of _ 1] exI[of _ h'] exI[of _ t']) (simp add: changed_def)
qed

subsection \<open>Nodes without a parent\<close>

lemma find_child_freed:
  assumes "seg h l (map g_addr (xs @ [c])) m" "load h l = Some p" "\<forall>k \<in> set xs. node_is h k \<and> g_name k \<noteq> None \<and> g_name k \<noteq> Some name"
    and "\<forall>k \<in> set xs. h' (g_addr k) = h (g_addr k)" "h' (g_addr c) = None"
  shows "find_child h' p name = None"
  using assms
proof (induction xs arbitrary: l p)
  case Nil
  then show ?case by (simp add: find_child.simps)
next
  case (Cons k ks)
  obtain n where n: "h (g_addr k) = Some n" "nd_name n = g_name k" using node_is_name[of h k] Cons.prems(3) by auto
  have p: "p = Ptr (g_addr k)" using Cons.prems(1,2) by simp
  have "find_child h' (tqe_next n) name = None"
    using Cons.prems n by (intro Cons.IH[of "Next (g_addr k)"]) auto
  moreover have "h' (g_addr k) = Some n" using Cons.prems(4) n by simp
  ultimately show ?case using p n Cons.prems(3) by (subst find_child.simps) (auto split: option.splits)
qed

lemma child_index_first: "child_index cs name = Some i \<Longrightarrow> \<forall>c \<in> set (take i cs). cn_name c \<noteq> name"
proof (induction cs arbitrary: i)
  case (Cons c cs)
  then show ?case by (cases i) (auto split: if_splits)
qed simp

lemma lookup_freed:
  assumes t: "good h t" and i: "child_index (cn_head (erase t)) token = Some i"
  shows "ConfNodeLookupChild_h (h |` (- set (addrs (g_kids t ! i)))) (g_addr t) token = None"
proof -
  have tr: "tree_at h t" using t by (simp add: good_def)
  from child_split[OF i] obtain xs c ys where c: "g_kids t = xs @ c # ys" "length xs = i" "g_kids t ! i = c" by metis
  have d: "distinct (g_addr t # concat (map addrs xs) @ addrs c @ concat (map addrs ys))"
    using t c(1) addrs_below[of t] by (simp add: good_def below_def)
  have q: "queue h (g_addr t) (map g_addr (xs @ [c]) @ map g_addr ys)" using tr c(1) by (simp add: tree_at_iff[of h t])
  obtain n where n: "h (g_addr t) = Some n" using queue_first[OF q] by blast
  have sg: "seg h (First (g_addr t)) (map g_addr (xs @ [c])) (end_link (First (g_addr t)) (map g_addr (xs @ [c])))"
    using q unfolding queue_def seg_append by blast
  have nm: "\<forall>k \<in> set xs. cn_name (erase k) \<noteq> token" using child_index_first[OF i] c(1,2) by simp
  have "\<forall>k \<in> set xs. node_is h k \<and> g_name k \<noteq> None \<and> g_name k \<noteq> Some token"
    using nm tree_kids_named[OF tr] c(1) by auto
  moreover have "g_addr k \<notin> set (addrs c)" if "k \<in> set xs" for k
  proof -
    have "g_addr k \<in> set (concat (map addrs xs))" using that by (auto intro: bexI[of _ k])
    then show ?thesis using d by auto
  qed
  then have "\<forall>k \<in> set xs. (h |` (- set (addrs c))) (g_addr k) = h (g_addr k)" by (simp add: restrict_map_def)
  ultimately have "find_child (h |` (- set (addrs c))) (tqh_first n) token = None"
    using find_child_freed[OF sg, of "tqh_first n"] n by (simp add: restrict_map_def)
  moreover have "(h |` (- set (addrs c))) (g_addr t) = Some n" using n d by (simp add: restrict_map_def)
  ultimately show ?thesis using c(3) by (simp add: ConfNodeLookupChild_h_def)
qed

lemma dangling:
  assumes "good h t" "ts \<noteq> []" "get_path_h h (g_addr t) ts = Some (Ptr x)"
  shows "\<exists>s. g_addr s = x \<and> tree_at h s \<and> distinct (addrs s) \<and> set (addrs s) \<subseteq> set (below t) \<and>
    get_path_h (h |` (- set (addrs s))) (g_addr t) ts = None"
  using assms
proof (induction ts arbitrary: t)
  case (Cons token ts)
  have t: "tree_at h t" using Cons.prems(1) by (simp add: good_def)
  obtain i where i: "child_index (cn_head (erase t)) token = Some i"
    using Cons.prems(3) lookup_ok[OF t, of token] by (cases "child_index (cn_head (erase t)) token") simp_all
  from child_split[OF i] obtain xs c ys where c: "g_kids t = xs @ c # ys" "length xs = i" "g_kids t ! i = c" by metis
  have look: "get_path_h h (g_addr t) (token # ts) = get_path_h h (g_addr c) ts" using lookup_ok[OF t, of token] i c(3) by simp
  have gc: "good h c" using tree_kids_named[OF t] c(1) Cons.prems(1) addrs_below[of t] by (simp add: good_def below_def)
  have sub: "set (addrs c) \<subseteq> set (below t)" using kid_addrs[of c t] c(1) by simp
  show ?case
  proof (cases "ts = []")
    case True
    then have "x = g_addr c" using Cons.prems(3) look by simp
    then show ?thesis using gc sub lookup_freed[OF Cons.prems(1) i] c(3) by (intro exI[of _ c]) (simp add: good_def)
  next
    case False
    obtain s where s: "g_addr s = x" "tree_at h s" "distinct (addrs s)" "set (addrs s) \<subseteq> set (below c)"
        "get_path_h (h |` (- set (addrs s))) (g_addr c) ts = None"
      using Cons.IH[OF gc False] Cons.prems(3) look by auto
    let ?h = "h |` (- set (addrs s))"
    have same: "?h b = h b" if b: "b = g_addr t \<or> b \<in> g_addr ` set (g_kids t)" for b
    proof -
      have "b \<notin> set (addrs s)" using below_apart[of t c b] b s(4) Cons.prems(1) c(1) by (auto simp: good_def)
      then show ?thesis by (simp add: restrict_map_def)
    qed
    have "level_at ?h t"
      unfolding level_at_def
    proof
      show "queue ?h (g_addr t) (map g_addr (g_kids t))"
      proof (rule queue_frame)
        show "queue h (g_addr t) (map g_addr (g_kids t))" using tree_level[OF t] by (simp add: level_at_def)
      qed (use same in simp_all)
      show "\<forall>k \<in> set (g_kids t). g_name k \<noteq> None \<and> node_is ?h k"
        using tree_kids_named[OF t] same by (simp add: node_is_def)
    qed
    from level_lookup[OF this, of token] i c(3) have "get_path_h ?h (g_addr t) (token # ts) = None" using s(5) by simp
    then show ?thesis using s sub by (intro exI[of _ s]) (auto simp: addrs_below[of c])
  qed
qed simp

text \<open>
  C32. The removal of a key whose node has no parent, as all nodes that were loaded from a file. The node is freed but stays in the
  list of the node above it, so the same lookup now reads freed memory.
\<close>

theorem loaded_removal_dangles:
  assumes "good h t" and "toks [] name \<noteq> []" and "ConfGetNode_h h (g_addr t) name = Some (Ptr x)" and "map_option nd_parent (h x) = Some Null"
  shows "\<exists>h'. ConfRemove (g_addr t) name h = Some (1, h') \<and> h' x = None \<and> ConfGetNode_h h' (g_addr t) name = None"
proof -
  have p: "get_path_h h (g_addr t) (toks [] name) = Some (Ptr x)" using assms(2,3) by (simp add: get_node_path)
  obtain s where s: "g_addr s = x" "tree_at h s" "distinct (addrs s)" "get_path_h (h |` (- set (addrs s))) (g_addr t) (toks [] name) = None"
    using dangling[OF assms(1,2) p] by blast
  have "ConfNodeFree x h = Some (h |` (- set (addrs s)))" using free_ok[OF s(2,3)] s(1) by simp
  moreover obtain n where "h x = Some n" "nd_parent n = Null" using assms(4) by auto
  ultimately have "ConfNodeRemove x h = Some (h |` (- set (addrs s)))" by (simp add: ConfNodeRemove_def)
  then have "ConfRemove (g_addr t) name h = Some (1, h |` (- set (addrs s)))" using assms(3) by (simp add: ConfRemove_def)
  then show ?thesis using s(1,4) assms(2) root_in[of s] by (auto simp: restrict_map_def get_node_path)
qed

subsection \<open>New nodes and values\<close>

lemma new_node: "ConfNodeNew_h (Some a) h =
    Some (Ptr a, h(a \<mapsto> zero_cnode\<lparr>nd_override := True, tqh_first := Null, tqh_last := First a\<rparr>))"
  by (simp add: ConfNodeNew_h_def at_node_def TAILQ_INIT_def zero_cnode_def)

definition leaf_g :: "nat \<Rightarrow> string \<Rightarrow> cptr \<Rightarrow> gtree" where
  "leaf_g a token p = G a (Some token) None False True p []"

lemma leaf_g_sel [simp]: "g_addr (leaf_g a token p) = a" "addrs (leaf_g a token p) = [a]" "g_kids (leaf_g a token p) = []"
  "g_name (leaf_g a token p) = Some token" "erase (leaf_g a token p) = ConfNode token None False True []" "g_override (leaf_g a token p)"
  "g_parent (leaf_g a token p) = p"
  by (simp_all add: leaf_g_def)

text \<open>A node that was just made and named is linked as the last child.\<close>

lemma link_child:
  assumes g: "good h t" and a: "h a = None"
    and n: "n = zero_cnode\<lparr>nd_override := True, tqh_first := Null, tqh_last := First a, nd_name := Some token, nd_parent := p\<rparr>"
  shows "\<exists>h'. TAILQ_INSERT_TAIL (h(a \<mapsto> n)) (g_addr t) a = Some h' \<and> changed h t {a} h' (with_kids t (g_kids t @ [leaf_g a token p]))"
proof -
  let ?h = "h(a \<mapsto> n)" and ?t = "with_kids t (g_kids t @ [leaf_g a token p])"
  have tr: "tree_at h t" and d: "distinct (addrs t)" using g by (simp_all add: good_def)
  have na: "a \<notin> set (addrs t)" using tree_alloc[OF tr] a by blast
  have tr1: "tree_at ?h t" using na by (intro tree_same[OF tr]) auto
  have q: "queue ?h (g_addr t) (map g_addr (g_kids t))" using tree_level[OF tr1] by (simp add: level_at_def)
  have ks: "insert (g_addr t) (set (map g_addr (g_kids t))) \<subseteq> set (addrs t)"
    using roots_in[of "g_kids t"] addrs_below[of t] by (auto simp: below_def)
  then have "a \<notin> insert (g_addr t) (set (map g_addr (g_kids t)))" using na by blast
  from insert_tail_ok[OF q this] obtain h' where h': "TAILQ_INSERT_TAIL ?h (g_addr t) a = Some h'"
      "queue h' (g_addr t) (map g_addr (g_kids t) @ [a])" "queue_only ?h h' (g_addr t) (map g_addr (g_kids t) @ [a])" by auto
  have kept: "tree_at h' k" if "k \<in> set (g_kids t)" for k
    using kid_kept[OF tr1 d h'(3) _ _ that, of "{a}"] na by auto
  have "g_addr t \<noteq> a" using na root_in[of t] by metis
  then have hd: "rel_option same_head (h (g_addr t)) (h' (g_addr t))" using h'(3) by (simp add: queue_only_def)
  have ea: "rel_option same_elem (Some n) (h' a)" using h'(3) by (simp add: queue_only_def)
  then obtain n' where n': "h' a = Some n'" "same_elem n n'" by (cases "h' a") auto
  have nd: "node_data n' = (Some token, None, False, True, p)" "tqh_first n' = Null" "tqh_last n' = First a"
    using same_elem_fields[OF n'(2)] n by (simp_all add: node_data_def same_ends_def zero_cnode_def)
  have "queue h' a []" using n'(1) nd by (simp add: queue_def)
  then have leaf: "tree_at h' (leaf_g a token p)" using n'(1) nd by (simp add: leaf_g_def node_is_def g_data_def)
  have "node_is h' ?t" using node_is_head[of h t h'] hd tree_at_iff[of h t] tr by simp
  then have "tree_at h' ?t" using h'(2) kept leaf tree_kids_named[OF tr] unfolding tree_at_iff[of h' ?t] by auto
  moreover have ad: "addrs ?t = addrs t @ [a]" using addrs_below[of t] by (simp add: below_def)
  moreover have "rel_option same_links (h (g_addr t)) (h' (g_addr t))"
    using hd by (auto intro: option.rel_mono_strong dest: same_head_fields)
  moreover have "h' b = h b" if b: "b \<notin> set (addrs t) \<union> {a}" for b
  proof -
    have "b \<notin> insert (g_addr t) (set (map g_addr (g_kids t) @ [a]))" using b ks by auto
    then show ?thesis using h'(3) b by (simp add: queue_only_def)
  qed
  ultimately have "changed h t {a} h' ?t" using d na by (simp add: changed_def good_def del: with_kids_sel(7))
  then show ?thesis using h'(1) by blast
qed

lemma new_child_ok:
  assumes "good h t" "h a = None"
  shows "\<exists>h'. new_child (g_addr t) token (Some a) h = Some (a, h') \<and>
    changed h t {a} h' (with_kids t (g_kids t @ [leaf_g a token (Ptr (g_addr t))]))"
  using link_child[OF assms refl, where token = token and p = "Ptr (g_addr t)"] by (auto simp: new_child_def new_node at_node_def)

lemma set_value_ok:
  assumes "good h t"
  shows "\<exists>h' t'. set_value (g_addr t) val ov h = Some h' \<and> changed h t {} h' t' \<and>
    erase t' = set_override ov (set_val (Some val) (erase t))"
proof -
  obtain a nm v sq o' pa ks where t: "t = G a nm v sq o' pa ks" by (cases t)
  have tr: "tree_at h t" and d: "distinct (addrs t)" using assms by (simp_all add: good_def)
  then obtain n where n: "h a = Some n" "node_data n = g_data t" using t by (auto simp: node_is_def)
  let ?n = "n\<lparr>nd_val := Some val, nd_override := ov\<rparr>" and ?t = "G a nm (Some val) sq ov pa ks"
  let ?h = "h(a \<mapsto> ?n)"
  have "node_is ?h ?t" using n t by (simp add: node_is_def node_data_def g_data_def)
  moreover have na: "a \<notin> set (addrs k)" if "k \<in> set ks" for k using d t that by auto
  then have "tree_at ?h k" if "k \<in> set ks" for k using tree_same[of h k ?h] tr t that by auto
  moreover have "queue ?h a (map g_addr ks)"
  proof (rule queue_frame)
    show "queue h a (map g_addr ks)" using tr t by simp
    have "a \<notin> g_addr ` set ks" using na root_in by fastforce
    then show "\<forall>b \<in> set (map g_addr ks). rel_option same_links (h b) (?h b)" by auto
  qed (use n in \<open>simp add: same_ends_def\<close>)
  ultimately have "tree_at ?h ?t" using tr t by simp
  then have "changed h t {} ?h ?t" using d t n by (auto simp: changed_def good_def same_links_def)
  moreover have "set_value a val ov h = Some ?h" using n by (simp add: set_value_def at_node_def)
  ultimately show ?thesis using t by (intro exI[of _ ?h] exI[of _ ?t]) simp
qed

lemma changed_mono: "changed h t M h' t' \<Longrightarrow> M \<subseteq> N \<Longrightarrow> changed h t N h' t'"
  unfolding changed_def by blast

lemma changed_trans:
  assumes "changed h t M h1 t1" "changed h1 t1 N h2 t2"
  shows "changed h t (M \<union> N) h2 t2"
proof -
  have "rel_option same_links x z" if "rel_option same_links x y" "rel_option same_links y z" for x y z
    using that by (cases x; cases y; cases z) (auto simp: same_links_def)
  then show ?thesis using assms unfolding changed_def by (smt (verit) UnCI UnE subset_iff)
qed

text \<open>The walk of \<open>ConfSet\<close>.\<close>

lemma set_loop_ok:
  assumes "good h t" "ts \<noteq> []" "distinct fs" "\<forall>x \<in> set fs. h x = None" "length ts \<le> length fs"
  shows "\<exists>h' t'. set_loop (g_addr t) ts val ov (map Some fs) h = Some h' \<and> changed h t (set fs) h' t' \<and>
    erase t' = set_path (erase t) ts val ov"
  using assms
proof (induction ts arbitrary: t h fs)
  case (Cons token ts)
  have tr: "tree_at h t" using Cons.prems(1) by (simp add: good_def)
  have step: "\<exists>h' c'. (if ts = [] then do {n \<leftarrow> h1 (g_addr c); if nd_override n then set_value (g_addr c) val ov h1 else Some h1}
        else set_loop (g_addr c) ts val ov (map Some gs) h1) = Some h' \<and> changed h1 c (set gs) h' c' \<and> erase c' = set_path (erase c) ts val ov"
    if c: "good h1 c" "distinct gs" "\<forall>x \<in> set gs. h1 x = None" "length ts \<le> length gs" for h1 c gs
  proof (cases "ts = []")
    case True
    obtain n where n: "h1 (g_addr c) = Some n" "nd_override n = g_override c"
      using node_is_name[of h1 c] c(1) tree_at_iff[of h1 c] by (auto simp: good_def)
    show ?thesis
    proof (cases "g_override c")
      case ov: True
      obtain h' c' where h': "set_value (g_addr c) val ov h1 = Some h'" "changed h1 c {} h' c'"
          "erase c' = set_override ov (set_val (Some val) (erase c))" using set_value_ok[OF c(1), of val ov] by blast
      then have "changed h1 c (set gs) h' c'" using changed_mono by blast
      then show ?thesis using h' n True ov by (intro exI[of _ h'] exI[of _ c']) simp
    next
      case False
      then show ?thesis using True n c(1) by (intro exI[of _ h1] exI[of _ c]) (simp add: changed_def)
    qed
  next
    case False
    then show ?thesis using Cons.IH[OF c(1) False c(2,3,4)] by simp
  qed
  show ?case
  proof (cases "child_index (cn_head (erase t)) token")
    case (Some i)
    from child_split[OF this] obtain xs c ys where c: "g_kids t = xs @ c # ys" "length xs = i" "g_kids t ! i = c" "cn_head (erase t) ! i = erase c" by metis
    have gc: "good h c" using tree_kids_named[OF tr] c(1) Cons.prems(1) split_addrs[OF c(1)] by (simp add: good_def)
    have len: "length ts \<le> length fs" using Cons.prems(5) by simp
    obtain h' c' where h': "(if ts = [] then do {n \<leftarrow> h (g_addr c); if nd_override n then set_value (g_addr c) val ov h else Some h}
        else set_loop (g_addr c) ts val ov (map Some fs) h) = Some h'" "changed h c (set fs) h' c'" "erase c' = set_path (erase c) ts val ov"
      using step[OF gc Cons.prems(3,4) len] by blast
    have "set fs \<inter> set (addrs t) = {}" using tree_alloc[OF tr] Cons.prems(4) by fastforce
    from change_kid[OF Cons.prems(1) c(1) h'(2) this] have "changed h t (set fs) h' (with_kids t (xs @ c' # ys))" .
    moreover have "erase (with_kids t (xs @ c' # ys)) = set_path (erase t) (token # ts) val ov"
      using Some c h'(3) by (simp add: update_child_def list_update_append)
    moreover have "set_loop (g_addr t) (token # ts) val ov (map Some fs) h = Some h'"
      using h'(1) lookup_ok[OF tr, of token] Some c(3) by simp
    ultimately show ?thesis by blast
  next
    case None
    obtain a gs where fs: "fs = a # gs" using Cons.prems(5) by (cases fs) auto
    let ?c = "leaf_g a token (Ptr (g_addr t))"
    have "h a = None" using Cons.prems(4) fs by simp
    from new_child_ok[OF Cons.prems(1) this] obtain h1 where h1: "new_child (g_addr t) token (Some a) h = Some (a, h1)"
        "changed h t {a} h1 (with_kids t (g_kids t @ [?c]))" by blast
    let ?t1 = "with_kids t (g_kids t @ [?c])"
    have g1: "good h1 ?t1" using h1(2) by (simp add: changed_def)
    have gc: "good h1 ?c" using g1 tree_kids_named[of h1 ?t1] by (simp add: good_def)
    have ft: "set fs \<inter> set (addrs t) = {}" using tree_alloc[OF tr] Cons.prems(4) by fastforce
    have fresh: "\<forall>x \<in> set gs. h1 x = None"
      using h1(2) Cons.prems(3,4) fs ft unfolding changed_def by auto
    have dg: "distinct gs" "length ts \<le> length gs" using Cons.prems(3,5) fs by simp_all
    obtain h' c' where h': "(if ts = [] then do {n \<leftarrow> h1 a; if nd_override n then set_value a val ov h1 else Some h1}
        else set_loop a ts val ov (map Some gs) h1) = Some h'" "changed h1 ?c (set gs) h' c'" "erase c' = set_path (erase ?c) ts val ov"
      using step[OF gc dg(1) fresh dg(2)] unfolding leaf_g_sel(1) by blast
    have "set gs \<inter> set (addrs ?t1) = {}" using ft fs Cons.prems(3) addrs_below[of t] by (auto simp: below_def)
    from change_kid[OF g1 _ h'(2) this, of "g_kids t" "[]"] have "changed h1 ?t1 (set gs) h' (with_kids ?t1 (g_kids t @ [c']))" by simp
    from changed_trans[OF h1(2) this] have "changed h t (set fs) h' (with_kids ?t1 (g_kids t @ [c']))" using fs by simp
    moreover have "erase (with_kids ?t1 (g_kids t @ [c'])) = set_path (erase t) (token # ts) val ov"
      using None h'(3) by (simp add: add_child_def ConfNodeNew_def)
    moreover have "set_loop (g_addr t) (token # ts) val ov (map Some fs) h = Some h'"
      using h'(1) lookup_ok[OF tr, of token] None h1(1) fs by simp
    ultimately show ?thesis by blast
  qed
qed simp

text \<open>A node that is there already gets its value in place.\<close>

lemma set_found:
  assumes "good h t" "get_path (erase t) ts = Some nd"
  shows "\<exists>x n. get_path_h h (g_addr t) ts = Some (Ptr x) \<and> h x = Some n \<and> nd_override n = cn_override nd \<and>
    (nd_override n \<longrightarrow> (\<exists>h' t'. set_value x val ov h = Some h' \<and> changed h t {} h' t' \<and> erase t' = set_path (erase t) ts val ov))"
  using assms
proof (induction ts arbitrary: t)
  case Nil
  obtain n where "h (g_addr t) = Some n" "nd_override n = g_override t"
    using node_is_name[of h t] Nil.prems(1) tree_at_iff[of h t] by (auto simp: good_def)
  then show ?case using Nil.prems set_value_ok[OF Nil.prems(1), of val ov] by auto
next
  case (Cons token ts)
  have tr: "tree_at h t" using Cons.prems(1) by (simp add: good_def)
  obtain i where i: "child_index (cn_head (erase t)) token = Some i"
    using Cons.prems(2) by (cases "child_index (cn_head (erase t)) token") (simp_all add: ConfNodeLookupChild_def)
  from child_split[OF this] obtain xs c ys where c: "g_kids t = xs @ c # ys" "length xs = i" "g_kids t ! i = c" "cn_head (erase t) ! i = erase c" by metis
  have gc: "good h c" using tree_kids_named[OF tr] c(1) Cons.prems(1) split_addrs[OF c(1)] by (simp add: good_def)
  have "get_path (erase c) ts = Some nd" using Cons.prems(2) i c(4) by (simp add: ConfNodeLookupChild_def)
  from Cons.IH[OF gc this] obtain x n where x: "get_path_h h (g_addr c) ts = Some (Ptr x)" "h x = Some n" "nd_override n = cn_override nd"
      "nd_override n \<longrightarrow> (\<exists>h' c'. set_value x val ov h = Some h' \<and> changed h c {} h' c' \<and> erase c' = set_path (erase c) ts val ov)" by blast
  have "\<exists>h' t'. set_value x val ov h = Some h' \<and> changed h t {} h' t' \<and> erase t' = set_path (erase t) (token # ts) val ov" if o: "nd_override n"
  proof -
    obtain h' c' where h': "set_value x val ov h = Some h'" "changed h c {} h' c'" "erase c' = set_path (erase c) ts val ov" using x(4) o by blast
    have "changed h t {} h' (with_kids t (xs @ c' # ys))" by (rule change_kid[OF Cons.prems(1) c(1) h'(2)]) simp
    moreover have "erase (with_kids t (xs @ c' # ys)) = set_path (erase t) (token # ts) val ov"
      using i c h'(3) by (simp add: update_child_def list_update_append)
    ultimately show ?thesis using h'(1) by blast
  qed
  moreover have "get_path_h h (g_addr t) (token # ts) = Some (Ptr x)" using lookup_ok[OF tr, of token] i c(3) x(1) by simp
  ultimately show ?case using x(2,3) by blast
qed

text \<open>
  C29. The function \<open>ConfSet\<close> on the pointers is that on the tree. On a well-formed heap, with memory for the nodes that are missing, it returns the same
  code, does nothing undefined, and leaves a well-formed heap that holds exactly the tree that the function on trees gives;
  outside of the tree and the new nodes nothing changes.
\<close>

theorem conf_set_refines:
  assumes "good h t" and "toks [] name \<noteq> []" and "distinct fs" and "\<forall>x \<in> set fs. h x = None" and "length (toks [] name) \<le> length fs"
  shows "\<exists>r h' t'. ConfSet_h (g_addr t) name val ov (map Some fs) h = Some (r, h') \<and> good h' t' \<and> g_addr t' = g_addr t \<and>
    ConfSet (Some (erase t)) name val ov = Some (r, Some (erase t')) \<and> (\<forall>b. b \<notin> set (addrs t) \<union> set fs \<longrightarrow> h' b = h b)"
proof -
  have tree: "ConfGetNode (Some (erase t)) name = Some (get_path (erase t) (toks [] name))"
    using assms(2) by (cases "toks [] name") (simp_all add: ConfGetNode_def)
  have tr: "tree_at h t" using assms(1) by (simp add: good_def)
  show ?thesis
  proof (cases "get_path (erase t) (toks [] name)")
    case None
    have "get_path_h h (g_addr t) (toks [] name) = Some Null" using get_path_ok[OF tr, of "toks [] name"] None by auto
    moreover obtain h' t' where "set_loop (g_addr t) (toks [] name) val ov (map Some fs) h = Some h'" "changed h t (set fs) h' t'"
        "erase t' = set_path (erase t) (toks [] name) val ov"
      using set_loop_ok[OF assms(1-5)] by blast
    ultimately show ?thesis
      using None tree assms(2) by (intro exI[of _ 1] exI[of _ h'] exI[of _ t']) (simp add: ConfSet_h_def ConfSet_def get_node_path changed_def)
  next
    case (Some nd)
    obtain x n where x: "get_path_h h (g_addr t) (toks [] name) = Some (Ptr x)" "h x = Some n" "nd_override n = cn_override nd"
      "nd_override n \<longrightarrow> (\<exists>h' t'. set_value x val ov h = Some h' \<and> changed h t {} h' t' \<and> erase t' = set_path (erase t) (toks [] name) val ov)"
      using set_found[OF assms(1) Some] by blast
    show ?thesis
    proof (cases "nd_override n")
      case True
      then obtain h' t' where "set_value x val ov h = Some h'" "changed h t {} h' t'" "erase t' = set_path (erase t) (toks [] name) val ov"
        using x(4) by blast
      then show ?thesis
        using Some tree assms(2) x(1-3) True by (intro exI[of _ 1] exI[of _ h'] exI[of _ t']) (simp add: ConfSet_h_def ConfSet_def get_node_path changed_def)
    next
      case False
      then show ?thesis
        using Some tree assms(1,2) x(1-3) by (intro exI[of _ 0] exI[of _ h] exI[of _ t]) (simp add: ConfSet_h_def ConfSet_def get_node_path)
    qed
  qed
qed

subsection \<open>The end of a tree, and loaded nodes\<close>

definition ConfDeInit_h :: "nat option \<Rightarrow> conf_heap \<Rightarrow> (nat option \<times> conf_heap) option" where
  "ConfDeInit_h root h =
     (case root of
        None \<Rightarrow> Some (None, h)
      | Some r \<Rightarrow> do {h' \<leftarrow> ConfNodeFree r h; Some (None, h')})"

text \<open>
  C31. The end of a configuration frees every node of its tree once, with all below it, changes no other memory, and reads
  nothing that is freed.
\<close>

theorem conf_free_exact:
  assumes "good h t"
  shows "ConfDeInit_h (Some (g_addr t)) h = Some (None, h |` (- set (addrs t)))"
  using assms free_ok[of h t] by (simp add: ConfDeInit_h_def good_def)

text \<open>The nodes the loader makes: for a key, and for a scalar in a sequence. None of them is given a parent.\<close>

definition yaml_key_node :: "nat \<Rightarrow> string \<Rightarrow> nat option \<Rightarrow> conf_heap \<Rightarrow> (nat \<times> conf_heap) option" where
  "yaml_key_node parent name m h = do {
     (p, h1) \<leftarrow> ConfNodeNew_h m h;
     (case p of
        Ptr a \<Rightarrow> do {
          h2 \<leftarrow> at_node h1 a (\<lambda>n. n\<lparr>nd_name := Some name\<rparr>);
          h3 \<leftarrow> TAILQ_INSERT_TAIL h2 parent a;
          Some (a, h3)}
      | _ \<Rightarrow> None)}"

lemma yaml_key_node_ok:
  assumes "good h t" "h a = None"
  shows "\<exists>h'. yaml_key_node (g_addr t) name (Some a) h = Some (a, h') \<and>
    changed h t {a} h' (with_kids t (g_kids t @ [leaf_g a name Null]))"
proof -
  have "zero_cnode\<lparr>nd_override := True, tqh_first := Null, tqh_last := First a, nd_name := Some name\<rparr> =
      zero_cnode\<lparr>nd_override := True, tqh_first := Null, tqh_last := First a, nd_name := Some name, nd_parent := Null\<rparr>"
    by (simp add: zero_cnode_def)
  with link_child[OF assms refl, where token = name and p = Null] show ?thesis
    by (auto simp: yaml_key_node_def new_node at_node_def)
qed

subsection \<open>Examples\<close>

definition root_heap :: conf_heap where
  "root_heap = [0 \<mapsto> zero_cnode\<lparr>nd_override := True, tqh_first := Null, tqh_last := First 0\<rparr>]"

definition root_g :: gtree where
  "root_g = G 0 None None False True Null []"

lemma root_sel [simp]: "g_addr root_g = 0" "g_kids root_g = []" "addrs root_g = [0]" "erase root_g = ConfNode '''' None False True []"
    "g_name root_g = None"
  by (simp_all add: root_g_def)

lemma root_made: "ConfNodeNew_h (Some 0) Map.empty = Some (Ptr 0, root_heap)"
  by (simp add: new_node root_heap_def)

lemma root_good: "good root_heap root_g"
  by (simp add: good_def root_g_def root_heap_def node_is_def node_data_def g_data_def queue_def zero_cnode_def)

theorem conf_set_refines_witness:
  "\<exists>h' t'. ConfSet_h 0 ''ma.port'' ''7'' True (map Some [1, 2]) root_heap = Some (1, h') \<and> good h' t' \<and>
     erase t' = ConfNode '''' None False True [ConfNode ''ma'' None False True [ConfNode ''port'' (Some ''7'') False True []]]"
proof -
  have t: "toks [] ''ma.port'' \<noteq> []" "length (toks [] ''ma.port'') \<le> length [1, 2 :: nat]" by simp_all
  have f: "\<forall>x \<in> set [1, 2]. root_heap x = None" by (simp add: root_heap_def)
  have "ConfSet (Some (erase root_g)) ''ma.port'' ''7'' True =
      Some (1, Some (ConfNode '''' None False True [ConfNode ''ma'' None False True [ConfNode ''port'' (Some ''7'') False True []]]))"
    by (simp add: ConfSet_def ConfGetNode_def ConfNodeLookupChild_def add_child_def ConfNodeNew_def)
  with conf_set_refines[OF root_good t(1) _ f t(2), of "''7''" True] show ?thesis by auto
qed

theorem conf_remove_frees_witness:
  "\<exists>h' h''. new_child 0 ''dev'' (Some 1) root_heap = Some (1, h') \<and> ConfRemove 0 ''dev'' h' = Some (1, h'') \<and> h'' 1 = None"
proof -
  have "root_heap 1 = None" by (simp add: root_heap_def)
  from new_child_ok[OF root_good this, of "''dev''"] obtain h' where h':
    "new_child 0 ''dev'' (Some 1) root_heap = Some (1, h')" "changed root_heap root_g {1} h' (with_kids root_g [leaf_g 1 ''dev'' (Ptr 0)])"
    by auto
  let ?t = "with_kids root_g [leaf_g 1 ''dev'' (Ptr 0)]"
  have g: "good h' ?t" using h'(2) by (simp add: changed_def)
  have p: "parents_ok ?t" by (simp add: with_kids_def leaf_g_def)
  have "toks [] ''dev'' \<noteq> []" by simp
  from conf_remove_frees[OF g p this] obtain h'' t' where r: "ConfRemove 0 ''dev'' h' = Some (1, h'')" "g_addr t' = 0"
      "erase t' = ConfNode '''' None False True []" "\<forall>b \<in> set (addrs ?t) - set (addrs t'). h'' b = None"
    by (auto simp: ConfNodeLookupChild_def)
  have "addrs t' = [0]" using r(2,3) by (cases t') simp
  then have "h'' 1 = None" using r(4) by simp
  then show ?thesis using h'(1) r(1) by blast
qed

theorem conf_free_exact_witness:
  "ConfDeInit_h (Some 0) root_heap = Some (None, Map.empty)"
proof -
  have "root_heap |` (- {0}) = Map.empty" by (rule ext) (simp add: root_heap_def restrict_map_def)
  then show ?thesis using conf_free_exact[OF root_good] by simp
qed

theorem loaded_removal_dangles_witness:
  "\<exists>h' h''. yaml_key_node 0 ''dev'' (Some 1) root_heap = Some (1, h') \<and> ConfRemove 0 ''dev'' h' = Some (1, h'') \<and>
     h'' 1 = None \<and> ConfGetNode_h h'' 0 ''dev'' = None"
proof -
  have "root_heap 1 = None" by (simp add: root_heap_def)
  from yaml_key_node_ok[OF root_good this, of "''dev''"] obtain h' where h':
    "yaml_key_node 0 ''dev'' (Some 1) root_heap = Some (1, h')" "changed root_heap root_g {1} h' (with_kids root_g [leaf_g 1 ''dev'' Null])"
    by auto
  let ?t = "with_kids root_g [leaf_g 1 ''dev'' Null]"
  have g: "good h' ?t" using h'(2) by (simp add: changed_def)
  then have tr: "tree_at h' ?t" by (simp add: good_def)
  have "toks [] ''dev'' \<noteq> []" by simp
  moreover have "ConfGetNode_h h' 0 ''dev'' = Some (Ptr 1)"
    using lookup_ok[OF tr, of "''dev''"] by (simp add: ConfGetNode_h_def)
  moreover have "map_option nd_parent (h' 1) = Some Null"
    using node_is_name[of h' "leaf_g 1 ''dev'' Null"] tree_kids_named[OF tr] by auto
  ultimately show ?thesis using loaded_removal_dangles[OF g, of "''dev''" 1] h'(1) by auto
qed

end
