(* ===== verification/Atomic_Counter.thy ===== *)
theory Atomic_Counter
  imports VPU_Prelude
begin

text \<open>
  The atomic cells of \<open>src/src/atomic.h\<close> and the statistics of \<open>src/src/counter.c\<close>.
  A cell is the word it holds. An operation that changes the cell returns its result
  together with the new value; a gcc \<open>__sync\<close> builtin is one indivisible step, so the
  interleaving of several threads on one cell is a list of such steps.
\<close>

subsection \<open>The gcc builtins\<close>

definition sync_fetch_and_add :: "'a::len word \<Rightarrow> 'a word \<Rightarrow> 'a word \<times> 'a word" where
  "sync_fetch_and_add c n = (c, c + n)"

definition sync_fetch_and_sub :: "'a::len word \<Rightarrow> 'a word \<Rightarrow> 'a word \<times> 'a word" where
  "sync_fetch_and_sub c n = (c, c - n)"

definition sync_add_and_fetch :: "'a::len word \<Rightarrow> 'a word \<Rightarrow> 'a word \<times> 'a word" where
  "sync_add_and_fetch c n = (c + n, c + n)"

definition sync_sub_and_fetch :: "'a::len word \<Rightarrow> 'a word \<Rightarrow> 'a word \<times> 'a word" where
  "sync_sub_and_fetch c n = (c - n, c - n)"

lemmas sync_defs = sync_fetch_and_add_def sync_fetch_and_sub_def
  sync_add_and_fetch_def sync_sub_and_fetch_def

subsection \<open>16-bit cells\<close>

definition atomic16_init :: "u16 \<Rightarrow> u16" where "atomic16_init v = 0"
definition atomic16_read :: "u16 \<Rightarrow> u16" where "atomic16_read v = v"
definition atomic16_set :: "u16 \<Rightarrow> u16 \<Rightarrow> u16" where "atomic16_set v new_value = new_value"
definition atomic16_add :: "u16 \<Rightarrow> u16 \<Rightarrow> u16 \<times> u16" where
  "atomic16_add v inc = sync_fetch_and_add v inc"
definition atomic16_sub :: "u16 \<Rightarrow> u16 \<Rightarrow> u16 \<times> u16" where
  "atomic16_sub v dec = sync_fetch_and_sub v dec"
definition atomic16_inc :: "u16 \<Rightarrow> u16" where "atomic16_inc v = snd (atomic16_add v 1)"
definition atomic16_dec :: "u16 \<Rightarrow> u16" where "atomic16_dec v = snd (atomic16_sub v 1)"
definition atomic16_add_return :: "u16 \<Rightarrow> u16 \<Rightarrow> u16 \<times> u16" where
  "atomic16_add_return v inc = sync_add_and_fetch v inc"
definition atomic16_sub_return :: "u16 \<Rightarrow> u16 \<Rightarrow> u16 \<times> u16" where
  "atomic16_sub_return v dec = sync_sub_and_fetch v dec"
definition atomic16_clear :: "u16 \<Rightarrow> u16" where "atomic16_clear v = 0"

subsection \<open>32-bit cells\<close>

definition atomic32_init :: "u32 \<Rightarrow> u32" where "atomic32_init v = 0"
definition atomic32_read :: "u32 \<Rightarrow> u32" where "atomic32_read v = v"
definition atomic32_set :: "u32 \<Rightarrow> u32 \<Rightarrow> u32" where "atomic32_set v new_value = new_value"
definition atomic32_add :: "u32 \<Rightarrow> u32 \<Rightarrow> u32 \<times> u32" where
  "atomic32_add v inc = sync_fetch_and_add v inc"
definition atomic32_sub :: "u32 \<Rightarrow> u32 \<Rightarrow> u32 \<times> u32" where
  "atomic32_sub v dec = sync_fetch_and_sub v dec"
definition atomic32_inc :: "u32 \<Rightarrow> u32" where "atomic32_inc v = snd (atomic32_add v 1)"
definition atomic32_dec :: "u32 \<Rightarrow> u32" where "atomic32_dec v = snd (atomic32_sub v 1)"
definition atomic32_add_return :: "u32 \<Rightarrow> u32 \<Rightarrow> u32 \<times> u32" where
  "atomic32_add_return v inc = sync_add_and_fetch v inc"
definition atomic32_sub_return :: "u32 \<Rightarrow> u32 \<Rightarrow> u32 \<times> u32" where
  "atomic32_sub_return v dec = sync_sub_and_fetch v dec"
definition atomic32_inc_and_test :: "u32 \<Rightarrow> int \<times> u32" where
  "atomic32_inc_and_test v =
     (let (r, v') = sync_add_and_fetch v 1 in (if r = 0 then 1 else 0, v'))"
definition atomic32_clear :: "u32 \<Rightarrow> u32" where "atomic32_clear v = 0"

subsection \<open>64-bit cells\<close>

text \<open>
  The four operations with a result are declared \<open>uint32_t\<close>, so the 64-bit result of the
  builtin is truncated on return; the cell itself is updated at its full width.
\<close>

definition atomic64_init :: "u64 \<Rightarrow> u64" where "atomic64_init v = 0"
definition atomic64_read :: "u64 \<Rightarrow> u64" where "atomic64_read v = v"
definition atomic64_set :: "u64 \<Rightarrow> u64 \<Rightarrow> u64" where "atomic64_set v new_value = new_value"
definition atomic64_add :: "u64 \<Rightarrow> u64 \<Rightarrow> u32 \<times> u64" where
  "atomic64_add v inc = (let (r, v') = sync_fetch_and_add v inc in (ucast r, v'))"
definition atomic64_sub :: "u64 \<Rightarrow> u64 \<Rightarrow> u32 \<times> u64" where
  "atomic64_sub v dec = (let (r, v') = sync_fetch_and_sub v dec in (ucast r, v'))"
definition atomic64_inc :: "u64 \<Rightarrow> u64" where "atomic64_inc v = snd (atomic64_add v 1)"
definition atomic64_dec :: "u64 \<Rightarrow> u64" where "atomic64_dec v = snd (atomic64_sub v 1)"
definition atomic64_add_return :: "u64 \<Rightarrow> u64 \<Rightarrow> u32 \<times> u64" where
  "atomic64_add_return v inc = (let (r, v') = sync_add_and_fetch v inc in (ucast r, v'))"
definition atomic64_sub_return :: "u64 \<Rightarrow> u64 \<Rightarrow> u32 \<times> u64" where
  "atomic64_sub_return v dec = (let (r, v') = sync_sub_and_fetch v dec in (ucast r, v'))"
definition atomic64_inc_and_test :: "u64 \<Rightarrow> int \<times> u64" where
  "atomic64_inc_and_test v =
     (let (r, v') = sync_add_and_fetch v 1 in (if r = 0 then 1 else 0, v'))"
definition atomic64_clear :: "u64 \<Rightarrow> u64" where "atomic64_clear v = 0"

lemmas atomic16_defs = atomic16_init_def atomic16_read_def atomic16_set_def atomic16_add_def
  atomic16_sub_def atomic16_inc_def atomic16_dec_def atomic16_add_return_def
  atomic16_sub_return_def atomic16_clear_def sync_defs
lemmas atomic32_defs = atomic32_init_def atomic32_read_def atomic32_set_def atomic32_add_def
  atomic32_sub_def atomic32_inc_def atomic32_dec_def atomic32_add_return_def
  atomic32_sub_return_def atomic32_inc_and_test_def atomic32_clear_def sync_defs
lemmas atomic64_defs = atomic64_init_def atomic64_read_def atomic64_set_def atomic64_add_def
  atomic64_sub_def atomic64_inc_def atomic64_dec_def atomic64_add_return_def
  atomic64_sub_return_def atomic64_inc_and_test_def atomic64_clear_def sync_defs

lemma atomic64_snd [simp]:
  "snd (atomic64_add v n) = v + n" "snd (atomic64_sub v n) = v - n"
  by (simp_all add: atomic64_defs)

lemma atomic32_snd [simp]:
  "snd (atomic32_add v n) = v + n" "snd (atomic32_sub v n) = v - n"
  "atomic32_read v = v" "fst (atomic32_add v n) = v"
  by (simp_all add: atomic32_defs)

subsection \<open>The contract of a shared counter\<close>

text \<open>
  What the users of a cell rely on. The second locale adds that the addition hands back
  the value it found, which makes the results of concurrent additions distinct tickets;
  the 64-bit cells do not keep it.
\<close>

locale shared_counter =
  fixes init :: "'c \<Rightarrow> 'c"
    and read_cell :: "'c \<Rightarrow> 'a::len word"
    and add_cell :: "'c \<Rightarrow> 'a word \<Rightarrow> 'r \<times> 'c"
    and sub_cell :: "'c \<Rightarrow> 'a word \<Rightarrow> 'r \<times> 'c"
  assumes read_init: "read_cell (init c) = 0"
    and read_add: "read_cell (snd (add_cell c n)) = read_cell c + n"
    and read_sub: "read_cell (snd (sub_cell c n)) = read_cell c - n"
begin

lemma no_lost_update:
  "read_cell (fold (\<lambda>(up, n) c. snd (if up then add_cell c n else sub_cell c n)) ops c) =
     read_cell c + sum_list (map snd (filter fst ops))
       - sum_list (map snd (filter (Not \<circ> fst) ops))"
  by (induction ops arbitrary: c) (auto simp: read_add read_sub algebra_simps)

end

locale ticket_counter = shared_counter init read_cell add_cell sub_cell
  for init :: "'c \<Rightarrow> 'c" and read_cell :: "'c \<Rightarrow> 'a::len word"
    and add_cell :: "'c \<Rightarrow> 'a word \<Rightarrow> 'a word \<times> 'c" and sub_cell :: "'c \<Rightarrow> 'a word \<Rightarrow> 'a word \<times> 'c" +
  assumes add_returns_old: "fst (add_cell c n) = read_cell c"
begin

lemma next_ticket: "fst (add_cell (snd (add_cell c n)) m) = fst (add_cell c n) + n"
  by (simp add: add_returns_old read_add)

end

interpretation a16: ticket_counter atomic16_init atomic16_read atomic16_add atomic16_sub
  by unfold_locales (simp_all add: atomic16_defs)

interpretation a32: ticket_counter atomic32_init atomic32_read atomic32_add atomic32_sub
  by unfold_locales (simp_all add: atomic32_defs)

interpretation a64: shared_counter atomic64_init atomic64_read atomic64_add atomic64_sub
  by unfold_locales (simp_all add: atomic64_defs)

text \<open>
  No update of a statistics counter is lost: whatever the interleaving of the
  threads' \<open>atomic64_add\<close> and \<open>atomic64_sub\<close> calls, reading the counter afterwards gives
  the initial value plus everything added minus everything subtracted, modulo 2 to the 64.
\<close>

theorem counter_no_lost_update:
  "atomic64_read (fold (\<lambda>(up, n) c. snd (if up then atomic64_add c n else atomic64_sub c n)) ops c) =
     c + sum_list (map snd (filter fst ops)) - sum_list (map snd (filter (Not \<circ> fst) ops))"
  using a64.no_lost_update[of ops c] by (simp add: atomic64_read_def)

subsection \<open>The statistics\<close>

record counters =
  all_pkts :: u64
  lost_pkts :: u64
  voice_pkts :: u64
  other_pkts :: u64
  call_start :: u64
  call_end :: u64
  call_online :: u64
  call_timeout :: u64
  file_ok :: u64
  file_fail :: u64
  fax_lost :: u64
  fax_enqueue :: u64
  fax_dequeue :: u64
  fax_send :: u64
  fax_ack :: u64
  fax_yes :: u64
  fax_no :: u64

definition init_atomic_counter :: "counters \<Rightarrow> counters" where
  "init_atomic_counter c = c
    \<lparr>all_pkts := atomic64_init (all_pkts c),
     lost_pkts := atomic64_init (lost_pkts c),
     voice_pkts := atomic64_init (voice_pkts c),
     other_pkts := atomic64_init (other_pkts c),
     call_start := atomic64_init (call_start c),
     call_end := atomic64_init (call_end c),
     call_online := atomic64_init (call_online c),
     call_timeout := atomic64_init (call_timeout c),
     file_ok := atomic64_init (file_ok c),
     file_fail := atomic64_init (file_fail c),
     fax_lost := atomic64_init (fax_lost c),
     fax_enqueue := atomic64_init (fax_enqueue c),
     fax_dequeue := atomic64_init (fax_dequeue c),
     fax_yes := atomic64_init (fax_yes c),
     fax_no := atomic64_init (fax_no c)\<rparr>"

text \<open>The C globals start as zeros, whether or not the initialiser names them.\<close>

definition zero_counters :: counters where
  "zero_counters = \<lparr>all_pkts = 0, lost_pkts = 0, voice_pkts = 0, other_pkts = 0,
     call_start = 0, call_end = 0, call_online = 0, call_timeout = 0, file_ok = 0, file_fail = 0,
     fax_lost = 0, fax_enqueue = 0, fax_dequeue = 0, fax_send = 0, fax_ack = 0, fax_yes = 0, fax_no = 0\<rparr>"

lemma init_atomic_counter_zero: "init_atomic_counter zero_counters = zero_counters"
  by (simp add: init_atomic_counter_def zero_counters_def atomic64_init_def)

end
