(* ===== verification/File_Dirs.thy ===== *)
theory File_Dirs
  imports Atomic_Counter
begin

text \<open>
  Where the voice files go: the position encoded in a call id (\<open>get_file_struct\<close> and others),
  the table of storage directories (\<open>fill_file_dirs\<close>, \<open>create_file_dirs\<close> of
  \<open>src/src/conf.c\<close>), the choice of a directory for a new call (\<open>get_root_dir\<close> of
  \<open>src/src/voice_parser.c\<close>), and the names of the two files of a call.

  The file system is a parameter: predicates that say which paths are directories, and the
  result of each \<open>mkdir\<close>.
\<close>

subsection \<open>Call ids\<close>

definition call_pos :: "u64 \<Rightarrow> u32" where
  "call_pos callid = ucast (drop_bit 15 callid AND 0x1ffff)"

definition sr155_no :: "u64 \<Rightarrow> u8" where
  "sr155_no callid = ucast (drop_bit 11 (call_pos callid))"

definition e1_no :: "u64 \<Rightarrow> u8" where
  "e1_no callid = ucast (drop_bit 5 (call_pos callid) AND 0x3f)"

definition ts_no :: "u64 \<Rightarrow> u8" where
  "ts_no callid = ucast (call_pos callid AND 0x1f)"

definition call_time :: "u64 \<Rightarrow> int" where
  "call_time callid = uint (drop_bit 32 callid AND 0xffffffff)"

lemma mask_numerals:
  "(0x1ffff :: 'a::len word) = mask 17" "(0x3f :: 'a::len word) = mask 6" "(0x1f :: 'a::len word) = mask 5"
  "(0xffffffff :: 'a::len word) = mask 32"
  by (simp_all add: mask_eq_exp_minus_1)

lemma unat_take_bit_lt: "unat (take_bit n (w :: 'a::len word)) < 2 ^ n"
  by (metis take_bit_nat_less_exp unsigned_take_bit_eq)

lemma e1_no_lt: "unat (e1_no callid) < 64"
proof -
  have "e1_no callid = take_bit 6 (e1_no callid)"
    unfolding e1_no_def mask_numerals by (rule bit_word_eqI) (auto simp: bit_simps)
  then show ?thesis using unat_take_bit_lt[of 6 "e1_no callid"] by simp
qed

lemma ts_no_lt: "unat (ts_no callid) < 32"
proof -
  have "ts_no callid = take_bit 5 (ts_no callid)"
    unfolding ts_no_def mask_numerals by (rule bit_word_eqI) (auto simp: bit_simps)
  then show ?thesis using unat_take_bit_lt[of 5 "ts_no callid"] by simp
qed

lemma sr155_no_lt: "unat (sr155_no callid) < 64"
proof -
  have "sr155_no callid = take_bit 6 (sr155_no callid)"
    unfolding sr155_no_def call_pos_def mask_numerals by (rule bit_word_eqI) (auto simp: bit_simps)
  then show ?thesis using unat_take_bit_lt[of 6 "sr155_no callid"] by simp
qed

lemma call_time_range: "0 \<le> call_time callid \<and> call_time callid < 2 ^ 32"
proof -
  have "drop_bit 32 callid AND 0xffffffff = take_bit 32 (drop_bit 32 callid)"
    unfolding mask_numerals by (rule bit_word_eqI) (auto simp: bit_simps)
  then show ?thesis
    using unat_take_bit_lt[of 32 "drop_bit 32 callid"] by (simp add: call_time_def unat_eq_nat_uint del: nat_uint_eq)
qed

subsection \<open>The table of directories\<close>

abbreviation MAX_DIRS_NUM :: nat where "MAX_DIRS_NUM \<equiv> 16"
abbreviation MAX_DIRS_LEN :: nat where "MAX_DIRS_LEN \<equiv> 256"

record file_dirs_node =
  dir_name :: string
  disk_num :: u8
  write_flag :: u8

record file_dirs_info =
  fd_dirs :: "file_dirs_node list"
  fd_num :: u32

definition empty_dirs :: file_dirs_info where
  "empty_dirs = \<lparr>fd_dirs = replicate MAX_DIRS_NUM \<lparr>dir_name = '''', disk_num = 0, write_flag = 0\<rparr>, fd_num = 0\<rparr>"

text \<open>\<open>fill_file_dirs\<close>; \<open>reload_fill_file_dirs\<close> is the same code on the other table.\<close>

definition fill_file_dirs ::
  "(string \<Rightarrow> bool) \<Rightarrow> string option \<Rightarrow> u8 \<Rightarrow> file_dirs_info \<Rightarrow> (int \<times> file_dirs_info) option" where
  "fill_file_dirs is_dir dir disk fd =
     (let num = fd_num fd in
      case dir of
        None \<Rightarrow> Some (-1, fd)
      | Some d \<Rightarrow>
          (if 16 < num then Some (-1, fd)
           else if \<not> is_dir d then Some (-1, fd)
           else if MAX_DIRS_LEN \<le> length d then Some (-1, fd)
           else if unat num < length (fd_dirs fd)
                then Some (0, fd\<lparr>fd_dirs := (fd_dirs fd)[unat num :=
                       \<lparr>dir_name = take (MAX_DIRS_LEN - 1) d, disk_num = disk, write_flag = 1\<rparr>], fd_num := num + 1\<rparr>)
                else None))"

definition reload_fill_file_dirs ::
  "(string \<Rightarrow> bool) \<Rightarrow> string option \<Rightarrow> u8 \<Rightarrow> file_dirs_info \<Rightarrow> (int \<times> file_dirs_info) option" where
  "reload_fill_file_dirs is_dir dir disk r_fd =
     (let num = fd_num r_fd in
      case dir of
        None \<Rightarrow> Some (-1, r_fd)
      | Some d \<Rightarrow>
          (if 16 < num then Some (-1, r_fd)
           else if \<not> is_dir d then Some (-1, r_fd)
           else if MAX_DIRS_LEN \<le> length d then Some (-1, r_fd)
           else if unat num < length (fd_dirs r_fd)
                then Some (0, r_fd\<lparr>fd_dirs := (fd_dirs r_fd)[unat num :=
                       \<lparr>dir_name = take (MAX_DIRS_LEN - 1) d, disk_num = disk, write_flag = 1\<rparr>], fd_num := num + 1\<rparr>)
                else None))"

text \<open>The directories in use, and the well-formed tables.\<close>

definition used_dirs :: "file_dirs_info \<Rightarrow> file_dirs_node list" where
  "used_dirs fd = take (unat (fd_num fd)) (fd_dirs fd)"

definition dirs_ok :: "file_dirs_info \<Rightarrow> bool" where
  "dirs_ok fd \<longleftrightarrow> length (fd_dirs fd) = MAX_DIRS_NUM \<and> unat (fd_num fd) \<le> MAX_DIRS_NUM"

fun fill_all :: "(string \<Rightarrow> bool) \<Rightarrow> (string \<times> u8) list \<Rightarrow> file_dirs_info \<Rightarrow> file_dirs_info option" where
  "fill_all is_dir [] fd = Some fd"
| "fill_all is_dir ((d, k) # ds) fd = do {(r, fd') \<leftarrow> fill_file_dirs is_dir (Some d) k fd; fill_all is_dir ds fd'}"

lemma unat_succ32: "unat (x :: u32) < 2 ^ 32 - 1 \<Longrightarrow> unat (x + 1) = unat x + 1"
  using unat_add_lem[of x 1] by simp

lemma fill_appends:
  assumes "dirs_ok fd" "unat (fd_num fd) < MAX_DIRS_NUM" "is_dir d" "length d < MAX_DIRS_LEN"
  shows "\<exists>fd'. fill_file_dirs is_dir (Some d) k fd = Some (0, fd') \<and> dirs_ok fd' \<and>
     used_dirs fd' = used_dirs fd @ [\<lparr>dir_name = d, disk_num = k, write_flag = 1\<rparr>] \<and>
     unat (fd_num fd') = unat (fd_num fd) + 1"
proof -
  have n: "unat (fd_num fd + 1) = unat (fd_num fd) + 1" using assms(2) by (intro unat_succ32) simp
  moreover have "\<not> 16 < fd_num fd" using assms(2) by (simp add: word_less_nat_alt)
  ultimately show ?thesis using assms
    by (simp add: fill_file_dirs_def Let_def dirs_ok_def used_dirs_def take_Suc_conv_app_nth)
qed

lemma fill_full:
  assumes "length (fd_dirs fd) = MAX_DIRS_NUM" "unat (fd_num fd) = MAX_DIRS_NUM" "is_dir d" "length d < MAX_DIRS_LEN"
  shows "fill_file_dirs is_dir (Some d) k fd = None"
proof -
  have "fd_num fd = 16" using assms(2) by (simp add: word_unat_eq_iff)
  then show ?thesis using assms by (simp add: fill_file_dirs_def)
qed

lemma fill_all_appends:
  assumes "dirs_ok fd" "\<forall>(d, k) \<in> set ds. is_dir d \<and> length d < MAX_DIRS_LEN"
    and "unat (fd_num fd) + length ds \<le> MAX_DIRS_NUM"
  shows "\<exists>fd'. fill_all is_dir ds fd = Some fd' \<and> dirs_ok fd' \<and>
     used_dirs fd' = used_dirs fd @ map (\<lambda>(d, k). \<lparr>dir_name = d, disk_num = k, write_flag = 1\<rparr>) ds \<and>
     unat (fd_num fd') = unat (fd_num fd) + length ds"
  using assms
proof (induction ds arbitrary: fd)
  case Nil
  then show ?case by simp
next
  case (Cons e ds)
  obtain d k where e: "e = (d, k)" by (cases e)
  have d: "is_dir d" "length d < MAX_DIRS_LEN" using Cons.prems(2) e by auto
  have "unat (fd_num fd) < MAX_DIRS_NUM" using Cons.prems(3) by simp
  from fill_appends[of fd is_dir d k, OF Cons.prems(1) this d] obtain fd1 where
    f: "fill_file_dirs is_dir (Some d) k fd = Some (0, fd1)" "dirs_ok fd1"
    "used_dirs fd1 = used_dirs fd @ [\<lparr>dir_name = d, disk_num = k, write_flag = 1\<rparr>]"
    "unat (fd_num fd1) = unat (fd_num fd) + 1" by blast
  have "\<exists>fd'. fill_all is_dir ds fd1 = Some fd' \<and> dirs_ok fd' \<and>
     used_dirs fd' = used_dirs fd1 @ map (\<lambda>(d, k). \<lparr>dir_name = d, disk_num = k, write_flag = 1\<rparr>) ds \<and>
     unat (fd_num fd') = unat (fd_num fd1) + length ds"
    using Cons.prems(2,3) f(2,4) by (intro Cons.IH) auto
  then show ?case by (auto simp: e f)
qed

lemma empty_dirs_ok: "dirs_ok empty_dirs" "used_dirs empty_dirs = []" "fd_num empty_dirs = 0"
  by (simp_all add: dirs_ok_def empty_dirs_def used_dirs_def)

text \<open>
  The seventeenth directory is written behind the table. The table has 16 entries and
  \<open>fill_file_dirs\<close> only refuses a count above 16: up to 16 configured directories are stored in
  order, and with 17 the last call writes outside the array.
\<close>

theorem fill_dirs_bound:
  assumes "\<forall>(d, k) \<in> set ds. is_dir d \<and> length d < MAX_DIRS_LEN"
  shows "(length ds \<le> MAX_DIRS_NUM \<longrightarrow> (\<exists>fd. fill_all is_dir ds empty_dirs = Some fd \<and> dirs_ok fd \<and>
        used_dirs fd = map (\<lambda>(d, k). \<lparr>dir_name = d, disk_num = k, write_flag = 1\<rparr>) ds)) \<and>
     (length ds = MAX_DIRS_NUM + 1 \<longrightarrow> fill_all is_dir ds empty_dirs = None)"
proof (intro conjI impI)
  show "\<exists>fd. fill_all is_dir ds empty_dirs = Some fd \<and> dirs_ok fd \<and>
        used_dirs fd = map (\<lambda>(d, k). \<lparr>dir_name = d, disk_num = k, write_flag = 1\<rparr>) ds"
    if "length ds \<le> MAX_DIRS_NUM"
    using fill_all_appends[of empty_dirs ds is_dir] that assms empty_dirs_ok by auto
next
  assume l: "length ds = MAX_DIRS_NUM + 1"
  then obtain es d k where ds: "ds = es @ [(d, k)]" "length es = MAX_DIRS_NUM"
    by (cases ds rule: rev_cases) auto
  have ap: "fill_all is_dir (xs @ ys) fd = (case fill_all is_dir xs fd of None \<Rightarrow> None | Some fd' \<Rightarrow> fill_all is_dir ys fd')"
    for xs ys fd
    by (induction xs arbitrary: fd) (auto split: option.splits prod.splits Option.bind_splits)
  from fill_all_appends[of empty_dirs es is_dir] assms ds empty_dirs_ok obtain fd where
    "fill_all is_dir es empty_dirs = Some fd" "dirs_ok fd" "unat (fd_num fd) = MAX_DIRS_NUM" by auto
  moreover have "is_dir d" "length d < MAX_DIRS_LEN" using assms ds by auto
  ultimately show "fill_all is_dir ds empty_dirs = None"
    using fill_full[of fd is_dir d k] by (simp add: ds ap dirs_ok_def)
qed

theorem fill_dirs_bound_witness:
  "fill_all (\<lambda>d. True) (replicate 17 (''/d'', 1)) empty_dirs = None"
  using fill_dirs_bound[of "replicate 17 (''/d'', 1)" "\<lambda>d. True"] by simp

subsection \<open>Choosing a directory\<close>

text \<open>
  The scan of \<open>get_root_dir\<close> after the directory at \<open>cur\<close> was found full: the index of the
  first directory that can be written, none when the scan is back at \<open>cur\<close>. The first
  argument bounds the turns of the loop.
\<close>

fun root_scan :: "nat \<Rightarrow> file_dirs_info \<Rightarrow> u32 \<Rightarrow> u32 \<Rightarrow> nat option loop_result" where
  "root_scan 0 fd cur dir_no = Running"
| "root_scan (Suc fuel) fd cur dir_no =
     (let d1 = dir_no + 1; d2 = (if fd_num fd \<le> d1 then 0 else d1) in
      if d2 = cur then Returned None
      else (case rd (fd_dirs fd) (unat d2) of
          None \<Rightarrow> Undefined
        | Some e \<Rightarrow> if write_flag e = 1 then Returned (Some (unat d2)) else root_scan fuel fd cur d2))"

definition pick_dir :: "nat \<Rightarrow> file_dirs_info \<Rightarrow> u32 \<Rightarrow> nat option loop_result" where
  "pick_dir fuel fd dir_no =
     (case rd (fd_dirs fd) (unat dir_no) of
        None \<Rightarrow> Undefined
      | Some e \<Rightarrow> if write_flag e = 1 then Returned (Some (unat dir_no)) else root_scan fuel fd dir_no dir_no)"

text \<open>The turn taken from the shared counter \<open>file_dir_no\<close>.\<close>

definition next_dir_no :: "file_dirs_info \<Rightarrow> u32 \<Rightarrow> u32 \<times> u32" where
  "next_dir_no fd no =
     (let (dir_no, no1) = atomic32_add no 1 in
      if fd_num fd \<le> dir_no then atomic32_add (atomic32_set no1 0) 1 else (dir_no, no1))"

definition get_root_dir :: "nat \<Rightarrow> file_dirs_info \<Rightarrow> u32 \<Rightarrow> nat option loop_result \<times> u32" where
  "get_root_dir fuel fd no = (let (dir_no, no') = next_dir_no fd no in (pick_dir fuel fd dir_no, no'))"

lemma next_dir_no_lt: "0 < fd_num fd \<Longrightarrow> fst (next_dir_no fd no) < fd_num fd"
  by (auto simp: next_dir_no_def atomic32_defs sync_fetch_and_add_def Let_def not_le)

text \<open>The scan visits the positions after \<open>c\<close> in circular order and stops.\<close>

definition writable :: "file_dirs_info \<Rightarrow> nat \<Rightarrow> bool" where
  "writable fd i \<longleftrightarrow> i < unat (fd_num fd) \<and> write_flag (fd_dirs fd ! i) = 1"

lemma scan_next:
  assumes "dirs_ok fd" "unat d < unat (fd_num fd)"
  shows "unat (if fd_num fd \<le> d + 1 then 0 else d + 1) = (unat d + 1) mod unat (fd_num fd)"
proof -
  have "unat (d + 1) = unat d + 1" using assms by (intro unat_succ32) (simp add: dirs_ok_def)
  then show ?thesis using assms(2) by (auto simp: word_le_nat_alt mod_if)
qed

lemma root_scan_returns:
  assumes "dirs_ok fd" "unat c < unat (fd_num fd)" "unat d = (unat c + j) mod unat (fd_num fd)"
    and "j < unat (fd_num fd)" "unat (fd_num fd) - j \<le> fuel"
  shows "\<exists>r. root_scan fuel fd c d = Returned r \<and>
     (case r of None \<Rightarrow> \<forall>i. j < i \<and> i < unat (fd_num fd) \<longrightarrow> \<not> writable fd ((unat c + i) mod unat (fd_num fd))
      | Some m \<Rightarrow> writable fd m)"
  using assms(3-5)
proof (induction fuel arbitrary: d j)
  case 0
  then show ?case by simp
next
  case (Suc fuel)
  let ?N = "unat (fd_num fd)"
  let ?d2 = "if fd_num fd \<le> d + 1 then 0 else d + 1"
  have N: "0 < ?N" "?N \<le> length (fd_dirs fd)" using assms(1,2) by (auto simp: dirs_ok_def)
  have d2: "unat ?d2 = (unat c + Suc j) mod ?N"
    using scan_next[OF assms(1), of d] N(1) Suc.prems(1) by (simp add: mod_simps)
  show ?case
  proof (cases "Suc j = ?N")
    case True
    then have "unat ?d2 = unat c" using d2 assms(2) by simp
    then have "?d2 = c" by (simp only: word_unat_eq_iff)
    moreover have "\<not> (j < i \<and> i < ?N)" for i using True by simp
    ultimately show ?thesis by (simp only: root_scan.simps Let_def if_True) auto
  next
    case False
    then have j: "Suc j < ?N" using Suc.prems(2) by simp
    have "(unat c + Suc j) mod ?N \<noteq> unat c"
      using j assms(2) by (auto simp: mod_if)
    then have ne: "?d2 \<noteq> c" using d2 by auto
    have lt: "unat ?d2 < ?N" unfolding d2 by (rule mod_less_divisor[OF N(1)])
    have r: "rd (fd_dirs fd) (unat ?d2) = Some (fd_dirs fd ! unat ?d2)"
      by (rule rd_Some[OF less_le_trans[OF lt N(2)]])
    show ?thesis
    proof (cases "write_flag (fd_dirs fd ! unat ?d2) = 1")
      case True
      then show ?thesis using ne r lt by (simp add: Let_def writable_def)
    next
      case f: False
      have "?N - Suc j \<le> fuel" using Suc.prems(3) by simp
      from Suc.IH[OF d2 j this] obtain r' where r': "root_scan fuel fd c ?d2 = Returned r'"
        "case r' of None \<Rightarrow> \<forall>i. Suc j < i \<and> i < ?N \<longrightarrow> \<not> writable fd ((unat c + i) mod ?N)
          | Some m \<Rightarrow> writable fd m" by blast
      have e: "root_scan (Suc fuel) fd c d = Returned r'" using ne r f r'(1) by (simp add: Let_def)
      have "\<not> writable fd ((unat c + Suc j) mod ?N)" using f d2 by (simp add: writable_def)
      then have "case r' of None \<Rightarrow> \<forall>i. j < i \<and> i < ?N \<longrightarrow> \<not> writable fd ((unat c + i) mod ?N)
          | Some m \<Rightarrow> writable fd m"
        using r'(2) by (auto split: option.splits) (metis Suc_lessI add_Suc_right)
      with e show ?thesis by blast
    qed
  qed
qed

lemma pick_dir_returns:
  assumes "dirs_ok fd" "unat d < unat (fd_num fd)" "unat (fd_num fd) \<le> fuel"
  shows "\<exists>r. pick_dir fuel fd d = Returned r \<and>
     (case r of None \<Rightarrow> \<forall>i. \<not> writable fd i | Some m \<Rightarrow> writable fd m)"
proof -
  let ?N = "unat (fd_num fd)"
  have r: "rd (fd_dirs fd) (unat d) = Some (fd_dirs fd ! unat d)"
    using assms(1,2) by (simp add: rd_def dirs_ok_def)
  show ?thesis
  proof (cases "write_flag (fd_dirs fd ! unat d) = 1")
    case True
    then show ?thesis using r assms(2) by (simp add: pick_dir_def writable_def)
  next
    case False
    have "unat d = (unat d + 0) mod ?N" "0 < ?N" "?N - 0 \<le> fuel" using assms(2,3) by auto
    from root_scan_returns[OF assms(1,2) this] obtain r' where r': "root_scan fuel fd d d = Returned r'"
      "case r' of None \<Rightarrow> \<forall>i. 0 < i \<and> i < ?N \<longrightarrow> \<not> writable fd ((unat d + i) mod ?N) | Some m \<Rightarrow> writable fd m" by blast
    have "\<forall>i. \<not> writable fd i" if "r' = None"
    proof (intro allI notI)
      fix i
      assume w: "writable fd i"
      then have i: "i < ?N" "i \<noteq> unat d" using False by (auto simp: writable_def)
      let ?k = "if unat d < i then i - unat d else i + ?N - unat d"
      have "0 < ?k" "?k < ?N" "(unat d + ?k) mod ?N = i" using i assms(2) by auto
      then show False using r'(2) that w by auto
    qed
    then show ?thesis using r r'(1,2) False by (intro exI[of _ r']) (auto simp: pick_dir_def split: option.splits)
  qed
qed

text \<open>
  C24. A call gets a directory whenever one can be written. Run by one thread at a time, \<open>get_root_dir\<close>
  looks at each of the directories at most once, returns one whose write flag is
  set, returns none only when no directory in use can be written, and reads no entry
  outside the table.
\<close>

theorem get_root_dir_finds:
  assumes "dirs_ok fd" and "0 < fd_num fd" and "unat (fd_num fd) \<le> fuel"
  shows "\<exists>r. fst (get_root_dir fuel fd no) = Returned r \<and>
     (case r of None \<Rightarrow> \<forall>i. \<not> writable fd i | Some m \<Rightarrow> writable fd m)"
proof -
  have "unat (fst (next_dir_no fd no)) < unat (fd_num fd)"
    using next_dir_no_lt[OF assms(2), of no] by (simp add: word_less_nat_alt)
  from pick_dir_returns[OF assms(1) this assms(3)] show ?thesis
    by (simp add: get_root_dir_def case_prod_beta)
qed

theorem get_root_dir_finds_witness:
  "\<exists>r. fst (get_root_dir 1 (empty_dirs\<lparr>fd_num := 1\<rparr>) 7) = Returned r \<and>
     (case r of None \<Rightarrow> \<forall>i. \<not> writable (empty_dirs\<lparr>fd_num := 1\<rparr>) i | Some m \<Rightarrow> writable (empty_dirs\<lparr>fd_num := 1\<rparr>) m)"
  by (rule get_root_dir_finds) (simp_all add: dirs_ok_def empty_dirs_def)

lemma root_scan_spins:
  assumes "dirs_ok fd" "fd_num fd \<le> c" "0 < fd_num fd" "\<forall>i. \<not> writable fd i"
  shows "root_scan fuel fd c d = Running"
proof (induction fuel arbitrary: d)
  case 0
  then show ?case by simp
next
  case (Suc fuel)
  let ?d2 = "if fd_num fd \<le> d + 1 then 0 else d + 1"
  have lt: "?d2 < fd_num fd" using assms(3) by (simp add: not_le)
  then have ne: "?d2 \<noteq> c" using assms(2) by auto
  have u: "unat ?d2 < unat (fd_num fd)" using lt by (simp only: word_less_nat_alt)
  then have "rd (fd_dirs fd) (unat ?d2) = Some (fd_dirs fd ! unat ?d2)" "write_flag (fd_dirs fd ! unat ?d2) \<noteq> 1"
    using assms(1,4) by (auto simp: rd_def dirs_ok_def writable_def)
  then show ?case using ne Suc by (simp add: Let_def)
qed

text \<open>
  Two threads can drive the choice into an endless loop. When a thread that found the
  counter too high has set it to 0, and as many calls of other threads as there are
  directories come before its second \<open>atomic32_add\<close>, that call hands it an index equal to
  the number of directories; if every disk is full then, the scan waits for an index it
  never visits, and the thread holds the lock of the call's slot for ever.
\<close>

theorem root_dir_race_spins:
  assumes "dirs_ok fd" and "0 < fd_num fd" and "fd_num fd < 16" and "\<forall>i. \<not> writable fd i"
    and "write_flag (fd_dirs fd ! unat (fd_num fd)) \<noteq> 1"
    and "no' = ((\<lambda>c. snd (atomic32_add c 1)) ^^ unat (fd_num fd)) (atomic32_set no 0)"
  shows "pick_dir fuel fd (fst (atomic32_add no' 1)) = Running"
proof -
  have "((\<lambda>c. snd (atomic32_add c 1)) ^^ n) (0 :: u32) = of_nat n" for n
    by (induction n) (simp_all add: atomic32_defs sync_defs)
  then have "fst (atomic32_add no' 1) = fd_num fd"
    by (simp add: assms(6) atomic32_defs sync_defs)
  moreover have "unat (fd_num fd) < length (fd_dirs fd)"
    using assms(1,3) by (simp add: dirs_ok_def word_less_nat_alt)
  ultimately show ?thesis
    using assms(5) root_scan_spins[OF assms(1) _ assms(2,4)] by (simp add: pick_dir_def rd_def)
qed

theorem root_dir_race_spins_witness:
  "pick_dir 100 (empty_dirs\<lparr>fd_num := 1\<rparr>) (fst (atomic32_add (snd (atomic32_add (atomic32_set 9 0) 1)) 1)) = Running"
proof -
  have r: "replicate 16 x ! n = x" if "n < 16" for x :: file_dirs_node and n using that by (rule nth_replicate)
  show ?thesis
    by (rule root_dir_race_spins[where no = 9])
      (auto simp: dirs_ok_def empty_dirs_def writable_def r)
qed

subsection \<open>Names\<close>

text \<open>The fields of \<open>struct tm\<close> that the names use; \<open>localtime_r\<close> is a parameter where it is called.\<close>

record tm =
  tm_year :: int
  tm_mon :: int
  tm_mday :: int

abbreviation NORMAL_DIR :: string where "NORMAL_DIR \<equiv> ''normal''"
abbreviation CASE_DIR :: string where "CASE_DIR \<equiv> ''case''"

text \<open>\<open>%s/%s/%04d-%02d-%02d\<close>, and \<open>/%02d/%02d/%016llx\<close> with a suffix.\<close>

definition date_dir :: "string \<Rightarrow> string \<Rightarrow> nat \<Rightarrow> nat \<Rightarrow> nat \<Rightarrow> string" where
  "date_dir root mid y m d =
     root @ ''/'' @ mid @ ''/'' @ fmt_dec 4 y @ ''-'' @ fmt_dec 2 m @ ''-'' @ fmt_dec 2 d"

definition slot_dir :: "string \<Rightarrow> nat \<Rightarrow> nat \<Rightarrow> string" where
  "slot_dir date e1 ts = date @ ''/'' @ fmt_dec 2 e1 @ ''/'' @ fmt_dec 2 ts"

definition call_path :: "string \<Rightarrow> string \<Rightarrow> tm \<Rightarrow> u64 \<Rightarrow> string \<Rightarrow> string" where
  "call_path root mid tms callid suffix =
     slot_dir (date_dir root mid (nat (tm_year tms + 1900)) (nat (tm_mon tms + 1)) (nat (tm_mday tms)))
       (unat (e1_no callid)) (unat (ts_no callid)) @ ''/'' @ fmt_hex 16 (unat callid) @ suffix"

subsection \<open>create_file_dirs\<close>

text \<open>
  The \<open>mkdir\<close> calls in the code's order, until one fails; each path goes through a buffer of
  256 characters. The result is the return code and the directories made.
\<close>

fun mk_all :: "(string \<Rightarrow> bool) \<Rightarrow> string list \<Rightarrow> int \<times> string list" where
  "mk_all mkdir_ok [] = (0, [])"
| "mk_all mkdir_ok (p # ps) =
     (if \<not> mkdir_ok p then (-1, []) else (let (r, made) = mk_all mkdir_ok ps in (r, p # made)))"

definition e1_paths :: "string \<Rightarrow> nat \<Rightarrow> string list" where
  "e1_paths date i =
     (let e1_dir = snprintf 256 (date @ ''/'' @ fmt_dec 2 i) in
      e1_dir # map (\<lambda>j. snprintf 256 (e1_dir @ ''/'' @ fmt_dec 2 j)) [0..<32])"

definition tree_paths :: "string \<Rightarrow> string \<Rightarrow> nat \<Rightarrow> nat \<Rightarrow> nat \<Rightarrow> string list" where
  "tree_paths root mid y m d =
     (let date = snprintf 256 (date_dir root mid y m d) in date # concat (map (e1_paths date) [0..<64]))"

definition create_file_dirs ::
  "(string \<Rightarrow> bool) \<Rightarrow> (string \<Rightarrow> bool) \<Rightarrow> string option \<Rightarrow> nat \<Rightarrow> nat \<Rightarrow> nat \<Rightarrow> int \<times> string list" where
  "create_file_dirs is_dir mkdir_ok root y m d =
     (case root of
        None \<Rightarrow> (-1, [])
      | Some rt \<Rightarrow>
          (if is_dir (snprintf 256 (date_dir rt NORMAL_DIR y m d)) then (-2, [])
           else (let (r, made) = mk_all mkdir_ok (tree_paths rt NORMAL_DIR y m d) in
                 if r \<noteq> 0 then (-1, made)
                 else (let (r', made') = mk_all mkdir_ok (tree_paths rt CASE_DIR y m d) in
                       (r', made @ made')))))"

definition create_all_dirs ::
  "(string \<Rightarrow> bool) \<Rightarrow> (string \<Rightarrow> bool) \<Rightarrow> file_dirs_info \<Rightarrow> nat \<Rightarrow> nat \<Rightarrow> nat \<Rightarrow> string list option" where
  "create_all_dirs is_dir mkdir_ok fd y m d = do {
     es \<leftarrow> rd_n (fd_dirs fd) 0 (unat (fd_num fd));
     Some (concat (map (\<lambda>e. snd (create_file_dirs is_dir mkdir_ok (Some (dir_name e)) y m d)) es))}"

lemma mk_all_ok: "mk_all ok ps = (0, made) \<Longrightarrow> made = ps"
  by (induction ps arbitrary: made) (auto split: if_splits prod.splits)

lemma mk_all_ret: "mk_all ok ps = (r, made) \<Longrightarrow> r = 0 \<or> r = -1"
  by (induction ps arbitrary: made) (auto split: if_splits prod.splits)

lemma fmt2: "n < 100 \<Longrightarrow> length (fmt_dec 2 n) = 2"
  by (rule length_fmt_num) simp_all

text \<open>The directory of every call of the day is one of those made.\<close>

lemma tree_has_slot:
  assumes "length root \<le> 200" "length mid \<le> 6" "y < 10000" "m < 100" "d < 100" "e1 < 64" "ts < 32"
  shows "slot_dir (date_dir root mid y m d) e1 ts \<in> set (tree_paths root mid y m d)"
proof -
  let ?date = "date_dir root mid y m d"
  have l: "length ?date \<le> 219"
    using assms fmt2[of m] fmt2[of d] length_fmt_num[of 4 10 y] by (simp add: date_dir_def)
  then have date: "snprintf 256 ?date = ?date" by (intro snprintf_fits) simp
  have e: "snprintf 256 (?date @ ''/'' @ fmt_dec 2 e1) = ?date @ ''/'' @ fmt_dec 2 e1"
    using l fmt2[of e1] assms(6) by (intro snprintf_fits) simp
  have t: "snprintf 256 ((?date @ ''/'' @ fmt_dec 2 e1) @ ''/'' @ fmt_dec 2 ts) = slot_dir ?date e1 ts"
    using l fmt2[of e1] fmt2[of ts] assms(6,7)
    by (subst snprintf_fits) (simp_all add: slot_dir_def)
  have "slot_dir ?date e1 ts \<in> set (e1_paths ?date e1)"
    using assms(7) t unfolding e1_paths_def Let_def e by force
  then show ?thesis using assms(6) by (auto simp: tree_paths_def Let_def date)
qed

text \<open>
  C25. A call never lacks its directory. When \<open>create_file_dirs\<close> returns 0 for a day, the directory
  in which \<open>get_filename\<close> puts the files of any call of that day, at any of the 64 E1 lines and
  32 time slots and in either tree, is one of the directories it made.
\<close>

theorem create_dirs_cover:
  assumes "create_file_dirs is_dir mkdir_ok (Some root) (nat (tm_year tms + 1900)) (nat (tm_mon tms + 1)) (nat (tm_mday tms)) = (0, made)"
    and "length root \<le> 200" and "tm_year tms + 1900 < 10000" and "tm_mon tms < 12" and "tm_mday tms < 32"
    and "mid = NORMAL_DIR \<or> mid = CASE_DIR"
  shows "\<exists>dir \<in> set made. call_path root mid tms callid suffix = dir @ ''/'' @ fmt_hex 16 (unat callid) @ suffix"
proof -
  let ?y = "nat (tm_year tms + 1900)" and ?m = "nat (tm_mon tms + 1)" and ?d = "nat (tm_mday tms)"
  have "made = tree_paths root NORMAL_DIR ?y ?m ?d @ tree_paths root CASE_DIR ?y ?m ?d"
    using assms(1) by (auto simp: create_file_dirs_def Let_def split: if_splits prod.splits dest!: mk_all_ok)
  moreover have "slot_dir (date_dir root mid ?y ?m ?d) (unat (e1_no callid)) (unat (ts_no callid)) \<in>
      set (tree_paths root mid ?y ?m ?d)"
    using assms(2-6) e1_no_lt[of callid] ts_no_lt[of callid] by (intro tree_has_slot) auto
  ultimately show ?thesis using assms(6) by (auto simp: call_path_def)
qed

theorem create_dirs_cover_witness:
  "\<exists>dir \<in> set (snd (create_file_dirs (\<lambda>p. False) (\<lambda>p. True) (Some ''/d'') 2016 5 17)).
     call_path ''/d'' NORMAL_DIR \<lparr>tm_year = 116, tm_mon = 4, tm_mday = 17\<rparr> 77 ''_up'' =
       dir @ ''/'' @ fmt_hex 16 77 @ ''_up''"
proof -
  have "fst (mk_all (\<lambda>p. True) ps) = 0" for ps by (induction ps) (auto split: prod.splits)
  then have "fst (create_file_dirs (\<lambda>p. False) (\<lambda>p. True) (Some ''/d'') 2016 5 17) = 0"
    by (simp add: create_file_dirs_def case_prod_beta)
  then have c: "create_file_dirs (\<lambda>p. False) (\<lambda>p. True) (Some ''/d'') 2016 5 17 =
      (0, snd (create_file_dirs (\<lambda>p. False) (\<lambda>p. True) (Some ''/d'') 2016 5 17))"
    by (simp add: prod_eq_iff)
  show ?thesis
    using create_dirs_cover[of "\<lambda>p. False" "\<lambda>p. True" "''/d''" "\<lparr>tm_year = 116, tm_mon = 4, tm_mday = 17\<rparr>" _ NORMAL_DIR 77 "''_up''"] c
    by simp
qed

text \<open>
  No two recordings share a file. The up and down files of all calls, in whatever storage
  directory, tree and day, have different names: a name determines the call id and the direction.
\<close>

theorem call_path_inj:
  assumes "call_path root mid tms callid s = call_path root' mid' tms' callid' s'"
    and "s \<in> {''_up'', ''_down''}" and "s' \<in> {''_up'', ''_down''}"
  shows "callid = callid' \<and> s = s'"
proof -
  have l: "length (fmt_hex 16 (unat c)) = 16" for c :: u64
    using length_fmt_num[of 16 16 "unat c"] unsigned_less[of c] by simp
  have "last (call_path root mid tms callid s) = last s" "last (call_path root' mid' tms' callid' s') = last s'"
    using assms(2,3) by (auto simp: call_path_def)
  then have s: "s = s'" using assms by auto
  let ?n = "fmt_hex 16 (unat callid) @ s" and ?n' = "fmt_hex 16 (unat callid') @ s'"
  obtain pre pre' where p: "call_path root mid tms callid s = pre @ ?n" "call_path root' mid' tms' callid' s' = pre' @ ?n'"
    unfolding call_path_def by (metis append.assoc)
  have "length ?n = length ?n'" using l s by (simp only: length_append)
  then have "?n = ?n'" using assms(1) p append_eq_append_conv by metis
  then have "unat callid = unat callid'" using s fmt_num_inj[of 16 16] by simp
  then show ?thesis using s by (simp add: word_unat_eq_iff)
qed

theorem call_path_inj_witness:
  "(1 :: u64) = 1 \<and> ''_up'' = ''_up''"
  by (rule call_path_inj[of "''/a''" NORMAL_DIR "\<lparr>tm_year = 0, tm_mon = 0, tm_mday = 0\<rparr>" 1 "''_up''"
    "''/a''" NORMAL_DIR "\<lparr>tm_year = 0, tm_mon = 0, tm_mday = 0\<rparr>"]) simp_all

end
