(* ===== verification/Conf.thy ===== *)
theory Conf
  imports Conf_Tree File_Dirs
begin

text \<open>
  The configuration, \<open>src/src/conf.c\<close>: the variables it sets, the functions that read one of them from the
  configuration tree at the start (\<open>get_...\<close>) and again on a reload, the functions that load a whole
  file, and the command line.

  A function may end the program: its result is then \<open>Exit\<close> with the exit code. The file system, the
  network interface and the local time are parameters. The log messages are left out.
\<close>

subsection \<open>The standard library\<close>

definition is_space :: "char \<Rightarrow> bool" where
  "is_space c \<longleftrightarrow> (of_char c :: nat) = 32 \<or> 9 \<le> (of_char c :: nat) \<and> (of_char c :: nat) \<le> 13"

definition is_digit :: "char \<Rightarrow> bool" where
  "is_digit c \<longleftrightarrow> 48 \<le> (of_char c :: nat) \<and> (of_char c :: nat) \<le> 57"

definition dec_value :: "string \<Rightarrow> int" where
  "dec_value s = foldl (\<lambda>n c. 10 * n + (int (of_char c) - 48)) 0 s"

text \<open>\<open>atoi\<close>; a value outside \<open>int\<close> is undefined.\<close>

definition atoi :: "string \<Rightarrow> int option" where
  "atoi s =
     (let s1 = dropWhile is_space s;
          neg = (s1 \<noteq> [] \<and> hd s1 = CHR ''-'');
          s2 = (if s1 \<noteq> [] \<and> (hd s1 = CHR ''-'' \<or> hd s1 = CHR ''+'') then tl s1 else s1);
          v = dec_value (takeWhile is_digit s2);
          v' = (if neg then - v else v) in
      if - (2 ^ 31) \<le> v' \<and> v' < 2 ^ 31 then Some v' else None)"

datatype 'a conf_run = Cont int 'a | Exit int

text \<open>The next function, unless the program has ended.\<close>

definition then_run :: "('a \<Rightarrow> 'b conf_run option) \<Rightarrow> 'a conf_run \<Rightarrow> 'b conf_run option" where
  "then_run f r = (case r of Cont _ s \<Rightarrow> f s | Exit c \<Rightarrow> Some (Exit c))"

subsection \<open>Variables\<close>

record vpu_param =
  sn :: u16
  port_sguard :: u16
  port_ma :: u16
  ip_sguard :: string
  ip_ma :: string
  dev :: string
  dev_mac :: "u8 list"
  app_name :: string
  conf_file :: string
  svm_conf_file :: string
  dms_conf_file :: string

record fax_info =
  fi_id :: u32
  fi_ip :: string
  fi_port :: u32
  fi_fd :: int
  fi_flag :: u8

abbreviation FAX_NUM_MAX :: nat where "FAX_NUM_MAX \<equiv> 32"

definition zero_fax :: fax_info where
  "zero_fax = \<lparr>fi_id = 0, fi_ip = '''', fi_port = 0, fi_fd = 0, fi_flag = 0\<rparr>"

record conf_vars =
  vpu_conf :: vpu_param
  file_dirs :: file_dirs_info
  rl_file_dirs :: file_dirs_info
  file_dir_no :: u32
  vpu_id :: u32
  storage_time :: u32
  disk_left :: u32
  cdr_ip :: string
  cdr_port :: u16
  server_ip :: string
  server_port :: u32
  fax_infos :: "fax_info list"
  fax_num :: u32
  r_fax_infos :: "fax_info list"
  r_fax_num :: u32
  svm_cdr_reload :: u8
  svm_fax_reload :: u8
  svm_vpu_reload :: u8
  dms_sguard_reload :: u8
  dms_ma_reload :: u8
  vpu_dev_reload :: u8
  vpu_dir_reload :: u8
  conf_root :: "conf_node option"

text \<open>
  What the functions take from the system: directories and their creation, the dates of today and
  tomorrow, the hardware address of an interface (or an error: 1 when there is no socket, another when the \<open>ioctl\<close> fails), and \<open>sscanf\<close> of six hexadecimal
  bytes into an array.
\<close>

record conf_env =
  ce_is_dir :: "string \<Rightarrow> bool"
  ce_mkdir :: "string \<Rightarrow> bool"
  ce_today :: tm
  ce_tomorrow :: tm
  ce_mac :: "string \<Rightarrow> int \<times> u8 list"
  ce_scan_mac :: "string \<Rightarrow> u32 list \<Rightarrow> u32 list"

definition change_fax_status :: "u32 \<Rightarrow> u32 \<Rightarrow> conf_vars \<Rightarrow> (int \<times> conf_vars) option" where
  "change_fax_status fax_id status s =
     (if fax_id = 0 then Some (-1, s)
      else if length (fax_infos s) < unat (fax_num s) then None
      else Some (0, s\<lparr>fax_infos := map (\<lambda>f. if fi_id f = fax_id then f\<lparr>fi_flag := ucast status\<rparr> else f) (take (unat (fax_num s)) (fax_infos s))
                                   @ drop (unat (fax_num s)) (fax_infos s)\<rparr>))"

definition get_cdr_ip_and_port :: "u32 \<Rightarrow> conf_vars \<Rightarrow> int \<times> (string \<times> u32) option" where
  "get_cdr_ip_and_port len s = (if len < 16 then (-1, None) else (0, Some (cdr_ip s, ucast (cdr_port s))))"

definition get_dev :: "conf_vars \<Rightarrow> string" where
  "get_dev s = dev (vpu_conf s)"

subsection \<open>Directories\<close>

text \<open>Both trees of a directory; \<^const>\<open>None\<close> ends the program.\<close>

definition make_trees :: "conf_env \<Rightarrow> string \<Rightarrow> string list option" where
  "make_trees env root_dir =
     (let normal = snprintf 256 (root_dir @ ''/'' @ NORMAL_DIR); cas = snprintf 256 (root_dir @ ''/'' @ CASE_DIR) in
      if \<not> ce_is_dir env normal \<and> \<not> ce_mkdir env normal then None
      else if \<not> ce_is_dir env cas \<and> \<not> ce_mkdir env cas then None
      else Some ((if ce_is_dir env normal then [] else [normal]) @ (if ce_is_dir env cas then [] else [cas])))"

definition make_day :: "conf_env \<Rightarrow> string \<Rightarrow> tm \<Rightarrow> string list" where
  "make_day env root_dir t = snd (create_file_dirs (ce_is_dir env) (ce_mkdir env) (Some root_dir)
     (nat (tm_year t + 1900)) (nat (tm_mon t + 1)) (nat (tm_mday t)))"

fun init_dirs :: "conf_env \<Rightarrow> tm \<Rightarrow> tm \<Rightarrow> string list \<Rightarrow> string list option" where
  "init_dirs env t1 t2 [] = Some []"
| "init_dirs env t1 t2 (root_dir # ds) = do {
     made \<leftarrow> make_trees env root_dir;
     rest \<leftarrow> init_dirs env t1 t2 ds;
     Some (made @ make_day env root_dir t1 @ make_day env root_dir t2 @ rest)}"

text \<open>The directories made; \<open>Exit -1\<close> when there is no directory or a tree cannot be made.\<close>

definition init_file_dirs :: "conf_env \<Rightarrow> conf_vars \<Rightarrow> string list conf_run option" where
  "init_file_dirs env s =
     (if fd_num (file_dirs s) = 0 then Some (Exit (-1))
      else do {
        es \<leftarrow> rd_n (fd_dirs (file_dirs s)) 0 (unat (fd_num (file_dirs s)));
        Some (case init_dirs env (ce_today env) (ce_tomorrow env) (map dir_name es) of
            None \<Rightarrow> Exit (-1)
          | Some made \<Rightarrow> Cont 0 made)})"

text \<open>On a reload the next day is made by adding 1 to the day of the month.\<close>

definition init_reload_file_dirs :: "conf_env \<Rightarrow> conf_vars \<Rightarrow> (conf_vars \<times> string list) conf_run option" where
  "init_reload_file_dirs env s =
     (if fd_num (rl_file_dirs s) = 0 then Some (Cont 0 (s, []))
      else do {
        es \<leftarrow> rd_n (fd_dirs (rl_file_dirs s)) 0 (unat (fd_num (rl_file_dirs s)));
        let s1 = s\<lparr>vpu_dir_reload := 1\<rparr>;
        Some (case init_dirs env (ce_today env) ((ce_today env)\<lparr>tm_mday := tm_mday (ce_today env) + 1\<rparr>) (map dir_name es) of
            None \<Rightarrow> Exit (-1)
          | Some made \<Rightarrow> Cont 0 (s1, made))})"

text \<open>The directory and the disk number of an entry of the list.\<close>

fun dir_entry :: "conf_node list \<Rightarrow> string option \<Rightarrow> u8 \<Rightarrow> (string option \<times> u8) option" where
  "dir_entry [] dir disknum = Some (dir, disknum)"
| "dir_entry (c # cs) dir disknum = do {
     let dir' = (if cn_name c = ''dir'' then cn_val c else dir);
     disk' \<leftarrow> (if cn_name c = ''disk'' then do {v \<leftarrow> cn_val c; n \<leftarrow> atoi v; Some (word_of_int n)} else Some disknum);
     dir_entry cs dir' disk'}"

fun dirs_loop ::
  "(string option \<Rightarrow> u8 \<Rightarrow> file_dirs_info \<Rightarrow> (int \<times> file_dirs_info) option) \<Rightarrow> conf_node list \<Rightarrow> file_dirs_info \<Rightarrow> file_dirs_info option" where
  "dirs_loop put [] fd = Some fd"
| "dirs_loop put (c # cs) fd = do {
     v \<leftarrow> cn_val c;
     fd' \<leftarrow> (if v = ''dir''
            then do {(dir, disk) \<leftarrow> dir_entry (cn_head c) None 0; (_, fd1) \<leftarrow> put dir disk fd; Some fd1}
            else Some fd);
     dirs_loop put cs fd'}"

definition file_dirs_parser :: "conf_env \<Rightarrow> conf_vars \<Rightarrow> (conf_vars \<times> string list) conf_run option" where
  "file_dirs_parser env s = do {
     base \<leftarrow> ConfGetNode (conf_root s) ''filedirs'';
     (case base of
        None \<Rightarrow> Some (Exit (-1))
      | Some b \<Rightarrow> do {
          fd \<leftarrow> dirs_loop (fill_file_dirs (ce_is_dir env)) (cn_head b) empty_dirs;
          let s1 = s\<lparr>file_dirs := fd, file_dir_no := atomic32_init (file_dir_no s)\<rparr>;
          r \<leftarrow> init_file_dirs env s1;
          Some (case r of Exit c \<Rightarrow> Exit c | Cont _ made \<Rightarrow> Cont 0 (s1, made))})}"

definition reload_file_dirs :: "conf_env \<Rightarrow> conf_vars \<Rightarrow> (conf_vars \<times> string list) conf_run option" where
  "reload_file_dirs env s = do {
     base \<leftarrow> ConfGetNode (conf_root s) ''filedirs'';
     (case base of
        None \<Rightarrow> Some (Cont (-1) (s, []))
      | Some b \<Rightarrow> do {
          fd \<leftarrow> dirs_loop (reload_fill_file_dirs (ce_is_dir env)) (cn_head b) empty_dirs;
          let s1 = s\<lparr>rl_file_dirs := fd\<rparr>;
          (if file_dirs s1 \<noteq> rl_file_dirs s1 then init_reload_file_dirs env s1 else Some (Cont 0 (s1, [])))})}"

subsection \<open>Single values\<close>

text \<open>
  The value of a key: \<open>Some None\<close> when the key is missing; a key without a value gives a null pointer, which
  every use below dereferences.
\<close>

definition conf_value :: "conf_vars \<Rightarrow> string \<Rightarrow> string option option" where
  "conf_value s key = do {
     (r, v) \<leftarrow> ConfGet (conf_root s) key;
     if r = 1 then do {x \<leftarrow> v; Some (Some x)} else Some None}"

definition get_vpu_id :: "conf_vars \<Rightarrow> conf_vars conf_run option" where
  "get_vpu_id s = do {
     value \<leftarrow> conf_value s ''id'';
     (case value of
        None \<Rightarrow> Some (Exit 1)
      | Some v \<Rightarrow> do {n \<leftarrow> atoi v; Some (Cont 0 (s\<lparr>vpu_id := word_of_int n\<rparr>))})}"

definition reload_vpu_id :: "conf_vars \<Rightarrow> conf_vars conf_run option" where
  "reload_vpu_id s = do {
     value \<leftarrow> conf_value s ''id'';
     (case value of
        None \<Rightarrow> Some (Cont 0 s)
      | Some v \<Rightarrow> do {n \<leftarrow> atoi v; Some (Cont 0 (s\<lparr>vpu_id := word_of_int n\<rparr>))})}"

text \<open>
  The hardware address of the device. The name is copied into the 16 bytes of \<open>ifr_name\<close>. When the \<open>ioctl\<close> fails the socket
  stays open.
\<close>

definition get_local_mac :: "conf_env \<Rightarrow> vpu_param \<Rightarrow> (int \<times> vpu_param) option" where
  "get_local_mac env p =
     (let (err, mac) = ce_mac env (dev p) in
      if err = 1 then Some (1, p)
      else if 16 \<le> length (dev p) then None
      else if err \<noteq> 0 then Some (2, p)
      else Some (0, p\<lparr>dev_mac := mac\<rparr>))"

definition dev_parser :: "conf_env \<Rightarrow> conf_vars \<Rightarrow> conf_vars conf_run option" where
  "dev_parser env s = do {
     value \<leftarrow> conf_value s ''dev'';
     (case value of
        None \<Rightarrow> Some (Exit 1)
      | Some v \<Rightarrow>
          (if 64 \<le> length v then Some (Exit 1)
           else do {
             (err, p) \<leftarrow> get_local_mac env ((vpu_conf s)\<lparr>dev := v\<rparr>);
             Some (if err \<noteq> 0 then Exit 1 else Cont 0 (s\<lparr>vpu_conf := p\<rparr>))}))}"

definition reload_dev_parser :: "conf_vars \<Rightarrow> conf_vars conf_run option" where
  "reload_dev_parser s = do {
     value \<leftarrow> conf_value s ''dev'';
     Some (case value of
        None \<Rightarrow> Cont (-1) s
      | Some v \<Rightarrow>
          (if 64 \<le> length v then Cont (-1) s
           else if v \<noteq> dev (vpu_conf s) then Cont 0 (s\<lparr>vpu_dev_reload := 1\<rparr>)
           else Cont 0 s))}"

definition storage_range :: "u32 \<Rightarrow> u32" where
  "storage_range v = (if v \<le> 0 \<or> 1024 < v then 90 else v)"

definition get_storage_time :: "conf_vars \<Rightarrow> conf_vars conf_run option" where
  "get_storage_time s = do {
     value \<leftarrow> conf_value s ''storage-time'';
     v \<leftarrow> (case value of None \<Rightarrow> Some (storage_time s) | Some v \<Rightarrow> do {n \<leftarrow> atoi v; Some (word_of_int n)});
     Some (Cont 0 (s\<lparr>storage_time := storage_range v\<rparr>))}"

definition reload_storage_time :: "conf_vars \<Rightarrow> conf_vars conf_run option" where
  "reload_storage_time s = do {
     value \<leftarrow> conf_value s ''storage-time'';
     v \<leftarrow> (case value of None \<Rightarrow> Some (storage_time s) | Some v \<Rightarrow> do {n \<leftarrow> atoi v; Some (word_of_int n)});
     Some (Cont 0 (s\<lparr>storage_time := storage_range v\<rparr>))}"

definition disk_range :: "u32 \<Rightarrow> u32" where
  "disk_range v = (if v \<le> 0 \<or> 1024 < v then 5 else v)"

definition get_disk_left :: "conf_vars \<Rightarrow> conf_vars conf_run option" where
  "get_disk_left s = do {
     value \<leftarrow> conf_value s ''disk-left'';
     v \<leftarrow> (case value of None \<Rightarrow> Some (disk_left s) | Some v \<Rightarrow> do {n \<leftarrow> atoi v; Some (word_of_int n)});
     Some (Cont 0 (s\<lparr>disk_left := disk_range v\<rparr>))}"

definition reload_disk_left :: "conf_vars \<Rightarrow> conf_vars conf_run option" where
  "reload_disk_left s = do {
     value \<leftarrow> conf_value s ''disk-left'';
     v \<leftarrow> (case value of None \<Rightarrow> Some (disk_left s) | Some v \<Rightarrow> do {n \<leftarrow> atoi v; Some (word_of_int n)});
     Some (Cont 0 (s\<lparr>disk_left := disk_range v\<rparr>))}"

subsection \<open>The call record server and this server\<close>

text \<open>An address that is too long leaves the cleared buffer.\<close>

definition short_ip :: "string \<Rightarrow> string \<Rightarrow> string" where
  "short_ip old v = (if 16 \<le> length v then old else v)"

definition cdr_values :: "conf_vars \<Rightarrow> (string \<times> int) option" where
  "cdr_values s = do {
     ip \<leftarrow> conf_value s ''cdr.ip'';
     port \<leftarrow> conf_value s ''cdr.vpuport'';
     n \<leftarrow> (case port of None \<Rightarrow> Some 0 | Some v \<Rightarrow> atoi v);
     Some (case ip of None \<Rightarrow> '''' | Some v \<Rightarrow> short_ip '''' v, n)}"

definition get_cdr_ip_port :: "conf_vars \<Rightarrow> conf_vars conf_run option" where
  "get_cdr_ip_port s = do {
     (ip, n) \<leftarrow> cdr_values s;
     Some (Cont 0 (s\<lparr>cdr_ip := ip, cdr_port := word_of_int n\<rparr>))}"

text \<open>The new port is compared in 32 bits and stored in 16.\<close>

definition reload_cdr_ip_port :: "conf_vars \<Rightarrow> conf_vars conf_run option" where
  "reload_cdr_ip_port s = do {
     (r_ip, n) \<leftarrow> cdr_values s;
     let r_port = (word_of_int n :: u32);
     Some (Cont 0 (if r_ip \<noteq> cdr_ip s \<or> r_port \<noteq> ucast (cdr_port s)
       then s\<lparr>cdr_ip := r_ip, cdr_port := ucast r_port, svm_cdr_reload := 1\<rparr> else s))}"

text \<open>
  One entry of the list of servers. The locals are the address, the port, the id flag and the hardware
  address; the result says whether the walk goes on (\<open>break\<close> leaves this entry only).
\<close>

record server_vals =
  sv_ip :: string
  sv_port :: u32
  sv_id :: bool
  sv_mac :: "u32 list"

fun server_entry ::
  "conf_env \<Rightarrow> conf_vars \<Rightarrow> bool \<Rightarrow> conf_node list \<Rightarrow> server_vals \<Rightarrow> server_vals conf_run option" where
  "server_entry env s reload [] v = Some (Cont 0 v)"
| "server_entry env s reload (c # cs) v =
     (if cn_name c = ''id'' then do {
        x \<leftarrow> cn_val c;
        n \<leftarrow> atoi x;
        if n = 0 \<or> word_of_int n \<noteq> vpu_id s then Some (Cont 0 v) else server_entry env s reload cs (v\<lparr>sv_id := True\<rparr>)}
      else if cn_name c = ''mac'' then do {
        x \<leftarrow> cn_val c;
        let mac = ce_scan_mac env x (sv_mac v);
        let v' = v\<lparr>sv_mac := mac\<rparr>;
        if mac \<noteq> map ucast (dev_mac (vpu_conf s)) then Some (if reload then Cont 0 v' else Exit (-1)) else server_entry env s reload cs v'}
      else if cn_name c = ''ip'' then do {
        x \<leftarrow> cn_val c;
        server_entry env s reload cs (v\<lparr>sv_ip := short_ip (sv_ip v) x\<rparr>)}
      else if cn_name c = ''port'' then do {
        x \<leftarrow> cn_val c;
        n \<leftarrow> atoi x;
        server_entry env s reload cs (v\<lparr>sv_port := word_of_int n\<rparr>)}
      else server_entry env s reload cs v)"

fun server_loop :: "conf_env \<Rightarrow> conf_vars \<Rightarrow> bool \<Rightarrow> conf_node list \<Rightarrow> server_vals \<Rightarrow> server_vals conf_run option" where
  "server_loop env s reload [] v = Some (Cont 0 v)"
| "server_loop env s reload (c # cs) v = do {
     x \<leftarrow> cn_val c;
     if x = ''id''
     then do {r \<leftarrow> server_entry env s reload (cn_head c) v; then_run (server_loop env s reload cs) r}
     else server_loop env s reload cs v}"

definition no_server :: server_vals where
  "no_server = \<lparr>sv_ip = '''', sv_port = 0, sv_id = False, sv_mac = replicate 6 0\<rparr>"

definition get_server_ip_port :: "conf_env \<Rightarrow> conf_vars \<Rightarrow> conf_vars conf_run option" where
  "get_server_ip_port env s = do {
     base \<leftarrow> ConfGetNode (conf_root s) ''vpu'';
     (case base of
        None \<Rightarrow> Some (Cont (-1) s)
      | Some b \<Rightarrow> do {
          r \<leftarrow> server_loop env s False (cn_head b) no_server;
          Some (case r of
              Exit c \<Rightarrow> Exit c
            | Cont _ v \<Rightarrow> (if \<not> sv_id v then Exit (-1) else Cont 0 (s\<lparr>server_ip := sv_ip v, server_port := sv_port v\<rparr>)))})}"

definition reload_server_ip_port :: "conf_env \<Rightarrow> conf_vars \<Rightarrow> conf_vars conf_run option" where
  "reload_server_ip_port env s = do {
     base \<leftarrow> ConfGetNode (conf_root s) ''vpu'';
     (case base of
        None \<Rightarrow> Some (Cont (-1) s)
      | Some b \<Rightarrow> do {
          r \<leftarrow> server_loop env s True (cn_head b) no_server;
          Some (case r of
              Exit c \<Rightarrow> Exit c
            | Cont _ v \<Rightarrow>
                (if \<not> sv_id v then Cont (-1) s
                 else if sv_ip v \<noteq> server_ip s \<or> sv_port v \<noteq> server_port s
                 then Cont 0 (s\<lparr>server_ip := sv_ip v, server_port := sv_port v, svm_vpu_reload := 1\<rparr>)
                 else Cont 0 s))})}"

subsection \<open>The fax servers\<close>

text \<open>
  One entry of the list, written to position \<open>num\<close> of the table; a write behind the table is undefined. The
  first argument is the flag of a new entry.
\<close>

fun fax_entry :: "u8 \<Rightarrow> conf_node list \<Rightarrow> nat \<Rightarrow> fax_info list \<Rightarrow> fax_info list option" where
  "fax_entry flag [] num tab = Some tab"
| "fax_entry flag (c # cs) num tab =
     (if cn_name c = ''id'' then do {
        x \<leftarrow> cn_val c;
        n \<leftarrow> atoi x;
        f \<leftarrow> rd tab num;
        fax_entry flag cs num (tab[num := f\<lparr>fi_id := word_of_int n, fi_flag := flag, fi_fd := -1\<rparr>])}
      else if cn_name c = ''ip'' then do {
        x \<leftarrow> cn_val c;
        if 16 \<le> length x then fax_entry flag cs num tab
        else do {f \<leftarrow> rd tab num; fax_entry flag cs num (tab[num := f\<lparr>fi_ip := x\<rparr>])}}
      else if cn_name c = ''port'' then do {
        x \<leftarrow> cn_val c;
        n \<leftarrow> atoi x;
        f \<leftarrow> rd tab num;
        fax_entry flag cs num (tab[num := f\<lparr>fi_port := word_of_int n\<rparr>])}
      else fax_entry flag cs num tab)"

fun fax_loop :: "u8 \<Rightarrow> conf_node list \<Rightarrow> u32 \<Rightarrow> fax_info list \<Rightarrow> (u32 \<times> fax_info list) option" where
  "fax_loop flag [] num tab = Some (num, tab)"
| "fax_loop flag (c # cs) num tab = do {
     x \<leftarrow> cn_val c;
     tab' \<leftarrow> (if x = ''id'' then fax_entry flag (cn_head c) (unat num) tab else Some tab);
     fax_loop flag cs (num + 1) tab'}"

definition get_fax_ip_port :: "conf_vars \<Rightarrow> conf_vars conf_run option" where
  "get_fax_ip_port s =
     (let s0 = s\<lparr>fax_infos := replicate FAX_NUM_MAX zero_fax, fax_num := 0\<rparr> in do {
     base \<leftarrow> ConfGetNode (conf_root s) ''fax'';
     (case base of
        None \<Rightarrow> Some (Cont (-1) s0)
      | Some b \<Rightarrow> do {
          (num, tab) \<leftarrow> fax_loop 1 (cn_head b) 0 (replicate FAX_NUM_MAX zero_fax);
          Some (Cont 0 (s0\<lparr>fax_infos := tab, fax_num := num\<rparr>))})})"

text \<open>Whether an entry differs, up to the first that does.\<close>

fun fax_differs :: "fax_info list \<Rightarrow> fax_info list \<Rightarrow> nat \<Rightarrow> nat \<Rightarrow> bool option" where
  "fax_differs new old i 0 = Some False"
| "fax_differs new old i (Suc k) = do {
     n \<leftarrow> rd new i;
     m \<leftarrow> rd old i;
     if fi_ip n \<noteq> fi_ip m \<or> fi_port n \<noteq> fi_port m then Some True else fax_differs new old (Suc i) k}"

definition reload_fax_ip_port :: "conf_vars \<Rightarrow> conf_vars conf_run option" where
  "reload_fax_ip_port s =
     (let s0 = s\<lparr>r_fax_infos := replicate FAX_NUM_MAX zero_fax, r_fax_num := 0\<rparr> in do {
     base \<leftarrow> ConfGetNode (conf_root s) ''fax'';
     (case base of
        None \<Rightarrow> Some (Cont (-1) s0)
      | Some b \<Rightarrow> do {
          (num, tab) \<leftarrow> fax_loop 0 (cn_head b) 0 (replicate FAX_NUM_MAX zero_fax);
          let s1 = s0\<lparr>r_fax_infos := tab, r_fax_num := num\<rparr>;
          if fax_num s1 \<noteq> num then Some (Cont 0 (s1\<lparr>svm_fax_reload := 1\<rparr>))
          else do {
            d \<leftarrow> fax_differs tab (fax_infos s1) 0 (unat (fax_num s1));
            Some (Cont 0 (if d then s1\<lparr>svm_fax_reload := 1\<rparr> else s1))}})})"

subsection \<open>The ports of the two managers\<close>

abbreviation SERV_IP :: string where "SERV_IP \<equiv> ''127.0.0.1''"

definition get_sguard_port :: "conf_vars \<Rightarrow> conf_vars conf_run option" where
  "get_sguard_port s = do {
     value \<leftarrow> conf_value s ''ma.sguardport'';
     p \<leftarrow> (case value of None \<Rightarrow> Some 2000 | Some v \<Rightarrow> do {n \<leftarrow> atoi v; Some (word_of_int n)});
     Some (Cont 0 (s\<lparr>vpu_conf := (vpu_conf s)\<lparr>port_sguard := p, ip_sguard := SERV_IP\<rparr>\<rparr>))}"

definition reload_sguard_port :: "conf_vars \<Rightarrow> conf_vars conf_run option" where
  "reload_sguard_port s = do {
     value \<leftarrow> conf_value s ''ma.sguardport'';
     (case value of
        None \<Rightarrow> Some (Cont (-1) s)
      | Some v \<Rightarrow> do {
          n \<leftarrow> atoi v;
          let port = (word_of_int n :: u16);
          Some (Cont 0 (if port \<noteq> 0 \<and> port \<noteq> port_sguard (vpu_conf s) then s\<lparr>dms_sguard_reload := 1\<rparr> else s))})}"

definition get_ma_port :: "conf_vars \<Rightarrow> conf_vars conf_run option" where
  "get_ma_port s = do {
     value \<leftarrow> conf_value s ''ma.maport'';
     p \<leftarrow> (case value of None \<Rightarrow> Some 2001 | Some v \<Rightarrow> do {n \<leftarrow> atoi v; Some (word_of_int n)});
     Some (Cont 0 (s\<lparr>vpu_conf := (vpu_conf s)\<lparr>port_ma := p, ip_ma := SERV_IP\<rparr>\<rparr>))}"

definition reload_ma_port :: "conf_vars \<Rightarrow> conf_vars conf_run option" where
  "reload_ma_port s = do {
     value \<leftarrow> conf_value s ''ma.maport'';
     (case value of
        None \<Rightarrow> Some (Cont (-1) s)
      | Some v \<Rightarrow> do {
          n \<leftarrow> atoi v;
          let port = (word_of_int n :: u16);
          Some (Cont 0 (if port \<noteq> 0 \<and> port \<noteq> port_ma (vpu_conf s) then s\<lparr>dms_ma_reload := 1\<rparr> else s))})}"

subsection \<open>Whole files\<close>

text \<open>
  \<open>files\<close> gives the events of the file at a path. A tree that is still there is kept by
  \<open>ConfInit\<close>, so a file is loaded on top of it. \<open>get_log_para\<close>, called by the two functions for the file of
  the recorder, belongs to the log library and changes none of these variables. A reload is called with the
  file name of the command, or with none.
\<close>

definition load_conf :: "(string \<Rightarrow> yaml_event list option) \<Rightarrow> string \<Rightarrow> string \<Rightarrow> conf_vars \<Rightarrow> (int \<times> conf_vars) option" where
  "load_conf files dir name s = do {
     (ret, root) \<leftarrow> ConfYamlLoadFile (files (snprintf 255 (dir @ name))) (ConfInit (conf_root s));
     Some (ret, s\<lparr>conf_root := root\<rparr>)}"

definition free_conf :: "conf_vars \<Rightarrow> conf_vars" where
  "free_conf s = s\<lparr>conf_root := ConfDeInit (conf_root s)\<rparr>"

definition get_vpu_conf :: "conf_env \<Rightarrow> (string \<Rightarrow> yaml_event list option) \<Rightarrow> conf_vars \<Rightarrow> (conf_vars \<times> string list) conf_run option" where
  "get_vpu_conf env files s = do {
     (ret, s0) \<leftarrow> load_conf files (conf_file (vpu_conf s)) ''vpu.yaml'' s;
     if ret \<noteq> 0 then Some (Exit 1)
     else do {
       r1 \<leftarrow> get_vpu_id s0;
       r2 \<leftarrow> then_run (dev_parser env) r1;
       r3 \<leftarrow> then_run get_storage_time r2;
       r4 \<leftarrow> then_run get_disk_left r3;
       r5 \<leftarrow> then_run (file_dirs_parser env) r4;
       Some (case r5 of Exit c \<Rightarrow> Exit c | Cont _ (s5, made) \<Rightarrow> Cont 0 (free_conf s5, made))}}"

definition reload_vpu_conf ::
  "conf_env \<Rightarrow> (string \<Rightarrow> yaml_event list option) \<Rightarrow> string option \<Rightarrow> conf_vars \<Rightarrow> (conf_vars \<times> string list) conf_run option" where
  "reload_vpu_conf env files cfg_file s =
     (case cfg_file of
        None \<Rightarrow> Some (Cont (-1) (s, []))
      | Some f \<Rightarrow> do {
     (ret, s0) \<leftarrow> load_conf files (conf_file (vpu_conf s)) f s;
     if ret \<noteq> 0 then Some (Cont (-1) (s0, []))
     else do {
       r1 \<leftarrow> reload_vpu_id s0;
       r2 \<leftarrow> then_run reload_dev_parser r1;
       r3 \<leftarrow> then_run reload_storage_time r2;
       r4 \<leftarrow> then_run reload_disk_left r3;
       r5 \<leftarrow> then_run (reload_file_dirs env) r4;
       Some (case r5 of Exit c \<Rightarrow> Exit c | Cont _ (s5, made) \<Rightarrow> Cont 0 (free_conf s5, made))}})"

definition get_svm_conf :: "conf_env \<Rightarrow> (string \<Rightarrow> yaml_event list option) \<Rightarrow> conf_vars \<Rightarrow> conf_vars conf_run option" where
  "get_svm_conf env files s = do {
     (ret, s0) \<leftarrow> load_conf files (svm_conf_file (vpu_conf s)) ''svm.yaml'' s;
     if ret \<noteq> 0 then Some (Exit 1)
     else do {
       r1 \<leftarrow> get_cdr_ip_port s0;
       r2 \<leftarrow> then_run get_fax_ip_port r1;
       r3 \<leftarrow> then_run (get_server_ip_port env) r2;
       Some (case r3 of Exit c \<Rightarrow> Exit c | Cont _ s3 \<Rightarrow> Cont 0 (free_conf s3))}}"

definition reload_svm_conf ::
  "conf_env \<Rightarrow> (string \<Rightarrow> yaml_event list option) \<Rightarrow> string option \<Rightarrow> conf_vars \<Rightarrow> conf_vars conf_run option" where
  "reload_svm_conf env files cfg_file s =
     (case cfg_file of
        None \<Rightarrow> Some (Cont (-1) s)
      | Some f \<Rightarrow> do {
     (ret, s0) \<leftarrow> load_conf files (svm_conf_file (vpu_conf s)) f s;
     if ret \<noteq> 0 then Some (Cont (-1) s0)
     else do {
       r1 \<leftarrow> reload_cdr_ip_port s0;
       r2 \<leftarrow> then_run reload_fax_ip_port r1;
       r3 \<leftarrow> then_run (reload_server_ip_port env) r2;
       Some (case r3 of Exit c \<Rightarrow> Exit c | Cont _ s3 \<Rightarrow> Cont 0 (free_conf s3))}})"

definition get_dms_conf :: "(string \<Rightarrow> yaml_event list option) \<Rightarrow> conf_vars \<Rightarrow> conf_vars conf_run option" where
  "get_dms_conf files s = do {
     (ret, s0) \<leftarrow> load_conf files (dms_conf_file (vpu_conf s)) ''dms.yaml'' s;
     if ret \<noteq> 0 then Some (Exit 1)
     else do {
       r1 \<leftarrow> get_sguard_port s0;
       r2 \<leftarrow> then_run get_ma_port r1;
       Some (case r2 of Exit c \<Rightarrow> Exit c | Cont _ s2 \<Rightarrow> Cont 0 (free_conf s2))}}"

definition reload_dms_conf :: "(string \<Rightarrow> yaml_event list option) \<Rightarrow> string option \<Rightarrow> conf_vars \<Rightarrow> conf_vars conf_run option" where
  "reload_dms_conf files cfg_file s =
     (case cfg_file of
        None \<Rightarrow> Some (Cont (-1) s)
      | Some f \<Rightarrow> do {
     (ret, s0) \<leftarrow> load_conf files (dms_conf_file (vpu_conf s)) f s;
     if ret \<noteq> 0 then Some (Cont (-1) s0)
     else do {
       r1 \<leftarrow> reload_sguard_port s0;
       r2 \<leftarrow> then_run reload_ma_port r1;
       Some (case r2 of Exit c \<Rightarrow> Exit c | Cont _ s2 \<Rightarrow> Cont 0 (free_conf s2))}})"

subsection \<open>The command line\<close>

text \<open>The result is how many arguments were used, or -1.\<close>

definition sn_parser :: "string list \<Rightarrow> vpu_param \<Rightarrow> (int \<times> vpu_param) option" where
  "sn_parser args p =
     (case args of
        [] \<Rightarrow> Some (0, p)
      | a # _ \<Rightarrow>
          (if \<not> list_all is_digit a then Some (-1, p\<lparr>sn := 0\<rparr>)
           else do {n \<leftarrow> atoi a; Some (1, p\<lparr>sn := word_of_int n\<rparr>)}))"

definition config_parser :: "string list \<Rightarrow> vpu_param \<Rightarrow> int \<times> vpu_param" where
  "config_parser args p =
     (case args of
        [] \<Rightarrow> (0, p)
      | a # _ \<Rightarrow> (if 128 \<le> length a then (0, p) else (1, p\<lparr>conf_file := a\<rparr>)))"

fun params :: "string list \<Rightarrow> vpu_param \<Rightarrow> (int \<times> vpu_param) option" where
  "params [] p = Some (0, p)"
| "params (a # as) p =
     (if a = ''--sn'' then do {
        (ret, p') \<leftarrow> sn_parser as p;
        if ret \<le> 0 then Some (-1, p') else params (drop (nat ret) as) p'}
      else if a = ''--config'' then (let (ret, p') = config_parser as p in params (drop (nat ret) as) p')
      else params as p)"

definition default_param :: vpu_param where
  "default_param = \<lparr>sn = 0, port_sguard = 0, port_ma = 0, ip_sguard = '''', ip_ma = '''', dev = '''', dev_mac = replicate 6 0,
     app_name = ''vpu'', conf_file = ''/usr/local/etc/vpu/'', svm_conf_file = ''/usr/local/etc/'', dms_conf_file = ''/usr/local/etc/''\<rparr>"

definition param_parser :: "string list \<Rightarrow> (int \<times> vpu_param) option" where
  "param_parser argv =
     (case argv of
        [] \<Rightarrow> None
      | a # as \<Rightarrow> (if 64 \<le> length a \<or> length argv < 3 then Some (0, default_param) else params as default_param))"

subsection \<open>A loaded configuration\<close>

lemma then_run_Some: "then_run f r = Some (Cont n x) \<longleftrightarrow> (\<exists>m s. r = Cont m s \<and> f s = Some (Cont n x))"
  by (cases r) (auto simp: then_run_def)

lemma storage_range_ok: "1 \<le> storage_range v \<and> storage_range v \<le> 1024"
proof (cases "v = 0 \<or> 1024 < v")
  case True
  then show ?thesis by (auto simp: storage_range_def)
next
  case False
  then have "1 \<le> v" "v \<le> 1024" using word_le_less_eq[of 1 v] by (auto simp: inc_le[of 0 v, simplified] word_neq_0_conv)
  then show ?thesis using False by (simp add: storage_range_def)
qed

lemma disk_range_ok: "1 \<le> disk_range v \<and> disk_range v \<le> 1024"
proof (cases "v = 0 \<or> 1024 < v")
  case True
  then show ?thesis by (auto simp: disk_range_def)
next
  case False
  then have "1 \<le> v" "v \<le> 1024" using word_le_less_eq[of 1 v] by (auto simp: inc_le[of 0 v, simplified] word_neq_0_conv)
  then show ?thesis using False by (simp add: disk_range_def)
qed

lemma get_vpu_id_frame: "get_vpu_id s = Some (Cont r s') \<Longrightarrow> \<exists>i. s' = s\<lparr>vpu_id := i\<rparr>"
  by (auto simp: get_vpu_id_def split: Option.bind_splits option.splits)

lemma dev_parser_frame:
  "dev_parser env s = Some (Cont r s') \<Longrightarrow> \<exists>p. s' = s\<lparr>vpu_conf := p\<rparr> \<and> length (dev p) < 64"
  by (auto simp: dev_parser_def get_local_mac_def Let_def split: Option.bind_splits option.splits if_splits prod.splits)

lemma get_storage_time_frame:
  "get_storage_time s = Some (Cont r s') \<Longrightarrow> \<exists>v. s' = s\<lparr>storage_time := storage_range v\<rparr>"
  by (auto simp: get_storage_time_def split: Option.bind_splits)

lemma get_disk_left_frame:
  "get_disk_left s = Some (Cont r s') \<Longrightarrow> \<exists>v. s' = s\<lparr>disk_left := disk_range v\<rparr>"
  by (auto simp: get_disk_left_def split: Option.bind_splits)

lemma fill_keeps_ok:
  assumes "dirs_ok fd" "fill_file_dirs is_dir dir k fd = Some (r, fd')"
  shows "dirs_ok fd'"
proof (cases "fd' = fd")
  case True
  then show ?thesis using assms(1) by simp
next
  case False
  then obtain d where d: "unat (fd_num fd) < length (fd_dirs fd)"
    "fd' = fd\<lparr>fd_dirs := (fd_dirs fd)[unat (fd_num fd) := d], fd_num := fd_num fd + 1\<rparr>"
    using assms(2) by (auto simp: fill_file_dirs_def Let_def split: option.splits if_splits)
  then have "unat (fd_num fd + 1) = unat (fd_num fd) + 1" using assms(1) by (intro unat_succ32) (simp add: dirs_ok_def)
  then show ?thesis using assms(1) d by (simp add: dirs_ok_def)
qed

lemma dirs_loop_ok:
  "dirs_ok fd \<Longrightarrow> dirs_loop (fill_file_dirs is_dir) cs fd = Some fd' \<Longrightarrow> dirs_ok fd'"
proof (induction cs arbitrary: fd)
  case Nil
  then show ?case by simp
next
  case (Cons c cs)
  from Cons.prems(2) obtain v where v: "cn_val c = Some v" by (cases "cn_val c") auto
  show ?case
  proof (cases "v = ''dir''")
    case True
    with Cons.prems(2) v obtain dir disk where d: "dir_entry (cn_head c) None 0 = Some (dir, disk)"
      by (cases "dir_entry (cn_head c) None 0") auto
    with Cons.prems(2) v True obtain r fd1 where f: "fill_file_dirs is_dir dir disk fd = Some (r, fd1)"
      by (cases "fill_file_dirs is_dir dir disk fd") auto
    with Cons.prems(2) v True d have "dirs_loop (fill_file_dirs is_dir) cs fd1 = Some fd'" by simp
    then show ?thesis by (rule Cons.IH[OF fill_keeps_ok[OF Cons.prems(1) f]])
  next
    case False
    with Cons.prems v show ?thesis by (auto intro: Cons.IH)
  qed
qed

lemma file_dirs_parser_frame:
  assumes "file_dirs_parser env s = Some (Cont r (s', made))"
  shows "\<exists>fd. s' = s\<lparr>file_dirs := fd, file_dir_no := 0\<rparr> \<and> dirs_ok fd \<and> fd_num fd \<noteq> 0"
proof -
  obtain b where b: "ConfGetNode (conf_root s) ''filedirs'' = Some (Some b)"
    using assms by (auto simp: file_dirs_parser_def split: Option.bind_splits option.splits)
  then obtain fd m made' where fd: "dirs_loop (fill_file_dirs (ce_is_dir env)) (cn_head b) empty_dirs = Some fd"
      "init_file_dirs env (s\<lparr>file_dirs := fd, file_dir_no := atomic32_init (file_dir_no s)\<rparr>) = Some (Cont m made')"
      "s' = s\<lparr>file_dirs := fd, file_dir_no := atomic32_init (file_dir_no s)\<rparr>"
    using assms by (auto simp: file_dirs_parser_def Let_def split: Option.bind_splits conf_run.splits)
  have "dirs_ok fd" using dirs_loop_ok[OF empty_dirs_ok(1) fd(1)] .
  moreover have "fd_num fd \<noteq> 0" using fd(2) by (auto simp: init_file_dirs_def split: if_splits)
  moreover have "atomic32_init (file_dir_no s) = 0" by (simp add: atomic32_defs)
  ultimately show ?thesis using fd(3) by auto
qed


text \<open>
  C35. A configuration that is accepted is sane. When \<open>get_vpu_conf\<close> returns instead of ending the program, the
  storage time and the reserved disk space lie between 1 and 1024, the device name fits its
  buffer, the table of directories is well-formed and not empty, the turn counter starts at 0, and
  the configuration tree has been freed.
\<close>

theorem vpu_conf_sane:
  assumes "get_vpu_conf env files s = Some (Cont r (s', made))"
  shows "1 \<le> storage_time s' \<and> storage_time s' \<le> 1024 \<and> 1 \<le> disk_left s' \<and> disk_left s' \<le> 1024 \<and>
     length (dev (vpu_conf s')) < 64 \<and> dirs_ok (file_dirs s') \<and> fd_num (file_dirs s') \<noteq> 0 \<and> file_dir_no s' = 0 \<and>
     conf_root s' = None"
proof -
  from assms obtain s0 r1 r2 r3 r4 m s5 where st:
    "get_vpu_id s0 = Some r1" "then_run (dev_parser env) r1 = Some r2" "then_run get_storage_time r2 = Some r3"
    "then_run get_disk_left r3 = Some r4" "then_run (file_dirs_parser env) r4 = Some (Cont m (s5, made))" "s' = free_conf s5"
    by (auto simp: get_vpu_conf_def split: Option.bind_splits if_splits conf_run.splits)
  from st(5) obtain m4 s4 where 4: "r4 = Cont m4 s4" "file_dirs_parser env s4 = Some (Cont m (s5, made))"
    by (auto simp: then_run_Some)
  from st(4) 4(1) obtain m3 s3 where 3: "r3 = Cont m3 s3" "get_disk_left s3 = Some (Cont m4 s4)" by (auto simp: then_run_Some)
  from st(3) 3(1) obtain m2 s2 where 2: "r2 = Cont m2 s2" "get_storage_time s2 = Some (Cont m3 s3)" by (auto simp: then_run_Some)
  from st(2) 2(1) obtain m1 s1 where 1: "r1 = Cont m1 s1" "dev_parser env s1 = Some (Cont m2 s2)" by (auto simp: then_run_Some)
  from dev_parser_frame[OF 1(2)] get_storage_time_frame[OF 2(2)] get_disk_left_frame[OF 3(2)] file_dirs_parser_frame[OF 4(2)]
  obtain p v d fd where "s2 = s1\<lparr>vpu_conf := p\<rparr>" "length (dev p) < 64" "s3 = s2\<lparr>storage_time := storage_range v\<rparr>"
    "s4 = s3\<lparr>disk_left := disk_range d\<rparr>" "s5 = s4\<lparr>file_dirs := fd, file_dir_no := 0\<rparr>" "dirs_ok fd" "fd_num fd \<noteq> 0" by blast
  then show ?thesis using st(6) storage_range_ok disk_range_ok by (simp add: free_conf_def ConfDeInit_def)
qed

definition start_vars :: conf_vars where
  "start_vars = \<lparr>vpu_conf = default_param, file_dirs = empty_dirs, rl_file_dirs = empty_dirs, file_dir_no = 0, vpu_id = 0,
     storage_time = 90, disk_left = 5, cdr_ip = '''', cdr_port = 0, server_ip = '''', server_port = 0,
     fax_infos = replicate FAX_NUM_MAX zero_fax, fax_num = 0, r_fax_infos = replicate FAX_NUM_MAX zero_fax, r_fax_num = 0,
     svm_cdr_reload = 0, svm_fax_reload = 0, svm_vpu_reload = 0, dms_sguard_reload = 0, dms_ma_reload = 0,
     vpu_dev_reload = 0, vpu_dir_reload = 0, conf_root = None\<rparr>"

definition test_conf_env :: conf_env where
  "test_conf_env = \<lparr>ce_is_dir = (\<lambda>p. p = ''/d''), ce_mkdir = (\<lambda>p. True), ce_today = \<lparr>tm_year = 116, tm_mon = 4, tm_mday = 17\<rparr>,
     ce_tomorrow = \<lparr>tm_year = 116, tm_mon = 4, tm_mday = 18\<rparr>, ce_mac = (\<lambda>d. (0, replicate 6 1)), ce_scan_mac = (\<lambda>s m. replicate 6 1)\<rparr>"

definition leaf :: "string \<Rightarrow> string \<Rightarrow> conf_node" where
  "leaf k v = ConfNode k (Some v) False True []"

definition vpu_doc :: "(string \<times> ydoc) list" where
  "vpu_doc = [(''id'', YScalar ''7''), (''dev'', YScalar ''eth0''), (''storage-time'', YScalar ''2000''),
     (''filedirs'', YSeq [YMap [(''dir'', YScalar ''/d''), (''disk'', YScalar ''1'')]])]"

definition doc_events :: "(string \<times> ydoc) list \<Rightarrow> yaml_event list" where
  "doc_events kvs = [Stream_start, Document_start (Some (1, 1))] @ yev (YMap kvs) @ [Document_end, Stream_end]"

lemma load_vpu_doc:
  "load_conf (\<lambda>p. Some (doc_events vpu_doc)) d n start_vars = Some (0, start_vars\<lparr>conf_root :=
     Some (ConfNode '''' None False True [leaf ''id'' ''7'', leaf ''dev'' ''eth0'', leaf ''storage-time'' ''2000'',
       ConfNode ''filedirs'' None False True [ConfNode (seq_name 0) (Some ''dir'') True True [leaf ''dir'' ''/d'', leaf ''disk'' ''1'']]])\<rparr>)"
  using yaml_load_doc[of vpu_doc]
  by (simp add: load_conf_def doc_events_def start_vars_def)
     (simp add: vpu_doc_def named_def ConfNodeNew_def first_key_def Mangle_def item_node_def leaf_def)

lemma atoi_samples: "atoi ''7'' = Some 7" "atoi ''2000'' = Some 2000" "atoi ''1'' = Some 1" "atoi ''2'' = Some 2" "atoi ''90'' = Some 90"
  by (simp_all add: atoi_def is_space_def is_digit_def dec_value_def Let_def)

lemma take_one_update: "xs \<noteq> [] \<Longrightarrow> take (Suc 0) (xs[0 := d]) = [d]"
  by (cases xs) simp_all

theorem vpu_conf_sane_witness:
  "\<exists>r s' made. get_vpu_conf test_conf_env (\<lambda>p. Some (doc_events vpu_doc)) start_vars = Some (Cont r (s', made)) \<and>
     1 \<le> storage_time s' \<and> storage_time s' \<le> 1024 \<and> dirs_ok (file_dirs s')"
proof -
  have "\<exists>s' made. get_vpu_conf test_conf_env (\<lambda>p. Some (doc_events vpu_doc)) start_vars = Some (Cont 0 (s', made))"
    by (simp add: get_vpu_conf_def load_vpu_doc)
      (simp add: get_vpu_id_def dev_parser_def get_local_mac_def get_storage_time_def get_disk_left_def file_dirs_parser_def then_run_def conf_value_def
        ConfGet_def ConfGetNode_def ConfNodeLookupChild_def leaf_def start_vars_def atoi_samples fill_file_dirs_def empty_dirs_def
        test_conf_env_def init_file_dirs_def make_trees_def rd_n_def snprintf_def take_one_update)
  then obtain s' made where g: "get_vpu_conf test_conf_env (\<lambda>p. Some (doc_events vpu_doc)) start_vars = Some (Cont 0 (s', made))" by blast
  from vpu_conf_sane[OF g] g show ?thesis by blast
qed

subsection \<open>The table of fax servers\<close>

text \<open>The node of an entry of the list.\<close>

definition fax_node_of :: "string \<times> string \<times> string \<Rightarrow> conf_node" where
  "fax_node_of e = (case e of (i, ip, port) \<Rightarrow> ConfNode '''' (Some ''id'') True True [leaf ''id'' i, leaf ''ip'' ip, leaf ''port'' port])"

definition fax_entry_ok :: "string \<times> string \<times> string \<Rightarrow> bool" where
  "fax_entry_ok e = (case e of (i, ip, port) \<Rightarrow> atoi i \<noteq> None \<and> atoi port \<noteq> None \<and> length ip < 16)"

definition fax_of :: "u8 \<Rightarrow> string \<times> string \<times> string \<Rightarrow> fax_info" where
  "fax_of flag e = (case e of (i, ip, port) \<Rightarrow>
     \<lparr>fi_id = word_of_int (the (atoi i)), fi_ip = ip, fi_port = word_of_int (the (atoi port)), fi_fd = -1, fi_flag = flag\<rparr>)"

lemma fax_entry_val:
  assumes "fax_entry_ok e"
  shows "fax_entry flag (cn_head (fax_node_of e)) num tab = (if num < length tab then Some (tab[num := fax_of flag e]) else None)"
proof -
  obtain i ip port where e: "e = (i, ip, port)" by (cases e)
  then obtain n m where "atoi i = Some n" "atoi port = Some m" "length ip < 16" using assms by (auto simp: fax_entry_ok_def)
  moreover have eq: "(tab ! num)\<lparr>fi_id := a, fi_flag := b, fi_fd := c, fi_ip := d, fi_port := g\<rparr> =
      \<lparr>fi_id = a, fi_ip = d, fi_port = g, fi_fd = c, fi_flag = b\<rparr>" for a b c d g by (cases "tab ! num") simp
  ultimately show ?thesis by (simp add: e fax_node_of_def leaf_def fax_of_def rd_def eq)
qed

lemma fax_loop_val:
  "\<forall>e \<in> set es. fax_entry_ok e \<Longrightarrow> unat num + length es \<le> length tab \<Longrightarrow> length tab < 2 ^ 32 \<Longrightarrow>
     fax_loop flag (map fax_node_of es) num tab =
       Some (num + of_nat (length es), take (unat num) tab @ map (fax_of flag) es @ drop (unat num + length es) tab)"
proof (induction es arbitrary: num tab)
  case Nil
  then show ?case by simp
next
  case (Cons e es)
  let ?tab = "tab[unat num := fax_of flag e]"
  have n: "unat num < length tab" "unat num + 1 < 2 ^ 32 " using Cons.prems by simp_all
  then have s: "unat (num + 1) = unat num + 1" by (intro unat_succ32) simp
  have "fax_loop flag (map fax_node_of es) (num + 1) ?tab =
     Some (num + 1 + of_nat (length es), take (unat num + 1) ?tab @ map (fax_of flag) es @ drop (unat num + 1 + length es) ?tab)"
    using Cons.IH[of "num + 1" ?tab] Cons.prems s by simp
  moreover have "take (unat num + 1) ?tab = take (unat num) tab @ [fax_of flag e]"
    using n(1) by (simp add: take_Suc_conv_app_nth)
  moreover have "cn_val (fax_node_of e) = Some ''id''" by (simp add: fax_node_of_def split: prod.split)
  ultimately show ?case using fax_entry_val[of e flag "unat num" tab] Cons.prems(1) n(1) by (simp add: add.assoc)
qed

lemma fax_loop_over:
  assumes "\<forall>e \<in> set es. fax_entry_ok e" "length tab = 32" "32 < length es"
  shows "fax_loop flag (map fax_node_of es) 0 tab = None"
proof -
  have ap: "fax_loop flag (xs @ ys) num t = (case fax_loop flag xs num t of None \<Rightarrow> None | Some (n, t') \<Rightarrow> fax_loop flag ys n t')"
    for xs ys num t
    by (induction xs arbitrary: num t) (auto split: option.splits Option.bind_splits)
  obtain a e b where es: "es = a @ e # b" "length a = 32"
    using assms(3) by (metis id_take_nth_drop length_take min.absorb4)
  have "fax_loop flag (map fax_node_of a) 0 tab = Some (32, map (fax_of flag) a)"
    using fax_loop_val[of a 0 tab flag] assms(1,2) es by simp
  moreover have "fax_loop flag (map fax_node_of (e # b)) 32 (map (fax_of flag) a) = None"
  proof -
    have "cn_val (fax_node_of e) = Some ''id''" by (simp add: fax_node_of_def split: prod.split)
    moreover have "fax_entry flag (cn_head (fax_node_of e)) 32 (map (fax_of flag) a) = None"
      using fax_entry_val[of e flag 32 "map (fax_of flag) a"] assms(1) es by simp
    ultimately show ?thesis by (simp del: fax_entry.simps)
  qed
  ultimately show ?thesis by (simp only: es map_append ap) simp
qed

text \<open>
  The table of fax servers holds 32 entries and no test guards it. A list of at most 32 complete entries is read into the
  table in order; with a 33rd entry in the configuration file the parser writes behind the table.
\<close>

theorem fax_table_bound:
  assumes "ConfGetNode (conf_root s) ''fax'' = Some (Some b)" and "cn_head b = map fax_node_of es"
    and "\<forall>e \<in> set es. fax_entry_ok e"
  shows "(length es \<le> 32 \<longrightarrow> (\<exists>s'. get_fax_ip_port s = Some (Cont 0 s') \<and> fax_num s' = of_nat (length es) \<and>
         take (length es) (fax_infos s') = map (fax_of 1) es)) \<and>
     (32 < length es \<longrightarrow> get_fax_ip_port s = None)"
proof (intro conjI impI)
  assume "length es \<le> 32"
  then show "\<exists>s'. get_fax_ip_port s = Some (Cont 0 s') \<and> fax_num s' = of_nat (length es) \<and>
         take (length es) (fax_infos s') = map (fax_of 1) es"
    using fax_loop_val[of es 0 "replicate FAX_NUM_MAX zero_fax" 1] assms by (simp add: get_fax_ip_port_def)
next
  assume "32 < length es"
  then show "get_fax_ip_port s = None"
    using fax_loop_over[of es "replicate FAX_NUM_MAX zero_fax" 1] assms by (simp add: get_fax_ip_port_def)
qed

definition many_faxes :: conf_vars where
  "many_faxes = start_vars\<lparr>conf_root := Some (ConfNode '''' None False True
     [ConfNode ''fax'' None False True (map fax_node_of (replicate 33 (''1'', ''10.0.0.1'', ''2000'')))])\<rparr>"

theorem fax_table_bound_witness: "get_fax_ip_port many_faxes = None"
proof -
  have "ConfGetNode (conf_root many_faxes) ''fax'' =
      Some (Some (ConfNode ''fax'' None False True (map fax_node_of (replicate 33 (''1'', ''10.0.0.1'', ''2000'')))))"
    by (simp add: many_faxes_def ConfGetNode_def ConfNodeLookupChild_def)
  from fax_table_bound[OF this, of "replicate 33 (''1'', ''10.0.0.1'', ''2000'')"] show ?thesis
    by (simp add: fax_entry_ok_def atoi_samples)
qed

subsection \<open>Reloading\<close>

lemma ucast16_of_int: "ucast (word_of_int n :: u32) = (word_of_int n :: u16)"
  by (simp add: word_uint_eq_iff unsigned_ucast_eq uint_word_of_int take_bit_eq_mod mod_mod_cancel)

lemma port_roundtrip:
  assumes "- (2 ^ 31) \<le> n" "n < 2 ^ 31"
  shows "(word_of_int n :: u32) = ucast (word_of_int n :: u16) \<longleftrightarrow> 0 \<le> n \<and> n < 65536"
proof -
  have "(word_of_int n :: u32) = ucast (word_of_int n :: u16) \<longleftrightarrow> n mod 2 ^ 32 = n mod 2 ^ 16"
    by (simp add: word_uint_eq_iff unsigned_ucast_eq uint_word_of_int take_bit_eq_mod)
  also have "\<dots> \<longleftrightarrow> 0 \<le> n \<and> n < 65536"
  proof (cases "0 \<le> n")
    case True
    then have "n mod 2 ^ 32 = n" using assms(2) by (simp add: mod_pos_pos_trivial)
    then show ?thesis using True pos_mod_bound[of "65536" n] by (auto simp: mod_pos_pos_trivial)
  next
    case False
    then have "n mod 2 ^ 32 = n + 2 ^ 32" using assms(1) mod_pos_pos_trivial[of "n + 2 ^ 32" "2 ^ 32"] by simp
    moreover have "n mod 2 ^ 16 < 2 ^ 16" by simp
    ultimately show ?thesis using False assms(1) by simp
  qed
  finally show ?thesis .
qed

lemma ucast16_32: "(ucast (ucast (p :: u16) :: u32) :: u16) = p"
  by transfer simp

text \<open>
  A reload of the call record server converges unless the port is out of range. The new address and port are taken over; when
  the port fits in 16 bits a second reload of the same file changes nothing, and when it does not,
  every reload makes the connection drop again, because the port is compared in 32 bits and stored in 16.
\<close>

theorem cdr_reload_converges:
  assumes "cdr_values s = Some (ip, n)" and "- (2 ^ 31) \<le> n" and "n < 2 ^ 31"
  shows "\<exists>s1. reload_cdr_ip_port s = Some (Cont 0 s1) \<and> cdr_ip s1 = ip \<and> cdr_port s1 = word_of_int n \<and>
     (let s2 = s1\<lparr>svm_cdr_reload := 0\<rparr> in
      if 0 \<le> n \<and> n < 65536 then reload_cdr_ip_port s2 = Some (Cont 0 s2)
      else reload_cdr_ip_port s2 = Some (Cont 0 (s2\<lparr>svm_cdr_reload := 1\<rparr>)))"
proof -
  have c: "cdr_values (t\<lparr>cdr_ip := a, cdr_port := b, svm_cdr_reload := d\<rparr>) = cdr_values t"
    "cdr_values (t\<lparr>svm_cdr_reload := d\<rparr>) = cdr_values t" "cdr_values (t\<lparr>cdr_ip := a, cdr_port := b\<rparr>) = cdr_values t" for t a b d
    by (simp_all add: cdr_values_def conf_value_def)
  let ?p = "word_of_int n :: u16" and ?q = "word_of_int n :: u32"
  obtain s1 where s1: "reload_cdr_ip_port s = Some (Cont 0 s1)" "cdr_ip s1 = ip" "cdr_port s1 = ?p" "cdr_values s1 = Some (ip, n)"
  proof (cases "ip \<noteq> cdr_ip s \<or> ?q \<noteq> ucast (cdr_port s)")
    case True
    then show ?thesis
      using assms(1) by (intro that[of "s\<lparr>cdr_ip := ip, cdr_port := ?p, svm_cdr_reload := 1\<rparr>"])
        (auto simp: reload_cdr_ip_port_def c ucast16_of_int)
  next
    case False
    then have "?p = cdr_port s" by (metis ucast16_of_int ucast16_32)
    with False show ?thesis using assms(1) by (intro that[of s]) (auto simp: reload_cdr_ip_port_def)
  qed
  let ?s2 = "s1\<lparr>svm_cdr_reload := 0\<rparr>"
  have v: "cdr_values ?s2 = Some (ip, n)" by (simp add: c s1(4))
  have same: "?s2\<lparr>cdr_ip := ip, cdr_port := ?p, svm_cdr_reload := 1\<rparr> = ?s2\<lparr>svm_cdr_reload := 1\<rparr>"
    using s1(2,3) by (cases s1) simp
  show ?thesis using s1(1-3) v same port_roundtrip[OF assms(2,3)]
    by (auto simp: reload_cdr_ip_port_def ucast16_of_int)
qed

definition cdr_doc :: "string \<Rightarrow> conf_vars" where
  "cdr_doc port = start_vars\<lparr>conf_root := Some (ConfNode '''' None False True
     [ConfNode ''cdr'' None False True [leaf ''ip'' ''10.0.0.1'', leaf ''vpuport'' port]])\<rparr>"

lemma cdr_doc_values: "atoi port = Some n \<Longrightarrow> cdr_values (cdr_doc port) = Some (''10.0.0.1'', n)"
  by (simp add: cdr_values_def cdr_doc_def conf_value_def ConfGet_def ConfGetNode_def ConfNodeLookupChild_def leaf_def short_ip_def)

theorem cdr_reload_converges_witness:
  "\<exists>s1. reload_cdr_ip_port (cdr_doc ''70000'') = Some (Cont 0 s1) \<and> cdr_port s1 = 4464 \<and>
     reload_cdr_ip_port (s1\<lparr>svm_cdr_reload := 0\<rparr>) = Some (Cont 0 (s1\<lparr>svm_cdr_reload := 1\<rparr>))"
proof -
  have "atoi ''70000'' = Some 70000" by (simp add: atoi_def is_space_def is_digit_def dec_value_def Let_def)
  from cdr_reload_converges[OF cdr_doc_values[OF this]] show ?thesis by (auto simp: Let_def)
qed

lemma conf_value_flags [simp]:
  "conf_value (s\<lparr>vpu_dev_reload := f\<rparr>) k = conf_value s k" "conf_value (s\<lparr>dms_sguard_reload := f\<rparr>) k = conf_value s k"
  "conf_value (s\<lparr>dms_ma_reload := f\<rparr>) k = conf_value s k"
  by (simp_all add: conf_value_def)

lemma reload_dev_cases:
  assumes "reload_dev_parser s = Some (Cont r s')"
  shows "s' = s \<or> (\<exists>v. conf_value s ''dev'' = Some (Some v) \<and> length v < 64 \<and> v \<noteq> dev (vpu_conf s) \<and> s' = s\<lparr>vpu_dev_reload := 1\<rparr> \<and> r = 0)"
proof (cases "conf_value s ''dev''")
  case (Some w)
  with assms show ?thesis by (cases w) (simp_all add: reload_dev_parser_def split: if_splits)
qed (use assms in \<open>simp add: reload_dev_parser_def\<close>)

lemma reload_sguard_cases:
  assumes "reload_sguard_port s = Some (Cont r s')"
  shows "s' = s \<or> (\<exists>v n. conf_value s ''ma.sguardport'' = Some (Some v) \<and> atoi v = Some n \<and> (word_of_int n :: u16) \<noteq> 0 \<and>
     word_of_int n \<noteq> port_sguard (vpu_conf s) \<and> s' = s\<lparr>dms_sguard_reload := 1\<rparr> \<and> r = 0)"
proof (cases "conf_value s ''ma.sguardport''")
  case (Some w)
  show ?thesis
  proof (cases w)
    case (Some v)
    with \<open>conf_value s ''ma.sguardport'' = Some w\<close> assms show ?thesis
      by (cases "atoi v") (simp_all add: reload_sguard_port_def Let_def split: if_splits)
  qed (use Some assms in \<open>simp add: reload_sguard_port_def\<close>)
qed (use assms in \<open>simp add: reload_sguard_port_def\<close>)

lemma reload_ma_cases:
  assumes "reload_ma_port s = Some (Cont r s')"
  shows "s' = s \<or> (\<exists>v n. conf_value s ''ma.maport'' = Some (Some v) \<and> atoi v = Some n \<and> (word_of_int n :: u16) \<noteq> 0 \<and>
     word_of_int n \<noteq> port_ma (vpu_conf s) \<and> s' = s\<lparr>dms_ma_reload := 1\<rparr> \<and> r = 0)"
proof (cases "conf_value s ''ma.maport''")
  case (Some w)
  show ?thesis
  proof (cases w)
    case (Some v)
    with \<open>conf_value s ''ma.maport'' = Some w\<close> assms show ?thesis
      by (cases "atoi v") (simp_all add: reload_ma_port_def Let_def split: if_splits)
  qed (use Some assms in \<open>simp add: reload_ma_port_def\<close>)
qed (use assms in \<open>simp add: reload_ma_port_def\<close>)

lemma reload_dev_keeps:
  assumes "reload_dev_parser s = Some (Cont r s')"
  shows "vpu_conf s' = vpu_conf s \<and> (vpu_dev_reload s = 0 \<and> vpu_dev_reload s' = 1 \<longrightarrow>
          reload_dev_parser (s'\<lparr>vpu_dev_reload := 0\<rparr>) = Some (Cont r s'))"
  using reload_dev_cases[OF assms] by (elim disjE exE) (auto simp: reload_dev_parser_def)

lemma reload_sguard_keeps:
  assumes "reload_sguard_port s = Some (Cont r s')"
  shows "vpu_conf s' = vpu_conf s \<and> (dms_sguard_reload s = 0 \<and> dms_sguard_reload s' = 1 \<longrightarrow>
          reload_sguard_port (s'\<lparr>dms_sguard_reload := 0\<rparr>) = Some (Cont r s'))"
  using reload_sguard_cases[OF assms] by (elim disjE exE) (auto simp add: reload_sguard_port_def Let_def)

lemma reload_ma_keeps:
  assumes "reload_ma_port s = Some (Cont r s')"
  shows "vpu_conf s' = vpu_conf s \<and> (dms_ma_reload s = 0 \<and> dms_ma_reload s' = 1 \<longrightarrow>
          reload_ma_port (s'\<lparr>dms_ma_reload := 0\<rparr>) = Some (Cont r s'))"
  using reload_ma_cases[OF assms] by (elim disjE exE) (auto simp add: reload_ma_port_def Let_def)

text \<open>
  A new device or a new port of one of the managers is never taken over. The reload functions only raise the flag that makes the
  connection drop: the parameters keep the value of the start, so the connection is made again to the
  old port, and every later reload of the same file raises the flag again.
\<close>

theorem reload_keeps_param:
  "(reload_dev_parser s = Some (Cont r s') \<longrightarrow> vpu_conf s' = vpu_conf s \<and>
       (vpu_dev_reload s = 0 \<and> vpu_dev_reload s' = 1 \<longrightarrow>
          reload_dev_parser (s'\<lparr>vpu_dev_reload := 0\<rparr>) = Some (Cont r s'))) \<and>
   (reload_sguard_port s = Some (Cont r s') \<longrightarrow> vpu_conf s' = vpu_conf s \<and>
       (dms_sguard_reload s = 0 \<and> dms_sguard_reload s' = 1 \<longrightarrow>
          reload_sguard_port (s'\<lparr>dms_sguard_reload := 0\<rparr>) = Some (Cont r s'))) \<and>
   (reload_ma_port s = Some (Cont r s') \<longrightarrow> vpu_conf s' = vpu_conf s \<and>
       (dms_ma_reload s = 0 \<and> dms_ma_reload s' = 1 \<longrightarrow>
          reload_ma_port (s'\<lparr>dms_ma_reload := 0\<rparr>) = Some (Cont r s')))"
  by (intro conjI[OF _ conjI] impI reload_dev_keeps reload_sguard_keeps reload_ma_keeps)

definition new_dev :: conf_vars where
  "new_dev = start_vars\<lparr>conf_root := Some (ConfNode '''' None False True [leaf ''dev'' ''eth1''])\<rparr>"

theorem reload_keeps_param_witness:
  "reload_dev_parser new_dev = Some (Cont 0 (new_dev\<lparr>vpu_dev_reload := 1\<rparr>)) \<and> dev (vpu_conf (new_dev\<lparr>vpu_dev_reload := 1\<rparr>)) = '''' \<and>
     reload_dev_parser (new_dev\<lparr>vpu_dev_reload := 0\<rparr>) = Some (Cont 0 (new_dev\<lparr>vpu_dev_reload := 1\<rparr>))"
proof -
  have "reload_dev_parser new_dev = Some (Cont 0 (new_dev\<lparr>vpu_dev_reload := 1\<rparr>))" "vpu_dev_reload new_dev = 0" "dev (vpu_conf new_dev) = ''''"
    by (simp_all add: reload_dev_parser_def new_dev_def conf_value_def ConfGet_def ConfGetNode_def ConfNodeLookupChild_def leaf_def
        start_vars_def default_param_def)
  with reload_keeps_param[of new_dev 0 "new_dev\<lparr>vpu_dev_reload := 1\<rparr>"] show ?thesis by simp
qed

text \<open>
  The name of the capture device may have 63 characters in the configuration, but with more than 15 the copy for the \<open>ioctl\<close> leaves
  its field.
\<close>

theorem long_device_overflows:
  assumes "conf_value s ''dev'' = Some (Some v)" and "16 \<le> length v" and "length v < 64" and "fst (ce_mac env v) \<noteq> 1"
  shows "dev_parser env s = None"
  using assms by (cases "ce_mac env v") (simp add: dev_parser_def get_local_mac_def)

end
