(* ===== verification/Conf_Values.thy ===== *)
theory Conf_Values
  imports Conf
begin

text \<open>
  What stands beside the configuration proper: the bounded copies of strings, \<open>src/src/util-strlcpyu.c\<close> and
  \<open>src/src/util-strlcatu.c\<close>, and the functions of \<open>src/src/yaml_conf.c\<close> that read a value as a number or a boolean, print
  the tree and set it aside. A string in memory is a list of bytes up to the first zero.
\<close>

subsection \<open>Bounded copies\<close>

text \<open>
  The loop of \<open>strlcpy\<close>: \<open>n\<close> bytes may still be copied, \<open>i\<close> were. The result is what is left of \<open>n\<close>, the
  target and the number of bytes copied.
\<close>

fun cpy_loop :: "nat \<Rightarrow> u8 list \<Rightarrow> u8 list \<Rightarrow> nat \<Rightarrow> (nat \<times> u8 list \<times> nat) option" where
  "cpy_loop 0 dst src i = Some (0, dst, i)"
| "cpy_loop (Suc n) dst src i = do {
     c \<leftarrow> rd src i;
     dst' \<leftarrow> wr_n dst i [c];
     if c = 0 then Some (Suc n, dst', Suc i) else cpy_loop n dst' src (Suc i)}"

text \<open>The number of bytes up to and with the first zero.\<close>

fun to_zero :: "u8 list \<Rightarrow> nat option" where
  "to_zero [] = None"
| "to_zero (c # cs) = (if c = 0 then Some 1 else map_option Suc (to_zero cs))"

definition strlcpy :: "u8 list \<Rightarrow> u8 list \<Rightarrow> nat \<Rightarrow> (nat \<times> u8 list) option" where
  "strlcpy dst src siz = do {
     (n, dst1, i) \<leftarrow> (if siz = 0 then Some (0, dst, 0) else cpy_loop (siz - 1) dst src 0);
     if n = 0
     then do {
       dst2 \<leftarrow> (if siz \<noteq> 0 then wr_n dst1 i [0] else Some dst1);
       k \<leftarrow> to_zero (drop i src);
       Some (i + k - 1, dst2)}
     else Some (i - 1, dst1)}"

text \<open>The end of the string in the target, at most at \<open>n\<close>.\<close>

fun find_end :: "nat \<Rightarrow> u8 list \<Rightarrow> nat \<Rightarrow> nat option" where
  "find_end 0 dst i = Some i"
| "find_end (Suc n) dst i = do {c \<leftarrow> rd dst i; if c \<noteq> 0 then find_end n dst (Suc i) else Some i}"

text \<open>The loop of \<open>strlcat\<close>: \<open>n\<close> is the room left, \<open>d\<close> the position in the target, \<open>k\<close> the number of bytes read.\<close>

fun cat_loop :: "nat \<Rightarrow> u8 list \<Rightarrow> nat \<Rightarrow> u8 list \<Rightarrow> nat \<Rightarrow> (u8 list \<times> nat \<times> nat) option" where
  "cat_loop n dst d [] k = None"
| "cat_loop n dst d (c # cs) k =
     (if c = 0 then Some (dst, d, k)
      else if n \<noteq> 1 then do {dst' \<leftarrow> wr_n dst d [c]; cat_loop (n - 1) dst' (Suc d) cs (Suc k)}
      else cat_loop n dst d cs (Suc k))"

definition strlcat :: "u8 list \<Rightarrow> u8 list \<Rightarrow> nat \<Rightarrow> (nat \<times> u8 list) option" where
  "strlcat dst src siz = do {
     dlen \<leftarrow> find_end siz dst 0;
     let n = siz - dlen;
     if n = 0
     then do {k \<leftarrow> to_zero src; Some (dlen + (k - 1), dst)}
     else do {
       (dst1, d, k) \<leftarrow> cat_loop n dst dlen src 0;
       dst2 \<leftarrow> wr_n dst1 d [0];
       Some (dlen + k, dst2)}}"

subsection \<open>Values as numbers and booleans\<close>

definition digit_of :: "char \<Rightarrow> nat" where
  "digit_of c = (let n = of_char (tolower c) in
     if 48 \<le> n \<and> n \<le> 57 then n - 48 else if 97 \<le> n \<and> n \<le> 122 then n - 87 else 36)"

definition int_value :: "nat \<Rightarrow> string \<Rightarrow> int" where
  "int_value base ds = foldl (\<lambda>v c. v * int base + int (digit_of c)) 0 ds"

text \<open>\<open>strtoimax (s, &end, 0)\<close>: the value, what is left of the string, and whether it was out of range.\<close>

definition strtoimax :: "string \<Rightarrow> int \<times> string \<times> bool" where
  "strtoimax s =
     (let s1 = dropWhile is_space s;
          neg = (s1 \<noteq> [] \<and> hd s1 = CHR ''-'');
          s2 = (if s1 \<noteq> [] \<and> (hd s1 = CHR ''-'' \<or> hd s1 = CHR ''+'') then tl s1 else s1);
          hex = (2 < length s2 \<and> s2 ! 0 = CHR ''0'' \<and> tolower (s2 ! 1) = CHR ''x'' \<and> digit_of (s2 ! 2) < 16);
          base = (if hex then 16 else if s2 \<noteq> [] \<and> hd s2 = CHR ''0'' then 8 else 10);
          s3 = (if hex then drop 2 s2 else s2);
          ds = takeWhile (\<lambda>c. digit_of c < base) s3;
          v = (if neg then - int_value base ds else int_value base ds) in
      if ds = [] then (0, s, False)
      else if v < - (2 ^ 63) then (- (2 ^ 63), dropWhile (\<lambda>c. digit_of c < base) s3, True)
      else if 2 ^ 63 \<le> v then (2 ^ 63 - 1, dropWhile (\<lambda>c. digit_of c < base) s3, True)
      else (v, dropWhile (\<lambda>c. digit_of c < base) s3, False))"

definition int_of_value :: "string \<Rightarrow> int option" where
  "int_of_value s =
     (case strtoimax s of (v, rest, over) \<Rightarrow> if s = [] \<or> rest \<noteq> [] then None else if over then None else Some v)"

text \<open>The return code and the value that is set, if it is.\<close>

definition ConfGetInt :: "conf_node option \<Rightarrow> string \<Rightarrow> (int \<times> int option) option" where
  "ConfGetInt root name = do {
     (r, v) \<leftarrow> ConfGet root name;
     if r = 0 then Some (0, None)
     else do {s \<leftarrow> v; Some (case int_of_value s of None \<Rightarrow> (0, None) | Some i \<Rightarrow> (1, Some i))}}"

definition ConfGetChildValueInt :: "conf_node \<Rightarrow> string \<Rightarrow> (int \<times> int option) option" where
  "ConfGetChildValueInt base name =
     (case ConfGetChildValue base name of (r, v) \<Rightarrow>
        if r = 0 then Some (0, None)
        else do {s \<leftarrow> v; Some (case int_of_value s of None \<Rightarrow> (0, None) | Some i \<Rightarrow> (1, Some i))})"

definition ConfGetBool :: "conf_node option \<Rightarrow> string \<Rightarrow> (int \<times> bool) option" where
  "ConfGetBool root name = do {
     (r, v) \<leftarrow> ConfGet root name;
     if r \<noteq> 1 then Some (0, False) else do {s \<leftarrow> v; Some (1, ConfValIsTrue s)}}"

definition ConfGetChildValueBool :: "conf_node \<Rightarrow> string \<Rightarrow> (int \<times> bool) option" where
  "ConfGetChildValueBool base name =
     (case ConfGetChildValue base name of (r, v) \<Rightarrow>
        if r = 0 then Some (0, False) else do {s \<leftarrow> v; Some (1, ConfValIsTrue s)})"

text \<open>
  The same for floating point; \<open>conv\<close> is \<open>strtod\<close> or \<open>strtof\<close>: the number, the rest of the string and whether the number
  is out of range. Numbers with a fraction are not used by the program.
\<close>

definition float_value :: "(string \<Rightarrow> 'd \<times> string \<times> bool) \<Rightarrow> conf_node option \<Rightarrow> string \<Rightarrow> (int \<times> 'd option) option" where
  "float_value conv root name = do {
     (r, v) \<leftarrow> ConfGet root name;
     if r = 0 then Some (0, None)
     else do {
       s \<leftarrow> v;
       Some (case conv s of (d, rest, over) \<Rightarrow>
         if s = [] \<or> rest \<noteq> [] then (0, None) else if over then (0, None) else (1, Some d))}}"

definition ConfGetDouble :: "(string \<Rightarrow> 'd \<times> string \<times> bool) \<Rightarrow> conf_node option \<Rightarrow> string \<Rightarrow> (int \<times> 'd option) option" where
  "ConfGetDouble strtod root name = float_value strtod root name"

definition ConfGetFloat :: "(string \<Rightarrow> 'd \<times> string \<times> bool) \<Rightarrow> conf_node option \<Rightarrow> string \<Rightarrow> (int \<times> 'd option) option" where
  "ConfGetFloat strtof root name = float_value strtof root name"

subsection \<open>Include files\<close>

text \<open>
  The loop over the children of the node \<open>include\<close>, which is child \<open>j\<close> of the root; the \<open>i\<close>-th is next. A file is loaded into the
  same tree, so it may add children to the node the loop is on. \<open>files\<close> gives the events of the file at a path.
\<close>

fun include_loop :: "nat \<Rightarrow> (string \<Rightarrow> yaml_event list option) \<Rightarrow> nat \<Rightarrow> nat \<Rightarrow> conf_node \<Rightarrow> conf_node conf_run loop_result" where
  "include_loop 0 files j i root = Running"
| "include_loop (Suc n) files j i root =
     (let includes = cn_head root ! j in
      if length (cn_head includes) \<le> i then Returned (Cont 0 root)
      else (case do {
          val \<leftarrow> cn_val (cn_head includes ! i);
          ifile \<leftarrow> ConfLoadCompleteIncludePath (Some root) val;
          ConfYamlLoadFile (files ifile) (Some root)} of
        Some (ret, Some root') \<Rightarrow> (if ret \<noteq> 0 then Returned (Exit 1) else include_loop n files j (Suc i) root')
      | _ \<Rightarrow> Undefined))"

definition ConfYamlLoadSubFile :: "nat \<Rightarrow> (string \<Rightarrow> yaml_event list option) \<Rightarrow> conf_node option \<Rightarrow> conf_node option conf_run loop_result" where
  "ConfYamlLoadSubFile n files root =
     (case root of
        None \<Rightarrow> Undefined
      | Some r \<Rightarrow>
          (case child_index (cn_head r) ''include'' of
             None \<Rightarrow> Returned (Cont 0 root)
           | Some j \<Rightarrow>
               (case include_loop n files j 0 r of
                  Returned (Cont c r') \<Rightarrow> Returned (Cont c (Some r'))
                | Returned (Exit c) \<Rightarrow> Returned (Exit c)
                | Undefined \<Rightarrow> Undefined
                | Running \<Rightarrow> Running)))"

subsection \<open>The tree as a whole\<close>

text \<open>The tree in use and the one set aside.\<close>

definition ConfCreateContextBackup :: "conf_node option \<times> conf_node option \<Rightarrow> conf_node option \<times> conf_node option" where
  "ConfCreateContextBackup = (\<lambda>(root, root_backup). (None, root))"

definition ConfRestoreContextBackup :: "conf_node option \<times> conf_node option \<Rightarrow> conf_node option \<times> conf_node option" where
  "ConfRestoreContextBackup = (\<lambda>(root, root_backup). (root_backup, None))"

text \<open>A name of the tree, in a buffer of 16384 bytes.\<close>

definition append_cut :: "nat \<Rightarrow> string \<Rightarrow> string \<Rightarrow> string" where
  "append_cut siz d s = take (siz - 1) (d @ s)"

fun ConfPrintNameArray :: "string \<Rightarrow> string list \<Rightarrow> string" where
  "ConfPrintNameArray name [] = name"
| "ConfPrintNameArray name [n] = append_cut 16384 name n"
| "ConfPrintNameArray name (n # ns) = ConfPrintNameArray (append_cut 16384 (append_cut 16384 name n) ''.'') ns"

text \<open>
  The lines printed; the names of the nodes above are in an array of 128. \<open>null\<close> is what is printed for a null value.
\<close>

fun ConfNodeDump :: "string \<Rightarrow> string option \<Rightarrow> string list \<Rightarrow> conf_node list \<Rightarrow> string list option" where
  "ConfNodeDump null pre names [] = Some []"
| "ConfNodeDump null pre names (ConfNode nm v q ov h # cs) =
     (if 128 \<le> length names then None
      else do {
        let name = ConfPrintNameArray '''' (names @ [nm]);
        below \<leftarrow> ConfNodeDump null pre (names @ [nm]) h;
        rest \<leftarrow> ConfNodeDump null pre names cs;
        Some (((case pre of None \<Rightarrow> '''' | Some p \<Rightarrow> p @ ''.'') @ name @ '' = '' @ (case v of None \<Rightarrow> null | Some x \<Rightarrow> x)) # below @ rest)})"

definition ConfDump :: "string \<Rightarrow> conf_node option \<Rightarrow> string list option" where
  "ConfDump null root = do {r \<leftarrow> root; ConfNodeDump null None [] (cn_head r)}"


subsection \<open>What the bounded copies make\<close>

definition c_str :: "u8 list \<Rightarrow> u8 list" where
  "c_str bs = takeWhile (\<lambda>b. b \<noteq> 0) bs"

lemma c_str_zero: "0 \<notin> set s \<Longrightarrow> c_str (s @ 0 # t) = s"
  unfolding c_str_def by (subst takeWhile_append2) auto

lemma wr_one: "i < length dst \<Longrightarrow> wr_n dst i [c] = Some (take i dst @ c # drop (Suc i) dst)"
  by (simp add: wr_n_def)

lemma to_zero_str: "0 \<notin> set s \<Longrightarrow> to_zero (s @ 0 # t) = Some (length s + 1)"
  by (induction s) auto

lemma cpy_loop_eq:
  assumes "0 \<notin> set s" "i + n \<le> length dst" "drop i src = s @ 0 # t"
  shows "cpy_loop n dst src i =
    (if length s < n then Some (n - length s, take i dst @ s @ 0 # drop (i + length s + 1) dst, i + length s + 1)
     else Some (0, take i dst @ take n s @ drop (i + n) dst, i + n))"
  using assms
proof (induction n arbitrary: dst s i)
  case 0
  then show ?case by simp
next
  case (Suc n)
  have il: "i < length src" using Suc.prems(3) by (metis append_is_Nil_conv drop_all leI list.distinct(1))
  have nth: "src ! i # drop (Suc i) src = s @ 0 # t" using Suc.prems(3) il by (simp add: Cons_nth_drop_Suc)
  have id: "i < length dst" using Suc.prems(2) by simp
  show ?case
  proof (cases s)
    case Nil
    then show ?thesis using nth il id by (simp add: rd_Some wr_one)
  next
    case (Cons c s')
    let ?dst = "take i dst @ c # drop (Suc i) dst"
    have c: "src ! i = c" "drop (Suc i) src = s' @ 0 # t" "c \<noteq> 0" "0 \<notin> set s'" using nth Cons Suc.prems(1) by auto
    have le: "Suc i + n \<le> length ?dst" using Suc.prems(2) id by simp
    have tk: "take (Suc i) ?dst = take i dst @ [c]" "\<And>k. drop (Suc i + k) ?dst = drop (Suc i + k) dst"
      using id by (simp_all add: take_Suc_conv_app_nth min_def add.commute)
    have "cpy_loop (Suc n) dst src i = cpy_loop n ?dst src (Suc i)" using il id c(1,3) by (simp add: rd_Some wr_one)
    also have "\<dots> = (if length s' < n then Some (n - length s', take (Suc i) ?dst @ s' @ 0 # drop (Suc i + (length s' + 1)) ?dst, Suc i + length s' + 1)
        else Some (0, take (Suc i) ?dst @ take n s' @ drop (Suc i + n) ?dst, Suc i + n))"
      using Suc.IH[OF c(4) le c(2)] by (simp only: add.assoc)
    finally show ?thesis unfolding tk using Cons by simp
  qed
qed

lemma strlcpy_eq:
  assumes "0 \<notin> set s" "0 < siz" "siz \<le> length dst"
  shows "strlcpy dst (s @ 0 # t) siz = Some (length s, take (siz - 1) s @ 0 # drop (min (length s) (siz - 1) + 1) dst)"
proof -
  have l: "cpy_loop (siz - 1) dst (s @ 0 # t) 0 =
    (if length s < siz - 1 then Some (siz - 1 - length s, s @ 0 # drop (length s + 1) dst, length s + 1)
     else Some (0, take (siz - 1) s @ drop (siz - 1) dst, siz - 1))"
    using cpy_loop_eq[of s 0 "siz - 1" dst "s @ 0 # t" t] assms by simp
  show ?thesis
  proof (cases "length s < siz - 1")
    case True
    then have "\<not> siz \<le> Suc (length s)" by linarith
    then show ?thesis using True l assms(2) by (simp add: strlcpy_def)
  next
    case False
    let ?k = "siz - 1"
    have z: "to_zero (drop ?k (s @ 0 # t)) = Some (length s - ?k + 1)"
    proof -
      have "0 \<notin> set (drop ?k s)" using assms(1) by (meson in_set_dropD)
      then show ?thesis using to_zero_str[of "drop ?k s" t] False by simp
    qed
    have "length (take ?k s @ drop ?k dst) = length dst" using False assms by simp
    then have w: "wr_n (take ?k s @ drop ?k dst) ?k [0] = Some (take ?k s @ 0 # drop (?k + 1) dst)"
      using wr_one[of ?k "take ?k s @ drop ?k dst" 0] False assms by (simp add: min_def)
    have n: "(siz \<noteq> 0) = True" "(siz = 0) = False" "((0 :: nat) = 0) = True" using assms(2) by auto
    have r: "?k + (length s - ?k + 1) - 1 = length s" "min (length s) ?k + 1 = ?k + 1" using False by auto
    have "strlcpy dst (s @ 0 # t) siz = Some (?k + (length s - ?k + 1) - 1, take ?k s @ 0 # drop (?k + 1) dst)"
      by (simp only: strlcpy_def n if_True if_False not_False_eq_True l if_not_P[OF False] bind.bind_lunit prod.case w z)
    then show ?thesis unfolding r .
  qed
qed

lemma find_end_eq: "0 \<notin> set d \<Longrightarrow> length d < n \<Longrightarrow> drop i dst = d @ 0 # t \<Longrightarrow> find_end n dst i = Some (i + length d)"
proof (induction n arbitrary: d i)
  case 0
  then show ?case by simp
next
  case (Suc n)
  have il: "i < length dst" using Suc.prems(3) by (metis append_is_Nil_conv drop_all leI list.distinct(1))
  have nth: "dst ! i # drop (Suc i) dst = d @ 0 # t" using Suc.prems(3) il by (simp add: Cons_nth_drop_Suc)
  show ?case
  proof (cases d)
    case Nil
    then show ?thesis using nth il by (simp add: rd_Some)
  next
    case (Cons c d')
    then show ?thesis using nth il Suc.prems(1,2) Suc.IH[of d' "Suc i"] by (simp add: rd_Some)
  qed
qed

lemma cat_loop_eq:
  assumes "0 \<notin> set s" "0 < n" "d + n \<le> length dst"
  shows "cat_loop n dst d (s @ 0 # t) k =
    Some (take d dst @ take (n - 1) s @ drop (d + min (length s) (n - 1)) dst, d + min (length s) (n - 1), k + length s)"
  using assms
proof (induction s arbitrary: n dst d k)
  case Nil
  then show ?case by simp
next
  case (Cons c s)
  have c: "c \<noteq> 0" "0 \<notin> set s" using Cons.prems(1) by auto
  show ?case
  proof (cases "n = 1")
    case True
    then show ?thesis using Cons.IH[of 1 d dst "Suc k"] Cons.prems c by simp
  next
    case False
    let ?dst = "take d dst @ c # drop (Suc d) dst"
    have d: "d < length dst" using Cons.prems(2,3) by simp
    have n: "0 < n - 1" "Suc d + (n - 1) \<le> length ?dst" using Cons.prems(2,3) False d by auto
    have tk: "take (Suc d) ?dst = take d dst @ [c]" "\<And>k. drop (Suc d + k) ?dst = drop (Suc d + k) dst"
      using d by (simp_all add: min_def add.commute)
    define m where "m = n - 2"
    then have m: "n = Suc (Suc m)" using n(1) by linarith
    show ?thesis using Cons.IH[OF c(2) n] c(1) False d unfolding tk m by (simp add: wr_one)
  qed
qed

lemma strlcat_eq:
  assumes "0 \<notin> set s" "0 \<notin> set d" "length d < siz" "siz \<le> length dst" "dst = d @ 0 # r"
  shows "\<exists>u. strlcat dst (s @ 0 # t) siz = Some (length d + length s, take (siz - 1) (d @ s) @ 0 # u)"
proof -
  let ?n = "siz - length d" and ?m = "min (length s) (siz - length d - 1)"
  have e: "find_end siz dst 0 = Some (length d)" using find_end_eq[of d siz 0 dst r] assms by simp
  let ?dst1 = "take (length d) dst @ take (?n - 1) s @ drop (length d + ?m) dst"
  have l: "cat_loop ?n dst (length d) (s @ 0 # t) 0 = Some (?dst1, length d + ?m, length s)"
    using cat_loop_eq[of s ?n "length d" dst t 0] assms by simp
  have len: "length (take (?n - 1) s) = ?m" by simp
  have lt: "length d + ?m < length dst" using assms(3,4) by linarith
  have "length ?dst1 = length dst" using lt len assms(5) by simp
  then have w: "wr_n ?dst1 (length d + ?m) [0] = Some (take (length d + ?m) ?dst1 @ 0 # drop (Suc (length d + ?m)) ?dst1)"
    using wr_one[of "length d + ?m" ?dst1 0] lt by simp
  have tk: "take (length d + ?m) ?dst1 = take (siz - 1) (d @ s)" using assms(3,5) by (simp add: min_def)
  have n: "(?n = 0) = False" using assms(3) by simp
  show ?thesis
    unfolding strlcat_def e bind.bind_lunit Let_def n if_False l prod.case w tk by blast
qed

text \<open>
  C36. The bounded copies truncate and never overrun. A string copied into a buffer and a second one appended to it, with the size
  of the buffer or less, leave in the buffer the first characters of the two strings together, as many as fit before the zero
  that is always written; the results are the lengths without truncation, so a result of at least
  the size says that something is missing.
\<close>

theorem copy_append_truncates:
  assumes "0 \<notin> set a" and "0 \<notin> set b" and "0 < siz" and "siz \<le> length dst"
  shows "\<exists>n1 dst1 n2 dst2. strlcpy dst (a @ 0 # t) siz = Some (n1, dst1) \<and> strlcat dst1 (b @ 0 # u) siz = Some (n2, dst2) \<and>
    c_str dst2 = take (siz - 1) (a @ b) \<and> n2 = min (length a) (siz - 1) + length b \<and>
    n1 = length a \<and> length dst1 = length dst \<and> (siz \<le> n1 \<or> siz \<le> n2 \<longleftrightarrow> c_str dst2 \<noteq> a @ b)"
proof -
  let ?d = "take (siz - 1) a" and ?r = "drop (min (length a) (siz - 1) + 1) dst"
  let ?dst1 = "?d @ 0 # ?r"
  have d: "0 \<notin> set ?d" "length ?d < siz" using assms(1,3) by (auto dest: in_set_takeD)
  have len: "length ?dst1 = length dst" using assms(3,4) by (simp add: min_def)
  obtain v where v: "strlcat ?dst1 (b @ 0 # u) siz = Some (length ?d + length b, take (siz - 1) (?d @ b) @ 0 # v)"
    using strlcat_eq[OF assms(2) d _ refl, of ?r u] len assms(4) by metis
  have tk: "take (siz - 1) (?d @ b) = take (siz - 1) (a @ b)" by (simp add: min_def)
  have "0 \<notin> set (take (siz - 1) (a @ b))" using assms(1,2) by (auto dest!: in_set_takeD)
  then have s: "c_str (take (siz - 1) (?d @ b) @ 0 # v) = take (siz - 1) (a @ b)" unfolding tk by (rule c_str_zero)
  have "(take (siz - 1) (a @ b) \<noteq> a @ b) = (siz - 1 < length (a @ b))" by (metis leI length_take linorder_not_less min.absorb4 nat_neq_iff take_all)
  then have "(siz \<le> length a \<or> siz \<le> length ?d + length b) = (take (siz - 1) (a @ b) \<noteq> a @ b)" using assms(3) by auto
  then show ?thesis using strlcpy_eq[OF assms(1,3,4), of t] v s len
    by (intro exI[of _ "length a"] exI[of _ ?dst1] exI[of _ "length ?d + length b"] exI[of _ "take (siz - 1) (?d @ b) @ 0 # v"])
      (simp add: min.commute)
qed

theorem copy_append_truncates_witness:
  "\<exists>n1 dst1 n2 dst2. strlcpy [9, 9, 9, 9] [97, 98, 0] 4 = Some (n1, dst1) \<and> strlcat dst1 [99, 100, 0] 4 = Some (n2, dst2) \<and>
     c_str dst2 = [97, 98, 99]"
  using copy_append_truncates[of "[97, 98]" "[99, 100]" 4 "[9, 9, 9, 9]" "[]" "[]"] by auto

subsection \<open>Values\<close>

text \<open>Booleans and numbers that are read back.\<close>

theorem conf_bool_excludes: "\<not> (ConfValIsTrue v \<and> ConfValIsFalse v)"
  by (auto simp: ConfValIsTrue_def ConfValIsFalse_def tolower_def)

lemma backup_restores: "ConfRestoreContextBackup (ConfCreateContextBackup (r, b)) = (r, None)"
  by (simp add: ConfCreateContextBackup_def ConfRestoreContextBackup_def)

subsection \<open>Files that include themselves\<close>

definition self_include :: "string \<Rightarrow> yaml_event list" where
  "self_include path = [Stream_start, Document_start (Some (1, 1)), Mapping_start, Scalar ''include'', Sequence_start, Scalar path,
     Sequence_end, Mapping_end, Document_end, Stream_end]"

text \<open>Loading such a file adds one child with its name to the node.\<close>

lemma load_self:
  assumes j: "child_index (cn_head r) ''include'' = Some j"
  shows "\<exists>r'. ConfYamlLoadFile (Some (self_include path)) (Some r) = Some (0, Some r') \<and> child_index (cn_head r') ''include'' = Some j \<and>
    cn_head (cn_head r' ! j) = cn_head (cn_head r ! j) @ [set_val (Some path) (set_name (seq_name 0) ConfNodeNew)]"
proof -
  have l: "j < length (cn_head r)" "cn_name (cn_head r ! j) = ''include''" using child_index_Some[OF j] by simp_all
  let ?r = "first_key r ''include''"
  let ?c = "add_child (set_val (Some path) (set_name (seq_name 0) ConfNodeNew)) (cn_head r ! j)"
  have h: "cn_head ?r = cn_head r" by simp
  have "ConfYamlLoadFile (Some (self_include path)) (Some r) = Some (0, Some (update_child j (\<lambda>_. ?c) ?r))"
    using j by (simp add: ConfYamlLoadFile_def ConfYamlParse_def self_include_def key_node_def node_at_def put_at_def yaml_loop.simps(2))
  moreover have "child_index (cn_head (update_child j (\<lambda>_. ?c) ?r)) ''include'' = Some j"
    using j l child_index_update[where cs = "cn_head r" and c = ?c] by (simp add: update_child_def add_child_def)
  ultimately show ?thesis using l by (simp add: update_child_def add_child_def)
qed

text \<open>
  A configuration that includes a file which includes itself never ends: each time round the loop the list is one longer.
\<close>

theorem self_include_never_ends:
  assumes "child_index (cn_head r) ''include'' = Some j" and "cn_head (cn_head r ! j) \<noteq> []" 
    and "\<forall>c \<in> set (cn_head (cn_head r ! j)). cn_val c = Some path" and "PathIsAbsolute path" and "files path = Some (self_include path)"
  shows "ConfYamlLoadSubFile n files (Some r) = Running"
proof -
  have "include_loop n files j i r = Running" if "i < length (cn_head (cn_head r ! j))" for i
    using that assms(1,3)
  proof (induction n arbitrary: r i)
    case (Suc n)
    let ?inc = "cn_head r ! j"
    obtain r' where r': "ConfYamlLoadFile (Some (self_include path)) (Some r) = Some (0, Some r')" "child_index (cn_head r') ''include'' = Some j"
        "cn_head (cn_head r' ! j) = cn_head ?inc @ [set_val (Some path) (set_name (seq_name 0) ConfNodeNew)]"
      using load_self[OF Suc.prems(2)] by blast
    have v: "cn_val (cn_head ?inc ! i) = Some path" using Suc.prems(1,3) by simp
    have "include_loop n files j (Suc i) r' = Running" using Suc.prems(1,3) r' by (intro Suc.IH) auto
    then show ?case using Suc.prems(1) v r'(1) assms(4,5) by (simp add: ConfLoadCompleteIncludePath_def PathIsRelative_def Let_def)
  qed simp
  then show ?thesis using assms(1,2) by (simp add: ConfYamlLoadSubFile_def)
qed

end
