(* ===== verification/Pkt_Fifo.thy ===== *)
theory Pkt_Fifo
  imports Atomic_Counter
begin

text \<open>
  The packet rings of \<open>src/src/pkt_fifo.c\<close>, one per worker: a fixed array of packet
  buffers with a write position, a read position and an atomic count. The first part is
  the two operations as the code runs them without interference, and their refinement to
  a list. The second part runs them as the program does, the capture thread as producer
  and one worker as consumer, in steps of one access to shared memory each.
\<close>

subsection \<open>Data\<close>

abbreviation PKT_FIFO_SIZE :: nat where "PKT_FIFO_SIZE \<equiv> 20480"
abbreviation WORKER_NUM :: nat where "WORKER_NUM \<equiv> 8"
abbreviation PKT_BUF_SIZE :: nat where "PKT_BUF_SIZE \<equiv> 2048"

text \<open>
  A node handed to \<open>pkt_fifo_put\<close> points into the capture library's memory:
  \<open>nd_pkt\<close> is what can be read from there on. A node filled by \<open>pkt_fifo_get\<close> points
  at the start of a slot of the ring, so it is the number of that slot.
\<close>

record pkt_node =
  nd_pkt :: "u8 list"
  nd_len :: u32

record node_ref =
  ref_slot :: nat
  ref_len :: u32

record pkt_buf =
  pb_pkt :: "u8 list"
  pb_len :: u32

record pkt_fifo =
  f_in :: u32
  f_out :: u32
  f_size :: u32
  f_count :: u32
  f_pkt :: "pkt_buf list"

definition zero_pkt_buf :: pkt_buf where
  "zero_pkt_buf = \<lparr>pb_pkt = replicate PKT_BUF_SIZE 0, pb_len = 0\<rparr>"

definition init_fifo :: "nat \<Rightarrow> pkt_fifo" where
  "init_fifo n = \<lparr>f_in = 0, f_out = 0, f_size = of_nat n, f_count = atomic32_init 0,
     f_pkt = replicate n zero_pkt_buf\<rparr>"

definition init_pkt_fifo :: "pkt_fifo list" where
  "init_pkt_fifo = replicate WORKER_NUM (init_fifo PKT_FIFO_SIZE)"

subsection \<open>Operations\<close>

definition ring_next :: "u32 \<Rightarrow> u32 \<Rightarrow> u32" where
  "ring_next sz i = (if i + 1 \<ge> sz then 0 else i + 1)"

definition store_packet :: "pkt_buf list \<Rightarrow> nat \<Rightarrow> pkt_node \<Rightarrow> pkt_buf list option" where
  "store_packet pkt i node = do {
     buf \<leftarrow> rd pkt i;
     src \<leftarrow> rd_n (nd_pkt node) 0 (unat (nd_len node));
     dst \<leftarrow> wr_n (pb_pkt buf) 0 src;
     Some (pkt[i := \<lparr>pb_pkt = dst, pb_len = nd_len node\<rparr>])}"

definition pkt_fifo_put :: "pkt_fifo \<Rightarrow> pkt_node \<Rightarrow> (int \<times> pkt_fifo) option" where
  "pkt_fifo_put fifo node =
     (let i = f_in fifo; size = f_size fifo; count = atomic32_read (f_count fifo) in
      if count \<ge> size then Some (-1, fifo)
      else do {
        pkt \<leftarrow> store_packet (f_pkt fifo) (unat i) node;
        Some (0, fifo\<lparr>f_pkt := pkt,
                       f_count := snd (atomic32_add (f_count fifo) 1),
                       f_in := ring_next size i\<rparr>)})"

definition pkt_fifo_get ::
  "pkt_fifo option \<Rightarrow> node_ref option \<Rightarrow> (int \<times> pkt_fifo option \<times> node_ref option) option" where
  "pkt_fifo_get fifo_p node_p =
     (case (fifo_p, node_p) of
        (Some fifo, Some node) \<Rightarrow>
          (let out = f_out fifo; size = f_size fifo; count = atomic32_read (f_count fifo) in
           if count \<le> 0 then Some (-2, fifo_p, node_p)
           else if out \<ge> size then Some (-3, fifo_p, node_p)
           else do {
             buf \<leftarrow> rd (f_pkt fifo) (unat out);
             Some (0,
                   Some (fifo\<lparr>f_count := snd (atomic32_sub (f_count fifo) 1),
                               f_out := ring_next size out\<rparr>),
                   Some (\<lparr>ref_slot = unat out, ref_len = pb_len buf\<rparr>))})
      | _ \<Rightarrow> Some (-1, fifo_p, node_p))"

text \<open>What a reader finds through a node filled by \<open>pkt_fifo_get\<close>.\<close>

definition ref_bytes :: "pkt_fifo \<Rightarrow> node_ref \<Rightarrow> u8 list option" where
  "ref_bytes fifo r = do {
     buf \<leftarrow> rd (f_pkt fifo) (ref_slot r);
     rd_n (pb_pkt buf) 0 (unat (ref_len r))}"

subsection \<open>The ring as a list\<close>

definition node_bytes :: "pkt_node \<Rightarrow> u8 list" where
  "node_bytes node = take (unat (nd_len node)) (nd_pkt node)"

definition buf_bytes :: "pkt_buf \<Rightarrow> u8 list" where
  "buf_bytes b = take (unat (pb_len b)) (pb_pkt b)"

definition ring_slots :: "nat \<Rightarrow> nat \<Rightarrow> nat \<Rightarrow> nat list" where
  "ring_slots n out count = map (\<lambda>k. (out + k) mod n) [0..<count]"

definition fifo_list :: "pkt_fifo \<Rightarrow> u8 list list" where
  "fifo_list f = map (\<lambda>i. buf_bytes (f_pkt f ! i))
     (ring_slots (length (f_pkt f)) (unat (f_out f)) (unat (f_count f)))"

definition buf_ok :: "pkt_buf \<Rightarrow> bool" where
  "buf_ok b \<longleftrightarrow> length (pb_pkt b) = PKT_BUF_SIZE \<and> unat (pb_len b) \<le> PKT_BUF_SIZE"

definition fifo_inv :: "pkt_fifo \<Rightarrow> bool" where
  "fifo_inv f \<longleftrightarrow> 0 < length (f_pkt f) \<and> unat (f_size f) = length (f_pkt f) \<and>
     unat (f_out f) < length (f_pkt f) \<and> unat (f_count f) \<le> length (f_pkt f) \<and>
     unat (f_in f) = (unat (f_out f) + unat (f_count f)) mod length (f_pkt f) \<and>
     list_all buf_ok (f_pkt f)"

definition node_ok :: "pkt_node \<Rightarrow> bool" where
  "node_ok node \<longleftrightarrow> unat (nd_len node) \<le> length (nd_pkt node) \<and> unat (nd_len node) \<le> PKT_BUF_SIZE"

subsection \<open>Arithmetic of the positions\<close>

lemma unat_Suc_small: "i < n \<Longrightarrow> unat (i + 1 :: u32) = Suc (unat i)" for n :: u32
proof -
  assume "i < n"
  then have "unat i < unat n" by (simp add: word_less_nat_alt)
  moreover have "unat n < 2 ^ 32" using unsigned_less[of n] by simp
  ultimately show ?thesis by (simp add: unat_word_ariths)
qed

lemma unat_ring_next: "i < sz \<Longrightarrow> unat (ring_next sz i) = Suc (unat i) mod unat sz"
proof -
  assume a: "i < sz"
  have e: "unat (i + 1) = Suc (unat i)" by (rule unat_Suc_small[OF a])
  have l: "unat i < unat sz" using a by (simp add: word_less_nat_alt)
  show ?thesis
  proof (cases "sz \<le> i + 1")
    case True
    then have "unat sz \<le> Suc (unat i)" using e by (simp add: word_le_nat_alt)
    with l have "Suc (unat i) = unat sz" by simp
    then show ?thesis using True by (simp add: ring_next_def)
  next
    case False
    then have "Suc (unat i) < unat sz" using e by (simp add: word_le_nat_alt)
    then show ?thesis using False e by (simp add: ring_next_def)
  qed
qed

lemma length_ring_slots [simp]: "length (ring_slots n out c) = c"
  by (simp add: ring_slots_def)

lemma ring_slots_0 [simp]: "ring_slots n out 0 = []"
  by (simp add: ring_slots_def)

lemma ring_slots_snoc: "ring_slots n out (Suc c) = ring_slots n out c @ [(out + c) mod n]"
  by (simp add: ring_slots_def)

lemma ring_slots_Cons: "ring_slots n out (Suc c) = out mod n # ring_slots n (Suc out mod n) c"
  by (simp add: ring_slots_def map_upt_Suc mod_simps del: upt_Suc)

lemma ring_slots_bound: "0 < n \<Longrightarrow> i \<in> set (ring_slots n out c) \<Longrightarrow> i < n"
  by (auto simp: ring_slots_def)

lemma mod_add_le:
  assumes "x \<le> y" "y < n" "(a + x) mod n = (a + y) mod (n :: nat)"
  shows "y = x"
proof (rule ccontr)
  assume "y \<noteq> x"
  have "n dvd (a + y) - (a + x)" using assms mod_eq_dvd_iff_nat[of "a + x" "a + y" n] by simp
  then have "n dvd y - x" by simp
  moreover have "0 < y - x" using \<open>y \<noteq> x\<close> assms(1) by simp
  ultimately have "n \<le> y - x" by (rule dvd_imp_le)
  with assms(2) show False by simp
qed

lemma mod_add_inj: "(a + k) mod n = (a + j) mod n \<Longrightarrow> k < n \<Longrightarrow> j < n \<Longrightarrow> k = (j :: nat)"
  by (metis mod_add_le nat_le_linear)

lemma ring_slots_distinct:
  assumes "c \<le> n"
  shows "distinct (ring_slots n out c)"
proof -
  have "inj_on (\<lambda>k. (out + k) mod n) {0..<c}"
  proof (rule inj_onI)
    fix k j assume "k \<in> {0..<c}" "j \<in> {0..<c}" "(out + k) mod n = (out + j) mod n"
    then show "k = j" using assms by (intro mod_add_inj[of out k n j]) auto
  qed
  then show ?thesis by (simp add: ring_slots_def distinct_map)
qed

lemma ring_slots_next: "c < n \<Longrightarrow> (out + c) mod n \<notin> set (ring_slots n out c)"
  using ring_slots_distinct[of "Suc c" n out] by (simp add: ring_slots_snoc)


subsection \<open>Each operation against the list\<close>

lemma store_packet_ok:
  assumes "list_all buf_ok pkt" "i < length pkt" "node_ok node"
  obtains pkt' where "store_packet pkt i node = Some pkt'" "length pkt' = length pkt"
    "list_all buf_ok pkt'" "buf_bytes (pkt' ! i) = node_bytes node"
    "\<And>j. j \<noteq> i \<Longrightarrow> pkt' ! j = pkt ! j"
proof -
  define n where "n = unat (nd_len node)"
  have len: "length (pb_pkt (pkt ! i)) = PKT_BUF_SIZE"
    using assms by (auto simp: list_all_length buf_ok_def)
  have n: "n \<le> length (nd_pkt node)" "n \<le> PKT_BUF_SIZE"
    using assms by (auto simp: node_ok_def n_def)
  define dst where "dst = take n (nd_pkt node) @ drop n (pb_pkt (pkt ! i))"
  have "store_packet pkt i node = Some (pkt[i := \<lparr>pb_pkt = dst, pb_len = nd_len node\<rparr>])"
    using assms n len by (simp add: store_packet_def mem_simps dst_def n_def[symmetric])
  moreover have "buf_ok \<lparr>pb_pkt = dst, pb_len = nd_len node\<rparr>"
    using n len by (simp add: buf_ok_def dst_def n_def[symmetric])
  moreover have "buf_bytes \<lparr>pb_pkt = dst, pb_len = nd_len node\<rparr> = node_bytes node"
    using n by (simp add: buf_bytes_def node_bytes_def dst_def n_def[symmetric])
  ultimately show ?thesis
    using assms by (intro that[of "pkt[i := \<lparr>pb_pkt = dst, pb_len = nd_len node\<rparr>]"])
      (auto simp: list_all_length nth_list_update)
qed

lemma buf_bytes_ref:
  "i < length pkt \<Longrightarrow> list_all buf_ok pkt \<Longrightarrow>
     rd_n (pb_pkt (pkt ! i)) 0 (unat (pb_len (pkt ! i))) = Some (buf_bytes (pkt ! i))"
  by (auto simp: rd_n_def buf_bytes_def list_all_length buf_ok_def)

lemma length_fifo_list [simp]: "length (fifo_list f) = unat (f_count f)"
  by (simp add: fifo_list_def)

lemma ring_put_full: "fifo_inv f \<Longrightarrow> \<not> length (fifo_list f) < length (f_pkt f) \<Longrightarrow> pkt_fifo_put f node = Some (-1, f)"
  by (auto simp: pkt_fifo_put_def fifo_inv_def word_le_nat_alt)

lemma unat_count_up: "unat (c :: u32) < unat (sz :: u32) \<Longrightarrow> unat (c + 1) = Suc (unat c)"
  using unat_Suc_small[of c sz] by (simp add: word_less_nat_alt)

lemma unat_count_down: "0 < unat (c :: u32) \<Longrightarrow> unat (c - 1) = unat c - 1"
  by (simp add: unat_sub word_le_nat_alt Suc_le_eq)

lemma put_accept:
  assumes "fifo_inv f" "node_ok node" "length (fifo_list f) < length (f_pkt f)"
  shows "\<exists>f'. pkt_fifo_put f node = Some (0, f') \<and> fifo_inv f' \<and>
           fifo_list f' = fifo_list f @ [node_bytes node] \<and> length (f_pkt f') = length (f_pkt f)"
proof -
  let ?n = "length (f_pkt f)" and ?o = "unat (f_out f)" and ?c = "unat (f_count f)"
  have inv: "0 < ?n" "unat (f_size f) = ?n" "?o < ?n" "?c \<le> ?n" "unat (f_in f) = (?o + ?c) mod ?n"
    "list_all buf_ok (f_pkt f)" using assms(1) by (auto simp: fifo_inv_def)
  have c: "?c < ?n" using assms(3) by simp
  have i: "unat (f_in f) < ?n" using inv by simp
  from store_packet_ok[OF inv(6) i assms(2)] obtain pkt' where
    pkt': "store_packet (f_pkt f) (unat (f_in f)) node = Some pkt'" "length pkt' = ?n"
      "list_all buf_ok pkt'" "buf_bytes (pkt' ! unat (f_in f)) = node_bytes node"
      "\<And>j. j \<noteq> unat (f_in f) \<Longrightarrow> pkt' ! j = f_pkt f ! j" by blast
  let ?f' = "f\<lparr>f_pkt := pkt', f_count := f_count f + 1, f_in := ring_next (f_size f) (f_in f)\<rparr>"
  have put: "pkt_fifo_put f node = Some (0, ?f')"
    using c inv pkt'(1) by (simp add: pkt_fifo_put_def word_le_nat_alt)
  have cnt: "unat (f_count f + 1) = Suc ?c" using c inv unat_count_up[of "f_count f" "f_size f"] by simp
  have nxt: "unat (ring_next (f_size f) (f_in f)) = (?o + Suc ?c) mod ?n"
    using inv i unat_ring_next[of "f_in f" "f_size f"] by (simp add: word_less_nat_alt mod_simps)
  have old: "map (\<lambda>j. buf_bytes (pkt' ! j)) (ring_slots ?n ?o ?c) = fifo_list f"
    using ring_slots_next[OF c, of ?o] inv(5) pkt'(5)
    unfolding fifo_list_def by (intro map_cong refl arg_cong[where f = buf_bytes]) metis
  have "fifo_inv ?f'" using inv c cnt nxt pkt' by (simp add: fifo_inv_def)
  moreover have "fifo_list ?f' = fifo_list f @ [node_bytes node]"
    using old cnt pkt'(2,4) inv(5) by (simp add: fifo_list_def ring_slots_snoc)
  ultimately show ?thesis using put pkt'(2) by auto
qed

text \<open>\<open>pkt_fifo_get\<close> as its caller uses it, with both pointers valid.\<close>

definition fifo_take :: "pkt_fifo \<Rightarrow> (int \<times> pkt_fifo \<times> node_ref option) option" where
  "fifo_take f = do {
     (ret, f', r) \<leftarrow> pkt_fifo_get (Some f) (Some \<lparr>ref_slot = 0, ref_len = 0\<rparr>);
     f'' \<leftarrow> f';
     Some (ret, f'', if ret = 0 then r else None)}"

lemma ring_get_empty: "fifo_inv f \<Longrightarrow> fifo_list f = [] \<Longrightarrow> fifo_take f = Some (-2, f, None)"
proof -
  assume "fifo_list f = []"
  then have "f_count f = 0" by (metis length_fifo_list list.size(3) unat_eq_zero)
  then show ?thesis by (simp add: fifo_take_def pkt_fifo_get_def)
qed

lemma get_next:
  assumes "fifo_inv f" "fifo_list f = x # xs"
  shows "\<exists>f' r. fifo_take f = Some (0, f', Some r) \<and> fifo_inv f' \<and> fifo_list f' = xs \<and>
           ref_bytes f' r = Some x \<and> length (f_pkt f') = length (f_pkt f)"
proof -
  let ?n = "length (f_pkt f)" and ?o = "unat (f_out f)" and ?c = "unat (f_count f)"
  have inv: "0 < ?n" "unat (f_size f) = ?n" "?o < ?n" "?c \<le> ?n" "unat (f_in f) = (?o + ?c) mod ?n"
    "list_all buf_ok (f_pkt f)" using assms(1) by (auto simp: fifo_inv_def)
  have c: "?c = Suc (length xs)" using arg_cong[OF assms(2), of length] by simp
  let ?f' = "f\<lparr>f_count := f_count f - 1, f_out := ring_next (f_size f) (f_out f)\<rparr>"
  let ?r = "\<lparr>ref_slot = ?o, ref_len = pb_len (f_pkt f ! ?o)\<rparr>"
  have get: "fifo_take f = Some (0, ?f', Some ?r)"
    using inv c by (simp add: fifo_take_def pkt_fifo_get_def mem_simps word_le_nat_alt Let_def)
  have cnt: "unat (f_count f - 1) = length xs" using c unat_count_down[of "f_count f"] by simp
  have nxt: "unat (ring_next (f_size f) (f_out f)) = Suc ?o mod ?n"
    using inv unat_ring_next[of "f_out f" "f_size f"] by (simp add: word_less_nat_alt)
  have "fifo_inv ?f'" using inv c cnt nxt by (simp add: fifo_inv_def mod_simps)
  moreover have "x = buf_bytes (f_pkt f ! ?o)" "fifo_list ?f' = xs"
    using assms(2) c cnt nxt inv(3) by (auto simp: fifo_list_def ring_slots_Cons)
  moreover have "ref_bytes ?f' ?r = Some (buf_bytes (f_pkt f ! ?o))"
    using inv buf_bytes_ref[of ?o "f_pkt f"] by (simp add: ref_bytes_def mem_simps)
  ultimately show ?thesis using get by auto
qed


subsection \<open>The contract of a packet queue\<close>

datatype 'n queue_op = Put_Op 'n | Get_Op

text \<open>
  A run of puts and gets: the final queue and, of each operation, what it returned and what the reader found through the
  reference it was given.
\<close>

fun run_ops ::
  "('q \<Rightarrow> 'n \<Rightarrow> (int \<times> 'q) option) \<Rightarrow> ('q \<Rightarrow> (int \<times> 'q \<times> 'r option) option) \<Rightarrow>
   ('q \<Rightarrow> 'r \<Rightarrow> 'a option) \<Rightarrow> 'q \<Rightarrow> 'n queue_op list \<Rightarrow> ('q \<times> (int \<times> 'a option) list) option" where
  "run_ops put get deref q [] = Some (q, [])"
| "run_ops put get deref q (Put_Op n # ops) = do {
     (ret, q') \<leftarrow> put q n;
     (q'', rs) \<leftarrow> run_ops put get deref q' ops;
     Some (q'', (ret, None) # rs)}"
| "run_ops put get deref q (Get_Op # ops) = do {
     (ret, q', r) \<leftarrow> get q;
     x \<leftarrow> (case r of None \<Rightarrow> Some None | Some r' \<Rightarrow> do {x \<leftarrow> deref q' r'; Some (Some x)});
     (q'', rs) \<leftarrow> run_ops put get deref q' ops;
     Some (q'', (ret, x) # rs)}"

text \<open>The specification: the same run on a bounded queue, a list of at most \<open>cap\<close> payloads.\<close>

fun queue_run :: "nat \<Rightarrow> ('n \<Rightarrow> 'a) \<Rightarrow> 'a list \<Rightarrow> 'n queue_op list \<Rightarrow> 'a list \<times> (int \<times> 'a option) list" where
  "queue_run cap payload xs [] = (xs, [])"
| "queue_run cap payload xs (Put_Op n # ops) =
     (let (ret, xs') = (if length xs < cap then (0, xs @ [payload n]) else (-1, xs));
          (ys, rs) = queue_run cap payload xs' ops in (ys, (ret, None) # rs))"
| "queue_run cap payload xs (Get_Op # ops) =
     (let (r, xs') = (case xs of [] \<Rightarrow> ((-2, None), []) | x # xs' \<Rightarrow> ((0, Some x), xs'));
          (ys, rs) = queue_run cap payload xs' ops in (ys, r # rs))"

fun op_ok :: "('n \<Rightarrow> bool) \<Rightarrow> 'n queue_op \<Rightarrow> bool" where
  "op_ok ok (Put_Op n) = ok n"
| "op_ok ok Get_Op = True"

locale packet_queue =
  fixes put :: "'q \<Rightarrow> 'n \<Rightarrow> (int \<times> 'q) option"
    and get :: "'q \<Rightarrow> (int \<times> 'q \<times> 'r option) option"
    and deref :: "'q \<Rightarrow> 'r \<Rightarrow> 'a option"
    and content :: "'q \<Rightarrow> 'a list"
    and capacity :: "'q \<Rightarrow> nat"
    and payload :: "'n \<Rightarrow> 'a"
    and inv :: "'q \<Rightarrow> bool"
    and ok :: "'n \<Rightarrow> bool"
  assumes accept: "inv q \<Longrightarrow> ok n \<Longrightarrow> length (content q) < capacity q \<Longrightarrow>
      \<exists>q'. put q n = Some (0, q') \<and> inv q' \<and> content q' = content q @ [payload n] \<and> capacity q' = capacity q"
    and reject: "inv q \<Longrightarrow> \<not> length (content q) < capacity q \<Longrightarrow> put q n = Some (-1, q)"
    and empty: "inv q \<Longrightarrow> content q = [] \<Longrightarrow> get q = Some (-2, q, None)"
    and deliver: "inv q \<Longrightarrow> content q = x # xs \<Longrightarrow>
      \<exists>q' r. get q = Some (0, q', Some r) \<and> inv q' \<and> content q' = xs \<and> deref q' r = Some x \<and> capacity q' = capacity q"
begin

text \<open>One operation of the queue is the same operation of the list, and so are runs.\<close>

lemma refines:
  "inv q \<Longrightarrow> list_all (op_ok ok) ops \<Longrightarrow>
     \<exists>q'. run_ops put get deref q ops = Some (q', snd (queue_run (capacity q) payload (content q) ops)) \<and> inv q' \<and>
       content q' = fst (queue_run (capacity q) payload (content q) ops)"
proof (induction ops arbitrary: q)
  case Nil
  then show ?case by simp
next
  case (Cons a ops)
  show ?case
  proof (cases a)
    case (Put_Op n)
    show ?thesis
    proof (cases "length (content q) < capacity q")
      case True
      then obtain q' where "put q n = Some (0, q')" "inv q'" "content q' = content q @ [payload n]" "capacity q' = capacity q"
        using accept[of q n] Cons.prems Put_Op by auto
      with Cons.IH[of q'] Cons.prems Put_Op True show ?thesis by (auto split: prod.splits)
    next
      case False
      with reject[of q n] Cons.IH[of q] Cons.prems Put_Op show ?thesis by (auto split: prod.splits)
    qed
  next
    case Get_Op
    show ?thesis
    proof (cases "content q = []")
      case True
      with empty[of q] Cons.IH[of q] Cons.prems Get_Op show ?thesis by (auto split: prod.splits)
    next
      case False
      then obtain x xs where x: "content q = x # xs" by (cases "content q") auto
      then obtain q' r where "get q = Some (0, q', Some r)" "inv q'" "content q' = xs" "deref q' r = Some x" "capacity q' = capacity q"
        using deliver[of q x xs] Cons.prems by auto
      with Cons.IH[of q'] Cons.prems Get_Op x show ?thesis by (auto split: prod.splits)
    qed
  qed
qed

end

interpretation ring: packet_queue pkt_fifo_put fifo_take ref_bytes fifo_list "\<lambda>f. length (f_pkt f)"
    node_bytes fifo_inv node_ok
  by unfold_locales (simp_all add: put_accept ring_put_full ring_get_empty get_next)

lemma fifo_inv_init: "0 < n \<Longrightarrow> n < 2 ^ 32 \<Longrightarrow> fifo_inv (init_fifo n)"
  by (simp add: fifo_inv_def init_fifo_def atomic32_init_def unat_of_nat list_all_length
      zero_pkt_buf_def buf_ok_def)

lemma length_init_fifo [simp]: "length (f_pkt (init_fifo n)) = n"
  by (simp add: init_fifo_def)

lemma fifo_list_init: "fifo_list (init_fifo n) = []"
  by (simp add: fifo_list_def init_fifo_def atomic32_init_def)

text \<open>
  C26. A packet ring is a queue of at most \<open>PKT_FIFO_SIZE\<close> packets. From the ring \<open>init_pkt_fifo\<close> sets up, any sequence of puts (of
  packets that fit a buffer) and gets is free of undefined behaviour and answers as the queue does, operation by operation: a put is
  refused with -1 exactly when the queue is full, a get returns -2 exactly when it is empty, and every other get leads the reader to the
  bytes of the oldest packet.
\<close>

theorem pkt_fifo_in_order:
  assumes "w < WORKER_NUM" and "list_all (op_ok node_ok) ops"
  shows "\<exists>f. run_ops pkt_fifo_put fifo_take ref_bytes (init_pkt_fifo ! w) ops =
             Some (f, snd (queue_run PKT_FIFO_SIZE node_bytes [] ops)) \<and>
           fifo_inv f \<and> fifo_list f = fst (queue_run PKT_FIFO_SIZE node_bytes [] ops)"
proof -
  have "init_pkt_fifo ! w = init_fifo PKT_FIFO_SIZE" using assms(1) by (simp add: init_pkt_fifo_def)
  then show ?thesis
    using ring.refines[OF fifo_inv_init assms(2), of PKT_FIFO_SIZE] by (simp add: fifo_list_init)
qed

theorem pkt_fifo_in_order_witness:
  "\<exists>f. run_ops pkt_fifo_put fifo_take ref_bytes (init_pkt_fifo ! 3)
       [Put_Op \<lparr>nd_pkt = [1, 2, 3], nd_len = 2\<rparr>, Get_Op, Get_Op] = Some (f, [(0, None), (0, Some [1, 2]), (-2, None)]) \<and>
     fifo_list f = []"
  using pkt_fifo_in_order[of 3 "[Put_Op \<lparr>nd_pkt = [1, 2, 3], nd_len = 2\<rparr>, Get_Op, Get_Op]"]
  by (auto simp: node_ok_def node_bytes_def)

text \<open>
  \<open>pkt_fifo_put\<close> keeps its bounds only as long as the length the capture library reports
  does: with room in the ring, a packet longer than a slot, or longer than what was
  captured of it, is an access outside a buffer.
\<close>

theorem pkt_fifo_put_overlong:
  assumes "fifo_inv f" and "length (fifo_list f) < length (f_pkt f)"
  shows "pkt_fifo_put f node = None \<longleftrightarrow>
     length (nd_pkt node) < unat (nd_len node) \<or> PKT_BUF_SIZE < unat (nd_len node)"
proof (cases "node_ok node")
  case True
  then show ?thesis using put_accept[OF assms(1) True assms(2)] by (auto simp: node_ok_def)
next
  case False
  have "unat (f_in f) < length (f_pkt f)" using assms(1) by (auto simp: fifo_inv_def)
  moreover have "length (pb_pkt (f_pkt f ! unat (f_in f))) = PKT_BUF_SIZE"
    using assms(1) calculation by (auto simp: fifo_inv_def list_all_length buf_ok_def)
  ultimately have "store_packet (f_pkt f) (unat (f_in f)) node = None"
    using False by (auto simp: store_packet_def node_ok_def mem_simps rd_n_def wr_n_def)
  moreover have "f_count f < f_size f"
    using assms by (auto simp: fifo_inv_def word_less_nat_alt)
  ultimately show ?thesis using False by (auto simp: pkt_fifo_put_def node_ok_def Let_def)
qed

theorem pkt_fifo_put_overlong_witness:
  "pkt_fifo_put (init_fifo 4) \<lparr>nd_pkt = replicate 3000 0, nd_len = 2049\<rparr> = None"
  using pkt_fifo_put_overlong[of "init_fifo 4" "\<lparr>nd_pkt = replicate 3000 0, nd_len = 2049\<rparr>"]
    fifo_inv_init[of 4] fifo_list_init[of 4] by (simp add: length_init_fifo)


subsection \<open>The capture thread and a worker on one ring\<close>

text \<open>
  The steps of the two threads. \<open>P_Checked\<close>: \<open>pkt_fifo_put\<close> has found room; \<open>P_Stored\<close>: it has copied the packet into the slot;
  \<open>P_Counted\<close>: it has added 1 to the count and has still to advance \<open>in\<close>. \<open>C_Got\<close>: \<open>pkt_fifo_get\<close> has found a packet and pointed the
  node at its slot; \<open>C_Released\<close>: it has subtracted 1 from the count; \<open>C_Using\<close>: it has advanced \<open>out\<close> and returned; only then, in
  \<open>worker_read\<close>, does the worker read the packet, through the node, out of the slot it has released. A read of a variable that only the
  reading thread changes is merged with the next step; the copy of a packet and the worker's reading of it are one step each. Memory
  accesses take effect in program order.

  Three variables record what happened, the code has none of them: \<open>sp_sent\<close> the packets that were counted, \<open>sp_freed\<close> the number of
  slots that were released, and \<open>sp_read\<close>, for each packet the worker was given, the bytes it read, with the number of packets
  that had been copied into the ring by then.
\<close>

datatype prod_pc = P_Idle | P_Checked pkt_node | P_Stored pkt_node | P_Counted pkt_node
datatype cons_pc = C_Idle | C_Got node_ref | C_Released node_ref | C_Using node_ref

record spsc =
  sp_fifo :: pkt_fifo
  sp_prod :: prod_pc
  sp_cons :: cons_pc
  sp_sent :: "u8 list list"
  sp_freed :: nat
  sp_read :: "(u8 list \<times> nat) list"

definition spsc_init :: "nat \<Rightarrow> spsc" where
  "spsc_init n = \<lparr>sp_fifo = init_fifo n, sp_prod = P_Idle, sp_cons = C_Idle, sp_sent = [], sp_freed = 0, sp_read = []\<rparr>"

text \<open>The packets that were copied into the ring so far, counted or not.\<close>

definition stored :: "spsc \<Rightarrow> u8 list list" where
  "stored s = sp_sent s @ (case sp_prod s of P_Stored node \<Rightarrow> [node_bytes node] | _ \<Rightarrow> [])"

inductive spsc_step :: "spsc \<Rightarrow> spsc \<Rightarrow> bool" where
  put_full: "\<lbrakk>sp_prod s = P_Idle; f_count (sp_fifo s) \<ge> f_size (sp_fifo s)\<rbrakk> \<Longrightarrow> spsc_step s s"
| put_check: "\<lbrakk>sp_prod s = P_Idle; \<not> f_count (sp_fifo s) \<ge> f_size (sp_fifo s); node_ok node\<rbrakk> \<Longrightarrow>
     spsc_step s (s\<lparr>sp_prod := P_Checked node\<rparr>)"
| put_store: "\<lbrakk>sp_prod s = P_Checked node;
     store_packet (f_pkt (sp_fifo s)) (unat (f_in (sp_fifo s))) node = Some pkt\<rbrakk> \<Longrightarrow>
     spsc_step s (s\<lparr>sp_prod := P_Stored node, sp_fifo := (sp_fifo s)\<lparr>f_pkt := pkt\<rparr>\<rparr>)"
| put_count: "sp_prod s = P_Stored node \<Longrightarrow>
     spsc_step s (s\<lparr>sp_prod := P_Counted node,
       sp_fifo := (sp_fifo s)\<lparr>f_count := snd (atomic32_add (f_count (sp_fifo s)) 1)\<rparr>,
       sp_sent := sp_sent s @ [node_bytes node]\<rparr>)"
| put_in: "sp_prod s = P_Counted node \<Longrightarrow>
     spsc_step s (s\<lparr>sp_prod := P_Idle,
       sp_fifo := (sp_fifo s)\<lparr>f_in := ring_next (f_size (sp_fifo s)) (f_in (sp_fifo s))\<rparr>\<rparr>)"
| get_empty: "\<lbrakk>sp_cons s = C_Idle; f_count (sp_fifo s) \<le> 0\<rbrakk> \<Longrightarrow> spsc_step s s"
| get_node: "\<lbrakk>sp_cons s = C_Idle; \<not> f_count (sp_fifo s) \<le> 0; \<not> f_out (sp_fifo s) \<ge> f_size (sp_fifo s);
     rd (f_pkt (sp_fifo s)) (unat (f_out (sp_fifo s))) = Some buf\<rbrakk> \<Longrightarrow>
     spsc_step s (s\<lparr>sp_cons := C_Got \<lparr>ref_slot = unat (f_out (sp_fifo s)), ref_len = pb_len buf\<rparr>\<rparr>)"
| get_count: "sp_cons s = C_Got r \<Longrightarrow>
     spsc_step s (s\<lparr>sp_cons := C_Released r,
       sp_fifo := (sp_fifo s)\<lparr>f_count := snd (atomic32_sub (f_count (sp_fifo s)) 1)\<rparr>,
       sp_freed := Suc (sp_freed s)\<rparr>)"
| get_out: "sp_cons s = C_Released r \<Longrightarrow>
     spsc_step s (s\<lparr>sp_cons := C_Using r,
       sp_fifo := (sp_fifo s)\<lparr>f_out := ring_next (f_size (sp_fifo s)) (f_out (sp_fifo s))\<rparr>\<rparr>)"
| worker_read: "\<lbrakk>sp_cons s = C_Using r; ref_bytes (sp_fifo s) r = Some x\<rbrakk> \<Longrightarrow>
     spsc_step s (s\<lparr>sp_cons := C_Idle, sp_read := sp_read s @ [(x, length (stored s))]\<rparr>)"

inductive spsc_reachable :: "nat \<Rightarrow> spsc \<Rightarrow> bool" for n where
  start: "spsc_reachable n (spsc_init n)"
| step: "spsc_reachable n s \<Longrightarrow> spsc_step s t \<Longrightarrow> spsc_reachable n t"

text \<open>The positions as they will be once a half-done operation has moved its own.\<close>

definition eff_out :: "spsc \<Rightarrow> nat" where
  "eff_out s = (case sp_cons s of
      C_Released _ \<Rightarrow> Suc (unat (f_out (sp_fifo s))) mod length (f_pkt (sp_fifo s))
    | _ \<Rightarrow> unat (f_out (sp_fifo s)))"

definition eff_in :: "spsc \<Rightarrow> nat" where
  "eff_in s = (case sp_prod s of
      P_Counted _ \<Rightarrow> Suc (unat (f_in (sp_fifo s))) mod length (f_pkt (sp_fifo s))
    | _ \<Rightarrow> unat (f_in (sp_fifo s)))"

definition pending_slots :: "spsc \<Rightarrow> nat list" where
  "pending_slots s = ring_slots (length (f_pkt (sp_fifo s))) (eff_out s) (unat (f_count (sp_fifo s)))"

definition pending :: "spsc \<Rightarrow> u8 list list" where
  "pending s = map (\<lambda>i. buf_bytes (f_pkt (sp_fifo s) ! i)) (pending_slots s)"

definition spsc_inv :: "nat \<Rightarrow> spsc \<Rightarrow> bool" where
  "spsc_inv n s \<longleftrightarrow> (let f = sp_fifo s in
     0 < n \<and> length (f_pkt f) = n \<and> unat (f_size f) = n \<and> unat (f_out f) < n \<and> unat (f_in f) < n \<and>
     unat (f_count f) \<le> n \<and> eff_in s = (eff_out s + unat (f_count f)) mod n \<and>
     list_all buf_ok (f_pkt f) \<and>
     (case sp_prod s of
        P_Checked node \<Rightarrow> unat (f_count f) < n \<and> node_ok node
      | P_Stored node \<Rightarrow> unat (f_count f) < n \<and> node_ok node \<and>
          buf_bytes (f_pkt f ! unat (f_in f)) = node_bytes node
      | _ \<Rightarrow> True) \<and>
     (case sp_cons s of
        C_Got r \<Rightarrow> 0 < unat (f_count f) \<and> ref_slot r = unat (f_out f) \<and>
          ref_len r = pb_len (f_pkt f ! unat (f_out f))
      | _ \<Rightarrow> True) \<and>
     sp_freed s \<le> length (sp_sent s) \<and> drop (sp_freed s) (sp_sent s) = pending s)"


lemma spsc_inv_init: "0 < n \<Longrightarrow> n < 2 ^ 32 \<Longrightarrow> spsc_inv n (spsc_init n)"
  using fifo_inv_init[of n] fifo_list_init[of n]
  by (simp add: spsc_inv_def spsc_init_def fifo_inv_def fifo_list_def eff_in_def eff_out_def pending_def
      pending_slots_def Let_def)

lemma inv_store:
  assumes inv: "spsc_inv n s" and prod: "sp_prod s = P_Checked node"
    and st: "store_packet (f_pkt (sp_fifo s)) (unat (f_in (sp_fifo s))) node = Some pkt"
  shows "spsc_inv n (s\<lparr>sp_prod := P_Stored node, sp_fifo := (sp_fifo s)\<lparr>f_pkt := pkt\<rparr>\<rparr>)"
proof -
  let ?f = "sp_fifo s" and ?i = "unat (f_in (sp_fifo s))" and ?c = "unat (f_count (sp_fifo s))"
  have a: "length (f_pkt ?f) = n" "?i < n" "?c < n" "list_all buf_ok (f_pkt ?f)" "node_ok node"
    "?i = (eff_out s + ?c) mod n"
    using inv prod by (auto simp: spsc_inv_def Let_def eff_in_def)
  obtain pkt' where "store_packet (f_pkt ?f) ?i node = Some pkt'" and pk': "length pkt' = length (f_pkt ?f)"
     "list_all buf_ok pkt'" "buf_bytes (pkt' ! ?i) = node_bytes node"
     "\<And>j. j \<noteq> ?i \<Longrightarrow> pkt' ! j = f_pkt ?f ! j"
    using store_packet_ok[OF a(4) _ a(5), of ?i] a(1,2) by auto
  with st have pkt: "length pkt = n" "list_all buf_ok pkt" "buf_bytes (pkt ! ?i) = node_bytes node"
    and same: "\<And>j. j \<noteq> ?i \<Longrightarrow> pkt ! j = f_pkt ?f ! j" using a(1) by auto
  have eo: "eff_out (s\<lparr>sp_prod := P_Stored node, sp_fifo := ?f\<lparr>f_pkt := pkt\<rparr>\<rparr>) = eff_out s"
    using pkt a by (simp add: eff_out_def split: cons_pc.split)
  have ei: "eff_in (s\<lparr>sp_prod := P_Stored node, sp_fifo := ?f\<lparr>f_pkt := pkt\<rparr>\<rparr>) = ?i"
    by (simp add: eff_in_def)
  have fresh: "?i \<notin> set (pending_slots s)"
    using ring_slots_next[OF a(3), of "eff_out s"] a(1,6) by (simp add: pending_slots_def)
  have same_pending: "pkt ! x = f_pkt ?f ! x" if "x \<in> set (pending_slots s)" for x
    using fresh same that by metis
  have pe: "pending (s\<lparr>sp_prod := P_Stored node, sp_fifo := ?f\<lparr>f_pkt := pkt\<rparr>\<rparr>) = pending s"
    using same_pending pkt a(1) eo by (simp add: pending_def pending_slots_def cong: map_cong)
  have got: "unat (f_out ?f) \<noteq> ?i" if "sp_cons s = C_Got r" for r
  proof -
    have "unat (f_out ?f) = eff_out s" "0 < ?c" "unat (f_out ?f) < n"
      using inv that by (auto simp: spsc_inv_def Let_def eff_out_def)
    then have "unat (f_out ?f) \<in> set (pending_slots s)"
      using a(1) by (auto simp: pending_slots_def ring_slots_def intro!: image_eqI[of _ _ 0])
    with fresh show ?thesis by metis
  qed
  show ?thesis
    using inv a pkt eo ei pe got same
    by (auto simp: spsc_inv_def Let_def split: cons_pc.splits)
qed


lemma inv_put_count:
  assumes inv: "spsc_inv n s" and prod: "sp_prod s = P_Stored node"
  shows "spsc_inv n (s\<lparr>sp_prod := P_Counted node,
       sp_fifo := (sp_fifo s)\<lparr>f_count := snd (atomic32_add (f_count (sp_fifo s)) 1)\<rparr>,
       sp_sent := sp_sent s @ [node_bytes node]\<rparr>)" (is "spsc_inv n ?t")
proof -
  let ?f = "sp_fifo s" and ?i = "unat (f_in (sp_fifo s))" and ?c = "unat (f_count (sp_fifo s))"
  have a: "length (f_pkt ?f) = n" "?i < n" "?c < n" "unat (f_size ?f) = n" "0 < n"
    "?i = (eff_out s + ?c) mod n" "buf_bytes (f_pkt ?f ! ?i) = node_bytes node"
    using inv prod by (auto simp: spsc_inv_def Let_def eff_in_def)
  have c: "unat (f_count ?f + 1) = Suc ?c" using a unat_count_up[of "f_count ?f" "f_size ?f"] by simp
  have eo: "eff_out ?t = eff_out s" by (simp add: eff_out_def split: cons_pc.split)
  have ei: "eff_in ?t = (eff_out s + Suc ?c) mod n" using a by (simp add: eff_in_def mod_simps)
  have "pending ?t = pending s @ [node_bytes node]"
    using a eo c by (simp add: pending_def pending_slots_def ring_slots_snoc)
  then show ?thesis using inv prod a c eo ei by (auto simp: spsc_inv_def Let_def split: cons_pc.splits)
qed

lemma inv_put_in:
  assumes inv: "spsc_inv n s" and prod: "sp_prod s = P_Counted node"
  shows "spsc_inv n (s\<lparr>sp_prod := P_Idle,
       sp_fifo := (sp_fifo s)\<lparr>f_in := ring_next (f_size (sp_fifo s)) (f_in (sp_fifo s))\<rparr>\<rparr>)"
    (is "spsc_inv n ?t")
proof -
  let ?f = "sp_fifo s"
  have a: "length (f_pkt ?f) = n" "unat (f_in ?f) < n" "unat (f_size ?f) = n" "0 < n"
    using inv by (auto simp: spsc_inv_def Let_def)
  have nx: "unat (ring_next (f_size ?f) (f_in ?f)) = Suc (unat (f_in ?f)) mod n"
    using a unat_ring_next[of "f_in ?f" "f_size ?f"] by (simp add: word_less_nat_alt)
  have "eff_out ?t = eff_out s" "eff_in ?t = eff_in s"
    using a prod nx by (simp_all add: eff_out_def eff_in_def split: cons_pc.split prod_pc.split)
  moreover from this have "pending ?t = pending s" by (simp add: pending_def pending_slots_def)
  ultimately show ?thesis using inv prod a nx by (auto simp: spsc_inv_def Let_def split: cons_pc.splits)
qed

lemma inv_get_node:
  assumes inv: "spsc_inv n s" and cons: "sp_cons s = C_Idle" and c: "\<not> f_count (sp_fifo s) \<le> 0"
    and buf: "rd (f_pkt (sp_fifo s)) (unat (f_out (sp_fifo s))) = Some buf"
  shows "spsc_inv n (s\<lparr>sp_cons := C_Got \<lparr>ref_slot = unat (f_out (sp_fifo s)), ref_len = pb_len buf\<rparr>\<rparr>)"
    (is "spsc_inv n ?t")
proof -
  have "eff_out ?t = eff_out s" "eff_in ?t = eff_in s" using cons by (simp_all add: eff_out_def eff_in_def split: cons_pc.split prod_pc.split)
  moreover from this have "pending ?t = pending s" by (simp add: pending_def pending_slots_def)
  moreover have "0 < unat (f_count (sp_fifo s))" using c by (simp add: word_le_nat_alt)
  ultimately show ?thesis using inv buf
    by (auto simp: spsc_inv_def Let_def rd_eq_Some split: prod_pc.splits)
qed

lemma pending_head:
  assumes inv: "spsc_inv n s" and cons: "sp_cons s = C_Got r"
  shows "pending s = buf_bytes (f_pkt (sp_fifo s) ! ref_slot r) #
      map (\<lambda>i. buf_bytes (f_pkt (sp_fifo s) ! i))
        (ring_slots n (Suc (unat (f_out (sp_fifo s))) mod n) (unat (f_count (sp_fifo s)) - 1))"
    and "ref_bytes (sp_fifo s) r = Some (buf_bytes (f_pkt (sp_fifo s) ! ref_slot r))"
proof -
  let ?f = "sp_fifo s"
  have a: "length (f_pkt ?f) = n" "0 < unat (f_count ?f)" "ref_slot r = unat (f_out ?f)"
     "unat (f_out ?f) < n" "list_all buf_ok (f_pkt ?f)" "ref_len r = pb_len (f_pkt ?f ! unat (f_out ?f))"
    using inv cons by (auto simp: spsc_inv_def Let_def)
  have "ring_slots n (unat (f_out ?f)) (unat (f_count ?f)) =
      unat (f_out ?f) # ring_slots n (Suc (unat (f_out ?f)) mod n) (unat (f_count ?f) - 1)"
    using a ring_slots_Cons[of n "unat (f_out ?f)" "unat (f_count ?f) - 1"] by simp
  with a cons show "pending s = buf_bytes (f_pkt ?f ! ref_slot r) #
      map (\<lambda>i. buf_bytes (f_pkt ?f ! i)) (ring_slots n (Suc (unat (f_out ?f)) mod n) (unat (f_count ?f) - 1))"
    by (simp add: pending_def pending_slots_def eff_out_def)
  show "ref_bytes ?f r = Some (buf_bytes (f_pkt ?f ! ref_slot r))"
    using a buf_bytes_ref[of "ref_slot r" "f_pkt ?f"] by (simp add: ref_bytes_def mem_simps)
qed

lemma inv_get_count:
  assumes inv: "spsc_inv n s" and cons: "sp_cons s = C_Got r"
  shows "spsc_inv n (s\<lparr>sp_cons := C_Released r,
       sp_fifo := (sp_fifo s)\<lparr>f_count := snd (atomic32_sub (f_count (sp_fifo s)) 1)\<rparr>,
       sp_freed := Suc (sp_freed s)\<rparr>)" (is "spsc_inv n ?t")
proof -
  let ?f = "sp_fifo s" and ?x = "buf_bytes (f_pkt (sp_fifo s) ! ref_slot r)"
  have a: "length (f_pkt ?f) = n" "0 < unat (f_count ?f)" "unat (f_out ?f) < n"
      "eff_in s = (unat (f_out ?f) + unat (f_count ?f)) mod n" "drop (sp_freed s) (sp_sent s) = pending s"
    using inv cons by (auto simp: spsc_inv_def Let_def eff_out_def)
  have c: "unat (f_count ?f - 1) = unat (f_count ?f) - 1" using a unat_count_down by simp
  have eo: "eff_out ?t = Suc (unat (f_out ?f)) mod n" using a by (simp add: eff_out_def)
  have ei: "eff_in ?t = eff_in s" by (simp add: eff_in_def split: prod_pc.split)
  have p: "pending s = ?x # pending ?t"
    using pending_head(1)[OF inv cons] a c eo by (simp add: pending_def pending_slots_def)
  then have "sp_freed s < length (sp_sent s)" using a(5) by (metis drop_eq_Nil leI list.distinct(1))
  moreover have "drop (Suc (sp_freed s)) (sp_sent s) = pending ?t" using p a(5) by (metis drop_Suc drop_tl list.sel(3))
  moreover have "eff_in s = (eff_out ?t + (unat (f_count ?f) - 1)) mod n"
    using a eo by (cases "unat (f_count ?f)") (simp_all add: mod_simps)
  ultimately show ?thesis using inv c ei a by (auto simp: spsc_inv_def Let_def split: prod_pc.splits)
qed

lemma inv_get_out:
  assumes inv: "spsc_inv n s" and cons: "sp_cons s = C_Released r"
  shows "spsc_inv n (s\<lparr>sp_cons := C_Using r,
       sp_fifo := (sp_fifo s)\<lparr>f_out := ring_next (f_size (sp_fifo s)) (f_out (sp_fifo s))\<rparr>\<rparr>)"
    (is "spsc_inv n ?t")
proof -
  let ?f = "sp_fifo s"
  have a: "length (f_pkt ?f) = n" "unat (f_out ?f) < n" "unat (f_size ?f) = n" "0 < n"
    using inv by (auto simp: spsc_inv_def Let_def)
  have nx: "unat (ring_next (f_size ?f) (f_out ?f)) = Suc (unat (f_out ?f)) mod n"
    using a unat_ring_next[of "f_out ?f" "f_size ?f"] by (simp add: word_less_nat_alt)
  have "eff_out ?t = eff_out s" "eff_in ?t = eff_in s"
    using a cons nx by (simp_all add: eff_out_def eff_in_def split: cons_pc.split prod_pc.split)
  moreover from this have "pending ?t = pending s" by (simp add: pending_def pending_slots_def)
  ultimately show ?thesis using inv a nx by (auto simp: spsc_inv_def Let_def split: prod_pc.splits)
qed

lemma inv_worker_read:
  assumes inv: "spsc_inv n s" and cons: "sp_cons s = C_Using r"
  shows "spsc_inv n (s\<lparr>sp_cons := C_Idle, sp_read := xs\<rparr>)" (is "spsc_inv n ?t")
proof -
  have "eff_out ?t = eff_out s" "eff_in ?t = eff_in s" using cons by (simp_all add: eff_out_def eff_in_def split: cons_pc.split prod_pc.split)
  moreover from this have "pending ?t = pending s" by (simp add: pending_def pending_slots_def)
  ultimately show ?thesis using inv by (auto simp: spsc_inv_def Let_def split: prod_pc.splits)
qed

lemma inv_put_check:
  assumes inv: "spsc_inv n s" and prod: "sp_prod s = P_Idle"
    and room: "\<not> f_count (sp_fifo s) \<ge> f_size (sp_fifo s)" and ok: "node_ok node"
  shows "spsc_inv n (s\<lparr>sp_prod := P_Checked node\<rparr>)" (is "spsc_inv n ?t")
proof -
  have "eff_out ?t = eff_out s" "eff_in ?t = eff_in s" using prod by (simp_all add: eff_out_def eff_in_def split: cons_pc.split prod_pc.split)
  moreover from this have "pending ?t = pending s" by (simp add: pending_def pending_slots_def)
  ultimately show ?thesis using inv room ok
    by (auto simp: spsc_inv_def Let_def word_le_nat_alt split: cons_pc.splits)
qed

lemma spsc_step_inv: "spsc_step s t \<Longrightarrow> spsc_inv n s \<Longrightarrow> spsc_inv n t"
  by (induction rule: spsc_step.induct)
    (blast intro: inv_put_check inv_store inv_put_count inv_put_in inv_get_node inv_get_count
      inv_get_out inv_worker_read)+

lemma spsc_reachable_inv: "spsc_reachable n s \<Longrightarrow> 0 < n \<Longrightarrow> n < 2 ^ 32 \<Longrightarrow> spsc_inv n s"
  by (induction rule: spsc_reachable.induct) (auto intro: spsc_inv_init spsc_step_inv)


subsection \<open>What the worker reads\<close>

text \<open>What a reader finds through the node of an old packet when a newer one was copied over it: the newer one, cut to the old length.\<close>

definition overlay :: "u8 list \<Rightarrow> u8 list \<Rightarrow> u8 list" where
  "overlay old new = take (length old) (new @ drop (length new) old)"

definition slot_view :: "nat \<Rightarrow> u8 list list \<Rightarrow> nat \<Rightarrow> nat \<Rightarrow> u8 list" where
  "slot_view n ps k m = (if m \<le> k + n then ps ! k else overlay (ps ! k) (ps ! (k + n)))"

definition held :: "nat \<Rightarrow> spsc \<Rightarrow> node_ref \<Rightarrow> bool" where
  "held n s r \<longleftrightarrow> ref_slot r < n \<and> Suc (ref_slot r) mod n = eff_out s \<and> Suc (length (sp_read s)) = sp_freed s \<and>
     ref_bytes (sp_fifo s) r = Some (slot_view n (stored s) (length (sp_read s)) (length (stored s)))"

definition read_inv :: "nat \<Rightarrow> spsc \<Rightarrow> bool" where
  "read_inv n s \<longleftrightarrow> spsc_inv n s \<and>
     (case sp_cons s of C_Released r \<Rightarrow> held n s r | C_Using r \<Rightarrow> held n s r | _ \<Rightarrow> length (sp_read s) = sp_freed s) \<and>
     (\<forall>k < length (sp_read s). case sp_read s ! k of (x, m) \<Rightarrow>
        k < m \<and> m \<le> Suc (k + n) \<and> m \<le> length (stored s) \<and> x = slot_view n (stored s) k m)"

lemma slot_view_append: "k < m \<Longrightarrow> m \<le> length ps \<Longrightarrow> slot_view n (ps @ qs) k m = slot_view n ps k m"
  by (auto simp: slot_view_def nth_append)

lemma length_stored:
  "spsc_inv n s \<Longrightarrow> length (stored s) = sp_freed s + unat (f_count (sp_fifo s)) + (case sp_prod s of P_Stored _ \<Rightarrow> 1 | _ \<Rightarrow> 0)"
  by (auto simp: spsc_inv_def Let_def stored_def pending_def pending_slots_def
      dest!: arg_cong[where f = length] split: prod_pc.splits)

lemma length_stored_le: "spsc_inv n s \<Longrightarrow> sp_freed s \<le> length (stored s) \<and> length (stored s) \<le> sp_freed s + n"
  using length_stored[of n s] by (auto simp: spsc_inv_def Let_def split: prod_pc.splits)

text \<open>A step that neither copies nor releases nor reads a packet keeps what the worker holds.\<close>

lemma held_keep:
  "held n s r \<Longrightarrow> stored t = stored s \<Longrightarrow> eff_out t = eff_out s \<Longrightarrow> sp_freed t = sp_freed s \<Longrightarrow> sp_read t = sp_read s \<Longrightarrow>
     f_pkt (sp_fifo t) = f_pkt (sp_fifo s) \<Longrightarrow> held n t r"
  by (simp add: held_def ref_bytes_def)

lemma store_packet_bytes:
  assumes "store_packet pkt i node = Some pkt'" "list_all buf_ok pkt" "node_ok node" "i < length pkt"
  shows "pkt' = pkt[i := \<lparr>pb_pkt = node_bytes node @ drop (length (node_bytes node)) (pb_pkt (pkt ! i)), pb_len = nd_len node\<rparr>]"
    and "length (node_bytes node) = unat (nd_len node)" "unat (nd_len node) \<le> PKT_BUF_SIZE" "length (pb_pkt (pkt ! i)) = PKT_BUF_SIZE"
proof -
  have l: "length (pb_pkt (pkt ! i)) = PKT_BUF_SIZE" using assms(2,4) by (auto simp: list_all_length buf_ok_def)
  have n: "unat (nd_len node) \<le> length (nd_pkt node)" "unat (nd_len node) \<le> PKT_BUF_SIZE" using assms(3) by (auto simp: node_ok_def)
  show "length (node_bytes node) = unat (nd_len node)" using n by (simp add: node_bytes_def)
  show "pkt' = pkt[i := \<lparr>pb_pkt = node_bytes node @ drop (length (node_bytes node)) (pb_pkt (pkt ! i)), pb_len = nd_len node\<rparr>]"
    using assms(1,4) n l by (simp add: store_packet_def mem_simps node_bytes_def min_def)
  show "unat (nd_len node) \<le> PKT_BUF_SIZE" "length (pb_pkt (pkt ! i)) = PKT_BUF_SIZE" using n l by simp_all
qed

lemma ref_bytes_overlay:
  assumes "ref_bytes f r = Some x" "i = ref_slot r" "i < length (f_pkt f)" "store_packet (f_pkt f) i node = Some pkt"
    "list_all buf_ok (f_pkt f)" "node_ok node"
  shows "ref_bytes (f\<lparr>f_pkt := pkt\<rparr>) r = Some (overlay x (node_bytes node))"
proof -
  let ?b = "f_pkt f ! i" and ?n = "node_bytes node" and ?l = "unat (ref_len r)"
  note st = store_packet_bytes[OF assms(4,5,6,3)]
  have x: "x = take ?l (pb_pkt ?b)" "?l \<le> length (pb_pkt ?b)"
    using assms(1-3) by (auto simp: ref_bytes_def mem_simps rd_n_def split: if_splits)
  have "ref_bytes (f\<lparr>f_pkt := pkt\<rparr>) r = Some (take ?l (?n @ drop (length ?n) (pb_pkt ?b)))"
    using assms(2,3) st x(2) by (simp add: ref_bytes_def mem_simps rd_n_def)
  moreover have "drop (length ?n) (take ?l (pb_pkt ?b)) = take (?l - length ?n) (drop (length ?n) (pb_pkt ?b))" by (simp add: drop_take)
  ultimately show ?thesis using x by (simp add: overlay_def min_def)
qed

lemma ref_bytes_other:
  "i \<noteq> ref_slot r \<Longrightarrow> i < length (f_pkt f) \<Longrightarrow> store_packet (f_pkt f) i node = Some pkt \<Longrightarrow> list_all buf_ok (f_pkt f) \<Longrightarrow> node_ok node \<Longrightarrow>
     ref_bytes (f\<lparr>f_pkt := pkt\<rparr>) r = ref_bytes f r"
  using store_packet_bytes(1)[of "f_pkt f" i node pkt] by (simp add: ref_bytes_def rd_def)

lemma held_store:
  assumes inv: "spsc_inv n s" and prod: "sp_prod s = P_Checked node" and h: "held n s r"
    and st: "store_packet (f_pkt (sp_fifo s)) (unat (f_in (sp_fifo s))) node = Some pkt"
  shows "held n (s\<lparr>sp_prod := P_Stored node, sp_fifo := (sp_fifo s)\<lparr>f_pkt := pkt\<rparr>\<rparr>) r" (is "held n ?t r")
proof -
  let ?f = "sp_fifo s" and ?i = "unat (f_in (sp_fifo s))" and ?c = "unat (f_count (sp_fifo s))" and ?k = "length (sp_read s)"
  have a: "length (f_pkt ?f) = n" "?i < n" "?c < n" "list_all buf_ok (f_pkt ?f)" "node_ok node" "?i = (eff_out s + ?c) mod n"
    using inv prod by (auto simp: spsc_inv_def Let_def eff_in_def)
  have hd: "ref_slot r < n" "Suc (ref_slot r) mod n = eff_out s" "Suc ?k = sp_freed s"
    "ref_bytes ?f r = Some (slot_view n (stored s) ?k (length (stored s)))" using h by (simp_all add: held_def)
  have m: "length (stored s) = Suc ?k + ?c" using length_stored[OF inv] prod hd(3) by simp
  then have old: "ref_bytes ?f r = Some (stored s ! ?k)" using hd(4) a(3) by (simp add: slot_view_def)
  have S: "stored ?t = stored s @ [node_bytes node]" using prod by (simp add: stored_def)
  have len: "length pkt = n" using store_packet_bytes(1)[OF st a(4,5)] a(1,2) by simp
  have eo: "eff_out ?t = eff_out s" using len a(1) by (simp add: eff_out_def split: cons_pc.split)
  have j: "ref_slot r = (eff_out s + (n - 1)) mod n"
  proof -
    have "(eff_out s + (n - 1)) mod n = (Suc (ref_slot r) + (n - 1)) mod n" unfolding hd(2)[symmetric] by (simp add: mod_simps)
    also have "\<dots> = (ref_slot r + n) mod n" using a(3) by (intro arg_cong[where f = "\<lambda>x. x mod n"]) linarith
    finally show ?thesis using hd(1) by simp
  qed
  have "ref_bytes (?f\<lparr>f_pkt := pkt\<rparr>) r = Some (slot_view n (stored ?t) ?k (length (stored ?t)))"
  proof (cases "?c = n - 1")
    case True
    then have "?i = ref_slot r" using j a(6) by simp
    from ref_bytes_overlay[OF old this _ st a(4,5)] True m show ?thesis
      using a by (simp add: S slot_view_def nth_append)
  next
    case False
    then have "?i \<noteq> ref_slot r" using j a(3,6) mod_add_inj[of "eff_out s" ?c n "n - 1"] by auto
    moreover have "Suc (Suc ?c) \<le> n" using False a(3) by linarith
    ultimately show ?thesis using ref_bytes_other[OF _ _ st a(4,5), of r] m a old by (simp add: S slot_view_def nth_append)
  qed
  then show ?thesis using hd eo by (simp add: held_def)
qed

lemma held_get_count:
  assumes inv: "spsc_inv n s" and cons: "sp_cons s = C_Got r" and k: "length (sp_read s) = sp_freed s"
  shows "held n (s\<lparr>sp_cons := C_Released r,
       sp_fifo := (sp_fifo s)\<lparr>f_count := snd (atomic32_sub (f_count (sp_fifo s)) 1)\<rparr>,
       sp_freed := Suc (sp_freed s)\<rparr>) r" (is "held n ?t r")
proof -
  let ?f = "sp_fifo s"
  have a: "length (f_pkt ?f) = n" "unat (f_out ?f) < n" "ref_slot r = unat (f_out ?f)" "drop (sp_freed s) (sp_sent s) = pending s"
    using inv cons by (auto simp: spsc_inv_def Let_def)
  note p = pending_head[OF inv cons]
  have f: "sp_freed s < length (sp_sent s)" using a(4) p(1) by (metis drop_eq_Nil leI list.distinct(1))
  have "hd (pending s) = sp_sent s ! sp_freed s" using a(4) f by (metis hd_drop_conv_nth)
  then have "ref_bytes ?f r = Some (stored s ! sp_freed s)" using p f by (simp add: stored_def nth_append)
  moreover have "stored ?t = stored s" by (simp add: stored_def)
  moreover have "ref_bytes (sp_fifo ?t) r = ref_bytes ?f r" by (simp add: ref_bytes_def)
  ultimately show ?thesis using a k length_stored_le[OF inv] by (simp add: held_def eff_out_def slot_view_def)
qed

lemma read_inv_init: "0 < n \<Longrightarrow> n < 2 ^ 32 \<Longrightarrow> read_inv n (spsc_init n)"
  using spsc_inv_init[of n] by (simp add: read_inv_def spsc_init_def)

text \<open>The reads that were made stay right, as packets are only added to those that were copied.\<close>

lemma reads_keep:
  assumes "\<forall>k < length rs. case rs ! k of (x, m) \<Rightarrow> k < m \<and> m \<le> Suc (k + n) \<and> m \<le> length ps \<and> x = slot_view n ps k m"
  shows "\<forall>k < length rs. case rs ! k of (x, m) \<Rightarrow> k < m \<and> m \<le> Suc (k + n) \<and> m \<le> length (ps @ qs) \<and> x = slot_view n (ps @ qs) k m"
  using assms by (auto simp: slot_view_append split: prod.splits)

lemma read_inv_step: "spsc_step s t \<Longrightarrow> read_inv n s \<Longrightarrow> read_inv n t"
proof (induction rule: spsc_step.induct)
  case (put_full s)
  then show ?case by simp
next
  case (put_check s node)
  let ?t = "s\<lparr>sp_prod := P_Checked node\<rparr>"
  have S: "stored ?t = stored s" using put_check(1) by (simp add: stored_def)
  have "eff_out ?t = eff_out s" by (simp add: eff_out_def split: cons_pc.split)
  then have "held n s r \<Longrightarrow> held n ?t r" for r using S by (auto intro: held_keep)
  then show ?case using put_check S inv_put_check[of n s node] by (simp add: read_inv_def split: cons_pc.splits)
next
  case (put_store s node pkt)
  let ?t = "s\<lparr>sp_prod := P_Stored node, sp_fifo := (sp_fifo s)\<lparr>f_pkt := pkt\<rparr>\<rparr>"
  have S: "stored ?t = stored s @ [node_bytes node]" using put_store(1) by (simp add: stored_def)
  have "spsc_inv n s" using put_store(3) by (simp add: read_inv_def)
  then have "held n s r \<Longrightarrow> held n ?t r" for r using held_store put_store by blast
  moreover have "spsc_inv n ?t" using inv_store[OF \<open>spsc_inv n s\<close> put_store(1,2)] .
  ultimately show ?case using put_store(3) reads_keep[of "sp_read s" n "stored s" "[node_bytes node]"]
    by (simp add: read_inv_def S split: cons_pc.splits)
next
  case (put_count s node)
  let ?t = "s\<lparr>sp_prod := P_Counted node,
       sp_fifo := (sp_fifo s)\<lparr>f_count := snd (atomic32_add (f_count (sp_fifo s)) 1)\<rparr>,
       sp_sent := sp_sent s @ [node_bytes node]\<rparr>"
  have S: "stored ?t = stored s" using put_count(1) by (simp add: stored_def)
  have "eff_out ?t = eff_out s" by (simp add: eff_out_def split: cons_pc.split)
  then have "held n s r \<Longrightarrow> held n ?t r" for r using S by (auto intro: held_keep)
  then show ?case using put_count S inv_put_count[of n s node] by (simp add: read_inv_def split: cons_pc.splits)
next
  case (put_in s node)
  let ?t = "s\<lparr>sp_prod := P_Idle,
       sp_fifo := (sp_fifo s)\<lparr>f_in := ring_next (f_size (sp_fifo s)) (f_in (sp_fifo s))\<rparr>\<rparr>"
  have S: "stored ?t = stored s" using put_in(1) by (simp add: stored_def)
  have "eff_out ?t = eff_out s" by (simp add: eff_out_def split: cons_pc.split)
  then have "held n s r \<Longrightarrow> held n ?t r" for r using S by (auto intro: held_keep)
  then show ?case using put_in S inv_put_in[of n s node] by (simp add: read_inv_def split: cons_pc.splits)
next
  case (get_empty s)
  then show ?case by simp
next
  case (get_node s buf)
  then show ?case using inv_get_node[of n s buf] by (simp add: read_inv_def stored_def)
next
  case (get_count s r)
  let ?t = "s\<lparr>sp_cons := C_Released r,
       sp_fifo := (sp_fifo s)\<lparr>f_count := snd (atomic32_sub (f_count (sp_fifo s)) 1)\<rparr>,
       sp_freed := Suc (sp_freed s)\<rparr>"
  have i: "spsc_inv n s" "length (sp_read s) = sp_freed s" using get_count by (simp_all add: read_inv_def)
  have "stored ?t = stored s" by (simp add: stored_def)
  then show ?case using get_count inv_get_count[OF i(1) get_count(1)] held_get_count[OF i(1) get_count(1) i(2)] by (simp add: read_inv_def)
next
  case (get_out s r)
  let ?t = "s\<lparr>sp_cons := C_Using r,
       sp_fifo := (sp_fifo s)\<lparr>f_out := ring_next (f_size (sp_fifo s)) (f_out (sp_fifo s))\<rparr>\<rparr>"
  have i: "spsc_inv n s" "held n s r" using get_out by (simp_all add: read_inv_def)
  have S: "stored ?t = stored s" by (simp add: stored_def)
  have nx: "unat (ring_next (f_size (sp_fifo s)) (f_out (sp_fifo s))) = Suc (unat (f_out (sp_fifo s))) mod n" "length (f_pkt (sp_fifo s)) = n"
    using i(1) unat_ring_next[of "f_out (sp_fifo s)" "f_size (sp_fifo s)"] by (auto simp: spsc_inv_def Let_def word_less_nat_alt)
  then have "eff_out ?t = eff_out s" using get_out(1) by (simp add: eff_out_def)
  then have "held n ?t r" using i(2) S by (auto intro: held_keep)
  then show ?case using get_out S inv_get_out[OF i(1) get_out(1)] by (simp add: read_inv_def)
next
  case (worker_read s r x)
  let ?t = "s\<lparr>sp_cons := C_Idle, sp_read := sp_read s @ [(x, length (stored s))]\<rparr>"
  have i: "spsc_inv n s" "held n s r" using worker_read by (simp_all add: read_inv_def)
  have S: "stored (s\<lparr>sp_cons := C_Idle, sp_read := rs\<rparr>) = stored s" for rs by (simp add: stored_def)
  have x: "x = slot_view n (stored s) (length (sp_read s)) (length (stored s))" "sp_freed s = Suc (length (sp_read s))"
    using i(2) worker_read(2) by (simp_all add: held_def)
  have "case sp_read ?t ! k of (x, m) \<Rightarrow> k < m \<and> m \<le> Suc (k + n) \<and> m \<le> length (stored ?t) \<and> x = slot_view n (stored ?t) k m"
    if "k < length (sp_read ?t)" for k
  proof (cases "k = length (sp_read s)")
    case True
    then show ?thesis using x(1) length_stored_le[OF i(1)] by (simp add: S x(2))
  next
    case False
    then have "k < length (sp_read s)" using that by simp
    then show ?thesis using worker_read(3) by (simp add: S read_inv_def nth_append)
  qed
  then show ?case using inv_worker_read[OF i(1) worker_read(1)] x(2) by (simp add: read_inv_def)
qed

lemma spsc_reachable_read: "spsc_reachable n s \<Longrightarrow> 0 < n \<Longrightarrow> n < 2 ^ 32 \<Longrightarrow> read_inv n s"
  by (induction rule: spsc_reachable.induct) (auto intro: read_inv_init read_inv_step)


text \<open>While \<open>pkt_fifo_get\<close> has not yet released the slot, its node is valid and shows the
  oldest packet of the ring, whatever the capture thread does meanwhile.\<close>

theorem spsc_got_stable:
  assumes "spsc_reachable n s" and "0 < n" and "n < 2 ^ 32" and "sp_cons s = C_Got r"
  shows "ref_bytes (sp_fifo s) r = Some (hd (pending s)) \<and> pending s \<noteq> []"
  using pending_head[OF spsc_reachable_inv[OF assms(1-3)] assms(4)] by simp

subsection \<open>The slot is released before the packet is read\<close>

inductive spsc_steps :: "spsc \<Rightarrow> spsc \<Rightarrow> bool" where
  spsc_none: "spsc_steps s s"
| spsc_more: "spsc_step s t \<Longrightarrow> spsc_steps t u \<Longrightarrow> spsc_steps s u"

lemma consumer_turn:
  assumes "spsc_inv n s" "sp_cons s = C_Idle" "0 < unat (f_count (sp_fifo s))"
  obtains t r x where "spsc_steps s t" "sp_cons t = C_Using r" "sp_prod t = sp_prod s"
    "ref_slot r = unat (f_out (sp_fifo s))" "unat (f_count (sp_fifo t)) = unat (f_count (sp_fifo s)) - 1"
    "f_in (sp_fifo t) = f_in (sp_fifo s)" "f_size (sp_fifo t) = f_size (sp_fifo s)"
    "f_pkt (sp_fifo t) = f_pkt (sp_fifo s)" "sp_read t = sp_read s"
proof -
  let ?f = "sp_fifo s" and ?i = "unat (f_out (sp_fifo s))"
  let ?r = "\<lparr>ref_slot = ?i, ref_len = pb_len (f_pkt ?f ! ?i)\<rparr>"
  let ?a = "s\<lparr>sp_cons := C_Got ?r\<rparr>"
  have v: "?i < length (f_pkt ?f)" "unat (f_size ?f) = length (f_pkt ?f)"
    using assms(1) by (auto simp: spsc_inv_def Let_def)
  have s1: "spsc_step s ?a" using assms v
    by (intro spsc_step.get_node) (auto simp: mem_simps word_le_nat_alt)
  let ?b = "?a\<lparr>sp_cons := C_Released ?r, sp_fifo := ?f\<lparr>f_count := snd (atomic32_sub (f_count ?f) 1)\<rparr>,
       sp_freed := Suc (sp_freed s)\<rparr>"
  have s2: "spsc_step ?a ?b" using spsc_step.get_count[of ?a ?r] by simp
  let ?c = "?b\<lparr>sp_cons := C_Using ?r,
      sp_fifo := (sp_fifo ?b)\<lparr>f_out := ring_next (f_size ?f) (f_out ?f)\<rparr>\<rparr>"
  have s3: "spsc_step ?b ?c" using spsc_step.get_out[of ?b ?r] by simp
  have "spsc_steps s ?c" using s1 s2 s3 by (blast intro: spsc_steps.intros)
  moreover have "unat (f_count ?f - 1) = unat (f_count ?f) - 1" using assms(3) by (rule unat_count_down)
  ultimately show ?thesis by (intro that[of ?c ?r]) auto
qed

lemma producer_turn:
  assumes "spsc_inv n s" "sp_prod s = P_Idle" "unat (f_count (sp_fifo s)) < n" "node_ok node"
  obtains t where "spsc_steps s t" "sp_cons t = sp_cons s" "sp_read t = sp_read s"
    "buf_bytes (f_pkt (sp_fifo t) ! unat (f_in (sp_fifo s))) = node_bytes node"
proof -
  let ?f = "sp_fifo s" and ?i = "unat (f_in (sp_fifo s))"
  let ?a = "s\<lparr>sp_prod := P_Checked node\<rparr>"
  have v: "length (f_pkt ?f) = n" "unat (f_size ?f) = n" "?i < n" "list_all buf_ok (f_pkt ?f)"
    using assms(1) by (auto simp: spsc_inv_def Let_def)
  obtain pkt where pkt: "store_packet (f_pkt ?f) ?i node = Some pkt"
      "buf_bytes (pkt ! ?i) = node_bytes node"
    using store_packet_ok[OF v(4) _ assms(4), of ?i] v by auto
  have s1: "spsc_step s ?a" using assms v by (intro spsc_step.put_check) (auto simp: word_le_nat_alt)
  let ?b = "?a\<lparr>sp_prod := P_Stored node, sp_fifo := ?f\<lparr>f_pkt := pkt\<rparr>\<rparr>"
  have s2: "spsc_step ?a ?b" using spsc_step.put_store[of ?a node pkt] pkt by simp
  have "spsc_steps s ?b" using s1 s2 by (blast intro: spsc_steps.intros)
  then show ?thesis using pkt by (intro that[of ?b]) auto
qed

lemma spsc_steps_trans: "spsc_steps s t \<Longrightarrow> spsc_steps t u \<Longrightarrow> spsc_steps s u"
  by (induction rule: spsc_steps.induct) (auto intro: spsc_steps.intros)

lemma spsc_steps_inv: "spsc_steps s t \<Longrightarrow> spsc_inv n s \<Longrightarrow> spsc_inv n t"
  by (induction rule: spsc_steps.induct) (auto intro: spsc_step_inv)

text \<open>
  A worker can read a packet other than the one it was given. \<open>pkt_fifo_get\<close> hands out
  a pointer into the ring and releases the slot before the worker reads it, so when the
  ring is full the capture thread may store the next packet, whatever it is, in that slot
  while the worker is still using it.
\<close>

theorem spsc_slot_reused_in_use:
  assumes "spsc_reachable n s" and "0 < n" and "n < 2 ^ 32"
    and "sp_prod s = P_Idle" and "sp_cons s = C_Idle" and "unat (f_count (sp_fifo s)) = n"
    and "node_ok node"
  shows "\<exists>t r. spsc_steps s t \<and> sp_cons t = C_Using r \<and> sp_read t = sp_read s \<and>
     buf_bytes (f_pkt (sp_fifo t) ! ref_slot r) = node_bytes node"
proof -
  have inv: "spsc_inv n s" by (rule spsc_reachable_inv[OF assms(1-3)])
  from inv assms have "unat (f_in (sp_fifo s)) = unat (f_out (sp_fifo s))"
    by (simp add: spsc_inv_def Let_def eff_in_def eff_out_def)
  moreover obtain t r where t: "spsc_steps s t" "sp_cons t = C_Using r" "sp_prod t = P_Idle"
    "ref_slot r = unat (f_out (sp_fifo s))" "unat (f_count (sp_fifo t)) = n - 1"
    "f_in (sp_fifo t) = f_in (sp_fifo s)" "sp_read t = sp_read s"
    using consumer_turn[OF inv assms(5)] assms by metis
  moreover obtain u where "spsc_steps t u" "sp_cons u = sp_cons t" "sp_read u = sp_read t"
    "buf_bytes (f_pkt (sp_fifo u) ! unat (f_in (sp_fifo t))) = node_bytes node"
    using producer_turn[OF spsc_steps_inv[OF t(1) inv] t(3) _ assms(7)] t(5) assms(2) by auto
  ultimately show ?thesis using spsc_steps_trans by metis
qed


lemma producer_put:
  assumes "spsc_inv n s" "sp_prod s = P_Idle" "unat (f_count (sp_fifo s)) < n" "node_ok node"
  obtains t where "spsc_steps s t" "sp_prod t = P_Idle" "sp_cons t = sp_cons s"
    "unat (f_count (sp_fifo t)) = Suc (unat (f_count (sp_fifo s)))"
proof -
  let ?f = "sp_fifo s" and ?i = "unat (f_in (sp_fifo s))"
  let ?a = "s\<lparr>sp_prod := P_Checked node\<rparr>"
  have v: "length (f_pkt ?f) = n" "unat (f_size ?f) = n" "?i < n" "list_all buf_ok (f_pkt ?f)"
    using assms(1) by (auto simp: spsc_inv_def Let_def)
  obtain pkt where pkt: "store_packet (f_pkt ?f) ?i node = Some pkt"
    using store_packet_ok[OF v(4) _ assms(4), of ?i] v by auto
  have s1: "spsc_step s ?a" using assms v by (intro spsc_step.put_check) (auto simp: word_le_nat_alt)
  let ?b = "?a\<lparr>sp_prod := P_Stored node, sp_fifo := ?f\<lparr>f_pkt := pkt\<rparr>\<rparr>"
  have s2: "spsc_step ?a ?b" using spsc_step.put_store[of ?a node pkt] pkt by simp
  let ?c = "?b\<lparr>sp_prod := P_Counted node,
      sp_fifo := (sp_fifo ?b)\<lparr>f_count := snd (atomic32_add (f_count ?f) 1)\<rparr>,
      sp_sent := sp_sent s @ [node_bytes node]\<rparr>"
  have s3: "spsc_step ?b ?c" using spsc_step.put_count[of ?b node] by simp
  let ?d = "?c\<lparr>sp_prod := P_Idle, sp_fifo := (sp_fifo ?c)\<lparr>f_in := ring_next (f_size ?f) (f_in ?f)\<rparr>\<rparr>"
  have s4: "spsc_step ?c ?d" using spsc_step.put_in[of ?c node] by simp
  have "spsc_steps s ?d" using s1 s2 s3 s4 by (blast intro: spsc_steps.intros)
  moreover have "unat (f_count ?f + 1) = Suc (unat (f_count ?f))"
    using assms(3) v by (intro unat_count_up[of _ "f_size ?f"]) simp
  ultimately show ?thesis by (intro that[of ?d]) auto
qed

lemma spsc_reachable_steps: "spsc_steps s t \<Longrightarrow> spsc_reachable n s \<Longrightarrow> spsc_reachable n t"
  by (induction rule: spsc_steps.induct) (auto intro: spsc_reachable.intros)

lemma ring_fills:
  assumes "0 < n" "n < 2 ^ 32" "k \<le> n"
  shows "\<exists>s. spsc_reachable n s \<and> sp_prod s = P_Idle \<and> sp_cons s = C_Idle \<and> unat (f_count (sp_fifo s)) = k"
  using assms(3)
proof (induction k)
  case 0
  show ?case by (rule exI[of _ "spsc_init n"])
    (simp add: spsc_reachable.start, simp add: spsc_init_def init_fifo_def atomic32_init_def)
next
  case (Suc k)
  then obtain s where s: "spsc_reachable n s" "sp_prod s = P_Idle" "sp_cons s = C_Idle"
    "unat (f_count (sp_fifo s)) = k" by auto
  have ok: "node_ok \<lparr>nd_pkt = [], nd_len = 0\<rparr>" by (simp add: node_ok_def)
  obtain t where "spsc_steps s t" "sp_prod t = P_Idle" "sp_cons t = sp_cons s"
      "unat (f_count (sp_fifo t)) = Suc (unat (f_count (sp_fifo s)))"
    using producer_put[OF spsc_reachable_inv[OF s(1) assms(1,2)] s(2) _ ok] s(4) Suc.prems by auto
  with s spsc_reachable_steps show ?case by auto
qed


theorem spsc_got_stable_witness:
  "\<exists>s r. spsc_reachable 1 s \<and> sp_cons s = C_Got r \<and> ref_bytes (sp_fifo s) r = Some (hd (pending s))"
proof -
  obtain s where s: "spsc_reachable 1 s" "sp_cons s = C_Idle" "unat (f_count (sp_fifo s)) = 1"
    using ring_fills[of 1 1] by auto
  then have inv: "spsc_inv 1 s" using spsc_reachable_inv[of 1 s] by simp
  then have v: "unat (f_out (sp_fifo s)) < length (f_pkt (sp_fifo s))" "unat (f_size (sp_fifo s)) = 1"
     "unat (f_out (sp_fifo s)) < 1" by (auto simp: spsc_inv_def Let_def)
  then have "spsc_step s (s\<lparr>sp_cons := C_Got \<lparr>ref_slot = unat (f_out (sp_fifo s)),
      ref_len = pb_len (f_pkt (sp_fifo s) ! unat (f_out (sp_fifo s)))\<rparr>\<rparr>)" (is "spsc_step s ?t")
    using s by (intro spsc_step.get_node) (auto simp: mem_simps word_le_nat_alt)
  then have t: "spsc_reachable 1 ?t" using s(1) by (rule spsc_reachable.step[rotated])
  show ?thesis using spsc_got_stable[OF t, of "\<lparr>ref_slot = unat (f_out (sp_fifo s)),
      ref_len = pb_len (f_pkt (sp_fifo s) ! unat (f_out (sp_fifo s)))\<rparr>"] t
    by (intro exI conjI) auto
qed

theorem spsc_slot_reused_in_use_witness:
  "\<exists>s t r. spsc_reachable PKT_FIFO_SIZE s \<and> spsc_steps s t \<and> sp_cons t = C_Using r \<and>
     buf_bytes (f_pkt (sp_fifo t) ! ref_slot r) = [0xAB, 0xCD]"
proof -
  obtain s where s: "spsc_reachable PKT_FIFO_SIZE s" "sp_prod s = P_Idle" "sp_cons s = C_Idle"
     "unat (f_count (sp_fifo s)) = PKT_FIFO_SIZE"
    using ring_fills[of PKT_FIFO_SIZE PKT_FIFO_SIZE] by auto
  then show ?thesis
    using spsc_slot_reused_in_use[OF s(1) _ _ s(2,3,4), of "\<lparr>nd_pkt = [0xAB, 0xCD], nd_len = 2\<rparr>"]
    by (auto simp: node_ok_def node_bytes_def)
qed

end
