(* ===== verification/Fax_Queue.thy ===== *)
theory Fax_Queue
  imports VPU_Prelude "HOL-Library.Multiset"
begin

text \<open>
  The queues of call records and fax samples, \<open>src/src/fax_queue.c\<close>: singly linked lists
  threaded through nodes on the heap. An address is a number, a null pointer is
  \<^const>\<open>None\<close>, and the heap maps the addresses that are allocated to their nodes; to
  follow a null or freed pointer is undefined. A \<open>time_t\<close> is an \<open>int\<close>.
\<close>

subsection \<open>Data\<close>

abbreviation FAX_BUF_SIZE :: nat where "FAX_BUF_SIZE \<equiv> 512 * 1024"

record struct_cdr =
  cdr_callid :: u64
  cdr_time :: int
  cdr_path :: u16
  cdr_callflag :: u8
  cdr_ruleflag :: u8
  cdr_recv3 :: u32

definition zero_cdr :: struct_cdr where
  "zero_cdr = \<lparr>cdr_callid = 0, cdr_time = 0, cdr_path = 0, cdr_callflag = 0, cdr_ruleflag = 0, cdr_recv3 = 0\<rparr>"

type_synonym addr = nat

record fax_node =
  np_cdr :: struct_cdr
  np_up :: "u8 list"
  np_down :: "u8 list"
  np_next :: "addr option"

definition zero_fax_node :: fax_node where
  "zero_fax_node = \<lparr>np_cdr = zero_cdr, np_up = replicate FAX_BUF_SIZE 0,
     np_down = replicate FAX_BUF_SIZE 0, np_next = None\<rparr>"

type_synonym fax_heap = "addr \<rightharpoonup> fax_node"

record fax_queue =
  q_head :: "addr option"
  q_len :: int

definition empty_queue :: fax_queue where
  "empty_queue = \<lparr>q_head = None, q_len = 0\<rparr>"

definition set_next :: "fax_heap \<Rightarrow> addr \<Rightarrow> addr option \<Rightarrow> fax_heap option" where
  "set_next h a nx = (case h a of None \<Rightarrow> None | Some n \<Rightarrow> Some (h(a \<mapsto> n\<lparr>np_next := nx\<rparr>)))"

definition get_next_ptr :: "fax_heap \<Rightarrow> addr option \<Rightarrow> addr option option" where
  "get_next_ptr h p = do {a \<leftarrow> p; n \<leftarrow> h a; Some (np_next n)}"

subsection \<open>INIT_QUEUE\<close>

text \<open>
  The results of the calls of \<open>malloc\<close> are an argument: one for each queue, then one for
  each turn of the loop. \<open>raw a\<close> is what the memory at a fresh address \<open>a\<close> holds. When
  the list of results runs out the loop is still running.
\<close>

fun init_nodes ::
  "(addr \<Rightarrow> fax_node) \<Rightarrow> int \<Rightarrow> fax_queue \<Rightarrow> fax_heap \<Rightarrow> addr option \<Rightarrow> addr option list \<Rightarrow>
   (fax_queue \<times> fax_heap) loop_result" where
  "init_nodes raw num eq h p [] = Running"
| "init_nodes raw num eq h p (None # ms) =
     (if q_len eq < num then init_nodes raw num eq h p ms else Returned (eq, h))"
| "init_nodes raw num eq h p (Some q # ms) =
     (let h1 = h(q \<mapsto> (raw q)\<lparr>np_next := None\<rparr>) in
      case (if q_head eq = None then Some (eq\<lparr>q_head := Some q\<rparr>, h1)
            else do {a \<leftarrow> p; h2 \<leftarrow> set_next h1 a (Some q); Some (eq, h2)}) of
        None \<Rightarrow> Undefined
      | Some (eq', h') \<Rightarrow>
          (let eq'' = eq'\<lparr>q_len := q_len eq' + 1\<rparr> in
           if q_len eq'' < num then init_nodes raw num eq'' h' (Some q) ms else Returned (eq'', h')))"

definition INIT_QUEUE ::
  "(addr \<Rightarrow> fax_node) \<Rightarrow> fax_heap \<Rightarrow> int \<Rightarrow> bool \<Rightarrow> bool \<Rightarrow> addr option list \<Rightarrow>
   (fax_queue option \<times> fax_queue option \<times> fax_heap) loop_result" where
  "INIT_QUEUE raw h num eq_ok fq_ok ms =
     (if \<not> eq_ok then Returned (None, None, h)
      else if \<not> fq_ok then Returned (Some empty_queue, None, h)
      else (case init_nodes raw num empty_queue h None ms of
              Running \<Rightarrow> Running
            | Undefined \<Rightarrow> Undefined
            | Returned (eq, h') \<Rightarrow> Returned (Some eq, Some empty_queue, h')))"

subsection \<open>EN_QUEUE, FETCH_PHEAD, DESTROY_QUEUE\<close>

fun walk :: "fax_heap \<Rightarrow> addr option \<Rightarrow> nat \<Rightarrow> addr option option" where
  "walk h p 0 = Some p"
| "walk h p (Suc k) = do {p' \<leftarrow> get_next_ptr h p; walk h p' k}"

definition EN_QUEUE ::
  "fax_heap \<Rightarrow> fax_queue option \<Rightarrow> addr option \<Rightarrow> (int \<times> fax_heap \<times> fax_queue) option" where
  "EN_QUEUE h queue tmp = do {
     t \<leftarrow> tmp;
     q \<leftarrow> queue;
     p \<leftarrow> walk h (q_head q) (nat (q_len q - 1));
     (h', q') \<leftarrow> (case p of
          None \<Rightarrow> Some (h, q\<lparr>q_head := Some t\<rparr>)
        | Some a \<Rightarrow> do {h1 \<leftarrow> set_next h a (Some t); Some (h1, q)});
     Some (0, h', q'\<lparr>q_len := q_len q' + 1\<rparr>)}"

text \<open>
  \<open>FETCH_PHEAD\<close> in two parts: what it does while it holds the mutex, and the store to
  \<open>len\<close> that the empty case does after releasing it.
\<close>

definition fetch_locked :: "fax_heap \<Rightarrow> fax_queue \<Rightarrow> (addr option \<times> fax_heap \<times> fax_queue) option" where
  "fetch_locked h q = (case q_head q of
       None \<Rightarrow> Some (None, h, q)
     | Some a \<Rightarrow> do {
         n \<leftarrow> h a;
         Some (Some a, h(a \<mapsto> n\<lparr>np_next := None\<rparr>), q\<lparr>q_head := np_next n, q_len := q_len q - 1\<rparr>)})"

definition fetch_unlocked :: "fax_queue \<Rightarrow> fax_queue" where
  "fetch_unlocked q = q\<lparr>q_len := 0\<rparr>"

definition FETCH_PHEAD ::
  "fax_heap \<Rightarrow> fax_queue option \<Rightarrow> (addr option \<times> fax_heap \<times> fax_queue) option" where
  "FETCH_PHEAD h queue = do {
     q \<leftarrow> queue;
     (p, h', q') \<leftarrow> fetch_locked h q;
     Some (p, h', if p = None then fetch_unlocked q' else q')}"

fun free_nodes :: "fax_heap \<Rightarrow> addr option \<Rightarrow> nat \<Rightarrow> fax_heap option" where
  "free_nodes h p 0 = Some h"
| "free_nodes h p (Suc k) = do {
     a \<leftarrow> p;
     n \<leftarrow> h a;
     free_nodes (h(a := None)) (np_next n) k}"

definition DESTROY_QUEUE :: "fax_heap \<Rightarrow> fax_queue option \<Rightarrow> fax_heap option" where
  "DESTROY_QUEUE h queue = do {
     q \<leftarrow> queue;
     free_nodes h (q_head q) (nat (q_len q))}"

subsection \<open>The list a queue holds\<close>

fun chain :: "fax_heap \<Rightarrow> addr option \<Rightarrow> addr list \<Rightarrow> bool" where
  "chain h p [] \<longleftrightarrow> p = None"
| "chain h p (a # as) \<longleftrightarrow> p = Some a \<and> (case h a of None \<Rightarrow> False | Some n \<Rightarrow> chain h (np_next n) as)"

definition queue_holds :: "fax_heap \<Rightarrow> fax_queue \<Rightarrow> addr list \<Rightarrow> bool" where
  "queue_holds h q xs \<longleftrightarrow> chain h (q_head q) xs \<and> distinct xs \<and> q_len q = int (length xs)"

text \<open>A node that is allocated and not linked further, as the callers of \<open>EN_QUEUE\<close> leave it.\<close>

definition detached :: "fax_heap \<Rightarrow> addr \<Rightarrow> bool" where
  "detached h a \<longleftrightarrow> (case h a of None \<Rightarrow> False | Some n \<Rightarrow> np_next n = None)"

lemma detached_iff: "detached h a \<longleftrightarrow> (\<exists>n. h a = Some n \<and> np_next n = None)"
  by (auto simp: detached_def split: option.splits)

lemma chain_cong: "(\<And>a. a \<in> set xs \<Longrightarrow> h' a = h a) \<Longrightarrow> chain h' p xs = chain h p xs"
  by (induction xs arbitrary: p) (auto split: option.splits)

lemma chain_upd [simp]: "a \<notin> set xs \<Longrightarrow> chain (h(a := v)) p xs = chain h p xs"
  by (rule chain_cong) auto

lemma chain_unique: "chain h p xs \<Longrightarrow> chain h p ys \<Longrightarrow> xs = ys"
proof (induction xs arbitrary: p ys)
  case Nil
  then show ?case by (cases ys) auto
next
  case (Cons a xs)
  then show ?case by (cases ys) (auto split: option.splits)
qed

lemma chain_allocated: "chain h p xs \<Longrightarrow> a \<in> set xs \<Longrightarrow> \<exists>n. h a = Some n"
  by (induction xs arbitrary: p) (auto split: option.splits)

lemma chain_head: "chain h p xs \<Longrightarrow> p = (case xs of [] \<Rightarrow> None | a # _ \<Rightarrow> Some a)"
  by (cases xs) auto

lemma walk_last: "chain h p xs \<Longrightarrow> xs \<noteq> [] \<Longrightarrow> walk h p (length xs - 1) = Some (Some (last xs))"
proof (induction xs arbitrary: p)
  case Nil
  then show ?case by simp
next
  case (Cons a xs)
  show ?case
  proof (cases xs)
    case Nil
    then show ?thesis using Cons.prems by simp
  next
    case (Cons b ys)
    with Cons.prems obtain n where n: "p = Some a" "h a = Some n" "chain h (np_next n) xs"
      by (auto split: option.splits)
    then show ?thesis using Cons.IH[OF n(3)] Cons by (simp add: get_next_ptr_def)
  qed
qed

lemma chain_snoc:
  assumes "chain h p xs" "xs \<noteq> []" "distinct xs" "detached h t" "t \<notin> set xs" "h (last xs) = Some n"
  shows "chain (h(last xs \<mapsto> n\<lparr>np_next := Some t\<rparr>)) p (xs @ [t])"
  using assms
proof (induction xs arbitrary: p)
  case Nil
  then show ?case by simp
next
  case (Cons a xs)
  show ?case
  proof (cases xs)
    case Nil
    then show ?thesis using Cons.prems by (auto simp: detached_iff)
  next
    case (Cons b ys)
    with Cons.prems obtain m where m: "p = Some a" "h a = Some m" "chain h (np_next m) xs"
      by (auto split: option.splits)
    moreover have "last xs \<noteq> a" using Cons Cons.prems(3) by (metis distinct.simps(2) last_in_set list.distinct(1))
    ultimately show ?thesis using Cons.IH[OF m(3)] Cons Cons.prems by auto
  qed
qed


subsection \<open>Each operation on the list\<close>

lemma en_queue_holds:
  assumes "queue_holds h q xs" "detached h t" "t \<notin> set xs"
  shows "\<exists>h' q'. EN_QUEUE h (Some q) (Some t) = Some (0, h', q') \<and> queue_holds h' q' (xs @ [t]) \<and>
    (\<forall>a. a \<notin> set xs \<longrightarrow> h' a = h a)"
proof (cases "xs = []")
  case True
  with assms show ?thesis by (auto simp: EN_QUEUE_def queue_holds_def detached_iff)
next
  case False
  have q: "chain h (q_head q) xs" "distinct xs" "q_len q = int (length xs)"
    using assms(1) by (auto simp: queue_holds_def)
  obtain n where n: "h (last xs) = Some n" using chain_allocated[OF q(1), of "last xs"] False by auto
  have k: "nat (q_len q - 1) = length xs - 1" using q(3) by (simp add: nat_diff_distrib)
  have "EN_QUEUE h (Some q) (Some t) =
      Some (0, h(last xs \<mapsto> n\<lparr>np_next := Some t\<rparr>), q\<lparr>q_len := q_len q + 1\<rparr>)"
    using walk_last[OF q(1) False] n by (simp add: EN_QUEUE_def k set_next_def)
  moreover have "queue_holds (h(last xs \<mapsto> n\<lparr>np_next := Some t\<rparr>)) (q\<lparr>q_len := q_len q + 1\<rparr>) (xs @ [t])"
    using chain_snoc[OF q(1) False q(2) assms(2,3) n] q assms(3) by (simp add: queue_holds_def)
  ultimately show ?thesis using False by auto
qed

lemma fetch_holds_Nil: "queue_holds h q [] \<Longrightarrow> FETCH_PHEAD h (Some q) = Some (None, h, q)"
  by (simp add: FETCH_PHEAD_def fetch_locked_def fetch_unlocked_def queue_holds_def)

lemma fetch_holds_Cons:
  assumes "queue_holds h q (a # xs)"
  shows "\<exists>h' q'. FETCH_PHEAD h (Some q) = Some (Some a, h', q') \<and> queue_holds h' q' xs \<and> detached h' a \<and>
    (\<forall>b. b \<noteq> a \<longrightarrow> h' b = h b)"
proof -
  obtain n where n: "q_head q = Some a" "h a = Some n" "chain h (np_next n) xs" "a \<notin> set xs"
      "distinct xs" "q_len q = 1 + int (length xs)"
    using assms by (auto simp: queue_holds_def split: option.splits)
  have "chain (h(a \<mapsto> n\<lparr>np_next := None\<rparr>)) (np_next n) xs"
    using n by simp
  then show ?thesis
    using n by (simp add: FETCH_PHEAD_def fetch_locked_def queue_holds_def detached_iff)
qed

text \<open>A node keeps everything but its link when another is queued or taken.\<close>

definition same_contents :: "fax_heap \<Rightarrow> fax_heap \<Rightarrow> bool" where
  "same_contents h h' \<longleftrightarrow> (\<forall>a n'. h' a = Some n' \<longrightarrow> (\<exists>n. h a = Some n \<and> n' = n\<lparr>np_next := np_next n'\<rparr>))"

lemma set_next_contents: "set_next h a nx = Some h' \<Longrightarrow> same_contents h h'"
  by (force simp: set_next_def same_contents_def split: option.splits if_splits)

lemma same_contents_refl [simp]: "same_contents h h"
  by (simp add: same_contents_def)

lemma en_queue_contents: "EN_QUEUE h (Some q) (Some t) = Some (r, h', q') \<Longrightarrow> same_contents h h'"
  by (auto simp: EN_QUEUE_def set_next_contents split: option.splits Option.bind_splits)

text \<open>
  \<open>EN_QUEUE\<close> appends. On a queue that holds the list \<open>xs\<close>, adding a detached node
  leaves a queue that holds \<open>xs\<close> followed by the node, touches no other node of the heap
  and follows no bad pointer.
\<close>

theorem EN_QUEUE_appends:
  assumes "queue_holds h q xs" and "detached h t" and "t \<notin> set xs"
  shows "\<exists>h' q'. EN_QUEUE h (Some q) (Some t) = Some (0, h', q') \<and> queue_holds h' q' (xs @ [t]) \<and>
    (\<forall>a. a \<notin> set xs \<longrightarrow> h' a = h a)"
  by (rule en_queue_holds[OF assms])

theorem EN_QUEUE_appends_witness:
  "\<exists>h' q'. EN_QUEUE [1 \<mapsto> zero_fax_node, 2 \<mapsto> zero_fax_node] (Some \<lparr>q_head = Some 1, q_len = 1\<rparr>) (Some 2) =
      Some (0, h', q') \<and> queue_holds h' q' [1, 2]"
  using EN_QUEUE_appends[of "[1 \<mapsto> zero_fax_node, 2 \<mapsto> zero_fax_node]" "\<lparr>q_head = Some 1, q_len = 1\<rparr>" "[1]" 2]
  by (auto simp: queue_holds_def detached_iff zero_fax_node_def)

lemma free_nodes_chain:
  "chain h p xs \<Longrightarrow> distinct xs \<Longrightarrow> free_nodes h p (length xs) = Some (h |` (- set xs))"
proof (induction xs arbitrary: h p)
  case Nil
  then show ?case by simp
next
  case (Cons a xs)
  then obtain n where n: "p = Some a" "h a = Some n" "chain h (np_next n) xs" by (auto split: option.splits)
  have "chain (h(a := None)) (np_next n) xs" using n Cons.prems(2) by simp
  then have "free_nodes (h(a := None)) (np_next n) (length xs) = Some (h(a := None) |` (- set xs))"
    using Cons.prems(2) by (intro Cons.IH) (simp_all only: distinct.simps)
  moreover have "h(a := None) |` (- set xs) = h |` (- set (a # xs))"
    by (auto simp: restrict_map_def fun_eq_iff)
  ultimately show ?case using n by (simp only: list.size add_Suc_right add_0_right free_nodes.simps
    bind.simps Option.bind.bind_lunit)
qed

text \<open>\<open>DESTROY_QUEUE\<close> frees exactly the nodes of the queue, each once, and reads no freed node.\<close>

theorem DESTROY_QUEUE_frees:
  assumes "queue_holds h q xs"
  shows "DESTROY_QUEUE h (Some q) = Some (h |` (- set xs))"
  using free_nodes_chain[of h "q_head q" xs] assms by (simp add: DESTROY_QUEUE_def queue_holds_def)

theorem DESTROY_QUEUE_frees_witness:
  "DESTROY_QUEUE [1 \<mapsto> zero_fax_node, 2 \<mapsto> zero_fax_node] (Some \<lparr>q_head = Some 1, q_len = 1\<rparr>) =
     Some ([1 \<mapsto> zero_fax_node, 2 \<mapsto> zero_fax_node] |` (- set [1]))"
  by (rule DESTROY_QUEUE_frees) (simp add: queue_holds_def zero_fax_node_def)

subsection \<open>Starting the pool\<close>

text \<open>The addresses that the calls of \<open>malloc\<close> return until \<open>k\<close> of them have succeeded.\<close>

fun successes :: "nat \<Rightarrow> addr option list \<Rightarrow> addr list" where
  "successes 0 ms = []"
| "successes (Suc k) [] = []"
| "successes (Suc k) (None # ms) = successes (Suc k) ms"
| "successes (Suc k) (Some a # ms) = a # successes k ms"

text \<open>One turn of the loop whose \<open>malloc\<close> succeeds does what \<open>EN_QUEUE\<close> would, in one step.\<close>

lemma init_nodes_step:
  assumes "queue_holds (h(a \<mapsto> (raw a)\<lparr>np_next := None\<rparr>)) q xs" (is "queue_holds ?h1 q xs")
    and "p = (if xs = [] then None else Some (last xs))"
    and "EN_QUEUE (h(a \<mapsto> (raw a)\<lparr>np_next := None\<rparr>)) (Some q) (Some a) = Some (0, h2, q2)"
  shows "init_nodes raw num q h p (Some a # ms) =
     (if q_len q2 < num then init_nodes raw num q2 h2 (Some a) ms else Returned (q2, h2))"
proof (cases "xs = []")
  case True
  then have "q_head q = None" "q_len q = 0" using assms(1) by (simp_all add: queue_holds_def)
  then show ?thesis using assms(3) by (auto simp: EN_QUEUE_def)
next
  case False
  then have "q_head q \<noteq> None" "walk ?h1 (q_head q) (nat (q_len q - 1)) = Some p"
    using assms(1,2) walk_last[of ?h1 "q_head q" xs]
    by (auto simp: queue_holds_def nat_diff_distrib neq_Nil_conv)
  moreover obtain b where "p = Some b" using False assms(2) by simp
  ultimately show ?thesis using assms(3)
    by (cases "set_next ?h1 b (Some a)") (auto simp: EN_QUEUE_def Let_def)
qed

lemma init_nodes_extends:
  assumes "queue_holds h q xs" "p = (if xs = [] then None else Some (last xs))"
    and "length (successes k ms) = k" "0 < k" "distinct (successes k ms)"
    and "\<forall>a \<in> set (successes k ms). h a = None"
  shows "\<exists>q' h'. init_nodes raw (int (length xs + k)) q h p ms = Returned (q', h') \<and>
    queue_holds h' q' (xs @ successes k ms) \<and> (\<forall>a. a \<notin> set (xs @ successes k ms) \<longrightarrow> h' a = h a)"
  using assms
proof (induction k ms arbitrary: h q xs p rule: successes.induct)
  case (1 ms)
  then show ?case by simp
next
  case (2 k)
  then show ?case by simp
next
  case (3 k ms)
  have "q_len q < int (length xs + Suc k)" using "3.prems"(1) by (simp add: queue_holds_def)
  then show ?case using "3.IH"[OF "3.prems"(1,2)] "3.prems" by simp
next
  case (4 k a ms)
  let ?h1 = "h(a \<mapsto> (raw a)\<lparr>np_next := None\<rparr>)"
  have new: "a \<notin> set xs"
    using "4.prems"(1,6) chain_allocated[of h "q_head q" xs a] by (auto simp: queue_holds_def)
  have q1: "queue_holds ?h1 q xs"
    using "4.prems"(1) new by (simp add: queue_holds_def)
  have d1: "detached ?h1 a" by (simp add: detached_iff)
  obtain h2 q2 where en: "EN_QUEUE ?h1 (Some q) (Some a) = Some (0, h2, q2)" "queue_holds h2 q2 (xs @ [a])"
      "\<forall>b. b \<notin> set xs \<longrightarrow> h2 b = ?h1 b"
    using en_queue_holds[OF q1 d1 new] by blast
  note step = init_nodes_step[where h = h and a = a and raw = raw, OF q1 "4.prems"(2) en(1)]
  have len: "q_len q2 = int (length xs + 1)" using en(2) by (simp add: queue_holds_def)
  show ?case
  proof (cases "k = 0")
    case True
    with step len en show ?thesis by auto
  next
    case False
    have "\<forall>b \<in> set (successes k ms). h2 b = None"
    proof
      fix b assume "b \<in> set (successes k ms)"
      then have "h b = None" "b \<noteq> a" using "4.prems"(5,6) by auto
      moreover from this have "b \<notin> set xs"
        using "4.prems"(1) chain_allocated[of h "q_head q" xs b] by (auto simp: queue_holds_def)
      ultimately show "h2 b = None" using en(3) by simp
    qed
    then have "\<exists>q' h'. init_nodes raw (int (length (xs @ [a]) + k)) q2 h2 (Some a) ms = Returned (q', h') \<and>
      queue_holds h' q' ((xs @ [a]) @ successes k ms) \<and>
      (\<forall>b. b \<notin> set ((xs @ [a]) @ successes k ms) \<longrightarrow> h' b = h2 b)"
      using "4.IH"[OF en(2)] "4.prems" False by simp
    with step len en(3) False show ?thesis by auto
  qed
qed

text \<open>
  \<open>INIT_QUEUE\<close> fills the free pool. Once \<open>num\<close> calls of \<open>malloc\<close> have succeeded,
  however many failed in between, it has returned the empty-node queue holding exactly
  those \<open>num\<close> fresh nodes in order, and an empty queue of full nodes.
\<close>

theorem INIT_QUEUE_fills:
  assumes "0 < num" and "length (successes num ms) = num"
    and "distinct (successes num ms)" and "\<forall>a \<in> set (successes num ms). h a = None"
  shows "\<exists>eq h'. INIT_QUEUE raw h (int num) True True ms = Returned (Some eq, Some empty_queue, h') \<and>
    queue_holds h' eq (successes num ms) \<and> queue_holds h' empty_queue [] \<and>
    (\<forall>a. a \<notin> set (successes num ms) \<longrightarrow> h' a = h a)"
proof -
  have e: "queue_holds h' empty_queue []" for h' by (simp add: queue_holds_def empty_queue_def)
  have "\<exists>q' h'. init_nodes raw (int num) empty_queue h None ms = Returned (q', h') \<and>
    queue_holds h' q' (successes num ms) \<and> (\<forall>a. a \<notin> set (successes num ms) \<longrightarrow> h' a = h a)"
    using init_nodes_extends[OF e, of None num ms h raw] assms by simp
  then show ?thesis using e by (auto simp: INIT_QUEUE_def)
qed

theorem INIT_QUEUE_fills_witness:
  "\<exists>eq h'. INIT_QUEUE (\<lambda>_. zero_fax_node) Map.empty (int 2) True True [Some 8, None, None, Some 9] =
       Returned (Some eq, Some empty_queue, h') \<and> queue_holds h' eq [8, 9]"
  using INIT_QUEUE_fills[of 2 "[Some 8, None, None, Some 9]" Map.empty "\<lambda>_. zero_fax_node"]
  by (auto simp: numeral_2_eq_2)

text \<open>
  \<open>INIT_QUEUE\<close> has no way out when memory is short: as long as fewer than \<open>num\<close> calls
  of \<open>malloc\<close> succeed it keeps calling \<open>malloc\<close>, so it never reports failure.
\<close>

theorem INIT_QUEUE_spins:
  assumes "list_all (\<lambda>m. m = None) ms" and "0 < num"
  shows "INIT_QUEUE raw h num True True ms = Running"
proof -
  have "init_nodes raw num empty_queue h p ms = Running" for p
    using assms by (induction ms) (auto simp: empty_queue_def)
  then show ?thesis by (simp add: INIT_QUEUE_def)
qed

theorem INIT_QUEUE_spins_witness:
  "INIT_QUEUE (\<lambda>_. zero_fax_node) Map.empty 1024 True True (replicate 5000 None) = Running"
  by (rule INIT_QUEUE_spins) (simp_all add: list_all_iff)


subsection \<open>The contract of a queue of nodes\<close>

text \<open>
  What the threads rely on: nodes move from one owner to the next through queues that
  share one heap. The locale is over any pair of operations that keep this contract; the
  frame laws say that an operation on one queue leaves a disjoint queue alone.
\<close>

locale node_queue =
  fixes enq :: "'h \<Rightarrow> 'q \<Rightarrow> 'a \<Rightarrow> ('h \<times> 'q) option"
    and fetch :: "'h \<Rightarrow> 'q \<Rightarrow> ('a option \<times> 'h \<times> 'q) option"
    and holds :: "'h \<Rightarrow> 'q \<Rightarrow> 'a list \<Rightarrow> bool"
    and free_node :: "'h \<Rightarrow> 'a \<Rightarrow> bool"
    and same_on :: "'h \<Rightarrow> 'h \<Rightarrow> 'a set \<Rightarrow> bool"
  assumes enq_law: "holds h q xs \<Longrightarrow> free_node h a \<Longrightarrow> a \<notin> set xs \<Longrightarrow>
      \<exists>h' q'. enq h q a = Some (h', q') \<and> holds h' q' (xs @ [a]) \<and> same_on h h' (- set xs)"
    and fetch_Nil: "holds h q [] \<Longrightarrow> fetch h q = Some (None, h, q)"
    and fetch_Cons: "holds h q (a # xs) \<Longrightarrow>
      \<exists>h' q'. fetch h q = Some (Some a, h', q') \<and> holds h' q' xs \<and> free_node h' a \<and> same_on h h' (- {a})"
    and holds_frame: "same_on h h' S \<Longrightarrow> set xs \<subseteq> S \<Longrightarrow> holds h q xs \<Longrightarrow> holds h' q xs"
    and free_frame: "same_on h h' S \<Longrightarrow> a \<in> S \<Longrightarrow> free_node h a \<Longrightarrow> free_node h' a"
    and holds_distinct: "holds h q xs \<Longrightarrow> distinct xs"

text \<open>
  A pool: the empty-node queue, the full-node queue, and the nodes the threads own in
  between. \<open>Take True\<close> is a fetch from the empty-node queue, \<open>Give False a\<close> hands \<open>a\<close>
  to the full-node queue; only its owner hands a node on.
\<close>

datatype 'a pool_op = Take bool | Give bool 'a

fun pool_step ::
  "('h \<Rightarrow> 'q \<Rightarrow> 'a \<Rightarrow> ('h \<times> 'q) option) \<Rightarrow> ('h \<Rightarrow> 'q \<Rightarrow> ('a option \<times> 'h \<times> 'q) option) \<Rightarrow>
   'a pool_op \<Rightarrow> 'h \<times> 'q \<times> 'q \<times> 'a list \<Rightarrow> ('h \<times> 'q \<times> 'q \<times> 'a list) option" where
  "pool_step enq fetch (Take e) (h, eq, fq, own) = do {
     (r, h', q') \<leftarrow> fetch h (if e then eq else fq);
     Some (h', if e then q' else eq, if e then fq else q', case r of None \<Rightarrow> own | Some a \<Rightarrow> a # own)}"
| "pool_step enq fetch (Give e a) (h, eq, fq, own) =
     (if a \<in> set own then do {
        (h', q') \<leftarrow> enq h (if e then eq else fq) a;
        Some (h', if e then q' else eq, if e then fq else q', remove1 a own)}
      else Some (h, eq, fq, own))"

fun pool_run ::
  "('h \<Rightarrow> 'q \<Rightarrow> 'a \<Rightarrow> ('h \<times> 'q) option) \<Rightarrow> ('h \<Rightarrow> 'q \<Rightarrow> ('a option \<times> 'h \<times> 'q) option) \<Rightarrow>
   'a pool_op list \<Rightarrow> 'h \<times> 'q \<times> 'q \<times> 'a list \<Rightarrow> ('h \<times> 'q \<times> 'q \<times> 'a list) option" where
  "pool_run enq fetch [] s = Some s"
| "pool_run enq fetch (x # xs) s = do {s' \<leftarrow> pool_step enq fetch x s; pool_run enq fetch xs s'}"

context node_queue
begin

definition pool_inv :: "'a multiset \<Rightarrow> 'h \<times> 'q \<times> 'q \<times> 'a list \<Rightarrow> bool" where
  "pool_inv N s \<longleftrightarrow> (case s of (h, eq, fq, own) \<Rightarrow>
     \<exists>xs ys. holds h eq xs \<and> holds h fq ys \<and> (\<forall>a \<in> set own. free_node h a) \<and>
       distinct (xs @ ys @ own) \<and> mset (xs @ ys @ own) = N)"

lemma pool_invI:
  "\<lbrakk>holds h eq xs; holds h fq ys; \<forall>a \<in> set own. free_node h a; distinct (xs @ ys @ own);
    mset (xs @ ys @ own) = N\<rbrakk> \<Longrightarrow> pool_inv N (h, eq, fq, own)"
  unfolding pool_inv_def by blast

lemma pool_take:
  assumes "holds h q xs" "holds h q2 ys" "\<forall>a \<in> set own. free_node h a" "distinct (xs @ ys @ own)"
  shows "\<exists>r h' q' own' xs'. fetch h q = Some (r, h', q') \<and> own' = (case r of None \<Rightarrow> own | Some a \<Rightarrow> a # own) \<and>
     holds h' q' xs' \<and> holds h' q2 ys \<and> (\<forall>a \<in> set own'. free_node h' a) \<and>
     distinct (xs' @ ys @ own') \<and> mset (xs' @ ys @ own') = mset (xs @ ys @ own)"
proof (cases xs)
  case Nil
  with assms fetch_Nil[of h q] show ?thesis by auto
next
  case (Cons a xs')
  with assms(1) obtain h' q' where f: "fetch h q = Some (Some a, h', q')" "holds h' q' xs'" "free_node h' a"
    "same_on h h' (- {a})" using fetch_Cons by blast
  have "set ys \<subseteq> - {a}" using assms(4) Cons by auto
  then have "holds h' q2 ys" using holds_frame[OF f(4) _ assms(2)] by blast
  moreover have "set own \<subseteq> - {a}" using assms(4) Cons by auto
  then have "\<forall>b \<in> set own. free_node h' b" using assms(3) free_frame[OF f(4)] by blast
  ultimately show ?thesis using f assms(4) Cons by (intro exI[of _ "Some a"]) auto
qed

lemma pool_give:
  assumes "holds h q xs" "holds h q2 ys" "\<forall>a \<in> set own. free_node h a" "distinct (xs @ ys @ own)" "a \<in> set own"
  shows "\<exists>h' q'. enq h q a = Some (h', q') \<and> holds h' q' (xs @ [a]) \<and> holds h' q2 ys \<and>
     (\<forall>b \<in> set (remove1 a own). free_node h' b) \<and> distinct ((xs @ [a]) @ ys @ remove1 a own) \<and>
     mset ((xs @ [a]) @ ys @ remove1 a own) = mset (xs @ ys @ own)"
proof -
  have a: "a \<notin> set xs" "free_node h a" using assms by auto
  from enq_law[OF assms(1) a(2,1)] obtain h' q' where e: "enq h q a = Some (h', q')"
     "holds h' q' (xs @ [a])" "same_on h h' (- set xs)" by blast
  have "set ys \<subseteq> - set xs" using assms(4) by auto
  then have "holds h' q2 ys" using holds_frame[OF e(3) _ assms(2)] by blast
  moreover have "\<forall>b \<in> set (remove1 a own). free_node h' b"
    using assms(3,4) free_frame[OF e(3)] set_remove1_subset[of a own] by auto
  moreover have "distinct ((xs @ [a]) @ ys @ remove1 a own)"
    using assms(4,5) by (auto simp: distinct_remove1 dest: notin_set_remove1)
  moreover have "mset ((xs @ [a]) @ ys @ remove1 a own) = mset (xs @ ys @ own)"
    using assms(5) by simp
  ultimately show ?thesis using e by blast
qed

lemma pool_swap: "pool_inv N (h, eq, fq, own) \<Longrightarrow> pool_inv N (h, fq, eq, own)"
proof -
  assume "pool_inv N (h, eq, fq, own)"
  then obtain xs ys where i: "holds h eq xs" "holds h fq ys" "\<forall>a \<in> set own. free_node h a"
    "distinct (xs @ ys @ own)" "mset (xs @ ys @ own) = N" by (auto simp: pool_inv_def)
  show ?thesis
  proof (rule pool_invI[OF i(2,1,3)])
    show "distinct (ys @ xs @ own)" using i(4) by auto
    show "mset (ys @ xs @ own) = N" using i(5) by (simp add: union_lcomm)
  qed
qed

lemma take_inv:
  assumes "pool_inv N (h, q, q2, own)"
  shows "\<exists>r h' q'. fetch h q = Some (r, h', q') \<and>
     pool_inv N (h', q', q2, case r of None \<Rightarrow> own | Some a \<Rightarrow> a # own)"
proof -
  from assms obtain xs ys where i: "holds h q xs" "holds h q2 ys" "\<forall>a \<in> set own. free_node h a"
    "distinct (xs @ ys @ own)" "mset (xs @ ys @ own) = N" by (auto simp: pool_inv_def)
  from pool_take[OF i(1-4)] obtain r h' q' own' xs' where t:
    "fetch h q = Some (r, h', q')" "own' = (case r of None \<Rightarrow> own | Some a \<Rightarrow> a # own)"
    "holds h' q' xs'" "holds h' q2 ys" "\<forall>a \<in> set own'. free_node h' a"
    "distinct (xs' @ ys @ own')" "mset (xs' @ ys @ own') = mset (xs @ ys @ own)" by blast
  have "pool_inv N (h', q', q2, own')"
    by (rule pool_invI[OF t(3-6)]) (simp only: t(7) i(5))
  then show ?thesis using t(1,2) by blast
qed

lemma give_inv:
  assumes "pool_inv N (h, q, q2, own)" "a \<in> set own"
  shows "\<exists>h' q'. enq h q a = Some (h', q') \<and> pool_inv N (h', q', q2, remove1 a own)"
proof -
  from assms obtain xs ys where i: "holds h q xs" "holds h q2 ys" "\<forall>a \<in> set own. free_node h a"
    "distinct (xs @ ys @ own)" "mset (xs @ ys @ own) = N" by (auto simp: pool_inv_def)
  from pool_give[OF i(1-4) assms(2)] obtain h' q' where g: "enq h q a = Some (h', q')"
    "holds h' q' (xs @ [a])" "holds h' q2 ys" "\<forall>b \<in> set (remove1 a own). free_node h' b"
    "distinct ((xs @ [a]) @ ys @ remove1 a own)"
    "mset ((xs @ [a]) @ ys @ remove1 a own) = mset (xs @ ys @ own)" by blast
  have "pool_inv N (h', q', q2, remove1 a own)"
    by (rule pool_invI[OF g(2-5)]) (simp only: g(6) i(5))
  then show ?thesis using g(1) by blast
qed

lemma pool_step_inv:
  assumes "pool_inv N s"
  shows "\<exists>s'. pool_step enq fetch x s = Some s' \<and> pool_inv N s'"
proof -
  obtain h eq fq own where s: "s = (h, eq, fq, own)" by (cases s) auto
  note i = assms[unfolded s] and i' = pool_swap[OF assms[unfolded s]]
  show ?thesis
  proof (cases x)
    case (Take e)
    then show ?thesis
      using take_inv[OF i] take_inv[OF i'] s by (cases e) (auto intro: pool_swap)
  next
    case (Give e a)
    then show ?thesis
      using give_inv[OF i, of a] give_inv[OF i', of a] s assms
      by (cases "a \<in> set own"; cases e) (auto intro: pool_swap)
  qed
qed

lemma pool_run_inv: "pool_inv N s \<Longrightarrow> \<exists>s'. pool_run enq fetch ops s = Some s' \<and> pool_inv N s'"
proof (induction ops arbitrary: s)
  case Nil
  then show ?case by simp
next
  case (Cons x ops)
  from pool_step_inv[OF Cons.prems, of x] obtain t where "pool_step enq fetch x s = Some t" "pool_inv N t"
    by blast
  with Cons.IH[of t] show ?case by simp
qed

end


text \<open>The code's operations, called as the threads call them, keep the contract.\<close>

definition enq_op :: "fax_heap \<Rightarrow> fax_queue \<Rightarrow> addr \<Rightarrow> (fax_heap \<times> fax_queue) option" where
  "enq_op h q a = map_option snd (EN_QUEUE h (Some q) (Some a))"

definition fetch_op :: "fax_heap \<Rightarrow> fax_queue \<Rightarrow> (addr option \<times> fax_heap \<times> fax_queue) option" where
  "fetch_op h q = FETCH_PHEAD h (Some q)"

definition heaps_agree :: "fax_heap \<Rightarrow> fax_heap \<Rightarrow> addr set \<Rightarrow> bool" where
  "heaps_agree h h' S \<longleftrightarrow> (\<forall>a \<in> S. h' a = h a)"

interpretation fax_pool: node_queue enq_op fetch_op queue_holds detached heaps_agree
proof unfold_locales
  fix h h' :: fax_heap and q :: fax_queue and xs :: "addr list" and S :: "addr set" and a :: addr
  show "\<exists>h' q'. enq_op h q a = Some (h', q') \<and> queue_holds h' q' (xs @ [a]) \<and> heaps_agree h h' (- set xs)"
    if "queue_holds h q xs" "detached h a" "a \<notin> set xs"
    using en_queue_holds[OF that] by (auto simp: enq_op_def heaps_agree_def)
  show "fetch_op h q = Some (None, h, q)" if "queue_holds h q []"
    using fetch_holds_Nil[OF that] by (simp add: fetch_op_def)
  show "\<exists>h' q'. fetch_op h q = Some (Some a, h', q') \<and> queue_holds h' q' xs \<and> detached h' a \<and>
      heaps_agree h h' (- {a})" if "queue_holds h q (a # xs)"
    using fetch_holds_Cons[OF that] by (auto simp: fetch_op_def heaps_agree_def)
  show "queue_holds h' q xs" if "heaps_agree h h' S" "set xs \<subseteq> S" "queue_holds h q xs"
    using that chain_cong[of xs h' h "q_head q"] by (auto simp: queue_holds_def heaps_agree_def)
  show "detached h' a" if "heaps_agree h h' S" "a \<in> S" "detached h a"
    using that by (simp add: heaps_agree_def detached_iff)
  show "distinct xs" if "queue_holds h q xs" using that by (simp add: queue_holds_def)
qed

text \<open>
  C21. No node of the pool is lost or shared. When the queue operations run one at a time,
  in any order and with any failures to obtain a node, every node that started in the
  empty-node queue is at the end in exactly one of three places, the empty-node queue, the
  full-node queue and the hands of a thread, and no call follows a bad pointer.
\<close>

theorem fax_pool_conserved:
  assumes "queue_holds h eq xs" and "queue_holds h fq []"
  shows "\<exists>h' eq' fq' own es fs. pool_run enq_op fetch_op ops (h, eq, fq, []) = Some (h', eq', fq', own) \<and>
     queue_holds h' eq' es \<and> queue_holds h' fq' fs \<and> distinct (es @ fs @ own) \<and>
     mset es + mset fs + mset own = mset xs"
proof -
  have "fax_pool.pool_inv (mset xs) (h, eq, fq, [])"
    by (rule fax_pool.pool_invI[OF assms]) (use assms in \<open>auto simp: queue_holds_def\<close>)
  from fax_pool.pool_run_inv[OF this, of ops] obtain h' eq' fq' own where
    r: "pool_run enq_op fetch_op ops (h, eq, fq, []) = Some (h', eq', fq', own)"
    and "fax_pool.pool_inv (mset xs) (h', eq', fq', own)" by (metis prod_cases4)
  then obtain es fs where "queue_holds h' eq' es" "queue_holds h' fq' fs" "distinct (es @ fs @ own)"
    "mset (es @ fs @ own) = mset xs" by (auto simp: fax_pool.pool_inv_def)
  with r show ?thesis by (auto simp: add.assoc)
qed

theorem fax_pool_conserved_witness:
  "\<exists>h' eq' fq' own es fs. pool_run enq_op fetch_op [Take True, Take False, Give False 1, Take False]
       ([1 \<mapsto> zero_fax_node], \<lparr>q_head = Some 1, q_len = 1\<rparr>, empty_queue, []) = Some (h', eq', fq', own) \<and>
     queue_holds h' eq' es \<and> queue_holds h' fq' fs \<and> distinct (es @ fs @ own) \<and>
     mset es + mset fs + mset own = {#1#}"
  using fax_pool_conserved[of "[1 \<mapsto> zero_fax_node]" "\<lparr>q_head = Some 1, q_len = 1\<rparr>" "[1]" empty_queue
    "[Take True, Take False, Give False 1, Take False]"]
  by (simp add: queue_holds_def empty_queue_def zero_fax_node_def)

subsection \<open>The store to len after the mutex is released\<close>

text \<open>
  What threads can interleave on one queue: a whole \<open>EN_QUEUE\<close>, the locked part of
  \<open>FETCH_PHEAD\<close>, and its store to \<open>len\<close> after the unlock. \<open>fq_zeroing\<close> counts the threads
  between the last two.
\<close>

record fq_state =
  fq_heap :: fax_heap
  fq_queue :: fax_queue
  fq_zeroing :: nat

inductive fq_step :: "fq_state \<Rightarrow> fq_state \<Rightarrow> bool" where
  en: "EN_QUEUE (fq_heap s) (Some (fq_queue s)) (Some a) = Some (r, h, q) \<Longrightarrow> detached (fq_heap s) a \<Longrightarrow>
     fq_step s (s\<lparr>fq_heap := h, fq_queue := q\<rparr>)"
| fetch_empty: "fetch_locked (fq_heap s) (fq_queue s) = Some (None, h, q) \<Longrightarrow>
     fq_step s (s\<lparr>fq_heap := h, fq_queue := q, fq_zeroing := Suc (fq_zeroing s)\<rparr>)"
| fetch_node: "fetch_locked (fq_heap s) (fq_queue s) = Some (Some a, h, q) \<Longrightarrow>
     fq_step s (s\<lparr>fq_heap := h, fq_queue := q\<rparr>)"
| zero: "fq_zeroing s = Suc k \<Longrightarrow> fq_step s (s\<lparr>fq_queue := fetch_unlocked (fq_queue s), fq_zeroing := k\<rparr>)"

inductive fq_steps :: "fq_state \<Rightarrow> fq_state \<Rightarrow> bool" where
  fq_none: "fq_steps s s"
| fq_more: "fq_step s t \<Longrightarrow> fq_steps t u \<Longrightarrow> fq_steps s u"

text \<open>
  A queue can lose a node. Four calls interleaved as the mutex allows, a fetch that
  finds the queue empty, an append of \<open>a\<close> between its unlock and its store to \<open>len\<close>,
  then appends of \<open>b\<close> and \<open>c\<close>, leave a queue from which \<open>b\<close> cannot be reached: the
  stored 0 makes the length lag behind the list, and the last append overwrites the link
  to \<open>b\<close>.
\<close>

theorem fetch_race_loses_node:
  assumes "fq_queue s = empty_queue" and "fq_zeroing s = 0"
    and "detached (fq_heap s) a" and "detached (fq_heap s) b" and "detached (fq_heap s) c"
    and "a \<noteq> b" and "a \<noteq> c" and "b \<noteq> c"
  shows "\<exists>t. fq_steps s t \<and> chain (fq_heap t) (q_head (fq_queue t)) [a, c] \<and> q_len (fq_queue t) = 2 \<and>
     fq_zeroing t = 0 \<and> detached (fq_heap t) b"
proof -
  obtain na nb nc where n: "fq_heap s a = Some na" "np_next na = None" "fq_heap s b = Some nb"
    "np_next nb = None" "fq_heap s c = Some nc" "np_next nc = None"
    using assms(3-5) by (auto simp: detached_iff)
  let ?q = "\<lambda>l. \<lparr>q_head = Some a, q_len = l\<rparr>"
  let ?h = "\<lambda>x. (fq_heap s)(a \<mapsto> na\<lparr>np_next := Some x\<rparr>)"
  let ?s1 = "s\<lparr>fq_queue := empty_queue, fq_zeroing := 1\<rparr>"
  let ?s2 = "?s1\<lparr>fq_queue := ?q 1\<rparr>"
  let ?s3 = "s\<lparr>fq_queue := ?q 0, fq_zeroing := 0\<rparr>"
  let ?s4 = "?s3\<lparr>fq_heap := ?h b, fq_queue := ?q 1\<rparr>"
  let ?s5 = "?s4\<lparr>fq_heap := ?h c, fq_queue := ?q 2\<rparr>"
  have "fq_step s ?s1"
    using fq_step.fetch_empty[of s "fq_heap s" empty_queue] assms(1,2)
    by (simp add: fetch_locked_def empty_queue_def)
  moreover have "fq_step ?s1 ?s2"
    using fq_step.en[of ?s1 a 0 "fq_heap s" "?q 1"] assms(3) by (simp add: EN_QUEUE_def empty_queue_def)
  moreover have "fq_step ?s2 ?s3"
    using fq_step.zero[of ?s2 0] assms(2) by (simp add: fetch_unlocked_def)
  moreover have "fq_step ?s3 ?s4"
    using fq_step.en[of ?s3 b 0 "?h b" "?q 1"] assms(4) n by (simp add: EN_QUEUE_def set_next_def)
  moreover have "fq_step ?s4 ?s5"
    using fq_step.en[of ?s4 c 0 "?h c" "?q 2"] assms n by (simp add: EN_QUEUE_def set_next_def detached_iff)
  ultimately have "fq_steps s ?s5" by (blast intro: fq_steps.intros)
  moreover have "chain (?h c) (Some a) [a, c]" "detached (?h c) b" using assms n by (auto simp: detached_iff)
  ultimately show ?thesis using assms(2) by (intro exI[of _ ?s5]) simp
qed

theorem fetch_race_loses_node_witness:
  "\<exists>t. fq_steps \<lparr>fq_heap = [1 \<mapsto> zero_fax_node, 2 \<mapsto> zero_fax_node, 3 \<mapsto> zero_fax_node],
       fq_queue = empty_queue, fq_zeroing = 0\<rparr> t \<and>
     chain (fq_heap t) (q_head (fq_queue t)) [1, 3] \<and> q_len (fq_queue t) = 2 \<and>
     fq_zeroing t = 0 \<and> detached (fq_heap t) 2"
  by (rule fetch_race_loses_node) (simp_all add: detached_iff zero_fax_node_def)

end
