(* ===== verification/Send_Cdr.thy ===== *)
theory Send_Cdr
  imports Fax_Queue
begin

text \<open>
  The buffer of call records and the thread that sends it to the record server,
  \<open>src/src/send_cdr.c\<close>: a ring of 65536 records indexed by three 16 bit counters, the
  batches of at most 16 records that go out, and the acknowledgements of 4 bytes that come
  back. The results of the socket calls are arguments: a number for each \<open>send\<close>, the bytes
  received for each \<open>recv\<close>.
\<close>

subsection \<open>The ring\<close>

record cdr_ring =
  cdr_buf :: "u16 \<Rightarrow> struct_cdr"
  ring_ack :: u16
  ring_send :: u16
  ring_wait :: u16

definition cdr_init :: cdr_ring where
  "cdr_init = \<lparr>cdr_buf = (\<lambda>i. zero_cdr), ring_ack = 0, ring_send = 1, ring_wait = 1\<rparr>"

definition cdr_insert :: "struct_cdr \<Rightarrow> cdr_ring \<Rightarrow> cdr_ring" where
  "cdr_insert signal r =
     (let r1 = (if ring_wait r = ring_ack r
                then (let r0 = r\<lparr>ring_ack := ring_ack r + 1\<rparr> in
                      if ring_ack r0 = ring_send r0 then r0\<lparr>ring_send := ring_send r0 + 1\<rparr> else r0)
                else r) in
      r1\<lparr>cdr_buf := (cdr_buf r1)(ring_wait r1 := signal), ring_wait := ring_wait r1 + 1\<rparr>)"

text \<open>\<open>memcpy\<close> of \<open>n\<close> records from index \<open>s\<close>: it does not wrap, so it must end inside the array.\<close>

definition copy_records :: "(u16 \<Rightarrow> struct_cdr) \<Rightarrow> u16 \<Rightarrow> nat \<Rightarrow> struct_cdr list option" where
  "copy_records b s n =
     (if unat s + n \<le> 65536 then Some (map (\<lambda>i. b (of_nat (unat s + i))) [0..<n]) else None)"

text \<open>The part of \<open>cdr_send\<close> that runs under the lock: the first index of the batch and its records.\<close>

definition batch_len :: "cdr_ring \<Rightarrow> u16" where
  "batch_len r =
     (let num = (if ring_wait r < ring_send r then word_of_int (65536 - uint (ring_send r))
                 else ring_wait r - ring_send r) in
      if 16 < num then 16 else num)"

definition cdr_take :: "cdr_ring \<Rightarrow> ((u16 \<times> struct_cdr list) option \<times> cdr_ring) option" where
  "cdr_take r =
     (if ring_send r = ring_wait r then Some (None, r)
      else do {
        cdr_arr \<leftarrow> copy_records (cdr_buf r) (ring_send r) (unat (batch_len r));
        Some (Some (ring_send r, cdr_arr), r\<lparr>ring_send := ring_send r + batch_len r\<rparr>)})"

definition cdr_update_ack :: "u16 \<Rightarrow> cdr_ring \<Rightarrow> cdr_ring" where
  "cdr_update_ack a r =
     (let send_num = ring_send r - 1 - ring_ack r; ack_num = a - ring_ack r in
      if ack_num \<le> send_num then r\<lparr>ring_ack := a\<rparr> else r)"

definition cdr_reset_send :: "cdr_ring \<Rightarrow> cdr_ring" where
  "cdr_reset_send r = r\<lparr>ring_send := ring_ack r + 1\<rparr>"

subsection \<open>What the ring holds\<close>

text \<open>
  The records from \<open>ack + 1\<close> up to \<open>wait\<close> are not acknowledged; those before \<open>send\<close> have
  been handed to the socket.
\<close>

definition unacked :: "cdr_ring \<Rightarrow> nat" where
  "unacked r = unat (ring_wait r - 1 - ring_ack r)"

definition sent :: "cdr_ring \<Rightarrow> nat" where
  "sent r = unat (ring_send r - 1 - ring_ack r)"

definition items :: "cdr_ring \<Rightarrow> struct_cdr list" where
  "items r = map (\<lambda>i. cdr_buf r (ring_ack r + 1 + of_nat i)) [0..<unacked r]"

definition ring_inv :: "cdr_ring \<Rightarrow> bool" where
  "ring_inv r \<longleftrightarrow> sent r \<le> unacked r"

lemma length_items [simp]: "length (items r) = unacked r"
  by (simp add: items_def)

lemma u16_bound: "unat (x :: u16) < 65536"
  using unsigned_less[of x] by simp

lemma unat_plus1: "unat (x :: u16) < 65535 \<Longrightarrow> unat (x + 1) = unat x + 1"
  using unat_add_lem[of x 1] by simp

lemma u16_max: "unat (x :: u16) = 65535 \<longleftrightarrow> x = -1"
  by (simp add: word_unat_eq_iff unsigned_minus_1_eq_mask mask_eq_exp_minus_1)

lemma of_nat_u16_eq: "i < 65536 \<Longrightarrow> j < 65536 \<Longrightarrow> (of_nat i :: u16) = of_nat j \<longleftrightarrow> i = j"
  by (metis unat_of_nat16)

text \<open>Two of the three counters are known from the third and the distances.\<close>

lemma ring_wait_eq: "ring_wait r = ring_ack r + 1 + of_nat (unacked r)"
  by (simp add: unacked_def)

lemma ring_send_eq: "ring_send r = ring_ack r + 1 + of_nat (sent r)"
  by (simp add: sent_def)

lemma sent_lt: "sent r < 65536" and unacked_lt: "unacked r < 65536"
  by (simp_all add: sent_def unacked_def u16_bound)

lemma full_iff: "ring_wait r = ring_ack r \<longleftrightarrow> unacked r = 65535"
  unfolding unacked_def u16_max by (auto simp: diff_eq_eq)

lemma none_sent_iff: "ring_ack r + 1 = ring_send r \<longleftrightarrow> sent r = 0"
  by (auto simp: sent_def unat_eq_zero diff_eq_eq ac_simps)

lemma all_sent_iff: "ring_send r = ring_wait r \<longleftrightarrow> sent r = unacked r"
  using of_nat_u16_eq[OF sent_lt unacked_lt] by (simp add: ring_wait_eq ring_send_eq)

text \<open>What each operation does to the distances and the records.\<close>

lemma insert_room:
  assumes "unacked r \<noteq> 65535"
  shows "unacked (cdr_insert x r) = unacked r + 1" and "sent (cdr_insert x r) = sent r"
    and "items (cdr_insert x r) = items r @ [x]"
proof -
  have e: "cdr_insert x r = r\<lparr>cdr_buf := (cdr_buf r)(ring_wait r := x), ring_wait := ring_wait r + 1\<rparr>"
    using assms by (simp add: cdr_insert_def full_iff)
  have "unat (ring_wait r - 1 - ring_ack r) < 65535" using assms unacked_lt[of r] by (simp add: unacked_def)
  from unat_plus1[OF this] show u: "unacked (cdr_insert x r) = unacked r + 1"
    by (simp add: e unacked_def algebra_simps)
  show "sent (cdr_insert x r) = sent r" by (simp add: e sent_def)
  have "\<forall>i \<in> {0..<unacked r}. ring_ack r + 1 + of_nat i \<noteq> ring_wait r"
    using of_nat_u16_eq unacked_lt[of r] by (auto simp: ring_wait_eq)
  moreover have "ring_ack r + 1 + of_nat (unacked r) = ring_wait r" by (simp add: ring_wait_eq)
  ultimately show "items (cdr_insert x r) = items r @ [x]"
    unfolding items_def u by (simp add: e)
qed

lemma insert_full:
  assumes "unacked r = 65535"
  shows "unacked (cdr_insert x r) = 65535" and "sent (cdr_insert x r) = sent r - 1"
    and "items (cdr_insert x r) = tl (items r) @ [x]"
proof -
  have w: "ring_wait r = ring_ack r" using assms by (simp add: full_iff)
  define r' where "r' = cdr_insert x r"
  have a: "ring_ack r' = ring_ack r + 1" "ring_wait r' = ring_ack r + 1" "cdr_buf r' = (cdr_buf r)(ring_ack r := x)"
    using w by (simp_all add: r'_def cdr_insert_def Let_def)
  show u: "unacked (cdr_insert x r) = 65535"
    using full_iff[of r'] a unfolding r'_def by simp
  show "sent (cdr_insert x r) = sent r - 1"
  proof (cases "sent r = 0")
    case True
    then have "ring_ack r + 1 = ring_send r" by (simp only: none_sent_iff)
    then have "ring_send r' = ring_ack r' + 1" using w by (simp add: r'_def cdr_insert_def Let_def)
    then show ?thesis using True by (simp add: r'_def sent_def)
  next
    case False
    then have "ring_ack r + 1 \<noteq> ring_send r" by (simp only: none_sent_iff not_False_eq_True)
    then have s: "ring_send r' = ring_send r" using w by (simp add: r'_def cdr_insert_def Let_def)
    have "ring_send r - 1 - ring_ack r \<noteq> 0" using False by (simp add: sent_def unat_eq_zero)
    from unat_minus_one[OF this]
    have "unat (ring_send r - 1 - ring_ack r - 1) = unat (ring_send r - 1 - ring_ack r) - 1" .
    moreover have "ring_send r' - 1 - ring_ack r' = ring_send r - 1 - ring_ack r - 1" using s a(1) by simp
    ultimately show ?thesis by (simp only: r'_def[symmetric] sent_def)
  qed
  obtain n where n: "65535 = Suc n" "n = 65534" by simp
  have "items r' = map (\<lambda>i. cdr_buf r' (ring_ack r' + 1 + of_nat i)) [0..<n] @
      [cdr_buf r' (ring_ack r' + 1 + of_nat n)]"
    using u by (simp add: items_def r'_def n(1))
  also have "cdr_buf r' (ring_ack r' + 1 + of_nat n) = x"
    by (simp add: a n(2))
  also have "map (\<lambda>i. cdr_buf r' (ring_ack r' + 1 + of_nat i)) [0..<n] =
      map (\<lambda>i. cdr_buf r (ring_ack r + 1 + of_nat (Suc i))) [0..<n]"
  proof (rule map_cong[OF refl])
    fix i
    assume "i \<in> set [0..<n]"
    then have "(of_nat (i + 2) :: u16) \<noteq> of_nat 0" using n(2) of_nat_u16_eq[of "i + 2" 0] by simp
    then have "ring_ack r + 1 + of_nat (Suc i) \<noteq> ring_ack r" by (simp add: algebra_simps)
    then show "cdr_buf r' (ring_ack r' + 1 + of_nat i) = cdr_buf r (ring_ack r + 1 + of_nat (Suc i))"
      by (simp add: a algebra_simps)
  qed
  also have "\<dots> = tl (items r)"
    using assms by (simp add: items_def n(1) upt_conv_Cons map_Suc_upt[symmetric] del: upt_Suc map_Suc_upt)
  finally show "items (cdr_insert x r) = tl (items r) @ [x]" by (simp add: r'_def)
qed

lemma unat_batch_len:
  assumes "ring_inv r" and "sent r \<noteq> unacked r"
  shows "unat (batch_len r) = min 16 (min (unacked r - sent r) (65536 - unat (ring_send r)))"
    and "unat (ring_send r) + unat (batch_len r) \<le> 65536"
proof -
  let ?s = "ring_send r" and ?w = "ring_wait r"
  have lt: "sent r < unacked r" using assms by (simp add: ring_inv_def)
  have w: "?w = ?s + of_nat (unacked r - sent r)"
    by (simp only: of_nat_diff[OF less_imp_le[OF lt]]) (simp add: unacked_def sent_def)
  have "unat (of_nat (unacked r - sent r) :: u16) = unacked r - sent r"
    using unacked_lt[of r] by (intro unat_of_nat16) simp
  then have d: "unat (?w - ?s) = unacked r - sent r"
    by (simp only: w add_diff_cancel_left')
  have m: "unat (if 16 < num then 16 else num) = min 16 (unat num)" for num :: u16
    by (simp add: word_less_nat_alt)
  have "unat (if ?w < ?s then word_of_int (65536 - uint ?s) else ?w - ?s) =
      min (unacked r - sent r) (65536 - unat ?s)"
  proof (cases "?w < ?s")
    case True
    have "word_of_int (65536 - uint ?s) = (of_nat (65536 - unat ?s) :: u16)"
      using u16_bound[of ?s] by (simp add: of_nat_diff)
    moreover have "65536 - unat ?s < 65536" using True word_gt_0[of ?s] by (simp add: word_less_nat_alt)
    ultimately have "unat (word_of_int (65536 - uint ?s) :: u16) = 65536 - unat ?s"
      by (simp only: unat_of_nat16)
    moreover have "unat (?w - ?s) = 65536 + unat ?w - unat ?s"
      using True by (simp add: unat_sub_if_size word_size word_le_nat_alt word_less_nat_alt)
    ultimately show ?thesis using True d by simp
  next
    case False
    then have "unat (?w - ?s) = unat ?w - unat ?s" by (simp add: unat_sub not_less)
    then have "unacked r - sent r \<le> 65536 - unat ?s" using d u16_bound[of ?w] by simp
    then show ?thesis using False d by simp
  qed
  then show "unat (batch_len r) = min 16 (min (unacked r - sent r) (65536 - unat ?s))"
    by (simp add: batch_len_def Let_def m)
  then show "unat ?s + unat (batch_len r) \<le> 65536" using u16_bound[of ?s] by simp
qed

lemma take_nothing: "sent r = unacked r \<Longrightarrow> cdr_take r = Some (None, r)"
  by (simp add: cdr_take_def all_sent_iff)

lemma take_batch:
  assumes "ring_inv r" and "sent r \<noteq> unacked r"
  shows "\<exists>r' xs. cdr_take r = Some (Some (ring_send r, xs), r') \<and> xs = take (length xs) (drop (sent r) (items r)) \<and>
     length xs = min 16 (min (unacked r - sent r) (65536 - unat (ring_send r))) \<and> 0 < length xs \<and>
     items r' = items r \<and> sent r' = sent r + length xs \<and> ring_inv r'"
proof -
  let ?n = "unat (batch_len r)"
  let ?xs = "map (\<lambda>i. cdr_buf r (of_nat (unat (ring_send r) + i))) [0..<?n]"
  let ?r' = "r\<lparr>ring_send := ring_send r + batch_len r\<rparr>"
  note b = unat_batch_len[OF assms]
  have lt: "sent r < unacked r" using assms by (simp add: ring_inv_def)
  have n: "0 < ?n" "?n \<le> unacked r - sent r" using b(1) lt u16_bound[of "ring_send r"] by auto
  have t: "cdr_take r = Some (Some (ring_send r, ?xs), ?r')"
    using assms(2) b(2) by (simp add: cdr_take_def all_sent_iff copy_records_def)
  have i: "items ?r' = items r" by (simp add: items_def unacked_def)
  have "ring_send ?r' - 1 - ring_ack ?r' = of_nat (sent r + ?n)" by (simp add: sent_def)
  moreover have "sent r + ?n < 65536" using n(2) lt unacked_lt[of r] by simp
  ultimately have s: "sent ?r' = sent r + ?n"
    unfolding sent_def[of ?r'] by (simp only: unat_of_nat16)
  have "?xs = take ?n (drop (sent r) (items r))"
  proof (rule nth_equalityI)
    show l: "length ?xs = length (take ?n (drop (sent r) (items r)))" using n(2) by simp
    fix i
    assume "i < length ?xs"
    then have "i < ?n" "sent r + i < unacked r" using n(2) by auto
    then have "take ?n (drop (sent r) (items r)) ! i = cdr_buf r (ring_ack r + 1 + of_nat (sent r + i))"
      by (simp add: items_def del: of_nat_add)
    also have "ring_ack r + 1 + of_nat (sent r + i) = of_nat (unat (ring_send r) + i)"
      by (simp add: sent_def)
    finally show "?xs ! i = take ?n (drop (sent r) (items r)) ! i" using \<open>i < ?n\<close> by simp
  qed
  moreover have "unacked ?r' = unacked r" by (simp add: unacked_def)
  then have "ring_inv ?r'" using n(2) lt unfolding ring_inv_def s by simp
  moreover have "length ?xs = ?n" by simp
  ultimately show ?thesis using t i s n(1) b(1) by (intro exI[of _ ?r'] exI[of _ ?xs]) (simp only: simp_thms)
qed

lemma ack_covers:
  assumes "ring_inv r" and "j \<le> sent r"
  shows "items (cdr_update_ack (ring_ack r + of_nat j) r) = drop j (items r)"
    and "sent (cdr_update_ack (ring_ack r + of_nat j) r) = sent r - j"
proof -
  let ?r' = "r\<lparr>ring_ack := ring_ack r + of_nat j\<rparr>"
  have j: "unat (of_nat j :: u16) = j" using assms(2) sent_lt[of r] by (intro unat_of_nat16) simp
  have u: "cdr_update_ack (ring_ack r + of_nat j) r = ?r'"
    using assms(2) by (simp add: cdr_update_ack_def word_le_nat_alt j sent_def)
  have "ring_send ?r' - 1 - ring_ack ?r' = of_nat (sent r - j)"
    using assms(2) by (simp add: sent_def of_nat_diff)
  then show "sent (cdr_update_ack (ring_ack r + of_nat j) r) = sent r - j"
    unfolding u sent_def[of ?r'] using sent_lt[of r] by (simp only: unat_of_nat16 less_imp_diff_less)
  have "ring_wait ?r' - 1 - ring_ack ?r' = of_nat (unacked r - j)"
    using assms by (simp add: unacked_def of_nat_diff ring_inv_def)
  then have w: "unacked ?r' = unacked r - j"
    unfolding unacked_def[of ?r'] using unacked_lt[of r] by (simp only: unat_of_nat16 less_imp_diff_less)
  show "items (cdr_update_ack (ring_ack r + of_nat j) r) = drop j (items r)"
    unfolding u items_def w by (rule nth_equalityI) (auto simp: add.assoc add.commute[of "of_nat j"])
qed

lemma ack_stale: "sent r < unat (a - ring_ack r) \<Longrightarrow> cdr_update_ack a r = r"
  by (simp add: cdr_update_ack_def word_le_nat_alt sent_def)

lemma reset_items: "items (cdr_reset_send r) = items r" and reset_sent: "sent (cdr_reset_send r) = 0"
  by (simp_all add: cdr_reset_send_def items_def unacked_def sent_def)

text \<open>An acknowledgement covers \<open>j\<close> sent records for some \<open>j\<close>, or it changes nothing.\<close>

lemma ack_cases:
  assumes "ring_inv r"
  obtains j where "j \<le> sent r" "items (cdr_update_ack a r) = drop j (items r)"
    "sent (cdr_update_ack a r) = sent r - j" "ring_inv (cdr_update_ack a r)"
proof (cases "unat (a - ring_ack r) \<le> sent r")
  case True
  let ?j = "unat (a - ring_ack r)"
  have a: "ring_ack r + of_nat ?j = a" by simp
  note c = ack_covers[OF assms True, unfolded a]
  have "unacked (cdr_update_ack a r) = unacked r - ?j" using arg_cong[OF c(1), of length] by simp
  then have "ring_inv (cdr_update_ack a r)" using c(2) assms by (simp add: ring_inv_def)
  then show thesis using that[OF True c] by blast
next
  case False
  then have "cdr_update_ack a r = r" by (intro ack_stale) simp
  then show thesis using that[of 0] assms by simp
qed

lemma insert_inv: "ring_inv r \<Longrightarrow> ring_inv (cdr_insert x r)"
  using insert_room[of r x] insert_full[of r x] sent_lt[of r]
  by (cases "unacked r = 65535") (auto simp: ring_inv_def)

lemma reset_inv: "ring_inv (cdr_reset_send r)"
  by (simp add: ring_inv_def reset_sent)

lemma init_ring: "ring_inv cdr_init" "items cdr_init = []" "sent cdr_init = 0"
  by (simp_all add: ring_inv_def sent_def items_def unacked_def cdr_init_def)

subsection \<open>The contract of the buffer\<close>

text \<open>
  What the rest of the program relies on. A spool keeps a list of records of which the
  first \<open>sent\<close> were handed to the socket; records enter at the end, leave from the front,
  and leave only because a sent one was acknowledged or because the spool is full.
\<close>

locale cdr_spool =
  fixes ins :: "'c \<Rightarrow> 'r \<Rightarrow> 'r"
    and tak :: "'r \<Rightarrow> ((u16 \<times> 'c list) option \<times> 'r) option"
    and akn :: "u16 \<Rightarrow> 'r \<Rightarrow> 'r"
    and rst :: "'r \<Rightarrow> 'r"
    and inv :: "'r \<Rightarrow> bool" and its :: "'r \<Rightarrow> 'c list" and snt :: "'r \<Rightarrow> nat" and cap :: nat
  assumes inv_sent: "inv r \<Longrightarrow> snt r \<le> length (its r)"
    and ins_inv: "inv r \<Longrightarrow> inv (ins x r)"
    and ins_room: "inv r \<Longrightarrow> length (its r) < cap \<Longrightarrow> its (ins x r) = its r @ [x] \<and> snt (ins x r) = snt r"
    and ins_full: "inv r \<Longrightarrow> cap \<le> length (its r) \<Longrightarrow>
      its (ins x r) = tl (its r) @ [x] \<and> snt (ins x r) = snt r - 1"
    and tak_law: "inv r \<Longrightarrow> \<exists>o' r'. tak r = Some (o', r') \<and> inv r' \<and> its r' = its r \<and>
      (case o' of None \<Rightarrow> r' = r \<and> snt r = length (its r)
       | Some (k, xs) \<Rightarrow> xs \<noteq> [] \<and> xs = take (length xs) (drop (snt r) (its r)) \<and> snt r' = snt r + length xs)"
    and akn_law: "inv r \<Longrightarrow> \<exists>j \<le> snt r. its (akn a r) = drop j (its r) \<and> snt (akn a r) = snt r - j \<and> inv (akn a r)"
    and rst_law: "inv r \<Longrightarrow> inv (rst r) \<and> its (rst r) = its r \<and> snt (rst r) = 0"
    and cap_pos: "0 < cap"

text \<open>A run of the operations, with the batches it hands out.\<close>

datatype 'c spool_op = Insert 'c | Batch | Ack u16 | Reset

fun spool_run ::
  "('c \<Rightarrow> 'r \<Rightarrow> 'r) \<Rightarrow> ('r \<Rightarrow> ((u16 \<times> 'c list) option \<times> 'r) option) \<Rightarrow> (u16 \<Rightarrow> 'r \<Rightarrow> 'r) \<Rightarrow>
   ('r \<Rightarrow> 'r) \<Rightarrow> 'c spool_op list \<Rightarrow> 'r \<Rightarrow> ('c list list \<times> 'r) option" where
  "spool_run ins tak akn rst [] r = Some ([], r)"
| "spool_run ins tak akn rst (Insert x # ops) r = spool_run ins tak akn rst ops (ins x r)"
| "spool_run ins tak akn rst (Ack a # ops) r = spool_run ins tak akn rst ops (akn a r)"
| "spool_run ins tak akn rst (Reset # ops) r = spool_run ins tak akn rst ops (rst r)"
| "spool_run ins tak akn rst (Batch # ops) r = do {
     (b, r') \<leftarrow> tak r;
     (bs, r'') \<leftarrow> spool_run ins tak akn rst ops r';
     Some ((case b of None \<Rightarrow> bs | Some (k, xs) \<Rightarrow> xs # bs), r'')}"

fun inserted :: "'c spool_op list \<Rightarrow> 'c list" where
  "inserted [] = []"
| "inserted (Insert x # ops) = x # inserted ops"
| "inserted (_ # ops) = inserted ops"

context cdr_spool
begin

lemma tak_cases:
  assumes "inv r"
  obtains (Nothing) "tak r = Some (None, r)" "snt r = length (its r)"
  | (Batch) k xs r' where "tak r = Some (Some (k, xs), r')" "inv r'" "its r' = its r" "xs \<noteq> []"
      "xs = take (length xs) (drop (snt r) (its r))" "snt r' = snt r + length xs"
proof -
  from tak_law[OF assms] obtain b r' where t: "tak r = Some (b, r')" "inv r'" "its r' = its r"
    "case b of None \<Rightarrow> r' = r \<and> snt r = length (its r)
     | Some (k, xs) \<Rightarrow> xs \<noteq> [] \<and> xs = take (length xs) (drop (snt r) (its r)) \<and> snt r' = snt r + length xs"
    by blast
  show thesis
  proof (cases b)
    case None
    with t Nothing show ?thesis by (simp only: option.case)
  next
    case (Some kx)
    obtain k xs where "kx = (k, xs)" by (cases kx)
    with Some have b: "b = Some (k, xs)" by simp
    note law = t(4)[unfolded b option.case prod.case]
    show ?thesis by (rule Batch[OF t(1)[unfolded b] t(2,3)]) (use law in blast)+
  qed
qed

text \<open>One step of a run keeps: the records are a suffix of all that entered, \<open>k\<close> have left,
  and without overflow those that left or count as sent are in \<open>D\<close>, the records handed out.\<close>

definition tracks :: "'c list \<Rightarrow> 'c set \<Rightarrow> nat \<Rightarrow> 'r \<Rightarrow> bool" where
  "tracks L D k r \<longleftrightarrow> inv r \<and> its r = drop k L \<and> k \<le> length L \<and> set (take (k + snt r) L) \<subseteq> D"

lemma tracks_ins:
  assumes "tracks L D k r" "length (its r) < cap"
  shows "tracks (L @ [x]) D k (ins x r)"
proof -
  have i: "inv r" "its r = drop k L" "k \<le> length L" "set (take (k + snt r) L) \<subseteq> D"
    using assms(1) by (auto simp: tracks_def)
  have "k + snt r \<le> length L" using inv_sent[OF i(1)] i(2,3) by simp
  then show ?thesis using ins_room[OF i(1) assms(2), of x] ins_inv[OF i(1)] i by (simp add: tracks_def)
qed

lemma tracks_akn:
  assumes "tracks L D k r"
  shows "\<exists>k'. tracks L D k' (akn a r)"
proof -
  have i: "inv r" "its r = drop k L" "k \<le> length L" "set (take (k + snt r) L) \<subseteq> D"
    using assms(1) by (auto simp: tracks_def)
  from akn_law[OF i(1), of a] obtain j where j: "j \<le> snt r" "its (akn a r) = drop j (its r)"
    "snt (akn a r) = snt r - j" "inv (akn a r)" by blast
  have "k + j \<le> length L" using inv_sent[OF i(1)] i(2,3) j(1) by simp
  then have "tracks L D (k + j) (akn a r)" using i j by (simp add: tracks_def add.commute)
  then show ?thesis by blast
qed

lemma tracks_rst: "tracks L D k r \<Longrightarrow> tracks L D k (rst r)"
  using rst_law[of r] set_take_subset_set_take[of k "k + snt r" L] by (auto simp: tracks_def)

lemma tracks_tak:
  assumes "tracks L D k r" "tak r = Some (Some (n, xs), r')"
  shows "tracks L (D \<union> set xs) k r'"
proof -
  have i: "inv r" "its r = drop k L" "k \<le> length L" "set (take (k + snt r) L) \<subseteq> D"
    using assms(1) by (auto simp: tracks_def)
  from tak_law[OF i(1)] assms(2) have t: "inv r'" "its r' = its r"
    "xs = take (length xs) (drop (snt r) (its r))" "snt r' = snt r + length xs" by auto
  have "take (k + snt r') L = take (k + snt r) L @ take (length xs) (drop (k + snt r) L)"
    using t(4) by (simp add: take_add[symmetric] add.assoc)
  also have "take (length xs) (drop (k + snt r) L) = xs"
    using t(3) i(2) by (simp add: add.commute)
  finally show ?thesis using i t(1,2) by (auto simp: tracks_def)
qed

lemma run_tracks:
  assumes "tracks L D k r" "length (its r) + length (inserted ops) \<le> cap"
  shows "\<exists>bs r' k'. spool_run ins tak akn rst ops r = Some (bs, r') \<and>
     tracks (L @ inserted ops) (D \<union> set (concat bs)) k' r'"
  using assms
proof (induction ops arbitrary: L D k r)
  case Nil
  then show ?case by (simp, blast)
next
  case (Cons x ops)
  have i: "inv r" using Cons.prems(1) by (simp add: tracks_def)
  show ?case
  proof (cases x)
    case (Insert y)
    then have l: "length (its r) < cap" using Cons.prems(2) by simp
    have "length (its (ins y r)) + length (inserted ops) \<le> cap"
      using ins_room[OF i l, of y] Cons.prems(2) Insert by simp
    from Cons.IH[OF tracks_ins[OF Cons.prems(1) l] this] Insert show ?thesis by simp
  next
    case (Ack a)
    obtain k' where "tracks L D k' (akn a r)" using tracks_akn[OF Cons.prems(1)] by blast
    moreover have "length (its (akn a r)) + length (inserted ops) \<le> cap"
      using akn_law[OF i, of a] Cons.prems(2) Ack by auto
    ultimately show ?thesis using Cons.IH Ack by simp
  next
    case Reset
    have "length (its (rst r)) + length (inserted ops) \<le> cap"
      using rst_law[OF i] Cons.prems(2) Reset by simp
    from Cons.IH[OF tracks_rst[OF Cons.prems(1)] this] Reset show ?thesis by simp
  next
    case Batch
    from i show ?thesis
    proof (cases rule: tak_cases)
      case Nothing
      from Cons.IH[OF Cons.prems(1)] Cons.prems(2) Batch obtain bs r' k' where
        "spool_run ins tak akn rst ops r = Some (bs, r')"
        "tracks (L @ inserted ops) (D \<union> set (concat bs)) k' r'" by auto
      with Nothing Batch show ?thesis by auto
    next
      case (Batch n xs s)
      have "length (its s) + length (inserted ops) \<le> cap" using Batch(3) Cons.prems(2) \<open>x = spool_op.Batch\<close> by simp
      from Cons.IH[OF tracks_tak[OF Cons.prems(1) Batch(1)] this] obtain bs r' k' where
        "spool_run ins tak akn rst ops s = Some (bs, r')"
        "tracks (L @ inserted ops) (D \<union> set xs \<union> set (concat bs)) k' r'" by blast
      with Batch(1) \<open>x = spool_op.Batch\<close> show ?thesis by (intro exI[of _ "xs # bs"]) (auto simp: Un_assoc)
    qed
  qed
qed

text \<open>Without overflow, every record that left the spool had been handed out.\<close>

lemma run_delivers:
  assumes "inv r" "its r = []" "length (inserted ops) \<le> cap"
  shows "\<exists>bs r' k. spool_run ins tak akn rst ops r = Some (bs, r') \<and> inv r' \<and>
     its r' = drop k (inserted ops) \<and> k \<le> length (inserted ops) \<and> set (take k (inserted ops)) \<subseteq> set (concat bs)"
proof -
  have "snt r = 0" using inv_sent[OF assms(1)] assms(2) by simp
  then have "tracks [] {} 0 r" using assms by (simp add: tracks_def)
  from run_tracks[OF this, of ops] assms obtain bs r' k where
    r: "spool_run ins tak akn rst ops r = Some (bs, r')" "tracks (inserted ops) (set (concat bs)) k r'" by auto
  then have "set (take k (inserted ops)) \<subseteq> set (concat bs)"
    using set_take_subset_set_take[of k "k + snt r'" "inserted ops"] by (auto simp: tracks_def)
  with r show ?thesis by (intro exI[of _ bs] exI[of _ r'] exI[of _ k]) (simp add: tracks_def)
qed

end

interpretation spool: cdr_spool cdr_insert cdr_take cdr_update_ack cdr_reset_send ring_inv items sent 65535
proof unfold_locales
  fix r :: cdr_ring and x :: struct_cdr and a :: u16
  assume r: "ring_inv r"
  show "sent r \<le> length (items r)" using r by (simp add: ring_inv_def)
  show "ring_inv (cdr_insert x r)" using r by (rule insert_inv)
  show "items (cdr_insert x r) = items r @ [x] \<and> sent (cdr_insert x r) = sent r" if "length (items r) < 65535"
    using that insert_room[of r x] by simp
  show "items (cdr_insert x r) = tl (items r) @ [x] \<and> sent (cdr_insert x r) = sent r - 1"
    if "65535 \<le> length (items r)"
    using that insert_full[of r x] unacked_lt[of r] by simp
  show "\<exists>o' r'. cdr_take r = Some (o', r') \<and> ring_inv r' \<and> items r' = items r \<and>
      (case o' of None \<Rightarrow> r' = r \<and> sent r = length (items r)
       | Some (k, xs) \<Rightarrow> xs \<noteq> [] \<and> xs = take (length xs) (drop (sent r) (items r)) \<and> sent r' = sent r + length xs)"
  proof (cases "sent r = unacked r")
    case True
    then show ?thesis using take_nothing[OF True] r by simp
  next
    case False
    from take_batch[OF r False] obtain r' xs where t: "cdr_take r = Some (Some (ring_send r, xs), r')"
      "xs = take (length xs) (drop (sent r) (items r))" "0 < length xs" "items r' = items r"
      "sent r' = sent r + length xs" "ring_inv r'" by blast
    then show ?thesis by (intro exI[of _ "Some (ring_send r, xs)"] exI[of _ r']) (simp only: option.case prod.case length_greater_0_conv simp_thms)
  qed
  show "\<exists>j \<le> sent r. items (cdr_update_ack a r) = drop j (items r) \<and> sent (cdr_update_ack a r) = sent r - j \<and>
      ring_inv (cdr_update_ack a r)"
    by (rule ack_cases[OF r, of a]) blast
  show "ring_inv (cdr_reset_send r) \<and> items (cdr_reset_send r) = items r \<and> sent (cdr_reset_send r) = 0"
    by (simp add: reset_inv reset_items reset_sent)
qed simp

text \<open>
  C3. Records reach the socket before they leave the buffer. From the empty ring, for any
  interleaving of \<open>cdr_insert\<close>, the locked part of \<open>cdr_send\<close>, \<open>cdr_update_ack\<close> with any
  16 bit number the peer may send, and \<open>cdr_reset_send\<close>, no copy leaves the array, and as long
  as at most 65535 records are inserted the ring holds all but a prefix of what was
  inserted, in order, and each record of that prefix was in a batch handed to the socket.
\<close>

theorem cdr_at_least_once:
  assumes "length (inserted ops) \<le> 65535"
  shows "\<exists>bs r k. spool_run cdr_insert cdr_take cdr_update_ack cdr_reset_send ops cdr_init = Some (bs, r) \<and>
     ring_inv r \<and> items r = drop k (inserted ops) \<and> k \<le> length (inserted ops) \<and>
     set (take k (inserted ops)) \<subseteq> set (concat bs)"
  by (rule spool.run_delivers[OF init_ring(1,2) assms])

theorem cdr_at_least_once_witness:
  "\<exists>bs r k. spool_run cdr_insert cdr_take cdr_update_ack cdr_reset_send
       [Insert zero_cdr, Batch, Ack 7, Ack 1, Insert zero_cdr, Reset, Batch] cdr_init = Some (bs, r) \<and>
     ring_inv r \<and> items r = drop k [zero_cdr, zero_cdr] \<and> k \<le> Suc (Suc 0) \<and>
     set (take k [zero_cdr, zero_cdr]) \<subseteq> set (concat bs)"
  using cdr_at_least_once[of "[Insert zero_cdr, Batch, Ack 7, Ack 1, Insert zero_cdr, Reset, Batch]"]
  by (simp del: spool_run.simps)

text \<open>
  A full ring overwrites. With 65535 records unacknowledged, an insertion removes the
  oldest one and appends the new one; with fewer it only appends.
\<close>

theorem cdr_insert_spec:
  assumes "ring_inv r"
  shows "items (cdr_insert x r) = (if length (items r) = 65535 then tl (items r) else items r) @ [x] \<and>
     sent (cdr_insert x r) = (if length (items r) = 65535 then sent r - 1 else sent r) \<and>
     ring_inv (cdr_insert x r)"
  using insert_room[of r x] insert_full[of r x] insert_inv[OF assms, of x] by (cases "unacked r = 65535") auto

theorem cdr_insert_spec_witness:
  "items (cdr_insert zero_cdr cdr_init) = [zero_cdr] \<and> sent (cdr_insert zero_cdr cdr_init) = 0"
  using cdr_insert_spec[OF init_ring(1), of zero_cdr] init_ring(2,3) by auto

subsection \<open>The ring against its specification\<close>

text \<open>
  What the ring is meant to be: the records that are not acknowledged, oldest first and at most 65535, with how many of them were handed out
  and the number of the last acknowledged one. A record that comes when there are 65535 pushes the oldest one out; a batch is the next 16
  records that were not handed out, or fewer if there are fewer or the numbers reach 65536; an acknowledgement removes the records up to its
  number if they were handed out, and is ignored otherwise.
\<close>

type_synonym spool_spec = "u16 \<times> struct_cdr list \<times> nat"

fun spec_op :: "struct_cdr spool_op \<Rightarrow> spool_spec \<Rightarrow> struct_cdr list option \<times> spool_spec" where
  "spec_op (Insert x) (b, xs, n) =
     (None, if length xs < 65535 then (b, xs @ [x], n) else (b + 1, tl xs @ [x], n - 1))"
| "spec_op Batch (b, xs, n) =
     (if n = length xs then (None, b, xs, n)
      else (let k = min 16 (min (length xs - n) (65536 - unat (b + 1 + of_nat n))) in (Some (take k (drop n xs)), b, xs, n + k)))"
| "spec_op (Ack a) (b, xs, n) =
     (None, let j = unat (a - b) in if j \<le> n then (a, drop j xs, n - j) else (b, xs, n))"
| "spec_op Reset (b, xs, n) = (None, b, xs, 0)"

fun spec_run :: "struct_cdr spool_op list \<Rightarrow> spool_spec \<Rightarrow> struct_cdr list list \<times> spool_spec" where
  "spec_run [] s = ([], s)"
| "spec_run (x # ops) s =
     (let (b, s1) = spec_op x s; (bs, s2) = spec_run ops s1 in ((case b of None \<Rightarrow> bs | Some xs \<Rightarrow> xs # bs), s2))"

definition ring_abs :: "cdr_ring \<Rightarrow> spool_spec" where
  "ring_abs r = (ring_ack r, items r, sent r)"

lemma abs_insert:
  assumes "ring_inv r"
  shows "ring_abs (cdr_insert x r) = snd (spec_op (Insert x) (ring_abs r))"
proof (cases "unacked r = 65535")
  case True
  have "ring_ack (cdr_insert x r) = ring_ack r + 1"
    using True by (simp add: cdr_insert_def full_iff Let_def)
  then show ?thesis using True by (simp add: ring_abs_def insert_full)
next
  case False
  have "ring_ack (cdr_insert x r) = ring_ack r" using False by (simp add: cdr_insert_def full_iff)
  then show ?thesis using False unacked_lt[of r] by (simp add: ring_abs_def insert_room)
qed

lemma abs_ack:
  assumes "ring_inv r"
  shows "ring_abs (cdr_update_ack a r) = snd (spec_op (Ack a) (ring_abs r))"
proof (cases "unat (a - ring_ack r) \<le> sent r")
  case True
  have a: "ring_ack r + of_nat (unat (a - ring_ack r)) = a" by simp
  have "ring_ack (cdr_update_ack a r) = a" using True by (simp add: cdr_update_ack_def word_le_nat_alt sent_def)
  then show ?thesis using True ack_covers[OF assms True, unfolded a] by (simp add: ring_abs_def Let_def)
next
  case False
  then show ?thesis using ack_stale[of r a] by (simp add: ring_abs_def Let_def)
qed

lemma abs_batch:
  assumes "ring_inv r"
  shows "\<exists>b r'. cdr_take r = Some (b, r') \<and> ring_inv r' \<and> spec_op Batch (ring_abs r) = (map_option snd b, ring_abs r')"
proof (cases "sent r = unacked r")
  case True
  then show ?thesis using take_nothing assms by (simp add: ring_abs_def)
next
  case False
  from take_batch[OF assms this] obtain r' xs where t: "cdr_take r = Some (Some (ring_send r, xs), r')"
    "xs = take (length xs) (drop (sent r) (items r))" "length xs = min 16 (min (unacked r - sent r) (65536 - unat (ring_send r)))"
    "items r' = items r" "sent r' = sent r + length xs" "ring_inv r'" by blast
  have "ring_ack r' = ring_ack r" using t(1) False by (auto simp: cdr_take_def all_sent_iff split: Option.bind_splits)
  moreover have "ring_ack r + 1 + of_nat (sent r) = ring_send r" by (rule ring_send_eq[symmetric])
  ultimately have "spec_op Batch (ring_abs r) = (Some (take (length xs) (drop (sent r) (items r))), ring_abs r')"
    using False t(3-5) by (simp add: ring_abs_def Let_def)
  then show ?thesis using t(1,2,6) by simp
qed

text \<open>
  C27. The ring of records implements its specification. From any state the ring can be in, any sequence of insertions, batches,
  acknowledgements and resets never fails, hands out exactly the batches of the specification and leaves the ring holding exactly
  its records: a full ring loses its oldest record for each new one and no other, nothing is lost while there is room, and records only
  leave in order.
\<close>

theorem cdr_ring_refines:
  assumes "ring_inv r"
  shows "\<exists>r'. spool_run cdr_insert cdr_take cdr_update_ack cdr_reset_send ops r = Some (fst (spec_run ops (ring_abs r)), r') \<and>
     ring_inv r' \<and> ring_abs r' = snd (spec_run ops (ring_abs r))"
  using assms
proof (induction ops arbitrary: r)
  case Nil
  then show ?case by simp
next
  case (Cons x ops)
  show ?case
  proof (cases x)
    case (Insert y)
    obtain b xs n where s: "ring_abs r = (b, xs, n)" by (cases "ring_abs r")
    show ?thesis using Cons.IH[OF insert_inv[OF Cons.prems, of y]] abs_insert[OF Cons.prems, of y] Insert s by (simp split: prod.splits)
  next
    case (Ack a)
    obtain b xs n where s: "ring_abs r = (b, xs, n)" by (cases "ring_abs r")
    have "ring_inv (cdr_update_ack a r)" by (rule ack_cases[OF Cons.prems, of a])
    from Cons.IH[OF this] show ?thesis using abs_ack[OF Cons.prems, of a] Ack s by (simp split: prod.splits)
  next
    case Reset
    have "ring_abs (cdr_reset_send r) = snd (spec_op Reset (ring_abs r))"
      by (simp add: ring_abs_def reset_items reset_sent) (simp add: cdr_reset_send_def)
    then show ?thesis using Cons.IH[OF reset_inv[of r]] Reset by (cases "ring_abs r") (simp split: prod.splits)
  next
    case Batch
    obtain b r1 where t: "cdr_take r = Some (b, r1)" "ring_inv r1" "spec_op Batch (ring_abs r) = (map_option snd b, ring_abs r1)"
      using abs_batch[OF Cons.prems] by blast
    from Cons.IH[OF t(2)] show ?thesis using t(1,3) Batch by (auto split: prod.splits option.splits)
  qed
qed

theorem cdr_ring_refines_witness:
  "\<exists>r'. spool_run cdr_insert cdr_take cdr_update_ack cdr_reset_send [Insert zero_cdr, Batch, Insert zero_cdr, Ack 1] cdr_init =
      Some ([[zero_cdr]], r') \<and> items r' = [zero_cdr] \<and> sent r' = 0"
proof -
  have "ring_abs cdr_init = (0, [], 0)" by (simp add: ring_abs_def init_ring) (simp add: cdr_init_def)
  then show ?thesis
    using cdr_ring_refines[OF init_ring(1), of "[Insert zero_cdr, Batch, Insert zero_cdr, Ack 1]"]
    by (auto simp: ring_abs_def simp del: spool_run.simps)
qed

subsection \<open>The bytes on the wire\<close>

text \<open>The memory image of a record: 24 bytes, little-endian, no padding.\<close>

definition cdr_bytes :: "struct_cdr \<Rightarrow> u8 list" where
  "cdr_bytes c = to_le 8 (cdr_callid c) @ to_le 8 (word_of_int (cdr_time c) :: u64) @ to_le 2 (cdr_path c) @
     [cdr_callflag c, cdr_ruleflag c] @ to_le 4 (cdr_recv3 c)"

definition send_header :: "u16 \<Rightarrow> u16 \<Rightarrow> u8 list" where
  "send_header send_len num =
     [0, 4, ucast (drop_bit 8 send_len), ucast (send_len AND 0xff), 0, ucast num]"

text \<open>
  \<open>sock_send_buf\<close>: each call of \<open>send\<close> takes the next result of the list. It returns its
  result, the bytes that the socket took, and the results not used. The loop does not stop
  on a result of 0.
\<close>

fun sock_send_buf :: "int list \<Rightarrow> u8 list \<Rightarrow> (int \<times> u8 list \<times> int list) loop_result" where
  "sock_send_buf rs [] = Returned (0, [], rs)"
| "sock_send_buf [] (b # bs) = Running"
| "sock_send_buf (ret # rs) (b # bs) =
     (if ret < 0 then Returned (-1, [], rs)
      else (case sock_send_buf rs (drop (nat ret) (b # bs)) of
              Returned (c, out, rs') \<Rightarrow> Returned (c, take (nat ret) (b # bs) @ out, rs')
            | Undefined \<Rightarrow> Undefined
            | Running \<Rightarrow> Running))"

text \<open>\<open>sock_recv_buf\<close>: each call of \<open>recv\<close> gives bytes, none when the peer closed, or an error.\<close>

fun sock_recv_buf :: "u8 list option list \<Rightarrow> nat \<Rightarrow> (int \<times> u8 list \<times> u8 list option list) loop_result" where
  "sock_recv_buf rs 0 = Returned (0, [], rs)"
| "sock_recv_buf [] (Suc n) = Running"
| "sock_recv_buf (None # rs) (Suc n) = Returned (-1, [], rs)"
| "sock_recv_buf (Some bs # rs) (Suc n) =
     (if bs = [] then Returned (-1, [], rs)
      else (case sock_recv_buf rs (Suc n - length bs) of
              Returned (c, got, rs') \<Rightarrow> Returned (c, bs @ got, rs')
            | Undefined \<Rightarrow> Undefined
            | Running \<Rightarrow> Running))"

definition cdr_send :: "int list \<Rightarrow> cdr_ring \<Rightarrow> (int \<times> u8 list \<times> int list \<times> cdr_ring) loop_result" where
  "cdr_send rs r =
     (case cdr_take r of
        None \<Rightarrow> Undefined
      | Some (None, r') \<Rightarrow> Returned (0, [], rs, r')
      | Some (Some (send_len, cdr_arr), r') \<Rightarrow>
          (case sock_send_buf rs (send_header send_len (of_nat (length cdr_arr))) of
             Returned (ret, out, rs1) \<Rightarrow>
               (if ret = -1 then Returned (-1, out, rs1, r')
                else (case sock_send_buf rs1 (concat (map cdr_bytes cdr_arr)) of
                        Returned (ret2, out2, rs2) \<Rightarrow>
                          Returned (if ret2 = -1 then -1 else 0, out @ out2, rs2, r')
                      | Undefined \<Rightarrow> Undefined
                      | Running \<Rightarrow> Running))
           | Undefined \<Rightarrow> Undefined
           | Running \<Rightarrow> Running))"

lemma sock_send_buf_complete: "sock_send_buf rs buf = Returned (0, out, rs') \<Longrightarrow> out = buf"
proof (induction rs buf arbitrary: out rule: sock_send_buf.induct)
  case (3 ret rs b bs)
  from 3(2) obtain out' where "\<not> ret < 0" "sock_send_buf rs (drop (nat ret) (b # bs)) = Returned (0, out', rs')"
    "out = take (nat ret) (b # bs) @ out'"
    by (auto split: if_splits loop_result.splits prod.splits simp del: drop.simps take.simps)
  with 3(1)[of out'] show ?case by (simp only: not_False_eq_True simp_thms append_take_drop_id)
qed simp_all

lemma sock_send_buf_ret: "sock_send_buf rs buf = Returned (c, out, rs') \<Longrightarrow> c = 0 \<or> c = -1"
  by (induction rs buf arbitrary: out rule: sock_send_buf.induct)
    (auto split: if_splits loop_result.splits)

lemma sock_send_buf_no_undef: "sock_send_buf rs buf \<noteq> Undefined"
  by (induction rs buf rule: sock_send_buf.induct) (auto split: loop_result.splits)

lemma sock_send_buf_progress:
  "\<forall>r \<in> set rs. 0 < r \<Longrightarrow> length buf \<le> length rs \<Longrightarrow>
     \<exists>rs'. sock_send_buf rs buf = Returned (0, buf, rs') \<and> length rs - length buf \<le> length rs' \<and> set rs' \<subseteq> set rs"
proof (induction rs buf rule: sock_send_buf.induct)
  case (1 rs)
  then show ?case by simp
next
  case (2 b bs)
  then show ?case by simp
next
  case (3 ret rs b bs)
  then have ret: "0 < ret" "\<not> ret < 0" by auto
  have "length (drop (nat ret) (b # bs)) \<le> length rs" using 3(3) ret by simp
  moreover have "\<forall>r \<in> set rs. 0 < r" using 3(2) by simp
  ultimately obtain rs' where r: "sock_send_buf rs (drop (nat ret) (b # bs)) = Returned (0, drop (nat ret) (b # bs), rs')"
    "length rs - length (drop (nat ret) (b # bs)) \<le> length rs'" "set rs' \<subseteq> set rs" using 3(1)[OF ret(2)] by blast
  have "length (ret # rs) - length (b # bs) \<le> length rs'" using r(2) 3(3) ret(1) by simp
  then show ?case using r(1,3) ret(2) by (auto simp del: drop.simps take.simps drop_Suc_Cons)
qed

text \<open>The peer's side of the format, to state what the bytes mean: a header, then records.\<close>

definition parse_cdr :: "u8 list \<Rightarrow> struct_cdr" where
  "parse_cdr bs = \<lparr>cdr_callid = le_of (take 8 bs), cdr_time = sint (le_of (take 8 (drop 8 bs)) :: u64),
     cdr_path = le_of (take 2 (drop 16 bs)), cdr_callflag = bs ! 18, cdr_ruleflag = bs ! 19,
     cdr_recv3 = le_of (take 4 (drop 20 bs))\<rparr>"

fun parse_cdrs :: "nat \<Rightarrow> u8 list \<Rightarrow> (struct_cdr list \<times> u8 list) option" where
  "parse_cdrs 0 bs = Some ([], bs)"
| "parse_cdrs (Suc n) bs =
     (if length bs < 24 then None
      else do {(cs, rest) \<leftarrow> parse_cdrs n (drop 24 bs); Some (parse_cdr (take 24 bs) # cs, rest)})"

definition parse_cdr_msg :: "u8 list \<Rightarrow> (u16 \<times> struct_cdr list \<times> u8 list) option" where
  "parse_cdr_msg bs =
     (if length bs < 6 \<or> bs ! 1 \<noteq> 4 then None
      else do {
        (cs, rest) \<leftarrow> parse_cdrs (unat (bs ! 5)) (drop 6 bs);
        Some (be_of (take 2 (drop 2 bs)), cs, rest)})"

text \<open>A time that fits a \<open>time_t\<close> of 64 bits.\<close>

definition time_ok :: "struct_cdr \<Rightarrow> bool" where
  "time_ok c \<longleftrightarrow> - (2 ^ 63) \<le> cdr_time c \<and> cdr_time c < 2 ^ 63"

lemma length_cdr_bytes [simp]: "length (cdr_bytes c) = 24"
  by (simp add: cdr_bytes_def)

lemma parse_cdr_bytes:
  assumes "time_ok c"
  shows "parse_cdr (cdr_bytes c) = c"
proof -
  have "sint (word_of_int (cdr_time c) :: u64) = cdr_time c"
    using assms by (simp add: time_ok_def int_word_sint)
  moreover have "cdr_bytes c ! 18 = cdr_callflag c" "cdr_bytes c ! 19 = cdr_ruleflag c"
    by (simp_all add: cdr_bytes_def nth_append)
  ultimately show ?thesis by (simp add: parse_cdr_def cdr_bytes_def byte_simps)
qed

lemma parse_cdrs_bytes:
  "\<forall>c \<in> set cs. time_ok c \<Longrightarrow> parse_cdrs (length cs) (concat (map cdr_bytes cs) @ rest) = Some (cs, rest)"
  by (induction cs) (simp_all add: parse_cdr_bytes)

lemma low_byte: "ucast (k AND 255) = (ucast (k :: u16) :: u8)"
proof -
  have "k AND 255 = take_bit 8 k" by (simp add: take_bit_eq_mask mask_eq_exp_minus_1)
  then show ?thesis by (simp only:) (intro bit_word_eqI, auto simp: bit_simps)
qed

lemma parse_header:
  assumes "n < 256"
  shows "parse_cdr_msg (send_header k (of_nat n) @ bs) = do {(cs, rest) \<leftarrow> parse_cdrs n bs; Some (k, cs, rest)}"
proof -
  have "unat (ucast (of_nat n :: u16) :: u8) = n"
    using assms by (simp add: unsigned_ucast_eq unat_of_nat take_bit_eq_mod)
  moreover have "be_of [ucast (drop_bit 8 k), ucast (k AND 0xff)] = k"
  proof -
    have "[ucast (drop_bit 8 k), ucast (k AND 0xff)] = to_be 2 k"
      by (simp add: to_be_def eval_nat_numeral low_byte)
    then show ?thesis by (simp add: byte_simps)
  qed
  ultimately show ?thesis by (simp add: parse_cdr_msg_def send_header_def)
qed


text \<open>
  C4. What the peer reads is what the ring holds. When \<open>cdr_send\<close> returns 0 with records
  waiting, however the socket split the bytes, they are one message whose sequence number
  is the index of the first record, whose count is between 1 and 16, and whose records are
  the next unsent ones; the ring then counts them as sent.
\<close>

theorem cdr_send_wire:
  assumes "ring_inv r" and "sent r \<noteq> length (items r)" and "\<forall>c \<in> set (items r). time_ok c"
    and "cdr_send rs r = Returned (0, out, rs', r')"
  shows "\<exists>n. 0 < n \<and> n \<le> 16 \<and> parse_cdr_msg out = Some (ring_send r, take n (drop (sent r) (items r)), []) \<and>
     items r' = items r \<and> sent r' = sent r + n \<and> ring_inv r'"
proof -
  obtain s xs where t: "cdr_take r = Some (Some (ring_send r, xs), s)" "xs = take (length xs) (drop (sent r) (items r))"
    "length xs \<le> 16" "0 < length xs" "items s = items r" "sent s = sent r + length xs" "ring_inv s"
    using take_batch[OF assms(1)] assms(2) by fastforce
  from assms(4) t(1) obtain c1 o1 rs1 c2 o2 rs2 where
    "sock_send_buf rs (send_header (ring_send r) (of_nat (length xs))) = Returned (c1, o1, rs1)"
    "sock_send_buf rs1 (concat (map cdr_bytes xs)) = Returned (c2, o2, rs2)" "c1 \<noteq> -1" "c2 \<noteq> -1"
    "out = o1 @ o2" "r' = s"
    by (auto simp: cdr_send_def split: loop_result.splits if_splits)
  then have s: "sock_send_buf rs (send_header (ring_send r) (of_nat (length xs))) = Returned (0, o1, rs1)"
    "sock_send_buf rs1 (concat (map cdr_bytes xs)) = Returned (0, o2, rs2)" "out = o1 @ o2" "r' = s"
    using sock_send_buf_ret by blast+
  have o: "out = send_header (ring_send r) (of_nat (length xs)) @ concat (map cdr_bytes xs)"
    using s sock_send_buf_complete by metis
  have "set xs \<subseteq> set (items r)"
    using t(2) set_take_subset[of "length xs" "drop (sent r) (items r)"] set_drop_subset[of "sent r" "items r"] by force
  then have "parse_cdrs (length xs) (concat (map cdr_bytes xs) @ []) = Some (xs, [])"
    using assms(3) by (intro parse_cdrs_bytes) blast
  then have "parse_cdr_msg out = Some (ring_send r, xs, [])"
    using t(3) by (simp add: o parse_header)
  then show ?thesis using t s(4) by (intro exI[of _ "length xs"]) (simp only: simp_thms)
qed

theorem cdr_send_wire_witness:
  "\<exists>n. 0 < n \<and> n \<le> (16::nat) \<and>
     parse_cdr_msg (send_header 1 1 @ cdr_bytes zero_cdr) =
       Some (1, take n (drop (sent (cdr_insert zero_cdr cdr_init)) (items (cdr_insert zero_cdr cdr_init))), [])"
proof -
  let ?r = "cdr_insert zero_cdr cdr_init"
  have i: "items ?r = [zero_cdr]" "sent ?r = 0" "ring_inv ?r"
    using insert_room[of cdr_init zero_cdr] init_ring insert_inv[OF init_ring(1)]
    by (auto simp: unacked_def cdr_init_def)
  have r: "ring_send ?r = 1" by (simp add: cdr_insert_def cdr_init_def)
  have "batch_len ?r = 1" "copy_records (cdr_buf ?r) 1 1 = Some [zero_cdr]" "ring_wait ?r = 2"
    by (simp_all add: batch_len_def copy_records_def cdr_insert_def cdr_init_def)
  then have t: "cdr_take ?r = Some (Some (1, [zero_cdr]), ?r\<lparr>ring_send := 2\<rparr>)"
    by (simp add: cdr_take_def r)
  have h: "sock_send_buf [6, 24] (send_header 1 1) = Returned (0, send_header 1 1, [24])"
    by (simp add: send_header_def)
  have "sock_send_buf [24] (cdr_bytes zero_cdr) = Returned (0, cdr_bytes zero_cdr, [])"
    by (cases "cdr_bytes zero_cdr") (use length_cdr_bytes[of zero_cdr] in \<open>auto simp del: length_cdr_bytes\<close>)
  with h t have c: "cdr_send [6, 24] ?r =
      Returned (0, send_header 1 1 @ cdr_bytes zero_cdr, [], ?r\<lparr>ring_send := 2\<rparr>)"
    by (simp add: cdr_send_def)
  have ok: "\<forall>c \<in> set (items ?r). time_ok c" unfolding i by (simp add: time_ok_def zero_cdr_def)
  have "sent ?r \<noteq> length (items ?r)" using i by simp
  from cdr_send_wire[OF i(3) this ok c] show ?thesis unfolding r by blast
qed

fun cdr_sends :: "nat \<Rightarrow> int list \<Rightarrow> cdr_ring \<Rightarrow> (int list \<times> cdr_ring) option" where
  "cdr_sends 0 rs r = Some (rs, r)"
| "cdr_sends (Suc k) rs r = (case cdr_send rs r of
       Returned (ret, out, rs', r') \<Rightarrow> if ret = 0 then cdr_sends k rs' r' else None
     | _ \<Rightarrow> None)"

lemma cdr_send_progress:
  assumes "ring_inv r" "\<forall>x \<in> set rs. 0 < x" "390 \<le> length rs"
  shows "\<exists>out rs' r'. cdr_send rs r = Returned (0, out, rs', r') \<and> ring_inv r' \<and> items r' = items r \<and>
     unacked r - sent r' \<le> unacked r - sent r - 1 \<and> length rs - 390 \<le> length rs' \<and> set rs' \<subseteq> set rs"
proof (cases "sent r = unacked r")
  case True
  then show ?thesis using take_nothing[OF True] assms by (simp add: cdr_send_def)
next
  case False
  from take_batch[OF assms(1) False] obtain r' xs where t: "cdr_take r = Some (Some (ring_send r, xs), r')"
    "length xs \<le> 16" "0 < length xs" "items r' = items r" "sent r' = sent r + length xs" "ring_inv r'" by auto
  let ?h = "send_header (ring_send r) (of_nat (length xs))"
  have h: "length ?h = 6" by (simp add: send_header_def)
  have "length ?h \<le> length rs" using assms(3) h by simp
  from sock_send_buf_progress[OF assms(2) this] obtain rs1 where s: "sock_send_buf rs ?h = Returned (0, ?h, rs1)"
    "length rs - 6 \<le> length rs1" "set rs1 \<subseteq> set rs" unfolding h by blast
  let ?d = "concat (map cdr_bytes xs)"
  have d: "length ?d = 24 * length xs" by (induction xs) auto
  have "length ?d \<le> length rs1" using s(2) assms(3) t(2) d by simp
  moreover have "\<forall>x \<in> set rs1. 0 < x" using s(3) assms(2) by blast
  ultimately obtain rs2 where s2: "sock_send_buf rs1 ?d = Returned (0, ?d, rs2)"
    "length rs1 - length ?d \<le> length rs2" "set rs2 \<subseteq> set rs1" using sock_send_buf_progress by blast
  have "length rs - 390 \<le> length rs2" using s(2) s2(2) d t(2) by simp
  moreover have "cdr_send rs r = Returned (0, ?h @ ?d, rs2, r')" by (simp add: cdr_send_def t(1) s(1) s2(1))
  moreover have "unacked r - sent r' \<le> unacked r - sent r - 1" using t(3,5) by arith
  ultimately show ?thesis using t(4,6) s(3) s2(3) by (meson subset_trans)
qed

text \<open>
  A waiting record is not stuck. When every \<open>send\<close> of the socket takes at least one
  byte, a call of \<open>cdr_send\<close> with records waiting returns 0 and marks at least one more of
  them as sent, so \<open>k\<close> calls leave nothing to send once \<open>k\<close> is the number of waiting records.
\<close>

theorem cdr_drains:
  assumes "ring_inv r" and "\<forall>x \<in> set rs. 0 < x" and "390 * k \<le> length rs" and "length (items r) - sent r \<le> k"
  shows "\<exists>rs' r'. cdr_sends k rs r = Some (rs', r') \<and> items r' = items r \<and> sent r' = length (items r')"
  using assms
proof (induction k arbitrary: rs r)
  case 0
  then show ?case by (simp add: ring_inv_def)
next
  case (Suc k)
  have "390 \<le> length rs" using Suc.prems(3) by simp
  from cdr_send_progress[OF Suc.prems(1,2) this] obtain out rs' r' where
    c: "cdr_send rs r = Returned (0, out, rs', r')" "ring_inv r'" "items r' = items r"
    "unacked r - sent r' \<le> unacked r - sent r - 1" "length rs - 390 \<le> length rs'" "set rs' \<subseteq> set rs" by blast
  have "\<forall>x \<in> set rs'. 0 < x" "390 * k \<le> length rs'" "length (items r') - sent r' \<le> k"
    using c Suc.prems by auto
  from Suc.IH[OF c(2) this] c(1,3) show ?case by simp
qed

theorem cdr_drains_witness:
  "\<exists>rs' r'. cdr_sends 1 (replicate 390 1) (cdr_insert zero_cdr cdr_init) = Some (rs', r') \<and>
     items r' = [zero_cdr] \<and> sent r' = 1"
proof -
  have i: "ring_inv (cdr_insert zero_cdr cdr_init)" "items (cdr_insert zero_cdr cdr_init) = [zero_cdr]"
    using insert_room[of cdr_init zero_cdr] init_ring insert_inv[OF init_ring(1)] by (auto simp: unacked_def cdr_init_def)
  have p: "\<forall>x \<in> set (replicate 390 (1 :: int)). 0 < x" "390 * 1 \<le> length (replicate 390 (1 :: int))" by simp_all
  have "length (items (cdr_insert zero_cdr cdr_init)) - sent (cdr_insert zero_cdr cdr_init) \<le> 1"
    unfolding i by simp
  from cdr_drains[OF i(1) p this] i(2) show ?thesis by fastforce
qed

subsection \<open>The thread\<close>

record conn_cdr =
  sockfd :: int
  conn_times :: u32
  remain_len :: u32
  recv_len :: u32
  recv_data :: "u8 list"
  g_cdr_buff :: cdr_ring

text \<open>
  What the system answers during one turn of the loop: whether the stop flag and the reload
  flag are set, the result of \<open>connect2cdr\<close>, the result of \<open>select\<close>, what \<open>recv\<close> delivers
  (\<^const>\<open>None\<close> is an error, no bytes a closed connection), and the results of \<open>send\<close>.
\<close>

record cdr_env =
  e_done :: bool
  e_reload :: bool
  e_connect :: int
  e_select :: int
  e_recv :: "u8 list option"
  e_send :: "int list"

text \<open>\<open>recv\<close> delivers no more bytes than it was asked for.\<close>

definition recv_ok :: "conn_cdr \<Rightarrow> cdr_env \<Rightarrow> bool" where
  "recv_ok c e \<longleftrightarrow> (case e_recv e of None \<Rightarrow> True | Some bs \<Rightarrow> length bs \<le> unat (remain_len c))"

definition conn_cdr_start :: "u8 list \<Rightarrow> conn_cdr" where
  "conn_cdr_start raw = \<lparr>sockfd = -1, conn_times = 0, remain_len = 4, recv_len = 0, recv_data = raw,
     g_cdr_buff = cdr_init\<rparr>"

definition cdr_command :: "conn_cdr \<Rightarrow> conn_cdr option" where
  "cdr_command c = do {
     cmd \<leftarrow> rd (recv_data c) 1;
     c1 \<leftarrow> (if cmd = 5 then do {
         p0 \<leftarrow> rd (recv_data c) 2;
         p1 \<leftarrow> rd (recv_data c) 3;
         Some (c\<lparr>g_cdr_buff := cdr_update_ack (push_bit 8 (ucast p0) + ucast p1) (g_cdr_buff c)\<rparr>)}
       else Some c);
     Some (c1\<lparr>remain_len := 4, recv_len := 0\<rparr>)}"

definition cdr_recv :: "u8 list option \<Rightarrow> conn_cdr \<Rightarrow> conn_cdr option" where
  "cdr_recv got c =
     (if remain_len c = 0 then cdr_command c
      else (case got of
          None \<Rightarrow> Some (c\<lparr>sockfd := -1\<rparr>)
        | Some bs \<Rightarrow>
            (if bs = [] then Some (c\<lparr>sockfd := -1\<rparr>)
             else do {
               d \<leftarrow> wr_n (recv_data c) (unat (recv_len c)) bs;
               let c1 = c\<lparr>recv_data := d, remain_len := remain_len c - of_nat (length bs),
                          recv_len := recv_len c + of_nat (length bs)\<rparr>;
               if remain_len c1 = 0 then cdr_command c1 else Some c1})))"

definition cdr_connect :: "cdr_env \<Rightarrow> conn_cdr \<Rightarrow> conn_cdr" where
  "cdr_connect e c =
     (let c1 = (if e_reload e then c\<lparr>sockfd := -1\<rparr> else c) in
      if sockfd c1 = -1
      then (let c2 = c1\<lparr>sockfd := e_connect e\<rparr> in
            if e_connect e = -1
            then c2\<lparr>conn_times := if 60 \<le> conn_times c2 + 1 then 0 else conn_times c2 + 1\<rparr>
            else c2\<lparr>g_cdr_buff := cdr_reset_send (g_cdr_buff c2)\<rparr>)
      else c1)"

text \<open>One turn: \<^const>\<open>None\<close> in the result when the loop ends, else the bytes sent and the state.\<close>

definition conn_cdr_iter :: "cdr_env \<Rightarrow> conn_cdr \<Rightarrow> (u8 list \<times> conn_cdr) option loop_result" where
  "conn_cdr_iter e c =
     (if e_done e then Returned None
      else (let c1 = cdr_connect e c in
        if sockfd c1 = -1 then Returned (Some ([], c1))
        else (case (if 0 < e_select e then cdr_recv (e_recv e) c1 else Some c1) of
            None \<Rightarrow> Undefined
          | Some c2 \<Rightarrow>
              (if sockfd c2 = -1 then Returned (Some ([], c2))
               else (case cdr_send (e_send e) (g_cdr_buff c2) of
                   Returned (ret, out, _, r) \<Rightarrow>
                     Returned (Some (out, c2\<lparr>g_cdr_buff := r, sockfd := if ret \<noteq> 0 then -1 else sockfd c2\<rparr>))
                 | Undefined \<Rightarrow> Undefined
                 | Running \<Rightarrow> Running)))))"

text \<open>The bytes of an acknowledgement received so far, and the state between two turns.\<close>

definition pend :: "conn_cdr \<Rightarrow> u8 list" where
  "pend c = take (unat (recv_len c)) (recv_data c)"

definition conn_inv :: "conn_cdr \<Rightarrow> bool" where
  "conn_inv c \<longleftrightarrow> unat (remain_len c) + unat (recv_len c) = 4 \<and> remain_len c \<noteq> 0 \<and>
     length (recv_data c) = 4 \<and> ring_inv (g_cdr_buff c)"

lemma length_pend: "conn_inv c \<Longrightarrow> length (pend c) = unat (recv_len c)"
  by (simp add: conn_inv_def pend_def)

text \<open>What the stream of one connection means: a number in each group of four bytes.\<close>

fun apply_frames :: "u8 list \<Rightarrow> cdr_ring \<Rightarrow> cdr_ring" where
  "apply_frames (a # b # p0 # p1 # rest) r =
     apply_frames rest (if b = 5 then cdr_update_ack (push_bit 8 (ucast p0) + ucast p1) r else r)"
| "apply_frames _ r = r"

lemma apply_frames_short: "length bs < 4 \<Longrightarrow> apply_frames bs r = r"
  by (cases "(bs, r)" rule: apply_frames.cases) auto

lemma length_4: "length bs = 4 \<longleftrightarrow> (\<exists>a b c d. bs = [a, b, c, d])"
  by (auto simp: eval_nat_numeral length_Suc_conv)

lemma ack_inv: "ring_inv r \<Longrightarrow> ring_inv (cdr_update_ack a r)"
  using ack_cases by metis

lemma cdr_recv_chunk:
  assumes "conn_inv c" "bs \<noteq> []" "length bs \<le> unat (remain_len c)"
  shows "\<exists>c'. cdr_recv (Some bs) c = Some c' \<and> conn_inv c' \<and> sockfd c' = sockfd c \<and>
     length (pend c') < 4 \<and> (\<forall>rest. apply_frames (pend c' @ rest) (g_cdr_buff c') =
       apply_frames (pend c @ bs @ rest) (g_cdr_buff c)) \<and>
     (\<exists>done. pend c @ bs = done @ pend c' \<and> length done mod 4 = 0)"
proof -
  let ?l = "unat (recv_len c)" and ?k = "length bs"
  have i: "unat (remain_len c) + ?l = 4" "remain_len c \<noteq> 0" "length (recv_data c) = 4" "ring_inv (g_cdr_buff c)"
    using assms(1) by (auto simp: conn_inv_def)
  define d where "d = take ?l (recv_data c) @ bs @ drop (?l + ?k) (recv_data c)"
  let ?c1 = "c\<lparr>recv_data := d, remain_len := remain_len c - of_nat ?k, recv_len := recv_len c + of_nat ?k\<rparr>"
  have w: "wr_n (recv_data c) ?l bs = Some d" using i assms(3) by (simp add: wr_n_def d_def)
  have ld: "length d = 4" using wr_n_length[OF w] i(3) by simp
  have bk: "unat (of_nat ?k :: u32) = ?k" using i(1) assms(3) by (simp add: unat_of_nat)
  have rem: "unat (remain_len c - of_nat ?k) = unat (remain_len c) - ?k"
    using assms(3) bk by (simp add: unat_sub word_le_nat_alt)
  have rl: "unat (recv_len c + of_nat ?k) = ?l + ?k"
    using i(1) assms(3) bk by (subst unat_add_lem[THEN iffD1]) auto
  have pd: "take (?l + ?k) d = pend c @ bs" using i assms(3) by (simp add: d_def pend_def)
  show ?thesis
  proof (cases "?k = unat (remain_len c)")
    case True
    then have z: "remain_len c - of_nat ?k = 0" by simp
    have "?l + ?k = 4" using i(1) True by linarith
    then have "take 4 d = pend c @ bs" using pd by (simp only:)
    then have dp: "d = pend c @ bs" using ld by simp
    obtain a b p0 p1 where d4: "d = [a, b, p0, p1]" using length_4[THEN iffD1, OF ld] by blast
    have full: "pend c @ bs = [a, b, p0, p1]" by (rule trans[OF dp[symmetric] d4])
    let ?r = "if b = 5 then cdr_update_ack (push_bit 8 (ucast p0) + ucast p1) (g_cdr_buff c) else g_cdr_buff c"
    let ?c' = "c\<lparr>recv_data := d, g_cdr_buff := ?r, remain_len := 4, recv_len := 0\<rparr>"
    have cmd: "cdr_command ?c1 = Some ?c'" by (simp add: cdr_command_def rd_def d4)
    have "remain_len ?c1 = 0" using z by simp
    then have e: "cdr_recv (Some bs) c = Some ?c'"
      using w i(2) assms(2) by (simp only: cdr_recv_def Let_def cmd option.case if_False if_True bind.bind_lunit) simp
    have f: "pend c @ bs @ rest = a # b # p0 # p1 # rest" for rest
      using full by (simp only: append_assoc[symmetric] append.simps)
    have "pend ?c' = []" by (simp add: pend_def)
    moreover have "conn_inv ?c'" using i(4) ld by (simp add: conn_inv_def ack_inv)
    moreover have "apply_frames rest ?r = apply_frames (pend c @ bs @ rest) (g_cdr_buff c)" for rest
      unfolding f by simp
    ultimately show ?thesis using e full
      by (intro exI[of _ ?c']) (simp only: append_Nil append_Nil2 list.size; simp)
  next
    case False
    then have nz: "remain_len c - of_nat ?k \<noteq> 0"
      using rem assms(3) by (metis diff_is_0_eq le_antisym unsigned_0)
    then have e: "cdr_recv (Some bs) c = Some ?c1" using w i(2) assms(2) by (simp add: cdr_recv_def)
    have "pend ?c1 = pend c @ bs" using pd rl by (simp add: pend_def)
    moreover have "conn_inv ?c1" using i rem rl ld nz assms(3) by (simp add: conn_inv_def)
    moreover have "length (pend c @ bs) < 4" using length_pend[OF assms(1)] i(1) False assms(3) by simp
    ultimately show ?thesis using e by (intro exI[of _ ?c1]) auto
  qed
qed


text \<open>Several turns that receive, and what \<open>recv\<close> may deliver in each.\<close>

fun recv_chunks :: "u8 list list \<Rightarrow> conn_cdr \<Rightarrow> conn_cdr option" where
  "recv_chunks [] c = Some c"
| "recv_chunks (bs # css) c = do {c' \<leftarrow> cdr_recv (Some bs) c; recv_chunks css c'}"

fun chunks_ok :: "u8 list list \<Rightarrow> conn_cdr \<Rightarrow> bool" where
  "chunks_ok [] c \<longleftrightarrow> True"
| "chunks_ok (bs # css) c \<longleftrightarrow> bs \<noteq> [] \<and> length bs \<le> unat (remain_len c) \<and>
     (case cdr_recv (Some bs) c of None \<Rightarrow> False | Some c' \<Rightarrow> chunks_ok css c')"

lemma recv_chunks_frames:
  assumes "conn_inv c" "chunks_ok css c"
  shows "\<exists>c'. recv_chunks css c = Some c' \<and> conn_inv c' \<and> sockfd c' = sockfd c \<and> length (pend c') < 4 \<and>
     g_cdr_buff c' = apply_frames (pend c @ concat css) (g_cdr_buff c) \<and>
     (\<exists>done. pend c @ concat css = done @ pend c' \<and> length done mod 4 = 0)"
  using assms
proof (induction css arbitrary: c)
  case Nil
  have "unat (recv_len c) < 4"
    using Nil.prems(1) unsigned_eq_0_iff[of "remain_len c"] by (auto simp: conn_inv_def)
  then have "length (pend c) < 4" using length_pend[OF Nil.prems(1)] by simp
  then show ?case using Nil by (simp add: apply_frames_short)
next
  case (Cons bs css)
  have b: "bs \<noteq> []" "length bs \<le> unat (remain_len c)" using Cons.prems(2) by auto
  from cdr_recv_chunk[OF Cons.prems(1) b] obtain c1 dn where c1: "cdr_recv (Some bs) c = Some c1" "conn_inv c1"
    "sockfd c1 = sockfd c" "\<forall>rest. apply_frames (pend c1 @ rest) (g_cdr_buff c1) =
       apply_frames (pend c @ bs @ rest) (g_cdr_buff c)" "pend c @ bs = dn @ pend c1" "length dn mod 4 = 0"
    by (elim exE conjE) (rule that)
  have "chunks_ok css c1" using Cons.prems(2) c1(1) by simp
  from Cons.IH[OF c1(2) this] obtain c2 dn2 where c2: "recv_chunks css c1 = Some c2" "conn_inv c2"
    "sockfd c2 = sockfd c1" "length (pend c2) < 4"
    "g_cdr_buff c2 = apply_frames (pend c1 @ concat css) (g_cdr_buff c1)"
    "pend c1 @ concat css = dn2 @ pend c2" "length dn2 mod 4 = 0" by (elim exE conjE) (rule that)
  have "pend c @ concat (bs # css) = (dn @ dn2) @ pend c2"
    unfolding concat.simps append_assoc[symmetric] c1(5) by (simp only: append_assoc c2(6))
  moreover have "length (dn @ dn2) mod 4 = 0"
    unfolding length_append using c1(6) c2(7) by presburger
  moreover have "g_cdr_buff c2 = apply_frames (pend c @ concat (bs # css)) (g_cdr_buff c)"
    unfolding c2(5) concat.simps by (rule c1(4)[rule_format])
  moreover have "recv_chunks (bs # css) c = Some c2" using c1(1) c2(1) by simp
  moreover have "sockfd c2 = sockfd c" using c1(3) c2(3) by (simp only:)
  ultimately show ?case using c2(2,4) by (intro exI[of _ c2] conjI exI[of _ "dn @ dn2"])
qed

text \<open>
  C22. Acknowledgements are framed by position, not by how TCP cuts the stream. Whatever
  the pieces in which the bytes arrive, the ring afterwards is the ring to which every
  complete group of four bytes of the stream, counted from the bytes already held, was
  applied in order, and the state keeps exactly the incomplete rest.
\<close>

theorem cdr_ack_framing:
  assumes "conn_inv c" and "chunks_ok css c"
  shows "\<exists>c' done. recv_chunks css c = Some c' \<and> conn_inv c' \<and>
     g_cdr_buff c' = apply_frames (pend c @ concat css) (g_cdr_buff c) \<and>
     pend c @ concat css = done @ pend c' \<and> length done mod 4 = 0 \<and> length (pend c') < 4"
  using recv_chunks_frames[OF assms] by (elim exE conjE) (intro exI conjI)

lemma start_inv: "length raw = 4 \<Longrightarrow> conn_inv (conn_cdr_start raw)"
  by (simp add: conn_inv_def conn_cdr_start_def init_ring)

theorem cdr_ack_framing_witness:
  "\<exists>c' done. recv_chunks [[0, 5, 0], [0], [0, 5]] (conn_cdr_start [0, 0, 0, 0]) = Some c' \<and> conn_inv c' \<and>
     g_cdr_buff c' = apply_frames [0, 5, 0, 0, 0, 5] cdr_init \<and>
     [0, 5, 0, 0, 0, 5] = done @ pend c' \<and> length done mod 4 = 0 \<and> length (pend c') < 4"
proof -
  have "chunks_ok [[0, 5, 0], [0], [0, 5]] (conn_cdr_start [0, 0, 0, 0])"
    by (simp add: conn_cdr_start_def cdr_recv_def cdr_command_def wr_n_def rd_def)
  moreover have "pend (conn_cdr_start [0, 0, 0, 0]) = []" "g_cdr_buff (conn_cdr_start [0, 0, 0, 0]) = cdr_init"
    by (simp_all add: pend_def conn_cdr_start_def)
  moreover have "conn_inv (conn_cdr_start [0, 0, 0, 0])" by (rule start_inv) simp
  ultimately show ?thesis using cdr_ack_framing[of "conn_cdr_start [0, 0, 0, 0]" "[[0, 5, 0], [0], [0, 5]]"]
    by (simp del: recv_chunks.simps apply_frames.simps)
qed

definition ack_frame :: "u16 \<Rightarrow> u8 list" where
  "ack_frame a = [0, 5, ucast (drop_bit 8 a), ucast a]"

lemma apply_frames_shifted: "apply_frames (b # concat (map ack_frame as)) r = r"
proof (induction as arbitrary: b)
  case Nil
  then show ?case by simp
next
  case (Cons a as)
  then show ?case by (simp add: ack_frame_def)
qed

text \<open>
  A connection that breaks inside an acknowledgement makes the next one deaf. The
  counters of the partial frame survive the reconnection; with one byte held, every
  well-formed acknowledgement of the new connection is cut one byte too early and none is
  applied, whatever the peer acknowledges.
\<close>

theorem cdr_reconnect_desync:
  assumes "conn_inv c" and "recv_len c = 1" and "e_recv e = None" and "e_connect e2 \<noteq> -1"
    and "cdr_recv (e_recv e) c = Some c1" and "c2 = cdr_connect e2 c1" and "chunks_ok css c2"
    and "concat css = concat (map ack_frame as)"
  shows "\<exists>c3. recv_chunks css c2 = Some c3 \<and> g_cdr_buff c3 = cdr_reset_send (g_cdr_buff c)"
proof -
  have c1: "c1 = c\<lparr>sockfd := -1\<rparr>" using assms(1,3,5) by (simp add: cdr_recv_def conn_inv_def)
  have c2: "c2 = c\<lparr>sockfd := e_connect e2, g_cdr_buff := cdr_reset_send (g_cdr_buff c)\<rparr>"
    using assms(4) by (simp add: assms(6) c1 cdr_connect_def Let_def)
  have i: "conn_inv c2" using assms(1) reset_inv by (simp add: c2 conn_inv_def)
  have "length (pend c2) = 1" using length_pend[OF i] assms(2) by (simp add: c2)
  then obtain b where b: "pend c2 = [b]" by (auto simp: length_Suc_conv)
  from recv_chunks_frames[OF i assms(7)] obtain c3 where
    "recv_chunks css c2 = Some c3" "g_cdr_buff c3 = apply_frames (pend c2 @ concat css) (g_cdr_buff c2)" by blast
  then have "g_cdr_buff c3 = g_cdr_buff c2" by (simp add: b assms(8) apply_frames_shifted)
  then show ?thesis using \<open>recv_chunks css c2 = Some c3\<close> by (simp add: c2)
qed

theorem cdr_reconnect_desync_witness:
  "\<exists>c3. recv_chunks [[0, 5, 0], [0]]
       (cdr_connect \<lparr>e_done = False, e_reload = False, e_connect = 7, e_select = 0, e_recv = None, e_send = []\<rparr>
         ((conn_cdr_start [0, 0, 0, 0])\<lparr>remain_len := 3, recv_len := 1\<rparr>)) = Some c3 \<and>
     g_cdr_buff c3 = cdr_reset_send cdr_init"
proof -
  let ?e = "\<lparr>e_done = False, e_reload = False, e_connect = 7, e_select = 0, e_recv = None, e_send = []\<rparr>"
  let ?c = "(conn_cdr_start [0, 0, 0, 0])\<lparr>remain_len := 3, recv_len := 1\<rparr>"
  have i: "conn_inv ?c" by (simp add: conn_inv_def conn_cdr_start_def init_ring)
  have "cdr_recv (e_recv ?e) ?c = Some ?c" by (simp add: cdr_recv_def conn_cdr_start_def)
  moreover have "chunks_ok [[0, 5, 0], [0]] (cdr_connect ?e ?c)"
    by (simp add: cdr_connect_def conn_cdr_start_def cdr_recv_def cdr_command_def wr_n_def rd_def)
  moreover have "concat [[0, 5, 0], [0]] = concat (map ack_frame [0])" by (simp add: ack_frame_def)
  ultimately show ?thesis
    using cdr_reconnect_desync[OF i, of ?e ?e ?c "cdr_connect ?e ?c" "[[0, 5, 0], [0]]" "[0]"]
    by (simp add: conn_cdr_start_def del: recv_chunks.simps)
qed

lemma cdr_recv_safe:
  assumes "conn_inv c" and "case got of None \<Rightarrow> True | Some bs \<Rightarrow> length bs \<le> unat (remain_len c)"
  shows "\<exists>c'. cdr_recv got c = Some c' \<and> conn_inv c'"
proof (cases "got = None \<or> got = Some []")
  case True
  then have "cdr_recv got c = Some (c\<lparr>sockfd := -1\<rparr>)"
    using assms(1) by (auto simp: cdr_recv_def conn_inv_def)
  then show ?thesis using assms(1) by (simp add: conn_inv_def)
next
  case False
  then obtain bs where "got = Some bs" "bs \<noteq> []" by auto
  with assms cdr_recv_chunk[of c bs] show ?thesis by auto
qed

lemma cdr_send_inv:
  assumes "ring_inv r"
  shows "cdr_send rs r \<noteq> Undefined" and "cdr_send rs r = Returned (ret, out, rs', r') \<Longrightarrow> ring_inv r'"
proof -
  obtain o' r1 where t: "cdr_take r = Some (o', r1)" "ring_inv r1"
    using spool.tak_law[OF assms] by blast
  show "cdr_send rs r \<noteq> Undefined"
    by (auto simp: cdr_send_def t(1) sock_send_buf_no_undef split: option.splits loop_result.splits)
  show "ring_inv r'" if "cdr_send rs r = Returned (ret, out, rs', r')"
    using that t(2) by (auto simp: cdr_send_def t(1) split: option.splits loop_result.splits if_splits)
qed

lemma cdr_connect_inv: "conn_inv c \<Longrightarrow> conn_inv (cdr_connect e c)" "remain_len (cdr_connect e c) = remain_len c"
  by (simp_all add: cdr_connect_def Let_def conn_inv_def reset_inv)

lemma cdr_iter_ok:
  assumes "conn_inv c" and "recv_ok c e"
  shows "conn_cdr_iter e c \<noteq> Undefined \<and>
     (\<forall>out c'. conn_cdr_iter e c = Returned (Some (out, c')) \<longrightarrow> conn_inv c')"
proof -
  let ?c1 = "cdr_connect e c"
  have i: "conn_inv ?c1" using assms(1) by (rule cdr_connect_inv(1))
  have "case e_recv e of None \<Rightarrow> True | Some bs \<Rightarrow> length bs \<le> unat (remain_len ?c1)"
    using assms(2) by (simp only: recv_ok_def cdr_connect_inv(2))
  from cdr_recv_safe[OF i this] obtain c2 where
    c2: "(if 0 < e_select e then cdr_recv (e_recv e) ?c1 else Some ?c1) = Some c2" "conn_inv c2"
    using i by (cases "0 < e_select e") auto
  have r: "ring_inv (g_cdr_buff c2)" using c2(2) by (simp add: conn_inv_def)
  have "conn_inv (c2\<lparr>g_cdr_buff := r', sockfd := k\<rparr>)" if "ring_inv r'" for r' k
    using that c2(2) by (simp add: conn_inv_def)
  then show ?thesis using i c2 cdr_send_inv[OF r]
    by (auto simp: conn_cdr_iter_def Let_def split: loop_result.splits)
qed

text \<open>
  The thread does nothing undefined. From its start, whatever the system answers, as long as
  \<open>recv\<close> delivers no more than it was asked for, no turn of its loop reads or writes outside
  \<open>recv_data\<close> or the ring, and the invariant holds after it: the ring is consistent, and
  between turns \<open>remain_len\<close> is never 0, so the first branch on it is dead.
\<close>

theorem cdr_thread_safe:
  assumes "conn_inv c" and "recv_ok c e"
  shows "conn_cdr_iter e c \<noteq> Undefined \<and>
     (\<forall>out c'. conn_cdr_iter e c = Returned (Some (out, c')) \<longrightarrow> conn_inv c')"
  using assms by (rule cdr_iter_ok)

theorem cdr_thread_safe_witness:
  "conn_cdr_iter \<lparr>e_done = False, e_reload = False, e_connect = 7, e_select = 1, e_recv = Some [0, 5], e_send = []\<rparr>
     (conn_cdr_start [0, 0, 0, 0]) \<noteq> Undefined"
  using cdr_thread_safe[OF start_inv, of "[0, 0, 0, 0]"
    "\<lparr>e_done = False, e_reload = False, e_connect = 7, e_select = 1, e_recv = Some [0, 5], e_send = []\<rparr>"]
  by (simp add: recv_ok_def conn_cdr_start_def)

end
