(* ===== verification/Voice_File.thy ===== *)
theory Voice_File
  imports File_Dirs Send_Cdr
begin

text \<open>
  The state of one recorded call and the operations on its two files, from
  \<open>src/src/voice_parser.c\<close>: \<open>get_filename\<close>, \<open>open_voice_file\<close>, \<open>write_voice_file\<close>,
  \<open>close_voice_file\<close>, \<open>send_voice_data\<close>, \<open>get_file_struct\<close>, \<open>cleanup_file_struct\<close> and
  \<open>encrypt_voice\<close>.

  A \<open>FILE *\<close> is a number; what the program does to files and sockets is a log of events, and
  the results of \<open>localtime_r\<close>, \<open>stat\<close>, \<open>fopen\<close> and \<open>write\<close> are parameters. A result of
  \<open>fopen\<close> or \<open>write\<close> may depend on the number of events before it.
\<close>

subsection \<open>Data\<close>

abbreviation VOICE_BUF_SIZE :: nat where "VOICE_BUF_SIZE \<equiv> 1024"
abbreviation MAX_BUF_NUM :: nat where "MAX_BUF_NUM \<equiv> 8"
abbreviation DATA_SIZE :: nat where "DATA_SIZE \<equiv> VOICE_BUF_SIZE * MAX_BUF_NUM"

text \<open>
  A mutex of the kind \<open>pthread_mutex_init\<close> makes without attributes: to unlock one that is not locked is undefined, and what is done
  with it afterwards, too. A thread that finds it locked waits; the turns of the model are taken one after the other, so this
  does not happen in them.
\<close>

datatype mutex = Mtx_free | Mtx_held | Mtx_bad

fun mutex_lock :: "mutex \<Rightarrow> mutex" where
  "mutex_lock Mtx_bad = Mtx_bad"
| "mutex_lock m = Mtx_held"

fun mutex_unlock :: "mutex \<Rightarrow> mutex" where
  "mutex_unlock Mtx_held = Mtx_free"
| "mutex_unlock m = Mtx_bad"

record voice_file_info =
  vf_callid :: u64
  filename_up :: string
  filename_down :: string
  data_up :: "u8 list"
  data_down :: "u8 list"
  data_count_up :: u32
  data_count_down :: u32
  fp_up :: "nat option"
  fp_down :: "nat option"
  case_mark :: u8
  data_mark :: u8
  up_no :: u8
  down_no :: u8
  up_lost :: u32
  down_lost :: u32
  tx_fd :: int
  cdr_node :: "addr option"
  vf_cdr :: struct_cdr
  fax_data_len_up :: u32
  fax_data_len_down :: u32
  update_time :: int
  up_end_flag :: u8
  down_end_flag :: u8
  vf_mutex :: mutex

text \<open>What \<open>memset\<close> to 0 makes of it; a zeroed mutex is an unlocked one.\<close>

definition zero_voice_file :: voice_file_info where
  "zero_voice_file = \<lparr>vf_callid = 0, filename_up = '''', filename_down = '''',
     data_up = replicate DATA_SIZE 0, data_down = replicate DATA_SIZE 0,
     data_count_up = 0, data_count_down = 0, fp_up = None, fp_down = None, case_mark = 0, data_mark = 0,
     up_no = 0, down_no = 0, up_lost = 0, down_lost = 0, tx_fd = 0, cdr_node = None, vf_cdr = zero_cdr,
     fax_data_len_up = 0, fax_data_len_down = 0, update_time = 0, up_end_flag = 0, down_end_flag = 0,
     vf_mutex = Mtx_free\<rparr>"

datatype io_event =
    Fopen string
  | Fwrite nat "u8 list"
  | Fclose nat
  | Write int "u8 list"
  | Close int

record vp_state =
  vp_counters :: counters
  vp_dirs :: file_dirs_info
  vp_dir_no :: u32
  vp_heap :: fax_heap
  vp_eq :: fax_queue
  vp_fq :: fax_queue
  vp_cdrs :: cdr_ring
  vp_log :: "io_event list"

record vp_env =
  env_time :: int
  env_cdr_time :: int
  env_localtime :: "int \<Rightarrow> tm option"
  env_is_reg :: "string \<Rightarrow> bool"
  env_fopen :: "nat \<Rightarrow> string \<Rightarrow> nat option"
  env_write :: "nat \<Rightarrow> int"

definition log_io :: "io_event \<Rightarrow> vp_state \<Rightarrow> vp_state" where
  "log_io e g = g\<lparr>vp_log := vp_log g @ [e]\<rparr>"

definition inc64 :: "u64 \<Rightarrow> u64" where "inc64 v = snd (atomic64_add v 1)"
definition dec64 :: "u64 \<Rightarrow> u64" where "dec64 v = snd (atomic64_sub v 1)"

lemma inc64_eq [simp]: "inc64 v = v + 1"
  by (simp add: inc64_def atomic64_defs sync_defs)

lemma dec64_eq [simp]: "dec64 v = v - 1"
  by (simp add: dec64_def atomic64_defs sync_defs)

subsection \<open>Slots\<close>

type_synonym slot = "u8 \<times> u8 \<times> u8"

definition get_file_struct :: "u64 \<Rightarrow> slot option" where
  "get_file_struct callid =
     (let sr = sr155_no callid; e1 = e1_no callid; ts = ts_no callid in
      if 64 \<le> sr \<or> 64 \<le> e1 \<or> 32 \<le> ts then None else Some (sr, e1, ts))"

definition init_voice_file :: "slot \<Rightarrow> voice_file_info" where
  "init_voice_file p = zero_voice_file"

lemma get_file_struct_slot: "get_file_struct callid = Some (sr155_no callid, e1_no callid, ts_no callid)"
  using sr155_no_lt[of callid] e1_no_lt[of callid] ts_no_lt[of callid]
  by (simp add: get_file_struct_def Let_def word_le_nat_alt)

text \<open>Every 64 bit call id has a slot: the bounds test of \<open>get_file_struct\<close> never fails.\<close>

theorem get_file_struct_total:
  "\<exists>p. get_file_struct callid = Some p \<and> p = (sr155_no callid, e1_no callid, ts_no callid)"
  by (simp add: get_file_struct_slot)

subsection \<open>Names of a new call\<close>

fun search_dirs :: "(file_dirs_node \<Rightarrow> bool) \<Rightarrow> file_dirs_node list \<Rightarrow> nat \<Rightarrow> nat \<Rightarrow> file_dirs_node option option" where
  "search_dirs found es i 0 = Some None"
| "search_dirs found es i (Suc k) = do {
     e \<leftarrow> rd es i;
     if found e then Some (Some e) else search_dirs found es (Suc i) k}"

definition use_dir :: "file_dirs_node \<Rightarrow> voice_file_info \<Rightarrow> voice_file_info" where
  "use_dir e f = f\<lparr>vf_cdr := (vf_cdr f)\<lparr>cdr_path := ucast (disk_num e)\<rparr>\<rparr>"

text \<open>
  The scan in \<open>get_root_dir\<close> gets one turn more than there are directories; one thread alone
  never needs them (\<open>get_root_dir_finds\<close>), and \<^const>\<open>None\<close> covers a scan that would go on.
\<close>

definition root_dir_of ::
  "voice_file_info \<Rightarrow> vp_state \<Rightarrow> (file_dirs_node option \<times> voice_file_info \<times> vp_state) option" where
  "root_dir_of f g =
     (let (r, no) = get_root_dir (Suc (unat (fd_num (vp_dirs g)))) (vp_dirs g) (vp_dir_no g);
          g1 = g\<lparr>vp_dir_no := no\<rparr> in
      case r of
        Returned None \<Rightarrow> Some (None, f, g1)
      | Returned (Some i) \<Rightarrow> do {e \<leftarrow> rd (fd_dirs (vp_dirs g)) i; Some (Some e, use_dir e f, g1)}
      | _ \<Rightarrow> None)"

text \<open>The name of a file of the call under a root, in the tree that \<open>case_mark\<close> selects.\<close>

definition file_name :: "tm \<Rightarrow> voice_file_info \<Rightarrow> string \<Rightarrow> string \<Rightarrow> string" where
  "file_name tms f root suffix =
     snprintf 255 (call_path root (if case_mark f = 0 then NORMAL_DIR else CASE_DIR) tms (vf_callid f) suffix)"

text \<open>Unless the packet is marked as the first of its call, an existing recording is looked for.\<close>

definition find_root :: "vp_env \<Rightarrow> tm \<Rightarrow> voice_file_info \<Rightarrow> vp_state \<Rightarrow> file_dirs_node option option" where
  "find_root env tms f g =
     (if data_mark f \<noteq> 1
      then search_dirs (\<lambda>e. env_is_reg env (file_name tms f (dir_name e) ''_up'')) (fd_dirs (vp_dirs g)) 0
             (unat (fd_num (vp_dirs g)))
      else Some None)"

definition get_filename :: "vp_env \<Rightarrow> voice_file_info \<Rightarrow> vp_state \<Rightarrow> (int \<times> voice_file_info \<times> vp_state) option" where
  "get_filename env f g =
     (if vf_callid f = 0 then Some (-1, f, g)
      else (case env_localtime env (call_time (vf_callid f)) of
          None \<Rightarrow> Some (-1, f, g)
        | Some tms \<Rightarrow> do {
            old \<leftarrow> find_root env tms f g;
            (root, f1, g1) \<leftarrow> (case old of
                Some e \<Rightarrow> Some (Some e, use_dir e f, g)
              | None \<Rightarrow> root_dir_of f g);
            case root of
              None \<Rightarrow> Some (-2, f1, g1)
            | Some e \<Rightarrow> Some (0, f1\<lparr>filename_up := file_name tms f (dir_name e) ''_up'',
                                   filename_down := file_name tms f (dir_name e) ''_down''\<rparr>, g1)}))"

subsection \<open>Files\<close>

definition open_voice_file :: "vp_env \<Rightarrow> voice_file_info \<Rightarrow> vp_state \<Rightarrow> (int \<times> voice_file_info \<times> vp_state) option" where
  "open_voice_file env f g =
     (if fp_up f \<noteq> None \<or> fp_down f \<noteq> None then Some (-1, f, g)
      else do {
        (ret, f1, g1) \<leftarrow> get_filename env f g;
        if ret \<noteq> 0 then Some (-1, f1, g1)
        else (let up = env_fopen env (length (vp_log g1)) (filename_up f1);
                  g2 = log_io (Fopen (filename_up f1)) g1;
                  down = env_fopen env (length (vp_log g2)) (filename_down f1);
                  g3 = log_io (Fopen (filename_down f1)) g2 in
              Some (if up = None \<or> down = None then -1 else 0, f1\<lparr>fp_up := up, fp_down := down\<rparr>, g3))})"

text \<open>\<open>fwrite\<close> reads \<open>data_len\<close> bytes of the buffer; a negative length is a huge \<open>size_t\<close>.\<close>

definition fwrite_buf :: "nat option \<Rightarrow> u8 list \<Rightarrow> int \<Rightarrow> vp_state \<Rightarrow> vp_state option" where
  "fwrite_buf fp buf data_len g =
     (case fp of
        None \<Rightarrow> Some g
      | Some p \<Rightarrow> (if data_len < 0 then None
                   else do {bs \<leftarrow> rd_n buf 0 (nat data_len); Some (log_io (Fwrite p bs) g)}))"

definition write_voice_file :: "voice_file_info \<Rightarrow> vp_state \<Rightarrow> vp_state option" where
  "write_voice_file f g =
     (let count = (if data_count_down f < data_count_up f then data_count_up f else data_count_down f);
          data_len = sint count;
          data_len' = (if int DATA_SIZE < data_len then int DATA_SIZE else data_len) in
      do {
        g1 \<leftarrow> fwrite_buf (fp_up f) (data_up f) data_len' g;
        fwrite_buf (fp_down f) (data_down f) data_len' g1})"

definition fclose_log :: "nat option \<Rightarrow> vp_state \<Rightarrow> vp_state" where
  "fclose_log fp g = (case fp of None \<Rightarrow> g | Some p \<Rightarrow> log_io (Fclose p) g)"

definition close_voice_file :: "voice_file_info \<Rightarrow> vp_state \<Rightarrow> voice_file_info \<times> vp_state" where
  "close_voice_file f g = (f\<lparr>fp_up := None, fp_down := None\<rparr>, fclose_log (fp_down f) (fclose_log (fp_up f) g))"

definition mix_buf :: "u8 list \<Rightarrow> u8 list \<Rightarrow> u8 list" where
  "mix_buf up down = concat (map (\<lambda>(a, b). [a, b]) (zip up down))"

definition send_voice_data ::
  "vp_env \<Rightarrow> voice_file_info \<Rightarrow> vp_state \<Rightarrow> (int \<times> voice_file_info \<times> vp_state) option" where
  "send_voice_data env f g =
     (if tx_fd f \<le> 0 then Some (-1, f, g)
      else do {
        up \<leftarrow> rd_n (data_up f) 0 DATA_SIZE;
        down \<leftarrow> rd_n (data_down f) 0 DATA_SIZE;
        let ret = env_write env (length (vp_log g));
        let g1 = log_io (Write (tx_fd f) (mix_buf up down)) g;
        Some (0, if ret \<noteq> int (DATA_SIZE * 2) then (f\<lparr>tx_fd := 0\<rparr>, log_io (Close (tx_fd f)) g1) else (f, g1))})"

definition encrypt_voice :: "u8 list \<Rightarrow> u8 list" where
  "encrypt_voice data = map (\<lambda>b. b XOR 0x53) data"

definition close_tx :: "voice_file_info \<Rightarrow> vp_state \<Rightarrow> voice_file_info \<times> vp_state" where
  "close_tx f g = (if 0 < tx_fd f then (f\<lparr>tx_fd := 0\<rparr>, log_io (Close (tx_fd f)) g) else (f, g))"

text \<open>The node of the call goes to the full-node queue with a copy of the record.\<close>

definition enqueue_cdr :: "voice_file_info \<Rightarrow> vp_state \<Rightarrow> (voice_file_info \<times> vp_state) option" where
  "enqueue_cdr f g =
     (case cdr_node f of
        None \<Rightarrow> Some (f, g)
      | Some a \<Rightarrow> do {
          n \<leftarrow> vp_heap g a;
          let h = (vp_heap g)(a \<mapsto> n\<lparr>np_cdr := vf_cdr f, np_next := None\<rparr>);
          (_, h', q) \<leftarrow> EN_QUEUE h (Some (vp_fq g)) (Some a);
          let c = vp_counters g;
          Some (f\<lparr>cdr_node := None\<rparr>,
                g\<lparr>vp_heap := h', vp_fq := q, vp_counters := c\<lparr>fax_enqueue := inc64 (fax_enqueue c)\<rparr>\<rparr>)})"

definition cleanup_file_struct :: "voice_file_info \<Rightarrow> vp_state \<Rightarrow> (voice_file_info \<times> vp_state) option" where
  "cleanup_file_struct f g =
     (let c = vp_counters g;
          (f1, g1) = (if vf_callid f \<noteq> 0
             then (f\<lparr>vf_callid := 0\<rparr>,
                   g\<lparr>vp_counters := c\<lparr>call_timeout := inc64 (call_timeout c), call_end := inc64 (call_end c),
                                       call_online := dec64 (call_online c)\<rparr>\<rparr>)
             else (f, g)) in
      do {
        (f2, g2) \<leftarrow> (if fp_up f1 \<noteq> None \<or> fp_down f1 \<noteq> None
                     then do {g' \<leftarrow> write_voice_file f1 g1; Some (close_voice_file f1 g')}
                     else Some (f1, g1));
        let (f3, g3) = close_tx f2 g2;
        enqueue_cdr (f3\<lparr>up_no := 0, down_no := 0\<rparr>) g3})"

subsection \<open>Invariants\<close>

text \<open>A slot whose buffers have their sizes and whose counts stay inside them.\<close>

definition slot_ok :: "voice_file_info \<Rightarrow> bool" where
  "slot_ok f \<longleftrightarrow> length (data_up f) = DATA_SIZE \<and> length (data_down f) = DATA_SIZE \<and>
     unat (data_count_up f) \<le> DATA_SIZE \<and> unat (data_count_down f) \<le> DATA_SIZE \<and>
     unat (fax_data_len_up f) \<le> FAX_BUF_SIZE \<and> unat (fax_data_len_down f) \<le> FAX_BUF_SIZE"

definition node_full :: "fax_node \<Rightarrow> bool" where
  "node_full n \<longleftrightarrow> length (np_up n) = FAX_BUF_SIZE \<and> length (np_down n) = FAX_BUF_SIZE"

text \<open>
  The queues hold their lists; the node of the slot is in neither, and the nodes in \<open>Oth\<close>, which
  belong to other slots, are in neither and are not that node.
\<close>

definition pool_lists :: "addr set \<Rightarrow> addr option \<Rightarrow> vp_state \<Rightarrow> addr list \<Rightarrow> addr list \<Rightarrow> bool" where
  "pool_lists Oth own g es fs \<longleftrightarrow>
     queue_holds (vp_heap g) (vp_eq g) es \<and> queue_holds (vp_heap g) (vp_fq g) fs \<and> distinct (es @ fs) \<and>
     (set es \<union> set fs) \<inter> (Oth \<union> set_option own) = {} \<and> set_option own \<inter> Oth = {} \<and>
     (\<forall>a \<in> set es \<union> set fs \<union> set_option own. \<exists>n. vp_heap g a = Some n \<and> node_full n)"

definition pool_ok :: "addr set \<Rightarrow> addr option \<Rightarrow> vp_state \<Rightarrow> bool" where
  "pool_ok Oth own g \<longleftrightarrow> (\<exists>es fs. pool_lists Oth own g es fs)"

definition same_nodes :: "addr set \<Rightarrow> vp_state \<Rightarrow> vp_state \<Rightarrow> bool" where
  "same_nodes Oth g g' \<longleftrightarrow> (\<forall>a \<in> Oth. vp_heap g' a = vp_heap g a)"

definition sys_ok :: "vp_state \<Rightarrow> bool" where
  "sys_ok g \<longleftrightarrow> dirs_ok (vp_dirs g) \<and> 0 < fd_num (vp_dirs g) \<and> ring_inv (vp_cdrs g)"

text \<open>What one call of the parser needs and keeps, seen from one slot.\<close>

definition vp_inv :: "addr set \<Rightarrow> voice_file_info \<Rightarrow> vp_state \<Rightarrow> bool" where
  "vp_inv Oth f g \<longleftrightarrow> slot_ok f \<and> pool_ok Oth (cdr_node f) g \<and> sys_ok g"

lemma pool_ok_cong:
  "vp_heap g' = vp_heap g \<Longrightarrow> vp_eq g' = vp_eq g \<Longrightarrow> vp_fq g' = vp_fq g \<Longrightarrow> pool_ok Oth own g' = pool_ok Oth own g"
  by (simp add: pool_ok_def pool_lists_def)

lemma same_nodes_refl [simp]: "same_nodes Oth g g"
  by (simp add: same_nodes_def)

lemma same_nodes_trans: "same_nodes Oth g1 g2 \<Longrightarrow> same_nodes Oth g2 g3 \<Longrightarrow> same_nodes Oth g1 g3"
  by (simp add: same_nodes_def)

lemma log_io_sel [simp]:
  "vp_heap (log_io e g) = vp_heap g" "vp_eq (log_io e g) = vp_eq g" "vp_fq (log_io e g) = vp_fq g"
  "vp_dirs (log_io e g) = vp_dirs g" "vp_cdrs (log_io e g) = vp_cdrs g"
  "vp_counters (log_io e g) = vp_counters g" "vp_dir_no (log_io e g) = vp_dir_no g"
  by (simp_all add: log_io_def)

text \<open>A state change that only touches files.\<close>

definition io_only :: "vp_state \<Rightarrow> vp_state \<Rightarrow> bool" where
  "io_only g g' \<longleftrightarrow> (\<exists>es no. g' = g\<lparr>vp_log := vp_log g @ es, vp_dir_no := no\<rparr>)"

lemma io_onlyD:
  assumes "io_only g g'"
  shows "vp_heap g' = vp_heap g" "vp_eq g' = vp_eq g" "vp_fq g' = vp_fq g" "vp_dirs g' = vp_dirs g"
    "vp_cdrs g' = vp_cdrs g" "vp_counters g' = vp_counters g"
  using assms by (auto simp: io_only_def)

lemma io_only_refl [simp]: "io_only g g"
  unfolding io_only_def by (rule exI[of _ "[]"], rule exI[of _ "vp_dir_no g"]) simp

lemma io_only_log [simp]: "io_only g (log_io e g)"
  unfolding io_only_def log_io_def by (rule exI[of _ "[e]"], rule exI[of _ "vp_dir_no g"]) simp

lemma io_only_dir_no [simp]: "io_only g (g\<lparr>vp_dir_no := no\<rparr>)"
  unfolding io_only_def by (rule exI[of _ "[]"], rule exI[of _ no]) simp

lemma io_only_trans: "io_only g1 g2 \<Longrightarrow> io_only g2 g3 \<Longrightarrow> io_only g1 g3"
  unfolding io_only_def
proof (elim exE)
  fix es1 es2 no1 no2
  assume "g2 = g1\<lparr>vp_log := vp_log g1 @ es1, vp_dir_no := no1\<rparr>" "g3 = g2\<lparr>vp_log := vp_log g2 @ es2, vp_dir_no := no2\<rparr>"
  then have "g3 = g1\<lparr>vp_log := vp_log g1 @ (es1 @ es2), vp_dir_no := no2\<rparr>" by simp
  then show "\<exists>es no. g3 = g1\<lparr>vp_log := vp_log g1 @ es, vp_dir_no := no\<rparr>" by (intro exI)
qed

lemma io_only_pool: "io_only g g' \<Longrightarrow> pool_ok Oth own g \<Longrightarrow> pool_ok Oth own g'"
  using pool_ok_cong[of g' g] by (simp add: io_onlyD)

lemma io_only_sys: "io_only g g' \<Longrightarrow> sys_ok g \<Longrightarrow> sys_ok g'"
  by (simp add: sys_ok_def io_onlyD)

lemma io_only_same: "io_only g g' \<Longrightarrow> same_nodes Oth g g'"
  by (simp add: same_nodes_def io_onlyD)

lemma io_only_inv: "io_only g g' \<Longrightarrow> vp_inv Oth f g \<Longrightarrow> vp_inv Oth f g'"
  using io_only_pool io_only_sys by (auto simp: vp_inv_def)

subsection \<open>The operations keep the invariants\<close>

lemma sint_small: "unat (w :: u32) < 2 ^ 31 \<Longrightarrow> sint w = int (unat w)"
proof -
  assume "unat w < 2 ^ 31"
  then have "uint w < 2 ^ 31" by (simp add: unat_eq_nat_uint nat_less_iff del: nat_uint_eq)
  moreover have "0 \<le> uint w" by simp
  ultimately have "(uint w + 2147483648) mod 4294967296 = uint w + 2147483648" by (intro mod_pos_pos_trivial) simp_all
  then show ?thesis using int_word_sint[of "uint w", where 'a = 32] by simp
qed

text \<open>What a successful \<open>write_voice_file\<close> adds to the log, and the bytes a file received.\<close>

definition fw :: "nat option \<Rightarrow> u8 list \<Rightarrow> io_event list" where
  "fw fp bs = (case fp of None \<Rightarrow> [] | Some p \<Rightarrow> [Fwrite p bs])"

definition voice_writes :: "voice_file_info \<Rightarrow> io_event list" where
  "voice_writes f = (let n = max (unat (data_count_up f)) (unat (data_count_down f)) in
     fw (fp_up f) (take n (data_up f)) @ fw (fp_down f) (take n (data_down f)))"

fun written :: "nat \<Rightarrow> io_event list \<Rightarrow> u8 list" where
  "written p [] = []"
| "written p (Fwrite q bs # es) = (if q = p then bs @ written p es else written p es)"
| "written p (_ # es) = written p es"

lemma written_append [simp]: "written p (xs @ ys) = written p xs @ written p ys"
  by (induction p xs rule: written.induct) auto

lemma written_fw [simp]: "written p (fw fp bs) = (if fp = Some p then bs else [])"
  by (simp add: fw_def split: option.splits)

lemma fwrite_buf_val:
  "n \<le> length buf \<Longrightarrow> fwrite_buf fp buf (int n) g = Some (g\<lparr>vp_log := vp_log g @ fw fp (take n buf)\<rparr>)"
  by (simp add: fwrite_buf_def fw_def rd_n_def log_io_def split: option.splits)

lemma write_voice_file_val:
  assumes "slot_ok f"
  shows "write_voice_file f g = Some (g\<lparr>vp_log := vp_log g @ voice_writes f\<rparr>)"
proof -
  define c where "c = (if data_count_down f < data_count_up f then data_count_up f else data_count_down f)"
  have m: "unat c = max (unat (data_count_up f)) (unat (data_count_down f))"
    by (auto simp: c_def word_less_nat_alt)
  have c: "unat c \<le> DATA_SIZE" "sint c = int (unat c)"
    using assms sint_small[of c] by (auto simp: slot_ok_def c_def)
  have l: "unat c \<le> length (data_up f)" "unat c \<le> length (data_down f)"
    using assms c(1) by (simp_all add: slot_ok_def)
  have "\<not> int DATA_SIZE < int (unat c)" using c(1) by linarith
  then have "write_voice_file f g = do {g1 \<leftarrow> fwrite_buf (fp_up f) (data_up f) (int (unat c)) g;
      fwrite_buf (fp_down f) (data_down f) (int (unat c)) g1}"
    unfolding write_voice_file_def c_def[symmetric] Let_def c(2) by (simp only: if_False)
  then show ?thesis unfolding fwrite_buf_val[OF l(1)] fwrite_buf_val[OF l(2)]
    by (simp add: fwrite_buf_val[OF l(2)] voice_writes_def Let_def m del: int_nat_eq of_nat_max)
qed

lemma io_only_log_all [simp]: "io_only g (g\<lparr>vp_log := vp_log g @ es\<rparr>)"
  unfolding io_only_def by (rule exI[of _ es], rule exI[of _ "vp_dir_no g"]) simp

lemma write_voice_file_ok:
  "slot_ok f \<Longrightarrow> \<exists>g'. write_voice_file f g = Some g' \<and> io_only g g'"
  by (simp add: write_voice_file_val)

lemma send_voice_data_ok:
  assumes "slot_ok f"
  shows "\<exists>r fd g'. send_voice_data env f g = Some (r, f\<lparr>tx_fd := fd\<rparr>, g') \<and> io_only g g' \<and>
    (\<forall>p. written p (vp_log g') = written p (vp_log g))"
proof (cases "tx_fd f \<le> 0")
  case True
  then show ?thesis by (intro exI[of _ "-1"] exI[of _ "tx_fd f"] exI[of _ g]) (simp add: send_voice_data_def)
next
  case False
  let ?g1 = "log_io (Write (tx_fd f) (mix_buf (data_up f) (data_down f))) g"
  let ?e = "env_write env (length (vp_log g)) \<noteq> int (DATA_SIZE * 2)"
  have "send_voice_data env f g = Some (0, f\<lparr>tx_fd := if ?e then 0 else tx_fd f\<rparr>,
      if ?e then log_io (Close (tx_fd f)) ?g1 else ?g1)"
    using False assms by (simp add: send_voice_data_def rd_n_def slot_ok_def)
  moreover have "io_only g (if ?e then log_io (Close (tx_fd f)) ?g1 else ?g1)"
    using io_only_trans[OF io_only_log io_only_log] by simp
  moreover have "\<forall>p. written p (vp_log (if ?e then log_io (Close (tx_fd f)) ?g1 else ?g1)) = written p (vp_log g)"
    by (simp add: log_io_def)
  ultimately show ?thesis by blast
qed

lemma close_voice_file_ok:
  obtains g' where "close_voice_file f g = (f\<lparr>fp_up := None, fp_down := None\<rparr>, g')" "io_only g g'"
proof -
  have "io_only g (fclose_log fp g)" for fp g by (cases fp) (simp_all add: fclose_log_def)
  then show thesis using that io_only_trans unfolding close_voice_file_def by blast
qed

lemma close_tx_ok: obtains fd g' where "close_tx f g = (f\<lparr>tx_fd := fd\<rparr>, g')" "io_only g g'" "fd \<le> 0"
proof (cases "0 < tx_fd f")
  case True
  then show thesis using that[of 0 "log_io (Close (tx_fd f)) g"] by (simp add: close_tx_def)
next
  case False
  then show thesis using that[of "tx_fd f" g] by (simp add: close_tx_def)
qed

lemma search_dirs_ok: "i + k \<le> length es \<Longrightarrow> \<exists>r. search_dirs P es i k = Some r"
  by (induction k arbitrary: i) (auto simp: rd_def)

lemma root_dir_of_ok:
  assumes "sys_ok g"
  shows "\<exists>r c no. root_dir_of f g = Some (r, f\<lparr>vf_cdr := c\<rparr>, g\<lparr>vp_dir_no := no\<rparr>)"
proof -
  let ?n = "Suc (unat (fd_num (vp_dirs g)))"
  have d: "dirs_ok (vp_dirs g)" "0 < fd_num (vp_dirs g)" using assms by (auto simp: sys_ok_def)
  let ?d = "fst (next_dir_no (vp_dirs g) (vp_dir_no g))" and ?no = "snd (next_dir_no (vp_dirs g) (vp_dir_no g))"
  have "unat ?d < unat (fd_num (vp_dirs g))"
    using next_dir_no_lt[OF d(2), of "vp_dir_no g"] by (simp only: word_less_nat_alt)
  from pick_dir_returns[OF d(1) this, of ?n] obtain r where r: "pick_dir ?n (vp_dirs g) ?d = Returned r"
    "case r of None \<Rightarrow> \<forall>i. \<not> writable (vp_dirs g) i | Some m \<Rightarrow> writable (vp_dirs g) m" by auto
  have gr: "get_root_dir ?n (vp_dirs g) (vp_dir_no g) = (Returned r, ?no)"
    by (simp add: get_root_dir_def case_prod_beta r(1))
  show ?thesis
  proof (cases r)
    case None
    then show ?thesis using gr
      by (intro exI[of _ None] exI[of _ "vf_cdr f"] exI[of _ ?no]) (simp add: root_dir_of_def)
  next
    case (Some m)
    then have "m < length (fd_dirs (vp_dirs g))" using r(2) d(1) by (auto simp: writable_def dirs_ok_def)
    then show ?thesis using gr Some
      by (intro exI[of _ "Some (fd_dirs (vp_dirs g) ! m)"]
           exI[of _ "(vf_cdr f)\<lparr>cdr_path := ucast (disk_num (fd_dirs (vp_dirs g) ! m))\<rparr>"] exI[of _ ?no])
        (simp add: root_dir_of_def rd_def use_dir_def)
  qed
qed

text \<open>\<open>open_voice_file\<close> changes the names, the files and the path number of the record, nothing else.\<close>

definition opened :: "voice_file_info \<Rightarrow> voice_file_info \<Rightarrow> bool" where
  "opened f f' \<longleftrightarrow> (\<exists>c u d pu pd. f' = f\<lparr>vf_cdr := c, filename_up := u, filename_down := d, fp_up := pu, fp_down := pd\<rparr>)"

lemma find_root_ok: "sys_ok g \<Longrightarrow> \<exists>old. find_root env tms f g = Some old"
  using search_dirs_ok[of 0 "unat (fd_num (vp_dirs g))" "fd_dirs (vp_dirs g)"]
  by (auto simp: find_root_def sys_ok_def dirs_ok_def)

lemma old_or_root_ok:
  assumes "sys_ok g"
  shows "\<exists>root c no. (case old of Some e \<Rightarrow> Some (Some e, use_dir e f, g) | None \<Rightarrow> root_dir_of f g) =
        Some (root, f\<lparr>vf_cdr := c\<rparr>, g\<lparr>vp_dir_no := no\<rparr>)"
proof (cases old)
  case None
  then show ?thesis using root_dir_of_ok[OF assms, of f] by simp
next
  case (Some e)
  then show ?thesis
    by (intro exI[of _ "Some e"] exI[of _ "(vf_cdr f)\<lparr>cdr_path := ucast (disk_num e)\<rparr>"] exI[of _ "vp_dir_no g"])
      (simp add: use_dir_def)
qed

lemma opened_refl: "opened f f"
  unfolding opened_def by (intro exI[of _ "vf_cdr f"] exI[of _ "filename_up f"] exI[of _ "filename_down f"]
    exI[of _ "fp_up f"] exI[of _ "fp_down f"]) simp

lemma opened_cdr: "opened f (f\<lparr>vf_cdr := c\<rparr>)"
  unfolding opened_def by (intro exI[of _ c] exI[of _ "filename_up f"] exI[of _ "filename_down f"]
    exI[of _ "fp_up f"] exI[of _ "fp_down f"]) simp

lemma opened_names: "opened f (f\<lparr>vf_cdr := c, filename_up := u, filename_down := d\<rparr>)"
  unfolding opened_def by (intro exI[of _ c] exI[of _ u] exI[of _ d]
    exI[of _ "fp_up f"] exI[of _ "fp_down f"]) simp

lemma opened_files: "opened f f' \<Longrightarrow> opened f (f'\<lparr>fp_up := pu, fp_down := pd\<rparr>)"
  unfolding opened_def by (elim exE, intro exI) simp

lemma get_filename_ok:
  assumes "sys_ok g"
  shows "\<exists>r f' g'. get_filename env f g = Some (r, f', g') \<and> opened f f' \<and> io_only g g'"
proof (cases "vf_callid f = 0 \<or> env_localtime env (call_time (vf_callid f)) = None")
  case True
  then have "get_filename env f g = Some (-1, f, g)" by (auto simp: get_filename_def)
  then show ?thesis using opened_refl io_only_refl by blast
next
  case False
  then obtain tms where t: "vf_callid f \<noteq> 0" "env_localtime env (call_time (vf_callid f)) = Some tms" by auto
  obtain old where old: "find_root env tms f g = Some old" using find_root_ok[OF assms] by blast
  obtain root c no where root: "(case old of Some e \<Rightarrow> Some (Some e, use_dir e f, g) | None \<Rightarrow> root_dir_of f g) =
      Some (root, f\<lparr>vf_cdr := c\<rparr>, g\<lparr>vp_dir_no := no\<rparr>)" using old_or_root_ok[OF assms] by blast
  show ?thesis
  proof (cases root)
    case None
    have "get_filename env f g = Some (-2, f\<lparr>vf_cdr := c\<rparr>, g\<lparr>vp_dir_no := no\<rparr>)"
      by (simp add: get_filename_def t old root None)
    then show ?thesis using opened_cdr io_only_dir_no by blast
  next
    case (Some e)
    have "get_filename env f g = Some (0, f\<lparr>vf_cdr := c, filename_up := file_name tms f (dir_name e) ''_up'',
        filename_down := file_name tms f (dir_name e) ''_down''\<rparr>, g\<lparr>vp_dir_no := no\<rparr>)"
      by (simp add: get_filename_def t old root Some)
    then show ?thesis using opened_names io_only_dir_no by blast
  qed
qed

lemma open_voice_file_ok:
  assumes "sys_ok g"
  shows "\<exists>r f' g'. open_voice_file env f g = Some (r, f', g') \<and> opened f f' \<and> io_only g g'"
proof (cases "fp_up f \<noteq> None \<or> fp_down f \<noteq> None")
  case True
  then have "open_voice_file env f g = Some (-1, f, g)" by (simp add: open_voice_file_def)
  then show ?thesis using opened_refl io_only_refl by blast
next
  case False
  obtain r f1 g1 where n: "get_filename env f g = Some (r, f1, g1)" "opened f f1" "io_only g g1"
    using get_filename_ok[OF assms] by blast
  show ?thesis
  proof (cases "r = 0")
    case True
    have "io_only g (log_io (Fopen (filename_down f1)) (log_io (Fopen (filename_up f1)) g1))"
      using n(3) io_only_trans io_only_log by blast
    then show ?thesis using n True False by (auto simp: open_voice_file_def Let_def intro: opened_files)
  next
    case f: False
    then have "open_voice_file env f g = Some (-1, f1, g1)"
      using n(1) False by (simp add: open_voice_file_def)
    then show ?thesis using n(2,3) by blast
  qed
qed

lemma openedD:
  assumes "opened f f'"
  shows "vf_callid f' = vf_callid f" "data_up f' = data_up f" "data_down f' = data_down f"
    "data_count_up f' = data_count_up f" "data_count_down f' = data_count_down f" "cdr_node f' = cdr_node f"
    "fax_data_len_up f' = fax_data_len_up f" "fax_data_len_down f' = fax_data_len_down f" "tx_fd f' = tx_fd f"
    "update_time f' = update_time f" "up_end_flag f' = up_end_flag f" "down_end_flag f' = down_end_flag f"
    "vf_mutex f' = vf_mutex f" "up_no f' = up_no f" "down_no f' = down_no f"
  using assms by (auto simp: opened_def)

subsection \<open>The node of a slot\<close>

lemma pool_upd_own:
  assumes "pool_lists Oth (Some a) g es fs" "node_full n"
  shows "pool_lists Oth (Some a) (g\<lparr>vp_heap := (vp_heap g)(a \<mapsto> n)\<rparr>) es fs"
  using assms by (auto simp: pool_lists_def queue_holds_def)

lemma pool_ok_upd_own:
  "pool_ok Oth (Some a) g \<Longrightarrow> node_full n \<Longrightarrow> pool_ok Oth (Some a) (g\<lparr>vp_heap := (vp_heap g)(a \<mapsto> n)\<rparr>)"
  unfolding pool_ok_def using pool_upd_own by blast

lemma node_full_contents: "same_contents h h' \<Longrightarrow> h' a = Some n' \<Longrightarrow> h a = Some n \<Longrightarrow> node_full n \<Longrightarrow> node_full n'"
  unfolding same_contents_def node_full_def
  by (metis fax_node.select_convs(2,3) fax_node.surjective fax_node.update_convs(4) option.inject)

lemma pool_enqueue:
  assumes "pool_lists Oth (Some a) g es fs" "vp_heap g a = Some n" "np_next n = None"
  shows "\<exists>h q. EN_QUEUE (vp_heap g) (Some (vp_fq g)) (Some a) = Some (0, h, q) \<and>
     pool_lists Oth None (g\<lparr>vp_heap := h, vp_fq := q\<rparr>) es (fs @ [a]) \<and> (\<forall>b \<in> Oth. h b = vp_heap g b)"
proof -
  have p: "queue_holds (vp_heap g) (vp_eq g) es" "queue_holds (vp_heap g) (vp_fq g) fs" "distinct (es @ fs)"
    "(set es \<union> set fs) \<inter> Oth = {}" "a \<notin> set es \<union> set fs" "a \<notin> Oth"
    "\<forall>b \<in> set es \<union> set fs \<union> {a}. \<exists>n. vp_heap g b = Some n \<and> node_full n"
    using assms(1) by (auto simp: pool_lists_def)
  have "detached (vp_heap g) a" using assms(2,3) by (simp add: detached_iff)
  from en_queue_holds[OF p(2) this] p(5) obtain h q where e:
    "EN_QUEUE (vp_heap g) (Some (vp_fq g)) (Some a) = Some (0, h, q)" "queue_holds h q (fs @ [a])"
    "\<forall>b. b \<notin> set fs \<longrightarrow> h b = vp_heap g b" by blast
  have es: "queue_holds h (vp_eq g) es"
    using p(1,3) e(3) chain_cong[of es h "vp_heap g"] by (auto simp: queue_holds_def)
  have "\<exists>n. h b = Some n \<and> node_full n" if "b \<in> set es \<union> set (fs @ [a])" for b
  proof -
    have "b \<in> set es \<union> set fs \<union> {a}" using that by auto
    then obtain n where n: "vp_heap g b = Some n" "node_full n" using p(7) by blast
    have "\<exists>n'. h b = Some n'"
      using that e(2,3) n es chain_allocated by (fastforce simp: queue_holds_def)
    then show ?thesis using node_full_contents[OF en_queue_contents[OF e(1)] _ n] by blast
  qed
  then have "pool_lists Oth None (g\<lparr>vp_heap := h, vp_fq := q\<rparr>) es (fs @ [a])"
    using e(2) es p by (auto simp: pool_lists_def)
  moreover have "\<forall>b \<in> Oth. h b = vp_heap g b" using e(3) p(4) by auto
  ultimately show ?thesis using e(1) by blast
qed

text \<open>A node is taken from the empty queue; what \<open>memset\<close> then makes of it is a full node.\<close>

lemma pool_fetch:
  assumes "pool_ok Oth None g"
  shows "\<exists>r h q. FETCH_PHEAD (vp_heap g) (Some (vp_eq g)) = Some (r, h, q) \<and> (\<forall>b \<in> Oth. h b = vp_heap g b) \<and>
     (case r of None \<Rightarrow> pool_ok Oth None (g\<lparr>vp_heap := h, vp_eq := q\<rparr>)
      | Some a \<Rightarrow> a \<notin> Oth \<and> h a \<noteq> None \<and>
          pool_ok Oth (Some a) (g\<lparr>vp_heap := h(a \<mapsto> zero_fax_node), vp_eq := q\<rparr>))"
proof -
  from assms obtain es fs where p: "queue_holds (vp_heap g) (vp_eq g) es" "queue_holds (vp_heap g) (vp_fq g) fs"
    "distinct (es @ fs)" "(set es \<union> set fs) \<inter> Oth = {}"
    "\<forall>b \<in> set es \<union> set fs. \<exists>n. vp_heap g b = Some n \<and> node_full n"
    by (auto simp: pool_ok_def pool_lists_def)
  show ?thesis
  proof (cases es)
    case Nil
    then have "FETCH_PHEAD (vp_heap g) (Some (vp_eq g)) = Some (None, vp_heap g, vp_eq g)"
      using p(1) fetch_holds_Nil by simp
    moreover have "pool_ok Oth None (g\<lparr>vp_heap := vp_heap g, vp_eq := vp_eq g\<rparr>)" using assms by simp
    ultimately show ?thesis by auto
  next
    case (Cons a es')
    with p(1) fetch_holds_Cons[of "vp_heap g" "vp_eq g" a es'] obtain h q where f:
      "FETCH_PHEAD (vp_heap g) (Some (vp_eq g)) = Some (Some a, h, q)" "queue_holds h q es'" "detached h a"
      "\<forall>b. b \<noteq> a \<longrightarrow> h b = vp_heap g b" by blast
    let ?h = "h(a \<mapsto> zero_fax_node)"
    have n: "a \<notin> set es'" "a \<notin> set fs" "a \<notin> Oth" using p(3,4) Cons by auto
    have "queue_holds ?h q es'" using f(2) n(1) by (simp add: queue_holds_def)
    moreover have "queue_holds ?h (vp_fq g) fs"
    proof -
      have "chain ?h (q_head (vp_fq g)) fs = chain (vp_heap g) (q_head (vp_fq g)) fs"
        by (rule chain_cong) (use n(2) f(4) in auto)
      then show ?thesis using p(2) by (simp add: queue_holds_def)
    qed
    moreover have "node_full zero_fax_node" by (simp add: node_full_def zero_fax_node_def)
    ultimately have "pool_lists Oth (Some a) (g\<lparr>vp_heap := ?h, vp_eq := q\<rparr>) es' fs"
      using p(3,4,5) n f(4) Cons by (auto simp: pool_lists_def)
    then show ?thesis using f n by (auto simp: pool_ok_def detached_iff)
  qed
qed

lemma enqueue_cdr_ok:
  assumes "pool_ok Oth (cdr_node f) g"
  shows "\<exists>g' x. enqueue_cdr f g = Some (f\<lparr>cdr_node := None\<rparr>, g') \<and> pool_ok Oth None g' \<and> same_nodes Oth g g' \<and>
     vp_dirs g' = vp_dirs g \<and> vp_cdrs g' = vp_cdrs g \<and> vp_counters g' = (vp_counters g)\<lparr>fax_enqueue := x\<rparr>"
proof (cases "cdr_node f")
  case None
  then have "enqueue_cdr f g = Some (f\<lparr>cdr_node := None\<rparr>, g)" by (simp add: enqueue_cdr_def)
  moreover have "vp_counters g = (vp_counters g)\<lparr>fax_enqueue := fax_enqueue (vp_counters g)\<rparr>" by simp
  ultimately show ?thesis using assms None same_nodes_refl by (intro exI[of _ g] exI[of _ "fax_enqueue (vp_counters g)"]) simp
next
  case (Some a)
  with assms obtain es fs n where p: "pool_lists Oth (Some a) g es fs" "vp_heap g a = Some n" "node_full n" "a \<notin> Oth"
    by (auto simp: pool_ok_def pool_lists_def)
  let ?n = "n\<lparr>np_cdr := vf_cdr f, np_next := None\<rparr>"
  let ?g1 = "g\<lparr>vp_heap := (vp_heap g)(a \<mapsto> ?n)\<rparr>"
  have p1: "pool_lists Oth (Some a) ?g1 es fs" using p(1,3) by (intro pool_upd_own) (simp_all add: node_full_def)
  have "vp_heap ?g1 a = Some ?n" "np_next ?n = None" by simp_all
  from pool_enqueue[OF p1 this] obtain h q where e: "EN_QUEUE (vp_heap ?g1) (Some (vp_fq ?g1)) (Some a) = Some (0, h, q)"
    "pool_lists Oth None (?g1\<lparr>vp_heap := h, vp_fq := q\<rparr>) es (fs @ [a])" "\<forall>b \<in> Oth. h b = vp_heap ?g1 b" by blast
  let ?g' = "g\<lparr>vp_heap := h, vp_fq := q, vp_counters := (vp_counters g)\<lparr>fax_enqueue := inc64 (fax_enqueue (vp_counters g))\<rparr>\<rparr>"
  have "enqueue_cdr f g = Some (f\<lparr>cdr_node := None\<rparr>, ?g')"
    using e(1) p(2) Some by (simp add: enqueue_cdr_def Let_def)
  moreover have "pool_lists Oth None ?g' es (fs @ [a])" using e(2) by (simp add: pool_lists_def)
  then have "pool_ok Oth None ?g'" unfolding pool_ok_def by blast
  moreover have "same_nodes Oth g ?g'" using e(3) p(4) by (auto simp: same_nodes_def)
  ultimately show ?thesis by (intro exI[of _ ?g'] exI[of _ "inc64 (fax_enqueue (vp_counters g))"]) simp
qed

subsection \<open>Ending a call from outside\<close>

text \<open>The three counters that account for calls.\<close>

definition calls :: "vp_state \<Rightarrow> u64 \<times> u64 \<times> u64" where
  "calls g = (call_start (vp_counters g), call_end (vp_counters g), call_online (vp_counters g))"

definition ended :: "u64 \<times> u64 \<times> u64 \<Rightarrow> u64 \<times> u64 \<times> u64" where
  "ended c = (case c of (s, e, o') \<Rightarrow> (s, e + 1, o' - 1))"

definition started :: "u64 \<times> u64 \<times> u64 \<Rightarrow> u64 \<times> u64 \<times> u64" where
  "started c = (case c of (s, e, o') \<Rightarrow> (s + 1, e, o' + 1))"

lemma calls_io_only: "io_only g g' \<Longrightarrow> calls g' = calls g"
  by (simp add: calls_def io_onlyD)

definition idle :: "voice_file_info \<Rightarrow> bool" where
  "idle f \<longleftrightarrow> vf_callid f = 0 \<and> fp_up f = None \<and> fp_down f = None \<and> tx_fd f \<le> 0 \<and> cdr_node f = None"

lemma slot_ok_cong:
  "data_up f' = data_up f \<Longrightarrow> data_down f' = data_down f \<Longrightarrow> data_count_up f' = data_count_up f \<Longrightarrow>
   data_count_down f' = data_count_down f \<Longrightarrow> fax_data_len_up f' = fax_data_len_up f \<Longrightarrow>
   fax_data_len_down f' = fax_data_len_down f \<Longrightarrow> slot_ok f' = slot_ok f"
  by (simp add: slot_ok_def)

lemma cleanup_ok:
  assumes "vp_inv Oth f g"
  shows "\<exists>f' g'. cleanup_file_struct f g = Some (f', g') \<and> vp_inv Oth f' g' \<and> idle f' \<and> same_nodes Oth g g' \<and>
     calls g' = (if vf_callid f \<noteq> 0 then ended (calls g) else calls g) \<and> update_time f' = update_time f \<and>
     vf_mutex f' = vf_mutex f \<and> vp_dirs g' = vp_dirs g"
proof -
  let ?c = "vp_counters g"
  define f1 where "f1 = f\<lparr>vf_callid := 0\<rparr>"
  define g1 where "g1 = (if vf_callid f \<noteq> 0 then g\<lparr>vp_counters := ?c\<lparr>call_timeout := inc64 (call_timeout ?c),
      call_end := inc64 (call_end ?c), call_online := dec64 (call_online ?c)\<rparr>\<rparr> else g)"
  have g1: "pool_ok Oth (cdr_node f) g1" "sys_ok g1" "same_nodes Oth g g1"
    "calls g1 = (if vf_callid f \<noteq> 0 then ended (calls g) else calls g)"
    using assms by (auto simp: g1_def vp_inv_def sys_ok_def same_nodes_def calls_def ended_def pool_ok_def pool_lists_def)
  have f1: "slot_ok f1" using assms by (simp add: f1_def vp_inv_def slot_ok_def)
  obtain g2 where g2: "(if fp_up f1 \<noteq> None \<or> fp_down f1 \<noteq> None
      then do {g' \<leftarrow> write_voice_file f1 g1; Some (close_voice_file f1 g')} else Some (f1, g1)) =
      Some (f1\<lparr>fp_up := None, fp_down := None\<rparr>, g2)" "io_only g1 g2"
  proof (cases "fp_up f1 \<noteq> None \<or> fp_down f1 \<noteq> None")
    case True
    obtain g' where w: "write_voice_file f1 g1 = Some g'" "io_only g1 g'" using write_voice_file_ok[OF f1] by blast
    obtain g'' where c: "close_voice_file f1 g' = (f1\<lparr>fp_up := None, fp_down := None\<rparr>, g'')" "io_only g' g''"
      by (rule close_voice_file_ok)
    show ?thesis using that[of g''] True w(1) c(1) io_only_trans[OF w(2) c(2)] by simp
  next
    case False
    then show ?thesis using that[of g1] by simp
  qed
  let ?f2 = "f1\<lparr>fp_up := None, fp_down := None\<rparr>"
  obtain fd g3 where t: "close_tx ?f2 g2 = (?f2\<lparr>tx_fd := fd\<rparr>, g3)" "io_only g2 g3" "fd \<le> 0" by (rule close_tx_ok)
  have io: "io_only g1 g3" using io_only_trans[OF g2(2) t(2)] .
  let ?f4 = "?f2\<lparr>tx_fd := fd, up_no := 0, down_no := 0\<rparr>"
  have "pool_ok Oth (cdr_node ?f4) g3" using io_only_pool[OF io g1(1)] by (simp add: f1_def)
  from enqueue_cdr_ok[OF this] obtain g4 x where e: "enqueue_cdr ?f4 g3 = Some (?f4\<lparr>cdr_node := None\<rparr>, g4)"
    "pool_ok Oth None g4" "same_nodes Oth g3 g4" "vp_dirs g4 = vp_dirs g3" "vp_cdrs g4 = vp_cdrs g3"
    "vp_counters g4 = (vp_counters g3)\<lparr>fax_enqueue := x\<rparr>" by blast
  have "(if vf_callid f \<noteq> 0 then (f\<lparr>vf_callid := 0\<rparr>, g\<lparr>vp_counters := ?c\<lparr>call_timeout := inc64 (call_timeout ?c),
      call_end := inc64 (call_end ?c), call_online := dec64 (call_online ?c)\<rparr>\<rparr>) else (f, g)) = (f1, g1)"
    by (simp add: f1_def g1_def)
  then have r: "cleanup_file_struct f g = Some (?f4\<lparr>cdr_node := None\<rparr>, g4)"
    unfolding cleanup_file_struct_def Let_def using g2(1) t(1) e(1) by (simp del: inc64_eq dec64_eq)
  have "sys_ok g4" using io_only_sys[OF io g1(2)] e(4,5) by (simp add: sys_ok_def)
  moreover have "slot_ok (?f4\<lparr>cdr_node := None\<rparr>)" using f1 by (simp add: slot_ok_def)
  ultimately have "vp_inv Oth (?f4\<lparr>cdr_node := None\<rparr>) g4" using e(2) by (simp add: vp_inv_def)
  moreover have "calls g4 = calls g1" using e(6) calls_io_only[OF io] by (simp add: calls_def)
  moreover have "same_nodes Oth g g4"
    using same_nodes_trans[OF g1(3) same_nodes_trans[OF io_only_same[OF io] e(3)]] .
  moreover have "vp_dirs g4 = vp_dirs g" using e(4) io_onlyD(4)[OF io] by (simp add: g1_def)
  ultimately show ?thesis using r g1(4) t(3) by (intro exI[of _ "?f4\<lparr>cdr_node := None\<rparr>"] exI[of _ g4]) (simp add: idle_def f1_def)
qed

text \<open>
  Cleaning up a slot always works and ends its call once. On a consistent slot,
  \<open>cleanup_file_struct\<close> writes and closes the files, hands the fax node to the full queue, does
  nothing undefined, leaves the slot idle and the nodes of other slots alone, and counts one
  ended call exactly if the slot had one; the invariant holds afterwards.
\<close>

theorem cleanup_ends_call:
  assumes "vp_inv Oth f g"
  shows "\<exists>f' g'. cleanup_file_struct f g = Some (f', g') \<and> vp_inv Oth f' g' \<and> idle f' \<and> same_nodes Oth g g' \<and>
     calls g' = (if vf_callid f \<noteq> 0 then ended (calls g) else calls g)"
  using cleanup_ok[OF assms] by blast

text \<open>A state as after start-up with one storage directory and one fax node.\<close>

definition one_node_state :: vp_state where
  "one_node_state = \<lparr>vp_counters = zero_counters, vp_dirs = empty_dirs\<lparr>fd_num := 1\<rparr>, vp_dir_no = 0,
     vp_heap = [1 \<mapsto> zero_fax_node], vp_eq = \<lparr>q_head = Some 1, q_len = 1\<rparr>, vp_fq = empty_queue,
     vp_cdrs = cdr_init, vp_log = []\<rparr>"

lemma zero_slot_ok: "slot_ok zero_voice_file"
  by (simp add: slot_ok_def zero_voice_file_def)

lemma one_node_sys: "sys_ok one_node_state"
  by (simp add: sys_ok_def one_node_state_def dirs_ok_def empty_dirs_def init_ring)

lemma one_node_pool: "pool_ok {} None one_node_state"
proof -
  have "pool_lists {} None one_node_state [1] []"
    by (simp add: pool_lists_def one_node_state_def queue_holds_def empty_queue_def zero_fax_node_def node_full_def)
  then show ?thesis unfolding pool_ok_def by blast
qed

lemma one_node_inv: "slot_ok f \<Longrightarrow> cdr_node f = None \<Longrightarrow> vp_inv {} f one_node_state"
  by (simp add: vp_inv_def one_node_pool one_node_sys)

theorem cleanup_ends_call_witness:
  "\<exists>f' g'. cleanup_file_struct (zero_voice_file\<lparr>vf_callid := 5, fp_up := Some 3\<rparr>) one_node_state = Some (f', g') \<and>
     vp_inv {} f' g' \<and> idle f' \<and> calls g' = (0, 1, -1)"
proof -
  have "slot_ok (zero_voice_file\<lparr>vf_callid := 5, fp_up := Some 3\<rparr>)"
    using zero_slot_ok by (simp add: slot_ok_def)
  from cleanup_ends_call[OF one_node_inv[OF this]] show ?thesis
    by (auto simp: zero_voice_file_def ended_def calls_def one_node_state_def zero_counters_def)
qed

end
