(* ===== verification/Voice_Parser.thy ===== *)
theory Voice_Parser
  imports Voice_File
begin

text \<open>
  \<open>voice_parser\<close> of \<open>src/src/voice_parser.c\<close>: one captured packet on the slot of its call.
  A packet is the memory of the fifo slot that holds it, of 2048 bytes, with the length the
  capture reported. The theory also has the part of \<open>cycle_thread\<close>
  (\<open>src/src/cycle_operation.c\<close>) that ends calls which went silent.
\<close>

subsection \<open>The packet\<close>

record voice_pkt =
  p_callid :: u64
  p_calldir :: u8
  p_case :: u8
  p_data_mark :: u8
  p_data_no :: u8
  p_data_len :: u16

definition read_voice_pkt :: "u8 list \<Rightarrow> voice_pkt option" where
  "read_voice_pkt pkt = do {
     callid \<leftarrow> rd_le64 pkt 20;
     calldir \<leftarrow> rd pkt 28;
     ccase \<leftarrow> rd pkt 29;
     data_mark \<leftarrow> rd pkt 33;
     data_no \<leftarrow> rd pkt 34;
     data_len \<leftarrow> rd_be16 pkt 35;
     Some \<lparr>p_callid = callid, p_calldir = calldir, p_case = ccase, p_data_mark = data_mark,
           p_data_no = data_no, p_data_len = data_len\<rparr>}"

subsection \<open>A new call\<close>

text \<open>
  The branch for a packet whose call id is not the slot's. The \<open>memset\<close> clears the whole
  slot: also \<open>update_time\<close>, which was just set, and the mutex, which is held.
\<close>

definition voice_start :: "vp_env \<Rightarrow> voice_pkt \<Rightarrow> voice_file_info \<Rightarrow> vp_state \<Rightarrow> (voice_file_info \<times> vp_state) option" where
  "voice_start env p f g = do {
     (_, g1) \<leftarrow> cleanup_file_struct f g;
     let c = vp_counters g1;
     let g2 = g1\<lparr>vp_counters := c\<lparr>call_start := inc64 (call_start c), call_online := inc64 (call_online c)\<rparr>\<rparr>;
     let f2 = zero_voice_file\<lparr>vf_callid := p_callid p, case_mark := p_case p, data_mark := p_data_mark p,
                up_lost := 0, down_lost := 0, up_no := 1, down_no := 1,
                vf_cdr := zero_cdr\<lparr>cdr_callid := p_callid p, cdr_time := env_cdr_time env, cdr_path := 0,
                                   cdr_ruleflag := p_case p, cdr_callflag := 0\<rparr>\<rparr>;
     (ret, f3, g3) \<leftarrow> open_voice_file env f2 g2;
     let c3 = vp_counters g3;
     if ret = 0
     then do {
       let g4 = g3\<lparr>vp_counters := c3\<lparr>file_ok := inc64 (file_ok c3)\<rparr>\<rparr>;
       (node, h, q) \<leftarrow> FETCH_PHEAD (vp_heap g4) (Some (vp_eq g4));
       let f4 = f3\<lparr>cdr_node := node, fax_data_len_up := 0, fax_data_len_down := 0\<rparr>;
       let g5 = g4\<lparr>vp_heap := h, vp_eq := q\<rparr>;
       case node of
         Some a \<Rightarrow> (if h a = None then None else Some (f4, g5\<lparr>vp_heap := h(a \<mapsto> zero_fax_node)\<rparr>))
       | None \<Rightarrow> (let c5 = vp_counters g5 in
           Some (f4, g5\<lparr>vp_counters := c5\<lparr>fax_lost := inc64 (fax_lost c5)\<rparr>, vp_cdrs := cdr_insert (vf_cdr f4) (vp_cdrs g5)\<rparr>))}
     else Some (f3, g3\<lparr>vp_counters := c3\<lparr>file_fail := inc64 (file_fail c3)\<rparr>\<rparr>)}"

subsection \<open>The voice data\<close>

text \<open>When a buffer is full both are written, and sent to a listener if there is one.\<close>

definition flush_voice :: "vp_env \<Rightarrow> voice_file_info \<Rightarrow> vp_state \<Rightarrow> (voice_file_info \<times> vp_state) option" where
  "flush_voice env f g = do {
     (f1, g1) \<leftarrow> (if 0 < tx_fd f then do {(_, f', g') \<leftarrow> send_voice_data env f g; Some (f', g')} else Some (f, g));
     g2 \<leftarrow> write_voice_file f1 g1;
     Some (f1\<lparr>data_count_up := 0, data_count_down := 0\<rparr>, g2)}"

text \<open>\<open>memcpy\<close> from the packet into a voice buffer, then \<open>encrypt_voice\<close> in place.\<close>

definition copy_voice :: "u8 list \<Rightarrow> nat \<Rightarrow> u8 list \<Rightarrow> nat \<Rightarrow> u8 list option" where
  "copy_voice buf off pkt n = do {
     bs \<leftarrow> rd_n pkt 37 n;
     buf1 \<leftarrow> wr_n buf off bs;
     seg \<leftarrow> rd_n buf1 off n;
     wr_n buf1 off (encrypt_voice seg)}"

definition fit :: "u32 \<Rightarrow> u16 \<Rightarrow> u16" where
  "fit left data_len = (if left < ucast data_len then ucast left else data_len)"

definition fax_up :: "u8 list \<Rightarrow> u16 \<Rightarrow> voice_file_info \<Rightarrow> vp_state \<Rightarrow> (voice_file_info \<times> vp_state) option" where
  "fax_up pkt data_len f g =
     (case cdr_node f of
        None \<Rightarrow> Some (f, g)
      | Some a \<Rightarrow>
          (if fax_data_len_up f < 524288
           then do {
             let len = fit (524288 - fax_data_len_up f) data_len;
             bs \<leftarrow> rd_n pkt 37 (unat len);
             n \<leftarrow> vp_heap g a;
             buf \<leftarrow> wr_n (np_up n) (unat (fax_data_len_up f)) bs;
             Some (f\<lparr>fax_data_len_up := fax_data_len_up f + ucast len\<rparr>,
                   g\<lparr>vp_heap := (vp_heap g)(a \<mapsto> n\<lparr>np_up := buf\<rparr>)\<rparr>)}
           else Some (f, g)))"

definition fax_down :: "u8 list \<Rightarrow> u16 \<Rightarrow> voice_file_info \<Rightarrow> vp_state \<Rightarrow> (voice_file_info \<times> vp_state) option" where
  "fax_down pkt data_len f g =
     (case cdr_node f of
        None \<Rightarrow> Some (f, g)
      | Some a \<Rightarrow>
          (if fax_data_len_down f < 524288
           then do {
             let len = fit (524288 - fax_data_len_down f) data_len;
             bs \<leftarrow> rd_n pkt 37 (unat len);
             n \<leftarrow> vp_heap g a;
             buf \<leftarrow> wr_n (np_down n) (unat (fax_data_len_down f)) bs;
             Some (f\<lparr>fax_data_len_down := fax_data_len_down f + ucast len\<rparr>,
                   g\<lparr>vp_heap := (vp_heap g)(a \<mapsto> n\<lparr>np_down := buf\<rparr>)\<rparr>)}
           else Some (f, g)))"

definition voice_up :: "vp_env \<Rightarrow> u8 list \<Rightarrow> voice_pkt \<Rightarrow> voice_file_info \<Rightarrow> vp_state \<Rightarrow> (voice_file_info \<times> vp_state) option" where
  "voice_up env pkt p f g = do {
     let f1 = (if up_no f \<noteq> p_data_no p then f\<lparr>up_lost := up_lost f + 1\<rparr> else f);
     let f2 = f1\<lparr>up_no := p_data_no p + 1\<rparr>;
     (f3, g3) \<leftarrow> (if 8192 \<le> data_count_up f2 then flush_voice env f2 g else Some (f2, g));
     let len = fit (8192 - data_count_up f3) (p_data_len p);
     buf \<leftarrow> copy_voice (data_up f3) (unat (data_count_up f3)) pkt (unat len);
     let f4 = f3\<lparr>data_up := buf, data_count_up := data_count_up f3 + ucast len\<rparr>;
     let f5 = (if p_data_mark p = 2 then f4\<lparr>up_end_flag := 1\<rparr> else f4);
     fax_up pkt len f5 g3}"

definition voice_down :: "vp_env \<Rightarrow> u8 list \<Rightarrow> voice_pkt \<Rightarrow> voice_file_info \<Rightarrow> vp_state \<Rightarrow> (voice_file_info \<times> vp_state) option" where
  "voice_down env pkt p f g = do {
     let f1 = (if down_no f \<noteq> p_data_no p then f\<lparr>down_lost := down_lost f + 1\<rparr> else f);
     let f2 = f1\<lparr>down_no := p_data_no p + 1\<rparr>;
     (f3, g3) \<leftarrow> (if 8192 \<le> data_count_down f2 then flush_voice env f2 g else Some (f2, g));
     let len = fit (8192 - data_count_down f3) (p_data_len p);
     buf \<leftarrow> copy_voice (data_down f3) (unat (data_count_down f3)) pkt (unat len);
     let f4 = f3\<lparr>data_down := buf, data_count_down := data_count_down f3 + ucast len\<rparr>;
     let f5 = (if p_data_mark p = 2 then f4\<lparr>down_end_flag := 1\<rparr> else f4);
     fax_down pkt len f5 g3}"

subsection \<open>The end of a call\<close>

definition voice_end :: "vp_env \<Rightarrow> voice_file_info \<Rightarrow> vp_state \<Rightarrow> (voice_file_info \<times> vp_state) option" where
  "voice_end env f g =
     (if up_end_flag f = 1 \<and> down_end_flag f = 1
      then do {
        let f1 = f\<lparr>update_time := 0, vf_callid := 0, up_end_flag := 0, down_end_flag := 0, up_no := 0, down_no := 0\<rparr>;
        (f2, g2) \<leftarrow> (if 0 < tx_fd f1 then do {(_, f', g') \<leftarrow> send_voice_data env f1 g; Some (f', g')} else Some (f1, g));
        g3 \<leftarrow> write_voice_file f2 g2;
        let (f4, g4) = close_voice_file f2 g3;
        let c = vp_counters g4;
        let g5 = g4\<lparr>vp_counters := c\<lparr>call_end := inc64 (call_end c), call_online := dec64 (call_online c)\<rparr>\<rparr>;
        let (f6, g6) = close_tx f4 g5;
        enqueue_cdr f6 g6}
      else Some (f, g))"

subsection \<open>voice_parser\<close>

definition voice_data :: "vp_env \<Rightarrow> u8 list \<Rightarrow> voice_pkt \<Rightarrow> voice_file_info \<Rightarrow> vp_state \<Rightarrow> (voice_file_info \<times> vp_state) option" where
  "voice_data env pkt p f g = do {
     (f1, g1) \<leftarrow> (if vf_callid f \<noteq> p_callid p then voice_start env p f g else Some (f, g));
     (f2, g2) \<leftarrow> (if p_calldir p = 1 then voice_up env pkt p f1 g1 else voice_down env pkt p f1 g1);
     voice_end env f2 g2}"

text \<open>What happens to the slot while its mutex is held.\<close>

definition voice_locked :: "vp_env \<Rightarrow> u8 list \<Rightarrow> voice_pkt \<Rightarrow> voice_file_info \<Rightarrow> vp_state \<Rightarrow> (voice_file_info \<times> vp_state) option" where
  "voice_locked env pkt p f g =
     (let f1 = f\<lparr>vf_mutex := mutex_lock (vf_mutex f), update_time := env_time env\<rparr> in
      if 18000 \<le> update_time f1 - call_time (p_callid p)
      then (if vf_callid f1 \<noteq> 0
            then do {
              (f2, g2) \<leftarrow> voice_data env pkt p (f1\<lparr>up_end_flag := 1, down_end_flag := 1\<rparr>) g;
              Some (f2\<lparr>vf_mutex := mutex_unlock (vf_mutex f2)\<rparr>, g2)}
            else Some (f1\<lparr>vf_mutex := mutex_unlock (vf_mutex f1)\<rparr>, g))
      else do {
        (f2, g2) \<leftarrow> voice_data env pkt p f1 g;
        Some (f2\<lparr>vf_mutex := mutex_unlock (vf_mutex f2)\<rparr>, g2)})"

type_synonym slots = "slot \<Rightarrow> voice_file_info"

definition voice_parser :: "vp_env \<Rightarrow> u8 list \<Rightarrow> u32 \<Rightarrow> slots \<Rightarrow> vp_state \<Rightarrow> (int \<times> slots \<times> vp_state) option" where
  "voice_parser env pkt pkt_len vf g =
     (if pkt_len < 36 then Some (-1, vf, g)
      else do {
        kind \<leftarrow> rd pkt 16;
        if kind \<noteq> 3 then Some (-1, vf, g)
        else do {
          p \<leftarrow> read_voice_pkt pkt;
          if 1024 < p_data_len p then Some (-2, vf, g)
          else (case get_file_struct (p_callid p) of
              None \<Rightarrow> Some (-1, vf, g)
            | Some i \<Rightarrow> do {
                (f', g') \<leftarrow> voice_locked env pkt p (vf i) g;
                Some (0, vf(i := f'), g')})}})"

text \<open>
  The loop body of \<open>cycle_thread\<close> on one slot: a call whose slot was not updated for a
  minute is cleaned up, unless its \<open>update_time\<close> is 0. The mutex of the slot is locked before and unlocked
  behind it, which changes nothing at a mutex that is free, nor at one that is already undefined.
\<close>

definition cycle_slot :: "int \<Rightarrow> voice_file_info \<Rightarrow> vp_state \<Rightarrow> (voice_file_info \<times> vp_state) option" where
  "cycle_slot tim f g =
     (if update_time f \<noteq> 0 \<and> 60 \<le> tim - update_time f
      then do {
        (f1, g1) \<leftarrow> cleanup_file_struct f g;
        Some (f1\<lparr>update_time := 0\<rparr>, g1)}
      else Some (f, g))"

fun cycle_slots :: "int \<Rightarrow> slot list \<Rightarrow> slots \<Rightarrow> vp_state \<Rightarrow> (slots \<times> vp_state) option" where
  "cycle_slots tim [] vf g = Some (vf, g)"
| "cycle_slots tim (i # is) vf g = do {
     (f, g1) \<leftarrow> cycle_slot tim (vf i) g;
     cycle_slots tim is (vf(i := f)) g1}"

definition all_slots :: "slot list" where
  "all_slots = [(of_nat i, of_nat j, of_nat k). i \<leftarrow> [0..<64], j \<leftarrow> [0..<64], k \<leftarrow> [0..<32]]"

subsection \<open>The steps keep the invariants\<close>

lemma unat_ucast_u32 [simp]: "unat (ucast (x :: u16) :: u32) = unat x"
  using u16_bound[of x] by (simp add: unsigned_ucast_eq take_bit_nat_eq_self)

lemma unat_ucast_u16: "unat (x :: u32) < 65536 \<Longrightarrow> unat (ucast x :: u16) = unat x"
  by (simp add: unsigned_ucast_eq take_bit_nat_eq_self)

lemma unat_add_ucast: "unat (a :: u32) + unat (x :: u16) < 2 ^ 32 \<Longrightarrow> unat (a + ucast x) = unat a + unat x"
  using unat_add_lem[of a "ucast x :: u32"] by simp

lemma unat_fit: "unat (fit left len) = min (unat left) (unat len)"
proof (cases "left < ucast len")
  case True
  then have "unat left < unat len" by (simp add: word_less_nat_alt)
  then show ?thesis using u16_bound[of len] True by (simp add: fit_def unat_ucast_u16)
next
  case False
  then have "unat len \<le> unat left" by (simp add: word_less_nat_alt not_less)
  then show ?thesis using False by (simp add: fit_def)
qed

lemma length_encrypt [simp]: "length (encrypt_voice xs) = length xs"
  by (simp add: encrypt_voice_def)

lemma copy_voice_ok:
  assumes "off + n \<le> length buf" "37 + n \<le> length pkt"
  shows "copy_voice buf off pkt n = Some (take off buf @ encrypt_voice (take n (drop 37 pkt)) @ drop (off + n) buf)"
proof -
  let ?bs = "take n (drop 37 pkt)"
  have l: "length ?bs = n" using assms(2) by simp
  have 1: "rd_n pkt 37 n = Some ?bs" using assms(2) by (simp add: rd_n_def)
  let ?b1 = "take off buf @ ?bs @ drop (off + n) buf"
  have 2: "wr_n buf off ?bs = Some ?b1" using assms l by (simp add: wr_n_def)
  have 3: "rd_n ?b1 off n = Some ?bs" using wr_n_rd_n[OF 2] unfolding l .
  have lb: "length ?b1 = length buf" using wr_n_length[OF 2] .
  have 4: "wr_n ?b1 off (encrypt_voice ?bs) = Some (take off ?b1 @ encrypt_voice ?bs @ drop (off + n) ?b1)"
    using assms(1) lb l by (simp only: wr_n_def length_encrypt if_True)
  have "take off ?b1 = take off buf" using assms(1) by simp
  moreover have "drop (off + n) ?b1 = drop (off + n) buf" using wr_n_drop[OF 2] unfolding l .
  ultimately show ?thesis using 1 2 3 4 by (simp only: copy_voice_def bind.bind_lunit)
qed

text \<open>What stays of a slot while a packet of its call is stored.\<close>

definition same_call :: "voice_file_info \<Rightarrow> voice_file_info \<Rightarrow> bool" where
  "same_call f f' \<longleftrightarrow> vf_callid f' = vf_callid f \<and> cdr_node f' = cdr_node f \<and> update_time f' = update_time f \<and>
     vf_mutex f' = vf_mutex f \<and> vf_cdr f' = vf_cdr f \<and> fp_up f' = fp_up f \<and> fp_down f' = fp_down f"

lemma flush_voice_ok:
  assumes "vp_inv Oth f g"
  shows "\<exists>fd g'. flush_voice env f g = Some (f\<lparr>tx_fd := fd, data_count_up := 0, data_count_down := 0\<rparr>, g') \<and>
     io_only g g' \<and> (\<forall>p. written p (vp_log g') = written p (vp_log g) @ written p (voice_writes f))"
proof -
  have s: "slot_ok f" using assms by (simp add: vp_inv_def)
  obtain fd g1 where a: "(if 0 < tx_fd f then do {(_, f', g') \<leftarrow> send_voice_data env f g; Some (f', g')} else Some (f, g)) =
      Some (f\<lparr>tx_fd := fd\<rparr>, g1)" "io_only g g1" "\<forall>p. written p (vp_log g1) = written p (vp_log g)"
  proof (cases "0 < tx_fd f")
    case True
    obtain r fd g' where "send_voice_data env f g = Some (r, f\<lparr>tx_fd := fd\<rparr>, g')" "io_only g g'"
      "\<forall>p. written p (vp_log g') = written p (vp_log g)"
      using send_voice_data_ok[OF s] by blast
    then show ?thesis using that[of fd g'] True by simp
  next
    case False
    then show ?thesis using that[of "tx_fd f" g] by simp
  qed
  have "slot_ok (f\<lparr>tx_fd := fd\<rparr>)" using s by (simp add: slot_ok_def)
  note b = write_voice_file_val[OF this, of g1]
  let ?g2 = "g1\<lparr>vp_log := vp_log g1 @ voice_writes (f\<lparr>tx_fd := fd\<rparr>)\<rparr>"
  have "flush_voice env f g = Some (f\<lparr>tx_fd := fd, data_count_up := 0, data_count_down := 0\<rparr>, ?g2)"
    using a(1) b by (simp add: flush_voice_def)
  moreover have "voice_writes (f\<lparr>tx_fd := fd\<rparr>) = voice_writes f" by (simp add: voice_writes_def)
  ultimately show ?thesis using a(3) io_only_trans[OF a(2) io_only_log_all] by auto
qed

text \<open>The arithmetic of a copy that is cut to the room left in a buffer of \<open>cap\<close> bytes.\<close>

lemma room:
  assumes "unat c \<le> unat cap" "unat (cap :: u32) < 2 ^ 31"
  shows "unat (fit (cap - c) len) = min (unat cap - unat c) (unat len)"
    and "unat (c + ucast (fit (cap - c) len)) = unat c + min (unat cap - unat c) (unat len)"
proof -
  have "unat (cap - c) = unat cap - unat c" using assms(1) by (simp add: unat_sub word_le_nat_alt)
  then show f: "unat (fit (cap - c) len) = min (unat cap - unat c) (unat len)" by (simp add: unat_fit)
  have "unat c + min (unat cap - unat c) (unat len) \<le> unat cap" using assms(1) by linarith
  then have "unat c + min (unat cap - unat c) (unat len) < 2 ^ 32" using assms(2) by simp
  then show "unat (c + ucast (fit (cap - c) len)) = unat c + min (unat cap - unat c) (unat len)"
    using unat_add_ucast[of c "fit (cap - c) len"] unfolding f by blast
qed

lemma fax_store:
  assumes "length b = FAX_BUF_SIZE" "unat c \<le> FAX_BUF_SIZE" "37 + unat len \<le> length pkt"
  shows "\<exists>bs buf. rd_n pkt 37 (unat (fit (524288 - c) len)) = Some bs \<and> wr_n b (unat c) bs = Some buf \<and>
     length buf = FAX_BUF_SIZE \<and> unat (c + ucast (fit (524288 - c) len)) \<le> FAX_BUF_SIZE"
proof -
  let ?n = "unat (fit (524288 - c) len)"
  have u: "unat (524288 :: u32) = FAX_BUF_SIZE" by simp
  have c: "unat c \<le> unat (524288 :: u32)" "unat (524288 :: u32) < 2 ^ 31" using assms(2) by simp_all
  note r = room[OF c, of len, unfolded u]
  have n: "?n \<le> unat len" "unat c + ?n \<le> FAX_BUF_SIZE" using assms(2) unfolding r(1) by linarith+
  let ?bs = "take ?n (drop 37 pkt)"
  have bs: "rd_n pkt 37 ?n = Some ?bs" "length ?bs = ?n" using assms(3) n(1) by (simp_all add: rd_n_def)
  have "unat c + length ?bs \<le> length b" unfolding bs(2) assms(1) by (rule n(2))
  from wr_n_Some[OF this] obtain buf where b: "wr_n b (unat c) ?bs = Some buf" by blast
  have "unat (c + ucast (fit (524288 - c) len)) \<le> FAX_BUF_SIZE" using assms(2) unfolding r(2) by linarith
  then show ?thesis using bs(1) b wr_n_length[OF b, unfolded assms(1)] by blast
qed

lemma own_node:
  assumes "vp_inv Oth f g" "cdr_node f = Some a"
  obtains n where "vp_heap g a = Some n" "node_full n" "a \<notin> Oth"
  using assms by (auto simp: vp_inv_def pool_ok_def pool_lists_def)

lemma own_node_store:
  assumes "vp_inv Oth f g" "cdr_node f = Some a" "node_full n'"
  shows "pool_ok Oth (Some a) (g\<lparr>vp_heap := (vp_heap g)(a \<mapsto> n')\<rparr>)" "same_nodes Oth g (g\<lparr>vp_heap := (vp_heap g)(a \<mapsto> n')\<rparr>)"
    "sys_ok (g\<lparr>vp_heap := (vp_heap g)(a \<mapsto> n')\<rparr>)" "calls (g\<lparr>vp_heap := (vp_heap g)(a \<mapsto> n')\<rparr>) = calls g"
proof -
  have "a \<notin> Oth" using own_node[OF assms(1,2)] by blast
  then show "same_nodes Oth g (g\<lparr>vp_heap := (vp_heap g)(a \<mapsto> n')\<rparr>)" by (auto simp: same_nodes_def)
  show "pool_ok Oth (Some a) (g\<lparr>vp_heap := (vp_heap g)(a \<mapsto> n')\<rparr>)"
    using assms by (intro pool_ok_upd_own) (simp_all add: vp_inv_def)
  show "sys_ok (g\<lparr>vp_heap := (vp_heap g)(a \<mapsto> n')\<rparr>)" using assms(1) by (simp add: vp_inv_def sys_ok_def)
  show "calls (g\<lparr>vp_heap := (vp_heap g)(a \<mapsto> n')\<rparr>) = calls g" by (simp add: calls_def)
qed

lemma fax_up_ok:
  assumes "vp_inv Oth f g" "37 + unat len \<le> length pkt"
  shows "\<exists>n g'. fax_up pkt len f g = Some (f\<lparr>fax_data_len_up := n\<rparr>, g') \<and> vp_inv Oth (f\<lparr>fax_data_len_up := n\<rparr>) g' \<and>
     same_nodes Oth g g' \<and> calls g' = calls g \<and> vp_log g' = vp_log g"
proof (cases "cdr_node f = None \<or> \<not> fax_data_len_up f < 524288")
  case True
  then have "fax_up pkt len f g = Some (f\<lparr>fax_data_len_up := fax_data_len_up f\<rparr>, g)"
    by (auto simp: fax_up_def split: option.splits)
  moreover have "vp_inv Oth (f\<lparr>fax_data_len_up := fax_data_len_up f\<rparr>) g" using assms(1) by simp
  ultimately show ?thesis using same_nodes_refl by blast
next
  case False
  then obtain a where a: "cdr_node f = Some a" "fax_data_len_up f < 524288" by auto
  obtain n where n: "vp_heap g a = Some n" "node_full n" "a \<notin> Oth" by (rule own_node[OF assms(1) a(1)])
  have "length (np_up n) = FAX_BUF_SIZE" "unat (fax_data_len_up f) \<le> FAX_BUF_SIZE"
    using n(2) assms(1) by (simp_all add: node_full_def vp_inv_def slot_ok_def)
  from fax_store[OF this assms(2)] obtain bs buf where b: "rd_n pkt 37 (unat (fit (524288 - fax_data_len_up f) len)) = Some bs"
    "wr_n (np_up n) (unat (fax_data_len_up f)) bs = Some buf" "length buf = FAX_BUF_SIZE"
    "unat (fax_data_len_up f + ucast (fit (524288 - fax_data_len_up f) len)) \<le> FAX_BUF_SIZE" by blast
  let ?k = "fax_data_len_up f + ucast (fit (524288 - fax_data_len_up f) len)"
  have e: "fax_up pkt len f g = Some (f\<lparr>fax_data_len_up := ?k\<rparr>, g\<lparr>vp_heap := (vp_heap g)(a \<mapsto> n\<lparr>np_up := buf\<rparr>)\<rparr>)"
    by (simp add: fax_up_def Let_def a b(1,2) n(1))
  have "node_full (n\<lparr>np_up := buf\<rparr>)" using n(2) b(3) by (simp add: node_full_def)
  note st = own_node_store[OF assms(1) a(1) this]
  have "slot_ok (f\<lparr>fax_data_len_up := ?k\<rparr>)" using assms(1) b(4) by (simp add: vp_inv_def slot_ok_def)
  then have "vp_inv Oth (f\<lparr>fax_data_len_up := ?k\<rparr>) (g\<lparr>vp_heap := (vp_heap g)(a \<mapsto> n\<lparr>np_up := buf\<rparr>)\<rparr>)"
    using st(1,3) a(1) by (simp add: vp_inv_def)
  then show ?thesis using e st(2,4) by fastforce
qed

lemma fax_down_ok:
  assumes "vp_inv Oth f g" "37 + unat len \<le> length pkt"
  shows "\<exists>n g'. fax_down pkt len f g = Some (f\<lparr>fax_data_len_down := n\<rparr>, g') \<and> vp_inv Oth (f\<lparr>fax_data_len_down := n\<rparr>) g' \<and>
     same_nodes Oth g g' \<and> calls g' = calls g \<and> vp_log g' = vp_log g"
proof (cases "cdr_node f = None \<or> \<not> fax_data_len_down f < 524288")
  case True
  then have "fax_down pkt len f g = Some (f\<lparr>fax_data_len_down := fax_data_len_down f\<rparr>, g)"
    by (auto simp: fax_down_def split: option.splits)
  moreover have "vp_inv Oth (f\<lparr>fax_data_len_down := fax_data_len_down f\<rparr>) g" using assms(1) by simp
  ultimately show ?thesis using same_nodes_refl by blast
next
  case False
  then obtain a where a: "cdr_node f = Some a" "fax_data_len_down f < 524288" by auto
  obtain n where n: "vp_heap g a = Some n" "node_full n" "a \<notin> Oth" by (rule own_node[OF assms(1) a(1)])
  have "length (np_down n) = FAX_BUF_SIZE" "unat (fax_data_len_down f) \<le> FAX_BUF_SIZE"
    using n(2) assms(1) by (simp_all add: node_full_def vp_inv_def slot_ok_def)
  from fax_store[OF this assms(2)] obtain bs buf where b: "rd_n pkt 37 (unat (fit (524288 - fax_data_len_down f) len)) = Some bs"
    "wr_n (np_down n) (unat (fax_data_len_down f)) bs = Some buf" "length buf = FAX_BUF_SIZE"
    "unat (fax_data_len_down f + ucast (fit (524288 - fax_data_len_down f) len)) \<le> FAX_BUF_SIZE" by blast
  let ?k = "fax_data_len_down f + ucast (fit (524288 - fax_data_len_down f) len)"
  have e: "fax_down pkt len f g = Some (f\<lparr>fax_data_len_down := ?k\<rparr>, g\<lparr>vp_heap := (vp_heap g)(a \<mapsto> n\<lparr>np_down := buf\<rparr>)\<rparr>)"
    by (simp add: fax_down_def Let_def a b(1,2) n(1))
  have "node_full (n\<lparr>np_down := buf\<rparr>)" using n(2) b(3) by (simp add: node_full_def)
  note st = own_node_store[OF assms(1) a(1) this]
  have "slot_ok (f\<lparr>fax_data_len_down := ?k\<rparr>)" using assms(1) b(4) by (simp add: vp_inv_def slot_ok_def)
  then have "vp_inv Oth (f\<lparr>fax_data_len_down := ?k\<rparr>) (g\<lparr>vp_heap := (vp_heap g)(a \<mapsto> n\<lparr>np_down := buf\<rparr>)\<rparr>)"
    using st(1,3) a(1) by (simp add: vp_inv_def)
  then show ?thesis using e st(2,4) by fastforce
qed

text \<open>
  One direction of a call as a stream: what its file has received and what waits in its buffer.
\<close>

definition stored_up :: "voice_file_info \<Rightarrow> u8 list" where
  "stored_up f = take (unat (data_count_up f)) (data_up f)"

definition stored_down :: "voice_file_info \<Rightarrow> u8 list" where
  "stored_down f = take (unat (data_count_down f)) (data_down f)"

definition payload :: "u8 list \<Rightarrow> nat \<Rightarrow> u8 list" where
  "payload pkt n = take n (drop 37 pkt)"

text \<open>How much of a payload of \<open>n\<close> bytes is kept when \<open>k\<close> bytes are in the buffer.\<close>

definition kept :: "nat \<Rightarrow> nat \<Rightarrow> nat" where
  "kept k n = min (DATA_SIZE - (if k = DATA_SIZE then 0 else k)) n"

lemma voice_store:
  assumes "length b = DATA_SIZE" "unat c \<le> DATA_SIZE" "37 + unat len \<le> length pkt"
    and "k = fit (8192 - c) len"
  shows "\<exists>buf. copy_voice b (unat c) pkt (unat k) = Some buf \<and> length buf = DATA_SIZE \<and>
     unat (c + ucast k) = unat c + unat k \<and> unat k = min (DATA_SIZE - unat c) (unat len) \<and>
     take (unat (c + ucast k)) buf = take (unat c) b @ encrypt_voice (payload pkt (unat k))"
proof -
  have u: "unat (8192 :: u32) = DATA_SIZE" by simp
  have c: "unat c \<le> unat (8192 :: u32)" "unat (8192 :: u32) < 2 ^ 31" using assms(2) by simp_all
  note r = room[OF c, of len, unfolded u, folded assms(4)]
  have a: "unat (c + ucast k) = unat c + unat k" unfolding r by (rule refl)
  have n: "unat k \<le> unat len" "unat c + unat k \<le> length b" using assms(1,2) unfolding r(1) by linarith+
  have p: "37 + unat k \<le> length pkt" using n(1) assms(3) by linarith
  let ?buf = "take (unat c) b @ encrypt_voice (take (unat k) (drop 37 pkt)) @ drop (unat c + unat k) b"
  have "copy_voice b (unat c) pkt (unat k) = Some ?buf" by (rule copy_voice_ok[OF n(2) p])
  moreover have l: "length (take (unat c) b) = unat c" "length (encrypt_voice (take (unat k) (drop 37 pkt))) = unat k"
    using n(2) p by simp_all
  then have "length ?buf = DATA_SIZE" using n(2) assms(1) by (simp del: length_encrypt length_take)
  moreover have "take (unat (c + ucast k)) ?buf = take (unat c) b @ encrypt_voice (payload pkt (unat k))"
    unfolding a payload_def using l by (simp del: length_encrypt length_take)
  ultimately show ?thesis using a r(1) by blast
qed

text \<open>The full buffer is flushed first; either way the stream of the direction is unchanged.\<close>

lemma flush_if_full_up:
  assumes "vp_inv Oth f g"
  shows "\<exists>f' g'. (if 8192 \<le> data_count_up f then flush_voice env f g else Some (f, g)) = Some (f', g') \<and>
     vp_inv Oth f' g' \<and> io_only g g' \<and> same_call f f' \<and>
     (\<exists>fd cu cd. f' = f\<lparr>tx_fd := fd, data_count_up := cu, data_count_down := cd\<rparr>) \<and>
     unat (data_count_up f') = (if unat (data_count_up f) = DATA_SIZE then 0 else unat (data_count_up f)) \<and>
     (\<forall>q. fp_up f = Some q \<longrightarrow> fp_down f \<noteq> Some q \<longrightarrow>
        written q (vp_log g') @ stored_up f' = written q (vp_log g) @ stored_up f)"
proof (cases "8192 \<le> data_count_up f")
  case True
  then have "unat (data_count_up f) = DATA_SIZE"
    using assms(1) by (simp add: word_le_nat_alt vp_inv_def slot_ok_def)
  moreover have "unat (data_count_down f) \<le> DATA_SIZE" "length (data_up f) = DATA_SIZE"
    using assms(1) by (simp_all add: vp_inv_def slot_ok_def)
  ultimately have w: "\<forall>q. fp_up f = Some q \<longrightarrow> fp_down f \<noteq> Some q \<longrightarrow> written q (voice_writes f) = data_up f"
    "stored_up f = data_up f" "unat (data_count_up f) = DATA_SIZE"
    by (simp_all add: voice_writes_def Let_def stored_up_def)
  from flush_voice_ok[OF assms(1), of env] obtain fd g' where g': "flush_voice env f g =
      Some (f\<lparr>tx_fd := fd, data_count_up := 0, data_count_down := 0\<rparr>, g')" "io_only g g'"
    "\<forall>p. written p (vp_log g') = written p (vp_log g) @ written p (voice_writes f)" by blast
  let ?f' = "f\<lparr>tx_fd := fd, data_count_up := 0, data_count_down := 0\<rparr>"
  have "vp_inv Oth ?f' g" using assms(1) by (simp add: vp_inv_def slot_ok_def)
  then have "vp_inv Oth ?f' g'" by (rule io_only_inv[OF g'(2)])
  moreover have "\<forall>q. fp_up f = Some q \<longrightarrow> fp_down f \<noteq> Some q \<longrightarrow>
      written q (vp_log g') @ stored_up ?f' = written q (vp_log g) @ stored_up f"
    using g'(3) w by (simp add: stored_up_def)
  ultimately show ?thesis using True g'(1,2) w(3) by (auto simp: same_call_def)
next
  case False
  then have "unat (data_count_up f) \<noteq> DATA_SIZE" by (simp add: word_le_nat_alt)
  moreover have "\<exists>fd cu cd. f = f\<lparr>tx_fd := fd, data_count_up := cu, data_count_down := cd\<rparr>"
    by (intro exI[of _ "tx_fd f"] exI[of _ "data_count_up f"] exI[of _ "data_count_down f"]) simp
  ultimately show ?thesis using False assms(1)
    by (intro exI[of _ f] exI[of _ g] conjI) (simp_all add: same_call_def)
qed


text \<open>What \<open>voice_up\<close> does, once and for all.\<close>

definition up_lost_after :: "voice_pkt \<Rightarrow> voice_file_info \<Rightarrow> u32" where
  "up_lost_after p f = (if up_no f \<noteq> p_data_no p then up_lost f + 1 else up_lost f)"

lemma voice_up_ok:
  assumes "vp_inv Oth f g" "37 + unat (p_data_len p) \<le> length pkt"
  shows "\<exists>f' g'. voice_up env pkt p f g = Some (f', g') \<and> vp_inv Oth f' g' \<and> same_nodes Oth g g' \<and>
     calls g' = calls g \<and> same_call f f' \<and>
     (\<forall>q. fp_up f = Some q \<longrightarrow> fp_down f \<noteq> Some q \<longrightarrow>
       written q (vp_log g') @ stored_up f' = (written q (vp_log g) @ stored_up f) @
         encrypt_voice (payload pkt (kept (unat (data_count_up f)) (unat (p_data_len p))))) \<and>
     up_no f' = p_data_no p + 1 \<and> up_lost f' = up_lost_after p f \<and>
     up_end_flag f' = (if p_data_mark p = 2 then 1 else up_end_flag f) \<and> down_end_flag f' = down_end_flag f"
proof -
  define f2 where "f2 = f\<lparr>up_lost := up_lost_after p f, up_no := p_data_no p + 1\<rparr>"
  have f2: "(if up_no f \<noteq> p_data_no p then f\<lparr>up_lost := up_lost f + 1\<rparr> else f)\<lparr>up_no := p_data_no p + 1\<rparr> = f2"
    by (simp add: f2_def up_lost_after_def)
  have "vp_inv Oth f2 g" using assms by (simp_all add: f2_def vp_inv_def slot_ok_def)
  from flush_if_full_up[OF this, of env] obtain f3 g3 fd cu cd where
    fl: "(if 8192 \<le> data_count_up f2 then flush_voice env f2 g else Some (f2, g)) = Some (f3, g3)"
    "vp_inv Oth f3 g3" "io_only g g3" "f3 = f2\<lparr>tx_fd := fd, data_count_up := cu, data_count_down := cd\<rparr>"
    "unat (data_count_up f3) = (if unat (data_count_up f2) = DATA_SIZE then 0 else unat (data_count_up f2))"
    "\<forall>q. fp_up f2 = Some q \<longrightarrow> fp_down f2 \<noteq> Some q \<longrightarrow>
       written q (vp_log g3) @ stored_up f3 = written q (vp_log g) @ stored_up f2" by blast
  let ?k = "fit (8192 - data_count_up f3) (p_data_len p)"
  have d: "length (data_up f3) = DATA_SIZE" "unat (data_count_up f3) \<le> DATA_SIZE"
    using fl(2) by (simp_all add: vp_inv_def slot_ok_def)
  from voice_store[OF d assms(2) refl] obtain buf where b: "copy_voice (data_up f3) (unat (data_count_up f3)) pkt (unat ?k) = Some buf"
    "length buf = DATA_SIZE" "unat (data_count_up f3 + ucast ?k) = unat (data_count_up f3) + unat ?k"
    "unat ?k = min (DATA_SIZE - unat (data_count_up f3)) (unat (p_data_len p))"
    "take (unat (data_count_up f3 + ucast ?k)) buf = take (unat (data_count_up f3)) (data_up f3) @ encrypt_voice (payload pkt (unat ?k))"
    by blast
  define f4 where "f4 = f3\<lparr>data_up := buf, data_count_up := data_count_up f3 + ucast ?k\<rparr>"
  define f5 where "f5 = (if p_data_mark p = 2 then f4\<lparr>up_end_flag := 1\<rparr> else f4)"
  have "unat (data_count_up f3 + ucast ?k) \<le> DATA_SIZE" unfolding b(3,4) using d(2) by linarith
  then have "unat (data_count_up f5) \<le> DATA_SIZE" "length (data_up f5) = DATA_SIZE"
    using b(2) by (simp_all add: f5_def f4_def)
  then have "vp_inv Oth f5 g3" using fl(2) by (simp add: f5_def f4_def vp_inv_def slot_ok_def)
  moreover have "37 + unat ?k \<le> length pkt" using assms(2) b(4) by linarith
  ultimately obtain n g' where x: "fax_up pkt ?k f5 g3 = Some (f5\<lparr>fax_data_len_up := n\<rparr>, g')"
    "vp_inv Oth (f5\<lparr>fax_data_len_up := n\<rparr>) g'" "same_nodes Oth g3 g'" "calls g' = calls g3" "vp_log g' = vp_log g3"
    using fax_up_ok by blast
  let ?f' = "f5\<lparr>fax_data_len_up := n\<rparr>"
  have v: "voice_up env pkt p f g = Some (?f', g')"
    unfolding voice_up_def Let_def f2 f4_def[symmetric]
    by (simp only: fl(1) b(1) x(1) bind.bind_lunit prod.case f4_def[symmetric] f5_def[symmetric])
  have k: "unat ?k = kept (unat (data_count_up f)) (unat (p_data_len p))"
    unfolding b(4) fl(5) kept_def by (simp add: f2_def)
  have st: "stored_up ?f' = stored_up f3 @ encrypt_voice (payload pkt (unat ?k))"
    using b(5) by (simp add: stored_up_def f5_def f4_def)
  have "stored_up f2 = stored_up f" by (simp add: f2_def stored_up_def)
  then have "\<forall>q. fp_up f = Some q \<longrightarrow> fp_down f \<noteq> Some q \<longrightarrow>
       written q (vp_log g') @ stored_up ?f' = (written q (vp_log g) @ stored_up f) @
         encrypt_voice (payload pkt (kept (unat (data_count_up f)) (unat (p_data_len p))))"
    using fl(6) unfolding st x(5) k by (simp add: f2_def)
  moreover have "same_call f ?f'" by (simp add: same_call_def f5_def f4_def fl(4) f2_def)
  moreover have "up_no ?f' = p_data_no p + 1" "up_lost ?f' = up_lost_after p f"
    "up_end_flag ?f' = (if p_data_mark p = 2 then 1 else up_end_flag f)" "down_end_flag ?f' = down_end_flag f"
    by (simp_all add: f5_def f4_def fl(4) f2_def)
  moreover have "same_nodes Oth g g'" "calls g' = calls g"
    using same_nodes_trans[OF io_only_same[OF fl(3)] x(3)] calls_io_only[OF fl(3)] x(4) by simp_all
  ultimately show ?thesis using v x(2) by blast
qed

lemma flush_if_full_down:
  assumes "vp_inv Oth f g"
  shows "\<exists>f' g'. (if 8192 \<le> data_count_down f then flush_voice env f g else Some (f, g)) = Some (f', g') \<and>
     vp_inv Oth f' g' \<and> io_only g g' \<and> same_call f f' \<and>
     (\<exists>fd cu cd. f' = f\<lparr>tx_fd := fd, data_count_up := cu, data_count_down := cd\<rparr>) \<and>
     unat (data_count_down f') = (if unat (data_count_down f) = DATA_SIZE then 0 else unat (data_count_down f)) \<and>
     (\<forall>q. fp_down f = Some q \<longrightarrow> fp_up f \<noteq> Some q \<longrightarrow>
        written q (vp_log g') @ stored_down f' = written q (vp_log g) @ stored_down f)"
proof (cases "8192 \<le> data_count_down f")
  case True
  then have "unat (data_count_down f) = DATA_SIZE"
    using assms(1) by (simp add: word_le_nat_alt vp_inv_def slot_ok_def)
  moreover have "unat (data_count_up f) \<le> DATA_SIZE" "length (data_down f) = DATA_SIZE"
    using assms(1) by (simp_all add: vp_inv_def slot_ok_def)
  ultimately have w: "\<forall>q. fp_down f = Some q \<longrightarrow> fp_up f \<noteq> Some q \<longrightarrow> written q (voice_writes f) = data_down f"
    "stored_down f = data_down f" "unat (data_count_down f) = DATA_SIZE"
    by (simp_all add: voice_writes_def Let_def stored_down_def)
  from flush_voice_ok[OF assms(1), of env] obtain fd g' where g': "flush_voice env f g =
      Some (f\<lparr>tx_fd := fd, data_count_up := 0, data_count_down := 0\<rparr>, g')" "io_only g g'"
    "\<forall>p. written p (vp_log g') = written p (vp_log g) @ written p (voice_writes f)" by blast
  let ?f' = "f\<lparr>tx_fd := fd, data_count_up := 0, data_count_down := 0\<rparr>"
  have "vp_inv Oth ?f' g" using assms(1) by (simp add: vp_inv_def slot_ok_def)
  then have "vp_inv Oth ?f' g'" by (rule io_only_inv[OF g'(2)])
  moreover have "\<forall>q. fp_down f = Some q \<longrightarrow> fp_up f \<noteq> Some q \<longrightarrow>
      written q (vp_log g') @ stored_down ?f' = written q (vp_log g) @ stored_down f"
    using g'(3) w by (simp add: stored_down_def)
  ultimately show ?thesis using True g'(1,2) w(3) by (auto simp: same_call_def)
next
  case False
  then have "unat (data_count_down f) \<noteq> DATA_SIZE" by (simp add: word_le_nat_alt)
  moreover have "\<exists>fd cu cd. f = f\<lparr>tx_fd := fd, data_count_up := cu, data_count_down := cd\<rparr>"
    by (intro exI[of _ "tx_fd f"] exI[of _ "data_count_up f"] exI[of _ "data_count_down f"]) simp
  ultimately show ?thesis using False assms(1)
    by (intro exI[of _ f] exI[of _ g] conjI) (simp_all add: same_call_def)
qed



text \<open>What \<open>voice_down\<close> does, once and for all.\<close>

definition down_lost_after :: "voice_pkt \<Rightarrow> voice_file_info \<Rightarrow> u32" where
  "down_lost_after p f = (if down_no f \<noteq> p_data_no p then down_lost f + 1 else down_lost f)"

lemma voice_down_ok:
  assumes "vp_inv Oth f g" "37 + unat (p_data_len p) \<le> length pkt"
  shows "\<exists>f' g'. voice_down env pkt p f g = Some (f', g') \<and> vp_inv Oth f' g' \<and> same_nodes Oth g g' \<and>
     calls g' = calls g \<and> same_call f f' \<and>
     (\<forall>q. fp_down f = Some q \<longrightarrow> fp_up f \<noteq> Some q \<longrightarrow>
       written q (vp_log g') @ stored_down f' = (written q (vp_log g) @ stored_down f) @
         encrypt_voice (payload pkt (kept (unat (data_count_down f)) (unat (p_data_len p))))) \<and>
     down_no f' = p_data_no p + 1 \<and> down_lost f' = down_lost_after p f \<and>
     down_end_flag f' = (if p_data_mark p = 2 then 1 else down_end_flag f) \<and> up_end_flag f' = up_end_flag f"
proof -
  define f2 where "f2 = f\<lparr>down_lost := down_lost_after p f, down_no := p_data_no p + 1\<rparr>"
  have f2: "(if down_no f \<noteq> p_data_no p then f\<lparr>down_lost := down_lost f + 1\<rparr> else f)\<lparr>down_no := p_data_no p + 1\<rparr> = f2"
    by (simp add: f2_def down_lost_after_def)
  have "vp_inv Oth f2 g" using assms by (simp_all add: f2_def vp_inv_def slot_ok_def)
  from flush_if_full_down[OF this, of env] obtain f3 g3 fd cu cd where
    fl: "(if 8192 \<le> data_count_down f2 then flush_voice env f2 g else Some (f2, g)) = Some (f3, g3)"
    "vp_inv Oth f3 g3" "io_only g g3" "f3 = f2\<lparr>tx_fd := fd, data_count_up := cu, data_count_down := cd\<rparr>"
    "unat (data_count_down f3) = (if unat (data_count_down f2) = DATA_SIZE then 0 else unat (data_count_down f2))"
    "\<forall>q. fp_down f2 = Some q \<longrightarrow> fp_up f2 \<noteq> Some q \<longrightarrow>
       written q (vp_log g3) @ stored_down f3 = written q (vp_log g) @ stored_down f2" by blast
  let ?k = "fit (8192 - data_count_down f3) (p_data_len p)"
  have d: "length (data_down f3) = DATA_SIZE" "unat (data_count_down f3) \<le> DATA_SIZE"
    using fl(2) by (simp_all add: vp_inv_def slot_ok_def)
  from voice_store[OF d assms(2) refl] obtain buf where b: "copy_voice (data_down f3) (unat (data_count_down f3)) pkt (unat ?k) = Some buf"
    "length buf = DATA_SIZE" "unat (data_count_down f3 + ucast ?k) = unat (data_count_down f3) + unat ?k"
    "unat ?k = min (DATA_SIZE - unat (data_count_down f3)) (unat (p_data_len p))"
    "take (unat (data_count_down f3 + ucast ?k)) buf = take (unat (data_count_down f3)) (data_down f3) @ encrypt_voice (payload pkt (unat ?k))"
    by blast
  define f4 where "f4 = f3\<lparr>data_down := buf, data_count_down := data_count_down f3 + ucast ?k\<rparr>"
  define f5 where "f5 = (if p_data_mark p = 2 then f4\<lparr>down_end_flag := 1\<rparr> else f4)"
  have "unat (data_count_down f3 + ucast ?k) \<le> DATA_SIZE" unfolding b(3,4) using d(2) by linarith
  then have "unat (data_count_down f5) \<le> DATA_SIZE" "length (data_down f5) = DATA_SIZE"
    using b(2) by (simp_all add: f5_def f4_def)
  then have "vp_inv Oth f5 g3" using fl(2) by (simp add: f5_def f4_def vp_inv_def slot_ok_def)
  moreover have "37 + unat ?k \<le> length pkt" using assms(2) b(4) by linarith
  ultimately obtain n g' where x: "fax_down pkt ?k f5 g3 = Some (f5\<lparr>fax_data_len_down := n\<rparr>, g')"
    "vp_inv Oth (f5\<lparr>fax_data_len_down := n\<rparr>) g'" "same_nodes Oth g3 g'" "calls g' = calls g3" "vp_log g' = vp_log g3"
    using fax_down_ok by blast
  let ?f' = "f5\<lparr>fax_data_len_down := n\<rparr>"
  have v: "voice_down env pkt p f g = Some (?f', g')"
    unfolding voice_down_def Let_def f2 f4_def[symmetric]
    by (simp only: fl(1) b(1) x(1) bind.bind_lunit prod.case f4_def[symmetric] f5_def[symmetric])
  have k: "unat ?k = kept (unat (data_count_down f)) (unat (p_data_len p))"
    unfolding b(4) fl(5) kept_def by (simp add: f2_def)
  have st: "stored_down ?f' = stored_down f3 @ encrypt_voice (payload pkt (unat ?k))"
    using b(5) by (simp add: stored_down_def f5_def f4_def)
  have "stored_down f2 = stored_down f" by (simp add: f2_def stored_down_def)
  then have "\<forall>q. fp_down f = Some q \<longrightarrow> fp_up f \<noteq> Some q \<longrightarrow>
       written q (vp_log g') @ stored_down ?f' = (written q (vp_log g) @ stored_down f) @
         encrypt_voice (payload pkt (kept (unat (data_count_down f)) (unat (p_data_len p))))"
    using fl(6) unfolding st x(5) k by (simp add: f2_def)
  moreover have "same_call f ?f'" by (simp add: same_call_def f5_def f4_def fl(4) f2_def)
  moreover have "down_no ?f' = p_data_no p + 1" "down_lost ?f' = down_lost_after p f"
    "down_end_flag ?f' = (if p_data_mark p = 2 then 1 else down_end_flag f)" "up_end_flag ?f' = up_end_flag f"
    by (simp_all add: f5_def f4_def fl(4) f2_def)
  moreover have "same_nodes Oth g g'" "calls g' = calls g"
    using same_nodes_trans[OF io_only_same[OF fl(3)] x(3)] calls_io_only[OF fl(3)] x(4) by simp_all
  ultimately show ?thesis using v x(2) by blast
qed

lemma voice_start_ok:
  assumes "vp_inv Oth f g"
  shows "\<exists>f' g'. voice_start env p f g = Some (f', g') \<and> vp_inv Oth f' g' \<and> same_nodes Oth g g' \<and>
     vf_callid f' = p_callid p \<and> update_time f' = 0 \<and> vf_mutex f' = Mtx_free \<and> up_end_flag f' = 0 \<and> down_end_flag f' = 0 \<and>
     calls g' = started (if vf_callid f \<noteq> 0 then ended (calls g) else calls g)"
proof -
  from cleanup_ok[OF assms] obtain f1 g1 where c: "cleanup_file_struct f g = Some (f1, g1)" "vp_inv Oth f1 g1" "idle f1"
    "same_nodes Oth g g1" "calls g1 = (if vf_callid f \<noteq> 0 then ended (calls g) else calls g)" by blast
  define g2 where "g2 = g1\<lparr>vp_counters := (vp_counters g1)\<lparr>call_start := inc64 (call_start (vp_counters g1)),
      call_online := inc64 (call_online (vp_counters g1))\<rparr>\<rparr>"
  define f2 where "f2 = zero_voice_file\<lparr>vf_callid := p_callid p, case_mark := p_case p, data_mark := p_data_mark p,
      up_lost := 0, down_lost := 0, up_no := 1, down_no := 1,
      vf_cdr := zero_cdr\<lparr>cdr_callid := p_callid p, cdr_time := env_cdr_time env, cdr_path := 0,
                         cdr_ruleflag := p_case p, cdr_callflag := 0\<rparr>\<rparr>"
  have s2: "sys_ok g2" using c(2) by (simp add: g2_def vp_inv_def sys_ok_def)
  have p2: "pool_ok Oth None g2"
    using c(2,3) by (simp add: g2_def vp_inv_def idle_def pool_ok_def pool_lists_def)
  from open_voice_file_ok[OF s2] obtain ret f3 g3 where o: "open_voice_file env f2 g2 = Some (ret, f3, g3)"
    "opened f2 f3" "io_only g2 g3" by blast
  have f3: "slot_ok f3" "cdr_node f3 = None" "vf_callid f3 = p_callid p" "update_time f3 = 0" "vf_mutex f3 = Mtx_free"
    "up_end_flag f3 = 0" "down_end_flag f3 = 0"
    using openedD[OF o(2)] zero_slot_ok by (auto simp: f2_def zero_voice_file_def slot_ok_def)
  have p3: "pool_ok Oth None g3" "sys_ok g3" using io_only_pool[OF o(3) p2] io_only_sys[OF o(3) s2] by blast+
  have c3: "calls g3 = started (calls g1)" using calls_io_only[OF o(3)]
    by (simp add: g2_def calls_def started_def)
  have n3: "same_nodes Oth g g3"
    using c(4) io_only_same[OF o(3), of Oth] by (simp add: same_nodes_def g2_def)
  show ?thesis
  proof (cases "ret = 0")
    case False
    let ?g4 = "g3\<lparr>vp_counters := (vp_counters g3)\<lparr>file_fail := inc64 (file_fail (vp_counters g3))\<rparr>\<rparr>"
    have "voice_start env p f g = Some (f3, ?g4)"
      using False o(1) unfolding voice_start_def Let_def c(1) g2_def f2_def by simp
    moreover have "vp_inv Oth f3 ?g4" using f3(1,2) p3 by (simp add: vp_inv_def sys_ok_def pool_ok_def pool_lists_def)
    moreover have "calls ?g4 = calls g3" "same_nodes Oth g ?g4" using n3 by (simp_all add: calls_def same_nodes_def)
    ultimately show ?thesis using f3 c3 c(5) by auto
  next
    case True
    define g4 where "g4 = g3\<lparr>vp_counters := (vp_counters g3)\<lparr>file_ok := inc64 (file_ok (vp_counters g3))\<rparr>\<rparr>"
    have p4: "pool_ok Oth None g4" "sys_ok g4" "same_nodes Oth g g4" "calls g4 = calls g3"
      using p3 n3 by (simp_all add: g4_def pool_ok_def pool_lists_def sys_ok_def same_nodes_def calls_def)
    from pool_fetch[OF p4(1)] obtain r h q where fe: "FETCH_PHEAD (vp_heap g4) (Some (vp_eq g4)) = Some (r, h, q)"
      "\<forall>b \<in> Oth. h b = vp_heap g4 b" "case r of None \<Rightarrow> pool_ok Oth None (g4\<lparr>vp_heap := h, vp_eq := q\<rparr>)
        | Some a \<Rightarrow> a \<notin> Oth \<and> h a \<noteq> None \<and> pool_ok Oth (Some a) (g4\<lparr>vp_heap := h(a \<mapsto> zero_fax_node), vp_eq := q\<rparr>)"
      by blast
    let ?f4 = "f3\<lparr>cdr_node := r, fax_data_len_up := 0, fax_data_len_down := 0\<rparr>"
    have f4: "slot_ok ?f4" using f3(1) by (simp add: slot_ok_def)
    show ?thesis
    proof (cases r)
      case None
      let ?g6 = "g4\<lparr>vp_heap := h, vp_eq := q,
          vp_counters := (vp_counters g4)\<lparr>fax_lost := inc64 (fax_lost (vp_counters g4))\<rparr>,
          vp_cdrs := cdr_insert (vf_cdr ?f4) (vp_cdrs g4)\<rparr>"
      have "voice_start env p f g = Some (?f4, ?g6)"
        using True o(1) fe(1) None unfolding voice_start_def Let_def c(1) g2_def f2_def g4_def by simp
      moreover have "vp_inv Oth ?f4 ?g6"
        using f4 fe(3) p4(2) None insert_inv by (simp add: vp_inv_def sys_ok_def pool_ok_def pool_lists_def)
      moreover have "same_nodes Oth g ?g6" using p4(3) fe(2) by (simp add: same_nodes_def)
      moreover have "calls ?g6 = calls g4" by (simp add: calls_def)
      ultimately show ?thesis using f3 c3 c(5) p4(4) by auto
    next
      case (Some a)
      let ?g6 = "g4\<lparr>vp_heap := h(a \<mapsto> zero_fax_node), vp_eq := q\<rparr>"
      have a: "a \<notin> Oth" "h a \<noteq> None" "pool_ok Oth (Some a) ?g6" using fe(3) Some by simp_all
      have "voice_start env p f g = Some (?f4, ?g6)"
        using True o(1) fe(1) Some a(2) unfolding voice_start_def Let_def c(1) g2_def f2_def g4_def by simp
      moreover have "vp_inv Oth ?f4 ?g6" using f4 a(3) p4(2) Some by (simp add: vp_inv_def sys_ok_def)
      moreover have "same_nodes Oth g ?g6" using p4(3) fe(2) a(1) by (auto simp: same_nodes_def)
      moreover have "calls ?g6 = calls g4" by (simp add: calls_def)
      ultimately show ?thesis using f3 c3 c(5) p4(4) by auto
    qed
  qed
qed

lemma send_if_listening:
  assumes "slot_ok f"
  shows "\<exists>fd g'. (if 0 < tx_fd f then do {(_, f', g') \<leftarrow> send_voice_data env f g; Some (f', g')} else Some (f, g)) =
     Some (f\<lparr>tx_fd := fd\<rparr>, g') \<and> io_only g g'"
proof (cases "0 < tx_fd f")
  case True
  obtain r fd g' where "send_voice_data env f g = Some (r, f\<lparr>tx_fd := fd\<rparr>, g')" "io_only g g'"
    using send_voice_data_ok[OF assms] by blast
  then show ?thesis using True by auto
next
  case False
  then show ?thesis by (intro exI[of _ "tx_fd f"] exI[of _ g]) simp
qed

lemma voice_end_ok:
  assumes "vp_inv Oth f g"
  shows "\<exists>f' g'. voice_end env f g = Some (f', g') \<and> vp_inv Oth f' g' \<and> same_nodes Oth g g' \<and>
     vf_mutex f' = vf_mutex f \<and>
     (if up_end_flag f = 1 \<and> down_end_flag f = 1 then idle f' \<and> update_time f' = 0 \<and> calls g' = ended (calls g)
      else f' = f \<and> g' = g)"
proof (cases "up_end_flag f = 1 \<and> down_end_flag f = 1")
  case False
  then show ?thesis using assms by (auto simp: voice_end_def)
next
  case True
  define f1 where "f1 = f\<lparr>update_time := 0, vf_callid := 0, up_end_flag := 0, down_end_flag := 0, up_no := 0, down_no := 0\<rparr>"
  have f1: "slot_ok f1" "cdr_node f1 = cdr_node f" using assms by (simp_all add: f1_def vp_inv_def slot_ok_def)
  from send_if_listening[OF f1(1)] obtain fd g2 where
    s: "(if 0 < tx_fd f1 then do {(_, f', g') \<leftarrow> send_voice_data env f1 g; Some (f', g')} else Some (f1, g)) =
      Some (f1\<lparr>tx_fd := fd\<rparr>, g2)" "io_only g g2" by blast
  have f2: "slot_ok (f1\<lparr>tx_fd := fd\<rparr>)" using f1(1) by (simp add: slot_ok_def)
  obtain g3 where w: "write_voice_file (f1\<lparr>tx_fd := fd\<rparr>) g2 = Some g3" "io_only g2 g3"
    using write_voice_file_ok[OF f2] by blast
  let ?f4 = "f1\<lparr>tx_fd := fd, fp_up := None, fp_down := None\<rparr>"
  obtain g4 where c: "close_voice_file (f1\<lparr>tx_fd := fd\<rparr>) g3 = (?f4, g4)" "io_only g3 g4"
    by (rule close_voice_file_ok)
  have io: "io_only g g4" using io_only_trans[OF io_only_trans[OF s(2) w(2)] c(2)] .
  let ?g5 = "g4\<lparr>vp_counters := (vp_counters g4)\<lparr>call_end := inc64 (call_end (vp_counters g4)),
      call_online := dec64 (call_online (vp_counters g4))\<rparr>\<rparr>"
  obtain fd' g6 where t: "close_tx ?f4 ?g5 = (?f4\<lparr>tx_fd := fd'\<rparr>, g6)" "io_only ?g5 g6" "fd' \<le> 0" by (rule close_tx_ok)
  have p4: "pool_ok Oth (cdr_node f) g4" "sys_ok g4"
    using io_only_pool[OF io] io_only_sys[OF io] assms by (simp_all add: vp_inv_def)
  have p6: "pool_ok Oth (cdr_node (?f4\<lparr>tx_fd := fd'\<rparr>)) g6"
  proof (rule io_only_pool[OF t(2)])
    show "pool_ok Oth (cdr_node (?f4\<lparr>tx_fd := fd'\<rparr>)) ?g5"
      using p4(1) f1(2) by (simp add: pool_ok_def pool_lists_def)
  qed
  have s6: "sys_ok g6" by (rule io_only_sys[OF t(2)]) (use p4(2) in \<open>simp add: sys_ok_def\<close>)
  from enqueue_cdr_ok[OF p6] obtain g7 x where e: "enqueue_cdr (?f4\<lparr>tx_fd := fd'\<rparr>) g6 = Some (?f4\<lparr>tx_fd := fd', cdr_node := None\<rparr>, g7)"
    "pool_ok Oth None g7" "same_nodes Oth g6 g7" "vp_dirs g7 = vp_dirs g6" "vp_cdrs g7 = vp_cdrs g6"
    "vp_counters g7 = (vp_counters g6)\<lparr>fax_enqueue := x\<rparr>" by auto
  let ?f' = "?f4\<lparr>tx_fd := fd', cdr_node := None\<rparr>"
  have v: "voice_end env f g = Some (?f', g7)"
    unfolding voice_end_def Let_def f1_def[symmetric] using True s(1) w(1) c(1) t(1) e(1) by simp
  have "slot_ok ?f'" using f1(1) by (simp add: slot_ok_def)
  then have "vp_inv Oth ?f' g7" using e(2,4,5) s6 by (simp add: vp_inv_def sys_ok_def)
  moreover have "same_nodes Oth g g7"
    using io_only_same[OF io, of Oth] io_only_same[OF t(2), of Oth] e(3) by (simp add: same_nodes_def)
  moreover have "idle ?f'" "update_time ?f' = 0" "vf_mutex ?f' = vf_mutex f" using t(3) by (simp_all add: idle_def f1_def)
  moreover have "calls g7 = ended (calls g)"
    using calls_io_only[OF io] calls_io_only[OF t(2)] e(6) by (simp add: calls_def ended_def)
  ultimately show ?thesis using v True by auto
qed

subsection \<open>One packet on its slot\<close>

text \<open>Starts minus ends minus calls online, and calls online without the one of a slot.\<close>

definition acc :: "u64 \<times> u64 \<times> u64 \<Rightarrow> u64" where
  "acc c = (case c of (s, e, o') \<Rightarrow> s - e - o')"

definition onl :: "u64 \<times> u64 \<times> u64 \<Rightarrow> u64" where
  "onl c = (case c of (s, e, o') \<Rightarrow> o')"

definition online_but :: "voice_file_info \<Rightarrow> vp_state \<Rightarrow> u64" where
  "online_but f g = onl (calls g) - of_bool (vf_callid f \<noteq> 0)"

lemma acc_simps [simp]: "acc (started c) = acc c" "acc (ended c) = acc c"
  by (simp_all add: acc_def started_def ended_def split: prod.splits)

lemma onl_simps [simp]: "onl (started c) = onl c + 1" "onl (ended c) = onl c - 1"
  by (simp_all add: onl_def started_def ended_def split: prod.splits)

definition accounts :: "voice_pkt \<Rightarrow> voice_file_info \<Rightarrow> vp_state \<Rightarrow> voice_file_info \<Rightarrow> vp_state \<Rightarrow> bool" where
  "accounts p f g f' g' \<longleftrightarrow> acc (calls g') = acc (calls g) \<and>
     (p_callid p \<noteq> 0 \<longrightarrow> online_but f' g' = online_but f g)"

lemma voice_dir_ok:
  assumes "vp_inv Oth f g" "37 + unat (p_data_len p) \<le> length pkt"
  shows "\<exists>f' g'. (if p_calldir p = 1 then voice_up env pkt p f g else voice_down env pkt p f g) = Some (f', g') \<and>
     vp_inv Oth f' g' \<and> same_nodes Oth g g' \<and> calls g' = calls g \<and> same_call f f'"
  using voice_up_ok[OF assms, of env] voice_down_ok[OF assms, of env] by (cases "p_calldir p = 1") auto

lemma voice_start_or_same:
  assumes "vp_inv Oth f g"
  shows "\<exists>f' g'. (if vf_callid f \<noteq> p_callid p then voice_start env p f g else Some (f, g)) = Some (f', g') \<and>
     vp_inv Oth f' g' \<and> same_nodes Oth g g' \<and> vf_callid f' = p_callid p \<and> accounts p f g f' g' \<and>
     vf_mutex f' = (if vf_callid f \<noteq> p_callid p then Mtx_free else vf_mutex f)"
proof (cases "vf_callid f = p_callid p")
  case True
  then show ?thesis using assms by (simp add: accounts_def)
next
  case False
  from voice_start_ok[OF assms, of env p] obtain f' g' where s: "voice_start env p f g = Some (f', g')"
    "vp_inv Oth f' g'" "same_nodes Oth g g'" "vf_callid f' = p_callid p"
    "calls g' = started (if vf_callid f \<noteq> 0 then ended (calls g) else calls g)" "vf_mutex f' = Mtx_free" by blast
  have "accounts p f g f' g'" by (simp add: accounts_def online_but_def s(4,5))
  then show ?thesis using s False by auto
qed

lemma voice_data_ok:
  assumes "vp_inv Oth f g" "37 + unat (p_data_len p) \<le> length pkt"
  shows "\<exists>f' g'. voice_data env pkt p f g = Some (f', g') \<and> vp_inv Oth f' g' \<and> same_nodes Oth g g' \<and> accounts p f g f' g' \<and>
     vf_mutex f' = (if vf_callid f \<noteq> p_callid p then Mtx_free else vf_mutex f)"
proof -
  from voice_start_or_same[OF assms(1), of p env] obtain f1 g1 where
    1: "(if vf_callid f \<noteq> p_callid p then voice_start env p f g else Some (f, g)) = Some (f1, g1)"
      "vp_inv Oth f1 g1" "same_nodes Oth g g1" "vf_callid f1 = p_callid p" "accounts p f g f1 g1"
      "vf_mutex f1 = (if vf_callid f \<noteq> p_callid p then Mtx_free else vf_mutex f)" by blast
  from voice_dir_ok[OF 1(2) assms(2), of env] obtain f2 g2 where
    2: "(if p_calldir p = 1 then voice_up env pkt p f1 g1 else voice_down env pkt p f1 g1) = Some (f2, g2)"
      "vp_inv Oth f2 g2" "same_nodes Oth g1 g2" "calls g2 = calls g1" "same_call f1 f2" by blast
  from voice_end_ok[OF 2(2), of env] obtain f3 g3 where
    3: "voice_end env f2 g2 = Some (f3, g3)" "vp_inv Oth f3 g3" "same_nodes Oth g2 g3"
      "if up_end_flag f2 = 1 \<and> down_end_flag f2 = 1 then idle f3 \<and> update_time f3 = 0 \<and> calls g3 = ended (calls g2)
       else f3 = f2 \<and> g3 = g2" "vf_mutex f3 = vf_mutex f2" by blast
  have "voice_data env pkt p f g = Some (f3, g3)" using 1(1) 2(1) 3(1) by (simp add: voice_data_def)
  moreover have "accounts p f2 g2 f3 g3"
    using 3(4) 2(5) 1(4) by (auto simp: accounts_def online_but_def idle_def same_call_def split: if_splits)
  then have "accounts p f g f3 g3"
    using 1(5) 2(4,5) by (auto simp: accounts_def online_but_def same_call_def)
  moreover have "same_nodes Oth g g3" using 1(3) 2(3) 3(3) same_nodes_trans by blast
  moreover have "vf_mutex f3 = (if vf_callid f \<noteq> p_callid p then Mtx_free else vf_mutex f)"
    using 1(6) 2(5) 3(5) by (simp add: same_call_def)
  ultimately show ?thesis using 3(2) by blast
qed

lemma vp_inv_cong: "vp_inv Oth f g \<Longrightarrow> slot_ok f' = slot_ok f \<Longrightarrow> cdr_node f' = cdr_node f \<Longrightarrow> vp_inv Oth f' g"
  by (simp add: vp_inv_def)

text \<open>The packet starts a call: its slot is taken over, and the call is not so old that an empty slot passes it over.\<close>

definition starts_call :: "vp_env \<Rightarrow> voice_pkt \<Rightarrow> voice_file_info \<Rightarrow> bool" where
  "starts_call env p f \<longleftrightarrow> vf_callid f \<noteq> p_callid p \<and> \<not> (18000 \<le> env_time env - call_time (p_callid p) \<and> vf_callid f = 0)"

lemma voice_locked_ok:
  assumes "vp_inv Oth f g" "37 + unat (p_data_len p) \<le> length pkt"
  shows "\<exists>f' g'. voice_locked env pkt p f g = Some (f', g') \<and> vp_inv Oth f' g' \<and> same_nodes Oth g g' \<and> accounts p f g f' g' \<and>
     vf_mutex f' = (if starts_call env p f then Mtx_bad else mutex_unlock (mutex_lock (vf_mutex f)))"
proof -
  define f1 where "f1 = f\<lparr>vf_mutex := mutex_lock (vf_mutex f), update_time := env_time env\<rparr>"
  have data: "\<exists>f' g'. voice_data env pkt p h g = Some (f', g') \<and> vp_inv Oth (f'\<lparr>vf_mutex := mutex_unlock (vf_mutex f')\<rparr>) g' \<and>
      same_nodes Oth g g' \<and> accounts p f g (f'\<lparr>vf_mutex := mutex_unlock (vf_mutex f')\<rparr>) g' \<and>
      vf_mutex f' = (if vf_callid f \<noteq> p_callid p then Mtx_free else vf_mutex h)"
    if h: "slot_ok h = slot_ok f" "cdr_node h = cdr_node f" "vf_callid h = vf_callid f" for h
  proof -
    from voice_data_ok[OF vp_inv_cong[OF assms(1) h(1,2)] assms(2), of env] obtain f' g' where
      d: "voice_data env pkt p h g = Some (f', g')" "vp_inv Oth f' g'" "same_nodes Oth g g'" "accounts p h g f' g'"
      "vf_mutex f' = (if vf_callid f \<noteq> p_callid p then Mtx_free else vf_mutex h)" unfolding h(3) by blast
    have "vp_inv Oth (f'\<lparr>vf_mutex := m\<rparr>) g'" for m by (rule vp_inv_cong[OF d(2)]) (simp_all add: slot_ok_def)
    moreover have "accounts p f g (f'\<lparr>vf_mutex := m\<rparr>) g'" for m using d(4) h(3) by (simp add: accounts_def online_but_def)
    ultimately show ?thesis using d(1,3,5) by blast
  qed
  show ?thesis
  proof (cases "18000 \<le> update_time f1 - call_time (p_callid p) \<and> vf_callid f1 = 0")
    case True
    let ?f = "f1\<lparr>vf_mutex := mutex_unlock (vf_mutex f1)\<rparr>"
    have "voice_locked env pkt p f g = Some (?f, g)" using True by (simp add: voice_locked_def Let_def f1_def)
    moreover have "vp_inv Oth ?f g" by (rule vp_inv_cong[OF assms(1)]) (simp_all add: f1_def slot_ok_def)
    moreover have "accounts p f g ?f g" by (simp add: accounts_def online_but_def f1_def)
    moreover have "\<not> starts_call env p f" "vf_mutex ?f = mutex_unlock (mutex_lock (vf_mutex f))"
      using True by (simp_all add: starts_call_def f1_def)
    ultimately show ?thesis using same_nodes_refl by auto
  next
    case False
    define f2 where "f2 = (if 18000 \<le> update_time f1 - call_time (p_callid p) then f1\<lparr>up_end_flag := 1, down_end_flag := 1\<rparr> else f1)"
    have f2: "slot_ok f2 = slot_ok f" "cdr_node f2 = cdr_node f" "vf_callid f2 = vf_callid f" "vf_mutex f2 = mutex_lock (vf_mutex f)"
      by (simp_all add: f2_def f1_def slot_ok_def)
    from data[OF f2(1-3)] obtain f' g' where d: "voice_data env pkt p f2 g = Some (f', g')"
      "vp_inv Oth (f'\<lparr>vf_mutex := mutex_unlock (vf_mutex f')\<rparr>) g'" "same_nodes Oth g g'"
      "accounts p f g (f'\<lparr>vf_mutex := mutex_unlock (vf_mutex f')\<rparr>) g'"
      "vf_mutex f' = (if vf_callid f \<noteq> p_callid p then Mtx_free else vf_mutex f2)" by blast
    have "voice_locked env pkt p f g = Some (f'\<lparr>vf_mutex := mutex_unlock (vf_mutex f')\<rparr>, g')"
      using False d(1) unfolding voice_locked_def f1_def[symmetric] Let_def f2_def by (auto split: if_splits)
    moreover have "mutex_unlock (vf_mutex f') = (if starts_call env p f then Mtx_bad else mutex_unlock (mutex_lock (vf_mutex f)))"
      using False d(5) f2(4) by (simp add: starts_call_def f1_def)
    ultimately show ?thesis using d(2-4) by auto
  qed
qed

subsection \<open>The table of slots\<close>

definition others :: "slots \<Rightarrow> slot \<Rightarrow> addr set" where
  "others vf i = (\<Union>j \<in> - {i}. set_option (cdr_node (vf j)))"

text \<open>Every slot is consistent with the queues and with the nodes of all other slots.\<close>

definition table_inv :: "slots \<Rightarrow> vp_state \<Rightarrow> bool" where
  "table_inv vf g \<longleftrightarrow> (\<forall>i. vp_inv (others vf i) (vf i) g)"

definition all_nodes :: "slots \<Rightarrow> addr set" where
  "all_nodes vf = (\<Union>j. set_option (cdr_node (vf j)))"

lemma all_nodes_split: "all_nodes vf = others vf i \<union> set_option (cdr_node (vf i))"
  by (auto simp: all_nodes_def others_def)

lemma others_upd: "others (vf(i := f')) i = others vf i"
  by (auto simp: others_def)

text \<open>A step on one slot that respects the nodes of the others keeps the whole table consistent.\<close>

lemma table_step:
  assumes t: "table_inv vf g" and v: "vp_inv (others vf i) f' g'" and s: "same_nodes (others vf i) g g'"
  shows "table_inv (vf(i := f')) g'"
  unfolding table_inv_def
proof
  fix j
  let ?vf = "vf(i := f')"
  show "vp_inv (others ?vf j) (?vf j) g'"
  proof (cases "j = i")
    case True
    then show ?thesis using v by (simp add: others_upd)
  next
    case False
    from v obtain es fs where p: "pool_lists (others vf i) (cdr_node f') g' es fs" and sys: "sys_ok g'"
      by (auto simp: vp_inv_def pool_ok_def)
    have vj: "vp_inv (others vf j) (vf j) g" using t unfolding table_inv_def by (rule spec)
    let ?own = "set_option (cdr_node (vf j))"
    have own: "?own \<subseteq> others vf i" using False by (auto simp: others_def)
    have un: "others ?vf j \<union> ?own = others vf i \<union> set_option (cdr_node f')"
      using all_nodes_split[of ?vf j] all_nodes_split[of ?vf i] False by (simp add: others_upd)
    have "?own \<inter> others vf j = {}" using vj by (auto simp: vp_inv_def pool_ok_def pool_lists_def)
    moreover have "?own \<inter> set_option (cdr_node f') = {}" using p own by (auto simp: pool_lists_def)
    moreover have "others ?vf j \<subseteq> others vf j \<union> set_option (cdr_node f')" by (auto simp: others_def split: if_splits)
    ultimately have dis: "?own \<inter> others ?vf j = {}" by blast
    have full: "\<exists>n. vp_heap g' a = Some n \<and> node_full n" if "a \<in> ?own" for a
    proof -
      have "\<exists>n. vp_heap g a = Some n \<and> node_full n" using vj that by (auto simp: vp_inv_def pool_ok_def pool_lists_def)
      moreover have "vp_heap g' a = vp_heap g a" using s own that by (auto simp: same_nodes_def)
      ultimately show ?thesis by simp
    qed
    have "pool_lists (others ?vf j) (cdr_node (vf j)) g' es fs"
      using p un dis full unfolding pool_lists_def by (simp add: Un_commute) blast
    then show ?thesis using vj sys False by (auto simp: vp_inv_def pool_ok_def)
  qed
qed

definition active :: "slots \<Rightarrow> u64" where
  "active vf = (\<Sum>i \<in> UNIV. of_bool (vf_callid (vf i) \<noteq> 0))"

text \<open>\<open>call_online\<close> is the number of slots that hold a call, modulo 2 to the 64.\<close>

definition counted :: "slots \<Rightarrow> vp_state \<Rightarrow> bool" where
  "counted vf g \<longleftrightarrow> call_online (vp_counters g) = active vf"

lemma active_upd:
  "active (vf(i := f')) - of_bool (vf_callid f' \<noteq> 0) = active vf - of_bool (vf_callid (vf i) \<noteq> 0)"
proof -
  have "active h = of_bool (vf_callid (h i) \<noteq> 0) + (\<Sum>j \<in> UNIV - {i}. of_bool (vf_callid (h j) \<noteq> 0))" for h
    unfolding active_def by (rule sum.remove) auto
  from this[of vf] this[of "vf(i := f')"] show ?thesis by simp
qed

lemma onl_calls: "onl (calls g) = call_online (vp_counters g)"
  by (simp add: onl_def calls_def)

lemma counted_step:
  assumes "counted vf g" "online_but f' g' = online_but (vf i) g"
  shows "counted (vf(i := f')) g'"
  using assms active_upd[of vf i f'] unfolding counted_def online_but_def onl_calls
  by (metis diff_add_cancel)

lemma read_voice_pkt_ok: "length pkt = 2048 \<Longrightarrow> \<exists>p. read_voice_pkt pkt = Some p"
  by (simp add: read_voice_pkt_def rd_le64_def rd_be16_def rd_n_def rd_def)

lemma voice_parser_ok:
  assumes "table_inv vf g" "length pkt = 2048"
  shows "\<exists>r vf' g'. voice_parser env pkt pkt_len vf g = Some (r, vf', g') \<and> table_inv vf' g' \<and>
     acc (calls g') = acc (calls g) \<and> (r \<noteq> 0 \<longrightarrow> vf' = vf \<and> g' = g) \<and>
     (\<forall>p. read_voice_pkt pkt = Some p \<longrightarrow>
        (\<forall>j. get_file_struct (p_callid p) \<noteq> Some j \<longrightarrow> vf' j = vf j) \<and>
        (\<forall>i. r = 0 \<longrightarrow> get_file_struct (p_callid p) = Some i \<longrightarrow>
           vf_mutex (vf' i) = (if starts_call env p (vf i) then Mtx_bad else mutex_unlock (mutex_lock (vf_mutex (vf i))))) \<and>
        (p_callid p \<noteq> 0 \<longrightarrow> counted vf g \<longrightarrow> counted vf' g'))"
proof -
  obtain p where p: "read_voice_pkt pkt = Some p" using read_voice_pkt_ok[OF assms(2)] by blast
  obtain i where i: "get_file_struct (p_callid p) = Some i" using get_file_struct_slot by blast
  have k: "rd pkt 16 = Some (pkt ! 16)" using assms(2) by (simp add: rd_def)
  show ?thesis
  proof (cases "pkt_len < 36 \<or> pkt ! 16 \<noteq> 3 \<or> 1024 < p_data_len p")
    case True
    then have "\<exists>r. r \<noteq> 0 \<and> voice_parser env pkt pkt_len vf g = Some (r, vf, g)"
      by (auto simp: voice_parser_def k p)
    then show ?thesis using assms(1) by auto
  next
    case False
    have v: "vp_inv (others vf i) (vf i) g" using assms(1) unfolding table_inv_def by (rule spec)
    have "unat (p_data_len p) \<le> 1024" using False by (simp add: word_less_nat_alt)
    then have "37 + unat (p_data_len p) \<le> length pkt" using assms(2) by simp
    from voice_locked_ok[OF v this, of env] obtain f' g' where l: "voice_locked env pkt p (vf i) g = Some (f', g')"
      "vp_inv (others vf i) f' g'" "same_nodes (others vf i) g g'" "accounts p (vf i) g f' g'"
      "vf_mutex f' = (if starts_call env p (vf i) then Mtx_bad else mutex_unlock (mutex_lock (vf_mutex (vf i))))" by blast
    have "voice_parser env pkt pkt_len vf g = Some (0, vf(i := f'), g')"
      using False by (simp add: voice_parser_def k p i l(1))
    then show ?thesis using table_step[OF assms(1) l(2,3)] l(4,5) p i counted_step[of vf g f' g' i]
      by (auto simp: accounts_def)
  qed
qed

text \<open>
  C5. No packet makes the parser touch memory it must not. Whatever bytes a 2048 byte slot of the ring holds and whatever
  length the capture reports, \<open>voice_parser\<close> returns, follows no bad pointer, reads and writes
  nothing outside the packet, the voice buffers and the fax node, keeps every slot and both queues
  consistent, changes only the slot of the packet's call id, and keeps the books: started
  calls less ended calls less calls online stay the same. Its one use of a library call outside what it allows
  is at the mutex of the slot: a packet that starts a call unlocks a mutex that its own \<open>memset\<close> has cleared, so the mutex is undefined from
  there on; every other packet leaves it as locking and unlocking does.
\<close>

theorem voice_parser_safe:
  assumes "table_inv vf g" and "length pkt = 2048"
  shows "\<exists>r vf' g'. voice_parser env pkt pkt_len vf g = Some (r, vf', g') \<and> table_inv vf' g' \<and>
     call_start (vp_counters g') - call_end (vp_counters g') - call_online (vp_counters g') =
       call_start (vp_counters g) - call_end (vp_counters g) - call_online (vp_counters g) \<and>
     (r \<noteq> 0 \<longrightarrow> vf' = vf \<and> g' = g) \<and>
     (\<forall>p j. read_voice_pkt pkt = Some p \<longrightarrow> get_file_struct (p_callid p) \<noteq> Some j \<longrightarrow> vf' j = vf j) \<and>
     (\<forall>p i. r = 0 \<longrightarrow> read_voice_pkt pkt = Some p \<longrightarrow> get_file_struct (p_callid p) = Some i \<longrightarrow>
        vf_mutex (vf' i) = (if starts_call env p (vf i) then Mtx_bad else mutex_unlock (mutex_lock (vf_mutex (vf i)))))"
  using voice_parser_ok[OF assms, of env pkt_len] unfolding acc_def calls_def by auto

lemma start_table_inv: "table_inv init_voice_file one_node_state"
  using one_node_inv[OF zero_slot_ok]
  by (simp add: table_inv_def others_def init_voice_file_def) (simp add: zero_voice_file_def)

definition test_env :: vp_env where
  "test_env = \<lparr>env_time = 1000, env_cdr_time = 1000, env_localtime = (\<lambda>t. Some \<lparr>tm_year = 116, tm_mon = 4, tm_mday = 17\<rparr>),
     env_is_reg = (\<lambda>p. False), env_fopen = (\<lambda>k p. Some k), env_write = (\<lambda>k. 16384)\<rparr>"

theorem voice_parser_safe_witness:
  "\<exists>r vf' g'. voice_parser test_env (replicate 2048 3) 100 init_voice_file one_node_state = Some (r, vf', g') \<and> table_inv vf' g'"
  using voice_parser_safe[OF start_table_inv, of "replicate 2048 3" test_env 100] by auto

text \<open>The scan of the cycle thread.\<close>

lemma cycle_slot_ok:
  assumes "vp_inv Oth f g"
  shows "\<exists>f' g'. cycle_slot tim f g = Some (f', g') \<and> vp_inv Oth f' g' \<and> same_nodes Oth g g' \<and>
     acc (calls g') = acc (calls g) \<and> online_but f' g' = online_but f g \<and> vp_dirs g' = vp_dirs g \<and>
     (if update_time f \<noteq> 0 \<and> 60 \<le> tim - update_time f then idle f' \<and> update_time f' = 0 else f' = f)"
proof (cases "update_time f \<noteq> 0 \<and> 60 \<le> tim - update_time f")
  case False
  then show ?thesis using assms by (auto simp: cycle_slot_def)
next
  case True
  from cleanup_ok[OF assms] obtain f1 g1 where c: "cleanup_file_struct f g = Some (f1, g1)" "vp_inv Oth f1 g1" "idle f1"
    "same_nodes Oth g g1" "calls g1 = (if vf_callid f \<noteq> 0 then ended (calls g) else calls g)" "vp_dirs g1 = vp_dirs g" by blast
  have "vp_inv Oth (f1\<lparr>update_time := 0\<rparr>) g1" by (rule vp_inv_cong[OF c(2)]) (simp_all add: slot_ok_def)
  moreover have "idle (f1\<lparr>update_time := 0\<rparr>)" using c(3) by (simp add: idle_def)
  moreover have "acc (calls g1) = acc (calls g)" "online_but (f1\<lparr>update_time := 0\<rparr>) g1 = online_but f g"
    using c(3,5) by (auto simp: online_but_def idle_def)
  ultimately show ?thesis using True c(1,4,6) by (simp add: cycle_slot_def)
qed

lemma cycle_slots_ok:
  "table_inv vf g \<Longrightarrow> \<exists>vf' g'. cycle_slots tim is vf g = Some (vf', g') \<and> table_inv vf' g' \<and>
     acc (calls g') = acc (calls g) \<and> (counted vf g \<longrightarrow> counted vf' g') \<and> (\<forall>j. j \<notin> set is \<longrightarrow> vf' j = vf j) \<and> vp_dirs g' = vp_dirs g"
proof (induction "is" arbitrary: vf g)
  case Nil
  then show ?case by simp
next
  case (Cons i "is")
  have "vp_inv (others vf i) (vf i) g" using Cons.prems unfolding table_inv_def by (rule spec)
  from cycle_slot_ok[OF this, of tim] obtain f' g1 where c: "cycle_slot tim (vf i) g = Some (f', g1)"
    "vp_inv (others vf i) f' g1" "same_nodes (others vf i) g g1" "acc (calls g1) = acc (calls g)"
    "online_but f' g1 = online_but (vf i) g" "vp_dirs g1 = vp_dirs g" by blast
  from Cons.IH[OF table_step[OF Cons.prems c(2,3)]] obtain vf' g' where
    r: "cycle_slots tim is (vf(i := f')) g1 = Some (vf', g')" "table_inv vf' g'" "acc (calls g') = acc (calls g1)"
    "counted (vf(i := f')) g1 \<longrightarrow> counted vf' g'" "\<forall>j. j \<notin> set is \<longrightarrow> vf' j = (vf(i := f')) j" "vp_dirs g' = vp_dirs g1" by blast
  have "cycle_slots tim (i # is) vf g = Some (vf', g')" using c(1) r(1) by simp
  moreover have "counted vf g \<longrightarrow> counted vf' g'" using counted_step[of vf g f' g1 i] c(5) r(4) by blast
  ultimately show ?case using r(2,3,5,6) c(4,6) by auto
qed

text \<open>What arrives at the recorder: packets, with what the system answers, and scans of the cycle thread.\<close>

datatype rec_event = Packet vp_env "u8 list" u32 | Scan int

fun rec_run :: "rec_event list \<Rightarrow> slots \<Rightarrow> vp_state \<Rightarrow> (slots \<times> vp_state) option" where
  "rec_run [] vf g = Some (vf, g)"
| "rec_run (Packet env pkt len # es) vf g = do {(r, vf', g') \<leftarrow> voice_parser env pkt len vf g; rec_run es vf' g'}"
| "rec_run (Scan tim # es) vf g = do {(vf', g') \<leftarrow> cycle_slots tim all_slots vf g; rec_run es vf' g'}"

text \<open>Packets of 2048 bytes whose call id is not 0.\<close>

fun event_ok :: "rec_event \<Rightarrow> bool" where
  "event_ok (Packet env pkt len) \<longleftrightarrow> length pkt = 2048 \<and>
     (case read_voice_pkt pkt of None \<Rightarrow> False | Some p \<Rightarrow> p_callid p \<noteq> 0)"
| "event_ok (Scan tim) \<longleftrightarrow> True"

text \<open>
  C6. The count of calls online is exact. Starting with no calls, after any sequence of packets and
  scans for silent calls, \<open>call_online\<close> is the number of slots that hold a call, modulo 2 to
  the 64, provided no packet carries the call id 0; nothing undefined happens on the way.
\<close>

theorem call_online_exact:
  assumes "table_inv vf g" and "counted vf g" and "\<forall>e \<in> set es. event_ok e"
  shows "\<exists>vf' g'. rec_run es vf g = Some (vf', g') \<and> table_inv vf' g' \<and> call_online (vp_counters g') = active vf'"
  using assms
proof (induction es arbitrary: vf g)
  case Nil
  then show ?case by (simp add: counted_def)
next
  case (Cons e es)
  have es: "\<forall>e \<in> set es. event_ok e" using Cons.prems(3) by simp
  show ?case
  proof (cases e)
    case (Packet env pkt len)
    then obtain p where p: "length pkt = 2048" "read_voice_pkt pkt = Some p" "p_callid p \<noteq> 0"
      using Cons.prems(3) by (auto split: option.splits)
    from voice_parser_ok[OF Cons.prems(1) p(1), of env len] obtain r vf' g' where
      v: "voice_parser env pkt len vf g = Some (r, vf', g')" "table_inv vf' g'" "counted vf' g'"
      using p(2,3) Cons.prems(2) by blast
    from Cons.IH[OF v(2,3) es] show ?thesis using v(1) Packet by simp
  next
    case (Scan tim)
    from cycle_slots_ok[OF Cons.prems(1), of tim all_slots] obtain vf' g' where
      v: "cycle_slots tim all_slots vf g = Some (vf', g')" "table_inv vf' g'" "counted vf' g'"
      using Cons.prems(2) by blast
    from Cons.IH[OF v(2,3) es] show ?thesis using v(1) Scan by simp
  qed
qed

lemma start_counted: "counted init_voice_file one_node_state"
  by (simp add: counted_def active_def init_voice_file_def zero_voice_file_def one_node_state_def zero_counters_def)

theorem call_online_exact_witness:
  "\<exists>vf' g'. rec_run [Packet test_env (replicate 2048 3) 100, Scan 2000] init_voice_file one_node_state = Some (vf', g') \<and>
     table_inv vf' g' \<and> call_online (vp_counters g') = active vf'"
proof (rule call_online_exact[OF start_table_inv start_counted])
  have "le_of (replicate 8 (3 :: u8)) \<noteq> (0 :: u64)" by code_simp
  then show "\<forall>e \<in> set [Packet test_env (replicate 2048 3) 100, Scan 2000]. event_ok e"
    by (simp add: read_voice_pkt_def rd_le64_def rd_be16_def rd_n_def rd_def take_replicate drop_replicate)
qed


subsection \<open>What is recorded\<close>

text \<open>
  C23. A direction of a call is an append-only stream. The bytes the up file has received followed by
  those that wait in the buffer grow, with each up packet, by the encrypted payload: all of it if
  it fits in the room left in the buffer (after a flush when the buffer was full), else
  only its first bytes, and the rest is dropped.
\<close>

theorem voice_up_appends:
  assumes "vp_inv Oth f g" and "length pkt = 2048" and "p_data_len p \<le> 1024"
    and "fp_up f = Some q" and "fp_down f \<noteq> Some q"
  shows "\<exists>f' g'. voice_up env pkt p f g = Some (f', g') \<and> vp_inv Oth f' g' \<and>
     written q (vp_log g') @ stored_up f' = (written q (vp_log g) @ stored_up f) @
       encrypt_voice (payload pkt (kept (unat (data_count_up f)) (unat (p_data_len p))))"
proof -
  have "unat (p_data_len p) \<le> 1024" using assms(3) by (simp add: word_le_nat_alt)
  then have "37 + unat (p_data_len p) \<le> length pkt" using assms(2) by simp
  from voice_up_ok[OF assms(1) this, of env] assms(4,5) show ?thesis by blast
qed

theorem voice_up_appends_witness:
  "\<exists>f' g'. voice_up test_env (replicate 2048 1) \<lparr>p_callid = 5, p_calldir = 1, p_case = 0, p_data_mark = 0, p_data_no = 1, p_data_len = 1024\<rparr>
       (zero_voice_file\<lparr>vf_callid := 5, fp_up := Some 3\<rparr>) one_node_state = Some (f', g') \<and>
     written 3 (vp_log g') @ stored_up f' = encrypt_voice (payload (replicate 2048 1) 1024)"
proof -
  let ?f = "zero_voice_file\<lparr>vf_callid := 5, fp_up := Some 3\<rparr>"
  have "vp_inv {} ?f one_node_state"
    by (rule one_node_inv) (use zero_slot_ok in \<open>simp_all add: slot_ok_def zero_voice_file_def\<close>)
  from voice_up_appends[OF this, of "replicate 2048 1"
      "\<lparr>p_callid = 5, p_calldir = 1, p_case = 0, p_data_mark = 0, p_data_no = 1, p_data_len = 1024\<rparr>" 3 test_env]
  show ?thesis by (auto simp: zero_voice_file_def stored_up_def one_node_state_def kept_def)
qed

text \<open>
  A call of which only the first packet arrives is never cleaned up. After the packet that
  starts a call, unless it also ends it, the slot holds the call with an \<open>update_time\<close> of 0, because
  the \<open>memset\<close> cleared the time just stored; the scan for silent calls then passes over it
  whatever the time, and the call counts as online for ever.
\<close>

theorem first_packet_never_times_out:
  assumes "vp_inv Oth f g" and "length pkt = 2048" and "p_data_len p \<le> 1024" and "p_callid p \<noteq> vf_callid f"
    and "env_time env - call_time (p_callid p) < 18000"
  shows "\<exists>f' g'. voice_locked env pkt p f g = Some (f', g') \<and> vf_callid f' = p_callid p \<and> update_time f' = 0 \<and>
     cycle_slot tim f' g' = Some (f', g')"
proof -
  define f0 where "f0 = f\<lparr>vf_mutex := mutex_lock (vf_mutex f), update_time := env_time env\<rparr>"
  have f0: "vp_inv Oth f0 g" by (rule vp_inv_cong[OF assms(1)]) (simp_all add: f0_def slot_ok_def)
  from voice_start_ok[OF f0, of env p] obtain f1 g1 where s: "voice_start env p f0 g = Some (f1, g1)" "vp_inv Oth f1 g1"
    "vf_callid f1 = p_callid p" "update_time f1 = 0" "up_end_flag f1 = 0" "down_end_flag f1 = 0" by blast
  have "unat (p_data_len p) \<le> 1024" using assms(3) by (simp add: word_le_nat_alt)
  then have l: "37 + unat (p_data_len p) \<le> length pkt" using assms(2) by simp
  obtain f2 g2 where d: "(if p_calldir p = 1 then voice_up env pkt p f1 g1 else voice_down env pkt p f1 g1) = Some (f2, g2)"
    "same_call f1 f2" "up_end_flag f2 = 0 \<or> down_end_flag f2 = 0"
    using voice_up_ok[OF s(2) l, of env] voice_down_ok[OF s(2) l, of env] s(5,6) by (cases "p_calldir p = 1") fastforce+
  have e: "voice_end env f2 g2 = Some (f2, g2)" using d(3) by (auto simp: voice_end_def)
  have "vf_callid f0 \<noteq> p_callid p" using assms(4) by (simp add: f0_def)
  then have "voice_data env pkt p f0 g = Some (f2, g2)" using s(1) d(1) e by (simp add: voice_data_def)
  then have "voice_locked env pkt p f g = Some (f2\<lparr>vf_mutex := mutex_unlock (vf_mutex f2)\<rparr>, g2)"
    using assms(5) unfolding voice_locked_def f0_def[symmetric] Let_def by (simp add: f0_def)
  moreover have "vf_callid f2 = p_callid p" "update_time f2 = 0" using s(3,4) d(2) by (simp_all add: same_call_def)
  ultimately show ?thesis by (simp add: cycle_slot_def)
qed

theorem first_packet_never_times_out_witness:
  "\<exists>f' g'. voice_locked test_env (replicate 2048 1)
       \<lparr>p_callid = 5, p_calldir = 1, p_case = 0, p_data_mark = 1, p_data_no = 1, p_data_len = 160\<rparr>
       zero_voice_file one_node_state = Some (f', g') \<and>
     vf_callid f' = 5 \<and> update_time f' = 0 \<and> cycle_slot 1000000 f' g' = Some (f', g')"
proof -
  have "vp_inv {} zero_voice_file one_node_state"
    by (rule one_node_inv[OF zero_slot_ok]) (simp add: zero_voice_file_def)
  from first_packet_never_times_out[OF this, of "replicate 2048 1"
      "\<lparr>p_callid = 5, p_calldir = 1, p_case = 0, p_data_mark = 1, p_data_no = 1, p_data_len = 160\<rparr>" test_env 1000000]
  show ?thesis using call_time_range[of 5] by (simp add: test_env_def zero_voice_file_def)
qed

text \<open>
  The packet that starts a call works on an unlocked slot. The \<open>memset\<close> of the slot overwrites the
  mutex that the parser holds with zeros, which is the unlocked state, so everything the parser does
  with the slot after it, up to its own unlock, can run beside another thread.
\<close>

theorem start_drops_lock:
  assumes "vp_inv Oth f g"
  shows "\<exists>f' g'. voice_start env p (f\<lparr>vf_mutex := Mtx_held\<rparr>) g = Some (f', g') \<and> vf_mutex f' = Mtx_free \<and> vf_callid f' = p_callid p"
proof -
  have "vp_inv Oth (f\<lparr>vf_mutex := Mtx_held\<rparr>) g" by (rule vp_inv_cong[OF assms]) (simp_all add: slot_ok_def)
  from voice_start_ok[OF this, of env p] show ?thesis by blast
qed

theorem start_drops_lock_witness:
  "\<exists>f' g'. voice_start test_env \<lparr>p_callid = 5, p_calldir = 1, p_case = 0, p_data_mark = 1, p_data_no = 1, p_data_len = 160\<rparr>
      (zero_voice_file\<lparr>vf_mutex := Mtx_held\<rparr>) one_node_state = Some (f', g') \<and> vf_mutex f' = Mtx_free \<and> vf_callid f' = 5"
proof -
  have "vp_inv {} zero_voice_file one_node_state"
    by (rule one_node_inv[OF zero_slot_ok]) (simp add: zero_voice_file_def)
  from start_drops_lock[OF this, of test_env
      "\<lparr>p_callid = 5, p_calldir = 1, p_case = 0, p_data_mark = 1, p_data_no = 1, p_data_len = 160\<rparr>"]
  show ?thesis by simp
qed

end
