(* ===== verification/Vpu_Worker.thy ===== *)
theory Vpu_Worker
  imports Pkt_Fifo Voice_Parser
begin

text \<open>
  The capture thread and the worker threads, \<open>src/src/vpu_worker.c\<close>: each captured packet goes
  to the ring of one of 8 workers, chosen by the time slot in its call id, and the worker
  hands it to \<open>voice_parser\<close>. Opening the capture device and pinning threads are calls of the system
  and of the capture library, whose packets are the inputs of \<open>io_packet\<close>.
\<close>

subsection \<open>The two threads\<close>

record recorder =
  r_fifos :: "pkt_fifo list"
  r_slots :: slots
  r_vp :: vp_state
  dir_reload :: bool
  r_file_dirs :: file_dirs_info

definition worker_of :: "u64 \<Rightarrow> nat" where
  "worker_of callid = unat (ts_no callid) mod WORKER_NUM"

definition bump :: "(counters \<Rightarrow> counters) \<Rightarrow> vp_state \<Rightarrow> vp_state" where
  "bump u g = g\<lparr>vp_counters := u (vp_counters g)\<rparr>"

text \<open>A captured packet: what was captured of it and the length on the wire.\<close>

definition io_packet :: "u8 list \<Rightarrow> u32 \<Rightarrow> recorder \<Rightarrow> recorder option" where
  "io_packet pkt len s = do {
     let g1 = bump (\<lambda>c. c\<lparr>all_pkts := inc64 (all_pkts c)\<rparr>) (r_vp s);
     callid \<leftarrow> rd_le64 pkt 20;
     let worker = worker_of callid;
     fifo \<leftarrow> rd (r_fifos s) worker;
     (ret, fifo') \<leftarrow> pkt_fifo_put fifo \<lparr>nd_pkt = pkt, nd_len = len\<rparr>;
     Some (s\<lparr>r_fifos := (r_fifos s)[worker := fifo'],
             r_vp := (if ret \<noteq> 0 then bump (\<lambda>c. c\<lparr>lost_pkts := inc64 (lost_pkts c)\<rparr>) g1 else g1)\<rparr>)}"

text \<open>What a worker does with the packet it got.\<close>

definition worker_packet :: "vp_env \<Rightarrow> u8 list \<Rightarrow> u32 \<Rightarrow> slots \<Rightarrow> vp_state \<Rightarrow> (slots \<times> vp_state) option" where
  "worker_packet env pkt len vf g = do {
     b12 \<leftarrow> rd pkt 12;
     b13 \<leftarrow> rd pkt 13;
     b16 \<leftarrow> rd pkt 16;
     if len < 36 \<or> b12 \<noteq> 0x80 \<or> b13 \<noteq> 0x52 \<or> b16 \<noteq> 3
     then Some (vf, bump (\<lambda>c. c\<lparr>other_pkts := inc64 (other_pkts c)\<rparr>) g)
     else do {
       (_, vf', g') \<leftarrow> voice_parser env pkt len vf (bump (\<lambda>c. c\<lparr>voice_pkts := inc64 (voice_pkts c)\<rparr>) g);
       Some (vf', g')}}"

text \<open>One turn of the loop of worker \<open>w\<close>.\<close>

definition worker_turn :: "vp_env \<Rightarrow> nat \<Rightarrow> recorder \<Rightarrow> recorder option" where
  "worker_turn env w s =
     (if dir_reload s \<and> w \<noteq> 0 then Some s
      else do {
        let s1 = (if dir_reload s
                  then s\<lparr>r_vp := (r_vp s)\<lparr>vp_dirs := r_file_dirs s\<rparr>, dir_reload := False\<rparr> else s);
        fifo \<leftarrow> rd (r_fifos s1) w;
        (ret, fifo', node) \<leftarrow> fifo_take fifo;
        let s2 = s1\<lparr>r_fifos := (r_fifos s1)[w := fifo']\<rparr>;
        case node of
          None \<Rightarrow> Some s2
        | Some r \<Rightarrow> do {
            buf \<leftarrow> rd (f_pkt fifo') (ref_slot r);
            (vf, g) \<leftarrow> worker_packet env (pb_pkt buf) (ref_len r) (r_slots s2) (r_vp s2);
            Some (s2\<lparr>r_slots := vf, r_vp := g\<rparr>)}})"

subsection \<open>The invariant\<close>

definition pkt_callid :: "u8 list \<Rightarrow> u64" where
  "pkt_callid bs = le_of (take 8 (drop 20 bs))"

text \<open>The packets in the ring of worker \<open>w\<close> that \<open>voice_parser\<close> will look at belong to it.\<close>

definition ring_for :: "nat \<Rightarrow> pkt_fifo \<Rightarrow> bool" where
  "ring_for w f \<longleftrightarrow> fifo_inv f \<and> (\<forall>bs \<in> set (fifo_list f). 36 \<le> length bs \<longrightarrow> worker_of (pkt_callid bs) = w)"

definition rec_inv :: "recorder \<Rightarrow> bool" where
  "rec_inv s \<longleftrightarrow> length (r_fifos s) = WORKER_NUM \<and> (\<forall>w < WORKER_NUM. ring_for w (r_fifos s ! w)) \<and>
     table_inv (r_slots s) (r_vp s) \<and> (dir_reload s \<longrightarrow> dirs_ok (r_file_dirs s) \<and> 0 < fd_num (r_file_dirs s))"

lemma vp_inv_counters: "vp_inv Oth f (bump u g) = vp_inv Oth f g"
  by (simp add: bump_def vp_inv_def pool_ok_def pool_lists_def sys_ok_def)

lemma table_inv_bump [simp]: "table_inv vf (bump u g) = table_inv vf g"
  by (simp add: table_inv_def vp_inv_counters)

lemma table_inv_dirs:
  "table_inv vf g \<Longrightarrow> dirs_ok d \<Longrightarrow> 0 < fd_num d \<Longrightarrow> table_inv vf (g\<lparr>vp_dirs := d\<rparr>)"
  by (simp add: table_inv_def vp_inv_def pool_ok_def pool_lists_def sys_ok_def)

lemma worker_of_lt: "worker_of callid < WORKER_NUM"
  by (simp add: worker_of_def)

lemma pkt_callid_prefix: "28 \<le> n \<Longrightarrow> pkt_callid (take n bs) = pkt_callid bs"
  by (simp add: pkt_callid_def drop_take)

lemma rd_le64_callid: "28 \<le> length pkt \<Longrightarrow> rd_le64 pkt 20 = Some (pkt_callid pkt)"
  by (simp add: rd_le64_def rd_n_def pkt_callid_def)

text \<open>The capture thread.\<close>

lemma io_packet_ok:
  assumes "rec_inv s" "28 \<le> length pkt" "unat len \<le> length pkt" "unat len \<le> PKT_BUF_SIZE"
  shows "\<exists>s'. io_packet pkt len s = Some s' \<and> rec_inv s' \<and> r_slots s' = r_slots s"
proof -
  define w where "w = worker_of (pkt_callid pkt)"
  have w: "w < length (r_fifos s)" "w < WORKER_NUM" using assms(1) worker_of_lt by (simp_all add: w_def rec_inv_def)
  have f: "fifo_inv (r_fifos s ! w)" "\<forall>bs \<in> set (fifo_list (r_fifos s ! w)). 36 \<le> length bs \<longrightarrow> worker_of (pkt_callid bs) = w"
    using assms(1) w(2) by (auto simp: rec_inv_def ring_for_def)
  let ?node = "\<lparr>nd_pkt = pkt, nd_len = len\<rparr>"
  have n: "node_ok ?node" using assms(3,4) by (simp add: node_ok_def)
  obtain r f' where p: "pkt_fifo_put (r_fifos s ! w) ?node = Some (r, f')" "ring_for w f'"
  proof (cases "length (fifo_list (r_fifos s ! w)) < length (f_pkt (r_fifos s ! w))")
    case True
    from put_accept[OF f(1) n True] obtain f' where "pkt_fifo_put (r_fifos s ! w) ?node = Some (0, f')" "fifo_inv f'"
      "fifo_list f' = fifo_list (r_fifos s ! w) @ [node_bytes ?node]" by blast
    moreover have "36 \<le> length (node_bytes ?node) \<longrightarrow> worker_of (pkt_callid (node_bytes ?node)) = w"
      by (simp add: node_bytes_def pkt_callid_prefix w_def)
    ultimately show ?thesis using that f(2) by (auto simp: ring_for_def)
  next
    case False
    then show ?thesis using that ring_put_full[OF f(1) False] f by (auto simp: ring_for_def)
  qed
  let ?g1 = "bump (\<lambda>c. c\<lparr>all_pkts := inc64 (all_pkts c)\<rparr>) (r_vp s)"
  let ?s' = "s\<lparr>r_fifos := (r_fifos s)[w := f'],
     r_vp := (if r \<noteq> 0 then bump (\<lambda>c. c\<lparr>lost_pkts := inc64 (lost_pkts c)\<rparr>) ?g1 else ?g1)\<rparr>"
  have "io_packet pkt len s = Some ?s'"
    using w(1) p(1) by (simp add: io_packet_def Let_def rd_le64_callid[OF assms(2)] w_def[symmetric] rd_def del: inc64_eq)
  moreover have "rec_inv ?s'" using assms(1) p(2) w(2) by (auto simp: rec_inv_def nth_list_update simp del: inc64_eq)
  ultimately show ?thesis by (intro exI[of _ ?s']) simp
qed

text \<open>A worker's packet changes only slots of the worker.\<close>

lemma worker_packet_ok:
  assumes "table_inv vf g" "length pkt = 2048" "36 \<le> unat len \<longrightarrow> worker_of (pkt_callid pkt) = w"
  shows "\<exists>vf' g'. worker_packet env pkt len vf g = Some (vf', g') \<and> table_inv vf' g' \<and>
     (\<forall>a b k. unat k mod WORKER_NUM \<noteq> w \<longrightarrow> vf' (a, b, k) = vf (a, b, k))"
proof -
  have r: "rd pkt i = Some (pkt ! i)" if "i < 2048" for i using that assms(2) by (simp add: rd_def)
  show ?thesis
  proof (cases "len < 36 \<or> pkt ! 12 \<noteq> 0x80 \<or> pkt ! 13 \<noteq> 0x52 \<or> pkt ! 16 \<noteq> 3")
    case True
    then show ?thesis using assms(1) by (simp add: worker_packet_def r)
  next
    case False
    let ?g = "bump (\<lambda>c. c\<lparr>voice_pkts := inc64 (voice_pkts c)\<rparr>) g"
    have t: "table_inv vf ?g" using assms(1) by simp
    obtain p where p: "read_voice_pkt pkt = Some p" using read_voice_pkt_ok[OF assms(2)] by blast
    have c: "p_callid p = pkt_callid pkt"
      using p assms(2) by (auto simp: read_voice_pkt_def rd_le64_callid split: Option.bind_splits)
    from voice_parser_ok[OF t assms(2), of env len] p obtain r vf' g' where
      v: "voice_parser env pkt len vf ?g = Some (r, vf', g')" "table_inv vf' g'"
      "\<forall>j. get_file_struct (p_callid p) \<noteq> Some j \<longrightarrow> vf' j = vf j" by blast
    have w: "worker_of (p_callid p) = w" using assms(3) False c by (simp add: word_le_nat_alt not_less)
    have "vf' (a, b, k) = vf (a, b, k)" if k: "unat k mod WORKER_NUM \<noteq> w" for a b k
    proof -
      have "k \<noteq> ts_no (p_callid p)" using w k by (auto simp: worker_of_def)
      then show ?thesis using v(3) get_file_struct_slot[of "p_callid p"] by simp
    qed
    then show ?thesis using False v(1,2) by (simp add: worker_packet_def r)
  qed
qed

lemma worker_turn_ok:
  assumes "rec_inv s" "w < WORKER_NUM"
  shows "\<exists>s'. worker_turn env w s = Some s' \<and> rec_inv s' \<and>
     (\<forall>a b k. unat k mod WORKER_NUM \<noteq> w \<longrightarrow> r_slots s' (a, b, k) = r_slots s (a, b, k))"
proof (cases "dir_reload s \<and> w \<noteq> 0")
  case True
  then show ?thesis using assms(1) by (simp add: worker_turn_def)
next
  case False
  define s1 where "s1 = (if dir_reload s then s\<lparr>r_vp := (r_vp s)\<lparr>vp_dirs := r_file_dirs s\<rparr>, dir_reload := False\<rparr> else s)"
  have s1: "rec_inv s1" "r_slots s1 = r_slots s" using assms(1) table_inv_dirs by (auto simp: s1_def rec_inv_def)
  let ?f = "r_fifos s1 ! w"
  have f: "w < length (r_fifos s1)" "fifo_inv ?f"
    "\<forall>bs \<in> set (fifo_list ?f). 36 \<le> length bs \<longrightarrow> worker_of (pkt_callid bs) = w"
    using s1(1) assms(2) by (auto simp: rec_inv_def ring_for_def)
  have turn: "worker_turn env w s = do {
      (ret, fifo', node) \<leftarrow> fifo_take ?f;
      let s2 = s1\<lparr>r_fifos := (r_fifos s1)[w := fifo']\<rparr>;
      case node of None \<Rightarrow> Some s2
      | Some r \<Rightarrow> do {buf \<leftarrow> rd (f_pkt fifo') (ref_slot r);
            (vf, g) \<leftarrow> worker_packet env (pb_pkt buf) (ref_len r) (r_slots s2) (r_vp s2);
            Some (s2\<lparr>r_slots := vf, r_vp := g\<rparr>)}}"
    unfolding worker_turn_def s1_def[symmetric] Let_def
    by (simp only: False if_False rd_Some[OF f(1)] bind.bind_lunit)
  show ?thesis
  proof (cases "fifo_list ?f")
    case Nil
    have "(r_fifos s1)[w := ?f] = r_fifos s1" by simp
    then have "worker_turn env w s = Some s1" using ring_get_empty[OF f(2) Nil] by (simp add: turn)
    then show ?thesis using s1 by simp
  next
    case (Cons x xs)
    from get_next[OF f(2) Cons] obtain f' r where g: "fifo_take ?f = Some (0, f', Some r)" "fifo_inv f'"
      "fifo_list f' = xs" "ref_bytes f' r = Some x" by blast
    have rf: "ring_for w f'" using g(2,3) f(3) Cons by (simp add: ring_for_def)
    from g(4) obtain buf where b: "rd (f_pkt f') (ref_slot r) = Some buf" "rd_n (pb_pkt buf) 0 (unat (ref_len r)) = Some x"
      by (auto simp: ref_bytes_def split: Option.bind_splits)
    have "buf_ok buf" using g(2) b(1) by (auto simp: fifo_inv_def list_all_length rd_eq_Some)
    then have l: "length (pb_pkt buf) = 2048" by (simp add: buf_ok_def)
    have x: "x = take (unat (ref_len r)) (pb_pkt buf)" "length x = unat (ref_len r)"
      using b(2) rd_n_length by (auto simp: rd_n_eq_Some)
    have own: "36 \<le> unat (ref_len r) \<longrightarrow> worker_of (pkt_callid (pb_pkt buf)) = w"
      using f(3) Cons x pkt_callid_prefix[of "unat (ref_len r)" "pb_pkt buf"] by auto
    have t: "table_inv (r_slots s1) (r_vp s1)" using s1(1) by (simp add: rec_inv_def)
    from worker_packet_ok[OF t l own, of env] obtain vf' g' where p:
      "worker_packet env (pb_pkt buf) (ref_len r) (r_slots s1) (r_vp s1) = Some (vf', g')" "table_inv vf' g'"
      "\<forall>a b k. unat k mod WORKER_NUM \<noteq> w \<longrightarrow> vf' (a, b, k) = r_slots s1 (a, b, k)" by blast
    let ?s' = "s1\<lparr>r_fifos := (r_fifos s1)[w := f'], r_slots := vf', r_vp := g'\<rparr>"
    have "worker_turn env w s = Some ?s'" using g(1) b(1) p(1) by (simp add: turn)
    moreover have "rec_inv ?s'" using s1(1) p(2) rf assms(2) by (auto simp: rec_inv_def nth_list_update)
    ultimately show ?thesis using p(3) s1(2) by (intro exI[of _ ?s']) simp
  qed
qed

text \<open>Runs of the threads, one turn at a time.\<close>

datatype rec_turn = Capture "u8 list" u32 | Work nat vp_env

fun turns :: "rec_turn list \<Rightarrow> recorder \<Rightarrow> recorder option" where
  "turns [] s = Some s"
| "turns (Capture pkt len # ts) s = do {s' \<leftarrow> io_packet pkt len s; turns ts s'}"
| "turns (Work w env # ts) s = do {s' \<leftarrow> worker_turn env w s; turns ts s'}"

text \<open>The capture library delivers whole frames of at least 28 and at most 2048 bytes.\<close>

fun turn_ok :: "rec_turn \<Rightarrow> bool" where
  "turn_ok (Capture pkt len) \<longleftrightarrow> 28 \<le> length pkt \<and> unat len \<le> length pkt \<and> unat len \<le> PKT_BUF_SIZE"
| "turn_ok (Work w env) \<longleftrightarrow> w < WORKER_NUM"

lemma turns_ok: "rec_inv s \<Longrightarrow> \<forall>t \<in> set ts. turn_ok t \<Longrightarrow> \<exists>s'. turns ts s = Some s' \<and> rec_inv s'"
proof (induction ts arbitrary: s)
  case Nil
  then show ?case by simp
next
  case (Cons t ts)
  show ?case
  proof (cases t)
    case (Capture pkt len)
    then obtain s' where "io_packet pkt len s = Some s'" "rec_inv s'"
      using io_packet_ok[of s pkt len] Cons.prems by auto
    then show ?thesis using Cons.IH[of s'] Cons.prems(2) Capture by simp
  next
    case (Work w env)
    then obtain s' where "worker_turn env w s = Some s'" "rec_inv s'"
      using worker_turn_ok[of s w env] Cons.prems by auto
    then show ?thesis using Cons.IH[of s'] Cons.prems(2) Work by simp
  qed
qed

definition start_recorder :: recorder where
  "start_recorder = \<lparr>r_fifos = init_pkt_fifo, r_slots = init_voice_file, r_vp = one_node_state,
     dir_reload = False, r_file_dirs = empty_dirs\<lparr>fd_num := 1\<rparr>\<rparr>"

lemma start_rec_inv: "rec_inv start_recorder"
proof -
  have "ring_for w (init_pkt_fifo ! w)" if "w < WORKER_NUM" for w
  proof -
    have e: "init_pkt_fifo ! w = init_fifo PKT_FIFO_SIZE" using that by (simp add: init_pkt_fifo_def)
    show ?thesis unfolding e ring_for_def fifo_list_init using fifo_inv_init[of PKT_FIFO_SIZE] by simp
  qed
  moreover have "length init_pkt_fifo = WORKER_NUM" by (simp add: init_pkt_fifo_def)
  ultimately show ?thesis
    by (simp add: rec_inv_def start_recorder_def start_table_inv dirs_ok_def empty_dirs_def)
qed

text \<open>
  The recording pipeline is safe from end to end. Started as the program starts, for any
  frames on the line and any turns of the capture thread and the 8 workers, nothing undefined
  happens, and the whole state stays consistent: the rings, each of which holds voice packets
  of its own worker only, the slots, the fax nodes, the queues and the record ring.
\<close>

theorem recorder_safe:
  assumes "rec_inv s" and "\<forall>t \<in> set ts. turn_ok t"
  shows "\<exists>s'. turns ts s = Some s' \<and> rec_inv s'"
  using assms by (rule turns_ok)

theorem recorder_safe_witness:
  "\<exists>s'. turns [Capture (replicate 100 3) 100, Work 3 test_env, Work 0 test_env] start_recorder = Some s' \<and> rec_inv s'"
  by (rule recorder_safe[OF start_rec_inv]) simp

text \<open>
  A call belongs to one worker. In every reachable state a turn of worker \<open>w\<close> changes only slots
  whose time slot is \<open>w\<close> modulo 8, and a turn of the capture thread changes none, so two workers never
  write the same slot and the packets of a call are handled in the order of their ring.
\<close>

theorem worker_owns_slots:
  assumes "rec_inv s" and "w < WORKER_NUM"
  shows "\<exists>s'. worker_turn env w s = Some s' \<and>
     (\<forall>a b k. unat k mod WORKER_NUM \<noteq> w \<longrightarrow> r_slots s' (a, b, k) = r_slots s (a, b, k))"
  using worker_turn_ok[OF assms, of env] by blast

theorem worker_owns_slots_witness:
  "\<exists>s'. worker_turn test_env 2 start_recorder = Some s' \<and>
     (\<forall>a b k. unat k mod WORKER_NUM \<noteq> 2 \<longrightarrow> r_slots s' (a, b, k) = r_slots start_recorder (a, b, k))"
  by (rule worker_owns_slots[OF start_rec_inv]) simp

end
