(* ===== verification/Vpu_Capture.thy ===== *)
theory Vpu_Capture
  imports Vpu_Worker Conf
begin

text \<open>
  The loop of the capture thread around \<open>io_packet\<close>, \<open>vpu_io_thread\<close> of \<open>src/src/vpu_worker.c\<close>: it opens the device of
  the configuration, opens it again when a reload asks for it, and closes it when the program ends. What the capture library
  answers is the input of a turn.
\<close>

subsection \<open>The thread\<close>

text \<open>
  Whether the library opens the device, and what \<open>pcap_next\<close> delivers: nothing, or what was captured of a frame and its
  length on the wire.
\<close>

record cap_env =
  ca_done :: bool
  ca_opens :: bool
  ca_next :: "(u8 list \<times> u32) option"

datatype cap_event = Cap_open string | Cap_close

record capture =
  cp_rec :: recorder
  cp_conf :: conf_vars
  cp_log :: "cap_event list"

definition cp_add :: "cap_event list \<Rightarrow> capture \<Rightarrow> capture" where
  "cp_add es s = s\<lparr>cp_log := cp_log s @ es\<rparr>"

text \<open>A device that does not open ends the program.\<close>

definition io_open :: "cap_env \<Rightarrow> capture \<Rightarrow> capture conf_run" where
  "io_open env s = (if ca_opens env then Cont 0 (cp_add [Cap_open (get_dev (cp_conf s))] s) else Exit (-1))"

definition io_reload :: "cap_env \<Rightarrow> capture \<Rightarrow> capture conf_run" where
  "io_reload env s =
     (if vpu_dev_reload (cp_conf s) = 1
      then (case io_open env (cp_add [Cap_close] s) of
              Exit c \<Rightarrow> Exit c
            | Cont _ s1 \<Rightarrow> Cont 0 (s1\<lparr>cp_conf := (cp_conf s1)\<lparr>vpu_dev_reload := 0\<rparr>\<rparr>))
      else Cont 0 s)"

text \<open>One turn of the loop; the value is 1 when the loop is left.\<close>

definition io_turn :: "cap_env \<Rightarrow> capture \<Rightarrow> capture conf_run option" where
  "io_turn env s =
     (if ca_done env then Some (Cont 1 s)
      else (case io_reload env s of
              Exit c \<Rightarrow> Some (Exit c)
            | Cont _ s1 \<Rightarrow>
                (case ca_next env of
                   None \<Rightarrow> Some (Cont 0 s1)
                 | Some (pkt, len) \<Rightarrow> do {
                     r \<leftarrow> io_packet pkt len (cp_rec s1);
                     Some (Cont 0 (s1\<lparr>cp_rec := r\<rparr>))})))"

text \<open>
  The thread over a list of turns, before each of which the other threads leave the recorder and the configuration as they
  like; the device is closed behind the loop.
\<close>

fun io_run :: "(cap_env \<times> recorder \<times> conf_vars) list \<Rightarrow> capture \<Rightarrow> capture conf_run option" where
  "io_run [] s = Some (Cont 0 s)"
| "io_run ((env, r, c) # ts) s = do {
     x \<leftarrow> io_turn env (s\<lparr>cp_rec := r, cp_conf := c\<rparr>);
     (case x of
        Exit e \<Rightarrow> Some (Exit e)
      | Cont e s1 \<Rightarrow> if e = 1 then Some (Cont 1 (cp_add [Cap_close] s1)) else io_run ts s1)}"

definition vpu_io_thread :: "cap_env \<Rightarrow> (cap_env \<times> recorder \<times> conf_vars) list \<Rightarrow> recorder \<Rightarrow> conf_vars \<Rightarrow> capture conf_run option" where
  "vpu_io_thread env ts r c =
     (case io_open env \<lparr>cp_rec = r, cp_conf = c, cp_log = []\<rparr> of
        Exit e \<Rightarrow> Some (Exit e)
      | Cont _ s \<Rightarrow> io_run ts s)"

subsection \<open>The handle of the device\<close>

text \<open>
  The device that is open after a list of events; a second open and a close of nothing have no value.
\<close>

fun cap_step :: "string option \<Rightarrow> cap_event \<Rightarrow> string option option" where
  "cap_step None (Cap_open d) = Some (Some d)"
| "cap_step (Some d) Cap_close = Some None"
| "cap_step _ _ = None"

definition cap_device :: "cap_event list \<Rightarrow> string option option" where
  "cap_device es = fold (\<lambda>e h. Option.bind h (\<lambda>d. cap_step d e)) es (Some None)"

lemma cap_device_snoc: "cap_device (es @ [e]) = Option.bind (cap_device es) (\<lambda>d. cap_step d e)"
  by (simp add: cap_device_def)

text \<open>What is open when a run has come to an end with the value \<open>e\<close>: nothing behind the loop, one device in it.\<close>

definition held :: "int \<Rightarrow> string option option \<Rightarrow> bool" where
  "held e h \<longleftrightarrow> (if e = 1 then h = Some None else h \<noteq> None \<and> h \<noteq> Some None)"

text \<open>
  The device is opened with a snapshot length of \<open>MAX_ETH_PACKET_LEN\<close>. The capture library delivers a frame that is not longer
  whole, so the length it reports, that of the frame on the wire, is the number of bytes that can be read. What is asked of
  a turn is therefore a matter of the network alone: it carries only frames of 28 to 1518 bytes.
\<close>

abbreviation MAX_ETH_PACKET_LEN :: nat where "MAX_ETH_PACKET_LEN \<equiv> 1518"

definition cap_frame_ok :: "cap_env \<Rightarrow> bool" where
  "cap_frame_ok env \<longleftrightarrow> (case ca_next env of
      None \<Rightarrow> True
    | Some (pkt, len) \<Rightarrow> 28 \<le> length pkt \<and> length pkt \<le> MAX_ETH_PACKET_LEN \<and> unat len = length pkt)"

text \<open>A turn changes nothing of the configuration but takes back the flag.\<close>

definition device_taken :: "conf_vars \<Rightarrow> conf_vars \<Rightarrow> bool" where
  "device_taken c c' \<longleftrightarrow> c' = c \<or> c' = c\<lparr>vpu_dev_reload := 0\<rparr>"

lemma io_reload_device:
  assumes "cap_device (cp_log s) = Some (Some d)"
  shows "(io_reload env s = Exit (-1) \<and> \<not> ca_opens env) \<or>
    (\<exists>s' d'. io_reload env s = Cont 0 s' \<and> cap_device (cp_log s') = Some (Some d') \<and> cp_rec s' = cp_rec s \<and>
      vpu_dev_reload (cp_conf s') \<noteq> 1 \<and> device_taken (cp_conf s) (cp_conf s'))"
proof (cases "vpu_dev_reload (cp_conf s) = 1")
  case True
  have "cap_device (cp_log s @ [Cap_close] @ [Cap_open (get_dev (cp_conf s))]) = Some (Some (get_dev (cp_conf s)))"
    using assms by (simp only: append_assoc[symmetric] cap_device_snoc) simp
  then show ?thesis using True by (simp add: io_reload_def io_open_def cp_add_def get_dev_def device_taken_def)
next
  case False
  then show ?thesis using assms by (simp add: io_reload_def device_taken_def)
qed

lemma io_turn_ok:
  assumes "cap_device (cp_log s) = Some (Some d)" "rec_inv (cp_rec s)" "cap_frame_ok env"
  shows "(io_turn env s = Some (Exit (-1)) \<and> \<not> ca_opens env) \<or>
    (\<exists>e s' d'. io_turn env s = Some (Cont e s') \<and> e = (if ca_done env then 1 else 0) \<and> cap_device (cp_log s') = Some (Some d') \<and>
      rec_inv (cp_rec s') \<and> r_slots (cp_rec s') = r_slots (cp_rec s) \<and>
      device_taken (cp_conf s) (cp_conf s'))"
proof (cases "ca_done env")
  case True
  then show ?thesis using assms by (simp add: io_turn_def device_taken_def)
next
  case False
  from io_reload_device[OF assms(1), of env] show ?thesis
  proof (elim disjE conjE exE)
    assume "io_reload env s = Exit (-1)" "\<not> ca_opens env"
    then show ?thesis using False by (simp add: io_turn_def)
  next
    fix s1 d'
    assume s1: "io_reload env s = Cont 0 s1" "cap_device (cp_log s1) = Some (Some d')" "cp_rec s1 = cp_rec s"
      "device_taken (cp_conf s) (cp_conf s1)"
    show ?thesis
    proof (cases "ca_next env")
      case None
      then show ?thesis using False s1 assms(2) by (simp add: io_turn_def)
    next
      case (Some p)
      obtain pkt len where p: "p = (pkt, len)" by (cases p)
      have "turn_ok (Capture pkt len)" using assms(3) Some p by (auto simp: cap_frame_ok_def)
      then obtain r where "io_packet pkt len (cp_rec s) = Some r" "rec_inv r" "r_slots r = r_slots (cp_rec s)"
        using io_packet_ok[OF assms(2), of pkt len] by auto
      then show ?thesis using False s1 Some p by (simp add: io_turn_def)
    qed
  qed
qed

lemma io_run_ok:
  assumes "cap_device (cp_log s) = Some (Some d)" "\<forall>(env, r, c) \<in> set ts. rec_inv r \<and> cap_frame_ok env"
  shows "(io_run ts s = Some (Exit (-1)) \<and> (\<exists>(env, r, c) \<in> set ts. \<not> ca_opens env)) \<or>
    (\<exists>e s'. io_run ts s = Some (Cont e s') \<and> held e (cap_device (cp_log s')))"
  using assms
proof (induction ts arbitrary: s d)
  case Nil
  then show ?case by (simp add: held_def)
next
  case (Cons t ts)
  obtain env r c where t: "t = (env, r, c)" by (cases t)
  let ?s = "s\<lparr>cp_rec := r, cp_conf := c\<rparr>"
  have "cap_device (cp_log ?s) = Some (Some d)" "rec_inv (cp_rec ?s)" "cap_frame_ok env" using Cons.prems t by simp_all
  from io_turn_ok[OF this] show ?case
  proof (elim disjE conjE exE)
    assume "io_turn env ?s = Some (Exit (-1))" "\<not> ca_opens env"
    then show ?thesis using t by simp
  next
    fix e s1 d1
    assume s1: "io_turn env ?s = Some (Cont e s1)" "e = (if ca_done env then 1 else 0)" "cap_device (cp_log s1) = Some (Some d1)"
    show ?thesis
    proof (cases "e = 1")
      case True
      then show ?thesis using s1 t by (simp add: cp_add_def cap_device_snoc held_def)
    next
      case False
      have "\<forall>(env, r, c) \<in> set ts. rec_inv r \<and> cap_frame_ok env" using Cons.prems(2) by simp
      from Cons.IH[OF s1(3) this] show ?thesis using s1(1) False t by auto
    qed
  qed
qed

text \<open>The device alone, whatever is captured: a turn that has an outcome leaves one device open or could not open it.\<close>

lemma io_turn_device:
  assumes "cap_device (cp_log s) = Some (Some d)" "io_turn env s = Some x"
  shows "case x of Exit e \<Rightarrow> e = -1 \<and> \<not> ca_opens env
    | Cont e s' \<Rightarrow> e = (if ca_done env then 1 else 0) \<and> (\<exists>d'. cap_device (cp_log s') = Some (Some d'))"
proof (cases "ca_done env")
  case True
  then show ?thesis using assms by (auto simp: io_turn_def)
next
  case False
  from io_reload_device[OF assms(1), of env] show ?thesis
    using assms(2) False by (auto simp: io_turn_def split: option.splits Option.bind_splits conf_run.splits dest: sym)
qed

lemma io_run_device:
  assumes "cap_device (cp_log s) = Some (Some d)" "io_run ts s = Some x"
  shows "case x of Exit e \<Rightarrow> e = -1 \<and> (\<exists>env' \<in> fst ` set ts. \<not> ca_opens env') | Cont e s' \<Rightarrow> held e (cap_device (cp_log s'))"
  using assms
proof (induction ts arbitrary: s d)
  case Nil
  then show ?case by (auto simp: held_def)
next
  case (Cons t ts)
  obtain env r c where t: "t = (env, r, c)" by (cases t)
  let ?s = "s\<lparr>cp_rec := r, cp_conf := c\<rparr>"
  obtain y where y: "io_turn env ?s = Some y" using Cons.prems(2) t by (auto split: Option.bind_splits)
  have "cap_device (cp_log ?s) = Some (Some d)" using Cons.prems(1) by simp
  note turn = io_turn_device[OF this y]
  show ?case
  proof (cases y)
    case (Exit e)
    then show ?thesis using Cons.prems(2) y turn t by (auto split: conf_run.splits)
  next
    case (Cont e s1)
    then obtain d1 where s1: "cap_device (cp_log s1) = Some (Some d1)" "e = (if ca_done env then 1 else 0)" using turn by auto
    show ?thesis
    proof (cases "e = 1")
      case True
      then have "x = Cont 1 (cp_add [Cap_close] s1)" using Cons.prems(2) y Cont t by simp
      then show ?thesis using s1(1) by (simp add: cp_add_def cap_device_snoc held_def)
    next
      case False
      then have "io_run ts s1 = Some x" using Cons.prems(2) y Cont t by simp
      from Cons.IH[OF s1(1) this] show ?thesis by (auto split: conf_run.splits)
    qed
  qed
qed

text \<open>
  C28. The device is opened and closed in pairs. Whatever the other threads do to the recorder and the configuration between the turns and
  whatever the capture library answers: a thread that ends the program does so with -1 because the device did not open; in every other outcome
  exactly one device is open while the thread runs, and none when it has left its loop. There is no outcome only when a turn
  found an inconsistent recorder or a frame that is not of 28 to 1518 bytes and whole.
\<close>

theorem capture_device:
  "case vpu_io_thread env ts r c of
     None \<Rightarrow> (\<exists>(env', r', c') \<in> set ts. \<not> (rec_inv r' \<and> cap_frame_ok env'))
   | Some (Exit e) \<Rightarrow> e = -1 \<and> (\<exists>env' \<in> insert env (fst ` set ts). \<not> ca_opens env')
   | Some (Cont e s) \<Rightarrow> held e (cap_device (cp_log s))"
proof (cases "ca_opens env")
  case True
  let ?s = "\<lparr>cp_rec = r, cp_conf = c, cp_log = [Cap_open (get_dev c)]\<rparr>"
  have run: "vpu_io_thread env ts r c = io_run ts ?s" using True by (simp add: vpu_io_thread_def io_open_def cp_add_def)
  have d: "cap_device (cp_log ?s) = Some (Some (get_dev c))" by (simp add: cap_device_def)
  show ?thesis
  proof (cases "io_run ts ?s")
    case None
    then show ?thesis using io_run_ok[OF d, of ts] run by fastforce
  next
    case (Some x)
    from io_run_device[OF d Some] show ?thesis using run Some by (cases x) auto
  qed
next
  case False
  then show ?thesis by (simp add: vpu_io_thread_def io_open_def)
qed

theorem capture_device_witness:
  "\<exists>e s. vpu_io_thread \<lparr>ca_done = False, ca_opens = True, ca_next = None\<rparr>
      [(\<lparr>ca_done = False, ca_opens = True, ca_next = Some (replicate 100 3, 100)\<rparr>, start_recorder, start_vars),
       (\<lparr>ca_done = True, ca_opens = True, ca_next = None\<rparr>, start_recorder, start_vars)] start_recorder start_vars = Some (Cont e s) \<and>
      held e (cap_device (cp_log s))"
proof -
  let ?ts = "[(\<lparr>ca_done = False, ca_opens = True, ca_next = Some (replicate 100 3, 100)\<rparr>, start_recorder, start_vars),
       (\<lparr>ca_done = True, ca_opens = True, ca_next = None\<rparr>, start_recorder, start_vars)]"
  have "\<forall>(env, r, c) \<in> set ?ts. rec_inv r \<and> cap_frame_ok env" by (simp add: start_rec_inv cap_frame_ok_def)
  then show ?thesis
    using capture_device[where env = "\<lparr>ca_done = False, ca_opens = True, ca_next = None\<rparr>" and ts = ?ts and r = start_recorder and c = start_vars]
    by (auto split: option.splits conf_run.splits)
qed

text \<open>
  A new device in the configuration file is not used. When a reload has found another device and raised the flag, the next turn
  of the capture thread opens the device that was open before.
\<close>

theorem capture_keeps_device:
  assumes "reload_dev_parser c = Some (Cont 0 c')" "vpu_dev_reload c' = 1" "io_reload env s = Cont 0 s'" "cp_conf s = c'"
  shows "cp_log s' = cp_log s @ [Cap_close, Cap_open (get_dev c)]"
proof -
  have "vpu_conf c' = vpu_conf c" using reload_dev_cases[OF assms(1)] by auto
  then show ?thesis using assms(2-4) by (auto simp: io_reload_def io_open_def cp_add_def get_dev_def split: if_splits)
qed

theorem capture_keeps_device_witness:
  "cp_log (case io_reload \<lparr>ca_done = False, ca_opens = True, ca_next = None\<rparr>
       \<lparr>cp_rec = start_recorder, cp_conf = new_dev\<lparr>vpu_dev_reload := 1\<rparr>, cp_log = []\<rparr> of Cont _ s \<Rightarrow> s | Exit _ \<Rightarrow> undefined) =
     [Cap_close, Cap_open (get_dev new_dev)]"
proof -
  let ?e = "\<lparr>ca_done = False, ca_opens = True, ca_next = None\<rparr>"
  let ?s = "\<lparr>cp_rec = start_recorder, cp_conf = new_dev\<lparr>vpu_dev_reload := 1\<rparr>, cp_log = []\<rparr>"
  have r: "reload_dev_parser new_dev = Some (Cont 0 (new_dev\<lparr>vpu_dev_reload := 1\<rparr>))" using reload_keeps_param_witness by blast
  obtain s' where s': "io_reload ?e ?s = Cont 0 s'" by (simp add: io_reload_def io_open_def cp_add_def)
  from capture_keeps_device[OF r _ s'] show ?thesis using s' by simp
qed

end
