(* ===== verification/Conn_Serv.thy ===== *)
theory Conn_Serv
  imports Conf Atomic_Counter
begin

text \<open>
  The connections to the guard and to the management agent, \<open>src/src/conn_serv.c\<close>: the packets sent to
  them, the commands of the agent and the loops of the two threads.

  \<open>struct pkt_header\<close> is declared outside the repository. Its size and the positions of its fields are a parameter,
  \<open>pkt_layout\<close>, of which only \<open>layout_ok\<close> is assumed: the fields lie inside the header and do not
  overlap. The functions for the log level and for the table of counter names are parameters too. The network
  is a parameter that says what the calls return, and a log of what is sent.
\<close>

subsection \<open>Packets\<close>

record pkt_layout =
  hd_size :: nat
  off_ver :: nat
  off_reply :: nat
  off_cmd :: nat
  off_num :: nat
  off_len :: nat

definition apart :: "nat \<times> nat \<Rightarrow> nat \<times> nat \<Rightarrow> bool" where
  "apart a b \<longleftrightarrow> fst a + snd a \<le> fst b \<or> fst b + snd b \<le> fst a"

definition layout_fields :: "pkt_layout \<Rightarrow> (nat \<times> nat) list" where
  "layout_fields L = [(off_ver L, 1), (off_reply L, 1), (off_cmd L, 2), (off_num L, 2), (off_len L, 2)]"

definition layout_ok :: "pkt_layout \<Rightarrow> bool" where
  "layout_ok L \<longleftrightarrow> hd_size L \<le> 64 \<and> list_all (\<lambda>f. fst f + snd f \<le> hd_size L) (layout_fields L) \<and>
     sorted_wrt apart (layout_fields L)"

text \<open>The two bytes of the type, the two of the length, and the information.\<close>

definition vpu_fill_info :: "u8 list \<Rightarrow> nat \<Rightarrow> u8 list \<Rightarrow> u16 \<Rightarrow> u16 \<Rightarrow> (u16 \<times> u8 list) option" where
  "vpu_fill_info pkt off info len ty = do {
     p1 \<leftarrow> wr_n pkt off (to_be 2 ty);
     p2 \<leftarrow> wr_n p1 (off + 2) (to_be 2 len);
     bs \<leftarrow> rd_n info 0 (unat len);
     p3 \<leftarrow> wr_n p2 (off + 4) bs;
     Some (len + 4, p3)}"

definition fill_header :: "pkt_layout \<Rightarrow> u8 list \<Rightarrow> u8 \<Rightarrow> u16 \<Rightarrow> u16 \<Rightarrow> u8 list option" where
  "fill_header L pkt reply cmd num = do {
     p1 \<leftarrow> wr_n pkt (off_reply L) [reply];
     p2 \<leftarrow> wr_n p1 (off_ver L) [1];
     p3 \<leftarrow> wr_n p2 (off_cmd L) (to_be 2 cmd);
     wr_n p3 (off_num L) (to_be 2 num)}"

text \<open>The type and length around the entries and the length in the header.\<close>

definition close_packet :: "pkt_layout \<Rightarrow> u8 list \<Rightarrow> u16 \<Rightarrow> u16 \<Rightarrow> (u32 \<times> u8 list) option" where
  "close_packet L pkt ty payload_len = do {
     p1 \<leftarrow> wr_n pkt (hd_size L) (to_be 2 ty);
     p2 \<leftarrow> wr_n p1 (hd_size L + 2) (to_be 2 payload_len);
     let n = (ucast payload_len + 4 + of_nat (hd_size L) :: u32);
     p3 \<leftarrow> wr_n p2 (off_len L) (to_be 2 (ucast n :: u16));
     Some (n, p3)}"

definition chars :: "string \<Rightarrow> u8 list" where
  "chars s = map of_char s"

definition vpu_fill_regsguard_packet ::
  "pkt_layout \<Rightarrow> u32 \<Rightarrow> conf_vars \<Rightarrow> u8 list \<Rightarrow> u16 \<Rightarrow> (u32 \<times> u8 list) option" where
  "vpu_fill_regsguard_packet L pid s pkt num = do {
     p0 \<leftarrow> fill_header L pkt 0 16 num;
     let payload = hd_size L + 4;
     (n1, p1) \<leftarrow> vpu_fill_info p0 payload (to_be 4 pid) 4 2;
     (n2, p2) \<leftarrow> vpu_fill_info p1 (payload + unat n1) (to_be 4 (ucast (sn (vpu_conf s)) :: u32)) 4 3;
     (n3, p3) \<leftarrow> vpu_fill_info p2 (payload + unat (n1 + n2)) (to_be 4 (vpu_id s)) 4 4;
     (n4, p4) \<leftarrow> vpu_fill_info p3 (payload + unat (n1 + n2 + n3)) (chars (server_ip s)) (of_nat (length (server_ip s))) 5;
     close_packet L p4 1 (n1 + n2 + n3 + n4)}"

definition get_status :: u8 where
  "get_status = 1"

definition vpu_fill_alive_packet :: "pkt_layout \<Rightarrow> u8 list \<Rightarrow> u16 \<Rightarrow> (u32 \<times> u8 list) option" where
  "vpu_fill_alive_packet L pkt num = do {
     p0 \<leftarrow> fill_header L pkt 0 5 num;
     (n1, p1) \<leftarrow> vpu_fill_info p0 (hd_size L + 4) (to_be 2 (ucast get_status :: u16)) 2 1;
     close_packet L p1 4 n1}"

definition vpu_fill_regma_packet :: "pkt_layout \<Rightarrow> u32 \<Rightarrow> conf_vars \<Rightarrow> u8 list \<Rightarrow> u16 \<Rightarrow> (u32 \<times> u8 list) option" where
  "vpu_fill_regma_packet L pid s pkt num = do {
     p0 \<leftarrow> fill_header L pkt 0 16 num;
     let payload = hd_size L + 4;
     (n1, p1) \<leftarrow> vpu_fill_info p0 payload (to_be 4 pid) 4 1;
     (n2, p2) \<leftarrow> vpu_fill_info p1 (payload + unat n1) (to_be 4 (ucast (sn (vpu_conf s)) :: u32)) 4 2;
     close_packet L p2 2 (n1 + n2)}"

text \<open>The memory image of \<open>all_count_t\<close>, each counter in network order.\<close>

definition total_count :: "counters \<Rightarrow> u8 list" where
  "total_count c = concat (map (\<lambda>v. to_be 8 (atomic64_read v))
     [all_pkts c, lost_pkts c, voice_pkts c, other_pkts c, call_start c, call_end c, call_timeout c, file_ok c, file_fail c,
      fax_lost c, fax_enqueue c, fax_dequeue c, fax_yes c, fax_no c])"

text \<open>The bytes given to \<open>write\<close>; the buffer starts with whatever the stack holds.\<close>

definition ma_cmd_get_counter :: "pkt_layout \<Rightarrow> counters \<Rightarrow> u64 \<Rightarrow> u8 list \<Rightarrow> u16 \<Rightarrow> u8 list option" where
  "ma_cmd_get_counter L c now stack num = do {
     p0 \<leftarrow> fill_header L stack 1 19 num;
     let pkt_len0 = (of_nat (hd_size L) :: u16);
     (n1, p1) \<leftarrow> vpu_fill_info p0 (hd_size L) (to_be 2 (1 :: u16)) 2 2;
     let pkt_len1 = pkt_len0 + n1;
     (n2, p2) \<leftarrow> vpu_fill_info p1 (hd_size L + unat n1) (to_be 8 now) 8 1000;
     let pkt_len2 = pkt_len1 + n2;
     (n3, p3) \<leftarrow> vpu_fill_info p2 (hd_size L + unat n1 + unat n2) (total_count c) 112 3;
     let pkt_len3 = pkt_len2 + n3;
     p4 \<leftarrow> wr_n p3 (off_len L) (to_be 2 pkt_len3);
     rd_n p4 0 (unat pkt_len3)}"

subsection \<open>Commands of the agent\<close>

text \<open>
  A command is read in place: \<open>buf\<close> is the whole buffer of the thread, \<open>d\<close> the position of the \<open>data\<close>
  pointer and \<open>left\<close> the number of bytes the code still expects.
\<close>

definition c_string :: "u8 list \<Rightarrow> string" where
  "c_string bs = map (\<lambda>b. char_of (unat b)) (takeWhile (\<lambda>b. b \<noteq> 0) bs)"

text \<open>The file a name stands for is reloaded; the directories made by it are left out.\<close>

definition reload_file :: "conf_env \<Rightarrow> (string \<Rightarrow> yaml_event list option) \<Rightarrow> u8 list \<Rightarrow> conf_vars \<Rightarrow> conf_vars conf_run option" where
  "reload_file env files filename s =
     (let name = Some (c_string filename) in
      if take 8 filename = chars ''svm.yaml'' then reload_svm_conf env files name s
      else if take 8 filename = chars ''dms.yaml'' then reload_dms_conf files name s
      else if take 8 filename = chars ''vpu.yaml'' then
        map_option (case_conf_run (\<lambda>r (s', made). Cont r s') Exit) (reload_vpu_conf env files name s)
      else Some (Cont 0 s))"

function ma_reload_loop ::
  "(u8 list \<Rightarrow> conf_vars \<Rightarrow> conf_vars conf_run option) \<Rightarrow> u8 list \<Rightarrow> nat \<Rightarrow> u32 \<Rightarrow> conf_vars \<Rightarrow> conf_vars conf_run option" where
  "ma_reload_loop reload buf d left s =
     (if left < 4 then Some (Cont 0 s)
      else do {
        ty \<leftarrow> rd_be16 buf d;
        len \<leftarrow> rd_be16 buf (d + 2);
        if left - 4 < ucast len \<or> 255 < len \<or> len \<le> 8 then Some (Cont (-1) s)
        else if ty = 1 then do {
          filename \<leftarrow> rd_n buf (d + 4) (unat len);
          if len = 255 then None
          else do {
            r \<leftarrow> reload filename s;
            (case r of
               Exit c \<Rightarrow> Some (Exit c)
             | Cont _ s' \<Rightarrow> ma_reload_loop reload buf (d + 4 + unat len) (left - 4 + ucast len) s')}}
        else Some (Cont (-1) s)})"
  by pat_completeness auto

termination
  by (relation "measure (\<lambda>(reload, buf, d, left, s). length buf - d)")
     (auto simp: rd_be16_def rd_n_eq_Some)

definition ma_cmd_reload ::
  "(u8 list \<Rightarrow> conf_vars \<Rightarrow> conf_vars conf_run option) \<Rightarrow> u8 list \<Rightarrow> nat \<Rightarrow> u32 \<Rightarrow> conf_vars \<Rightarrow> conf_vars conf_run option" where
  "ma_cmd_reload reload buf d data_len s = (if data_len = 0 then Some (Cont 0 s) else ma_reload_loop reload buf d data_len s)"

text \<open>The entries inside a status: a return code, or the status and the id read.\<close>

function status_entries ::
  "u8 list \<Rightarrow> nat \<Rightarrow> u32 \<Rightarrow> u32 \<Rightarrow> u32 \<Rightarrow> (int + u32 \<times> u32) option" where
  "status_entries buf sub_data sub_left status fax_id =
     (if sub_left < 4 then Some (Inr (status, fax_id))
      else do {
        ty \<leftarrow> rd_be16 buf sub_data;
        len \<leftarrow> rd_be16 buf (sub_data + 2);
        let p = sub_data + 4;
        if sub_left - 4 < ucast len then Some (Inl (-1))
        else if ty = 1 \<and> len = 4 then do {
          v \<leftarrow> rd_be32 buf p;
          status_entries buf (p + unat len) (sub_left - 4 - ucast len) v fax_id}
        else if ty = 2 then status_entries buf (p + unat len) (sub_left - 4 - ucast len) status fax_id
        else if ty = 3 then do {
          m \<leftarrow> rd_n buf p 3;
          if m \<noteq> chars ''fpu'' then Some (Inl (-2))
          else status_entries buf (p + unat len) (sub_left - 4 - ucast len) status fax_id}
        else if ty = 4 \<and> len = 4 then do {
          v \<leftarrow> rd_be32 buf p;
          status_entries buf (p + unat len) (sub_left - 4 - ucast len) status v}
        else Some (Inl 0)})"
  by pat_completeness auto

termination
  by (relation "measure (\<lambda>(buf, d, left, status, fax_id). length buf - d)")
     (auto simp: rd_be16_def rd_n_eq_Some)

function status_loop ::
  "u8 list \<Rightarrow> nat \<Rightarrow> u32 \<Rightarrow> bool \<Rightarrow> u32 \<Rightarrow> u32 \<Rightarrow> conf_vars \<Rightarrow> (int \<times> conf_vars) option" where
  "status_loop buf d left vpu_flag status fax_id s =
     (if left < 4 then Some (0, s)
      else do {
        ty \<leftarrow> rd_be16 buf d;
        len \<leftarrow> rd_be16 buf (d + 2);
        if left - 4 < ucast len then Some (-1, s)
        else if ty = 1 then do {
          m \<leftarrow> rd_n buf (d + 4) 3;
          if m \<noteq> chars ''vpu'' then Some (-2, s)
          else status_loop buf (d + 4 + unat len) (left - 4 + ucast len) True status fax_id s}
        else if ty = 2 \<and> vpu_flag then do {
          r \<leftarrow> status_entries buf (d + 4) (ucast len) status fax_id;
          (case r of
             Inl ret \<Rightarrow> Some (ret, s)
           | Inr (status', fax_id') \<Rightarrow> do {
               (_, s') \<leftarrow> change_fax_status fax_id' status' s;
               status_loop buf (d + 4 + unat len) (left - 4 + ucast len) vpu_flag status' fax_id' s'})}
        else Some (-1, s)})"
  by pat_completeness auto

termination
  by (relation "measure (\<lambda>(buf, d, left, vpu_flag, status, fax_id, s). length buf - d)")
     (auto simp: rd_be16_def rd_n_eq_Some)

definition ma_cmd_software_status :: "u8 list \<Rightarrow> nat \<Rightarrow> u32 \<Rightarrow> conf_vars \<Rightarrow> (int \<times> conf_vars) option" where
  "ma_cmd_software_status buf d data_len s = (if data_len < 4 then Some (0, s) else status_loop buf d data_len False 0 0 s)"

subsection \<open>The parser of the agent's commands\<close>

datatype ma_event =
    Ma_write "u8 list" | Ma_send "u8 list" | Debug_on | Debug_off | Set_level u32 | Set_mask u32 | Unknown_cmd u16

text \<open>
  The code outside the file: what the reloads read, the counters and the time, the packets of the log library and of
  the counter table for a command number, and the values it finds in the data of a command, which it
  stores to a variable that keeps its value when there is none.
\<close>

record ma_ext =
  mx_env :: conf_env
  mx_files :: "string \<Rightarrow> yaml_event list option"
  mx_counters :: counters
  mx_now :: u64
  mx_stack :: "u8 list"
  mx_count_info :: "u16 \<Rightarrow> u8 list"
  mx_level_packet :: "u16 \<Rightarrow> u8 list"
  mx_mask_packet :: "u16 \<Rightarrow> u8 list"
  mx_level :: "u8 list \<Rightarrow> u32 \<Rightarrow> u32 \<Rightarrow> u32"
  mx_mask :: "u8 list \<Rightarrow> u32 \<Rightarrow> u32 \<Rightarrow> u32"

record ma_state =
  ms_buf :: "u8 list"
  ms_conf :: conf_vars
  ms_v :: u32
  ms_log :: "ma_event list"

definition ms_add :: "ma_event list \<Rightarrow> ma_state \<Rightarrow> ma_state" where
  "ms_add es st = st\<lparr>ms_log := ms_log st @ es\<rparr>"

text \<open>One command. The mask is shown without a \<open>break\<close>, so that command is also an unknown one.\<close>

definition ma_dispatch :: "pkt_layout \<Rightarrow> ma_ext \<Rightarrow> u16 \<Rightarrow> nat \<Rightarrow> u32 \<Rightarrow> u16 \<Rightarrow> ma_state \<Rightarrow> ma_state conf_run option" where
  "ma_dispatch L x cmd d data_len num st =
     (if cmd = 23 then do {
        r \<leftarrow> ma_cmd_reload (reload_file (mx_env x) (mx_files x)) (ms_buf st) d data_len (ms_conf st);
        Some (case r of Cont c s \<Rightarrow> Cont 0 (st\<lparr>ms_conf := s\<rparr>) | Exit c \<Rightarrow> Exit c)}
      else if cmd = 19 then do {
        p \<leftarrow> ma_cmd_get_counter L (mx_counters x) (mx_now x) (mx_stack x) num;
        Some (Cont 0 (ms_add [Ma_write p] st))}
      else if cmd = 39 then Some (Cont 0 (ms_add [Ma_send (mx_count_info x num)] st))
      else if cmd = 14 then do {
        (_, s) \<leftarrow> ma_cmd_software_status (ms_buf st) d data_len (ms_conf st);
        Some (Cont 0 (st\<lparr>ms_conf := s\<rparr>))}
      else if cmd = 30 then Some (Cont 0 (ms_add [Debug_on] st))
      else if cmd = 31 then Some (Cont 0 (ms_add [Debug_off] st))
      else if cmd = 32 then
        (let v = mx_level x (drop d (ms_buf st)) data_len (ms_v st) in Some (Cont 0 (ms_add [Set_level v] (st\<lparr>ms_v := v\<rparr>))))
      else if cmd = 34 then
        (let v = mx_mask x (drop d (ms_buf st)) data_len (ms_v st) in Some (Cont 0 (ms_add [Set_mask v] (st\<lparr>ms_v := v\<rparr>))))
      else if cmd = 33 then Some (Cont 0 (ms_add [Ma_send (mx_level_packet x num)] st))
      else if cmd = 35 then Some (Cont 0 (ms_add [Ma_send (mx_mask_packet x num), Unknown_cmd cmd] st))
      else Some (Cont 0 (ms_add [Unknown_cmd cmd] st)))"

text \<open>
  The loop: the header at \<open>left\<close> is read, its number is turned into host order in place, and the length of
  the data moves both the pointer and the count, the latter modulo \<open>2 ^ 32\<close>.
\<close>

fun ma_loop :: "pkt_layout \<Rightarrow> ma_ext \<Rightarrow> nat \<Rightarrow> nat \<Rightarrow> u32 \<Rightarrow> ma_state \<Rightarrow> ma_state conf_run loop_result" where
  "ma_loop L x 0 left left_len st = Running"
| "ma_loop L x (Suc k) left left_len st =
     (if left_len < of_nat (hd_size L) then Returned (Cont 0 st)
      else (case do {
          len \<leftarrow> rd_be16 (ms_buf st) (left + off_len L);
          let data_len = (ucast len :: u32) - of_nat (hd_size L);
          num \<leftarrow> rd_be16 (ms_buf st) (left + off_num L);
          buf' \<leftarrow> wr_n (ms_buf st) (left + off_num L) (to_le 2 num);
          cmd \<leftarrow> rd_be16 buf' (left + off_cmd L);
          r \<leftarrow> ma_dispatch L x cmd (left + hd_size L) data_len num (st\<lparr>ms_buf := buf'\<rparr>);
          Some (data_len, r)} of
          None \<Rightarrow> Undefined
        | Some (data_len, Exit c) \<Rightarrow> Returned (Exit c)
        | Some (data_len, Cont _ st') \<Rightarrow>
            ma_loop L x k (left + hd_size L + unat data_len) (left_len - of_nat (hd_size L) - data_len) st'))"

definition ma_cmd_parser :: "nat \<Rightarrow> pkt_layout \<Rightarrow> ma_ext \<Rightarrow> u32 \<Rightarrow> ma_state \<Rightarrow> ma_state conf_run loop_result" where
  "ma_cmd_parser n L x pkt_len st = ma_loop L x n 0 pkt_len st"

subsection \<open>The two threads\<close>

datatype conn_event = Conn_socket int | Conn_open int u16 | Conn_write int "u8 list" | Conn_close int

text \<open>
  What the calls of one turn return: the process id, the new socket or -1, \<open>inet_pton\<close> of an address, \<open>connect\<close> to
  an address and port, the number of bytes written, the result of \<open>select\<close>, and the bytes read or the value
  \<open>read\<close> returns instead.
\<close>

record conn_env =
  ce_pid :: u32
  ce_socket :: int
  ce_pton :: "string \<Rightarrow> int"
  ce_connect :: "string \<Rightarrow> u16 \<Rightarrow> int"
  ce_write :: "u8 list \<Rightarrow> int"
  ce_select :: int
  ce_read :: "int + u8 list"

record conn_state =
  cs_sock :: int
  cs_times :: u32
  cs_num :: u16
  cs_pkt :: "u8 list"
  cs_conf :: conf_vars
  cs_log :: "conn_event list"

text \<open>The socket, or -1 after it has been closed again, and the calls made.\<close>

definition connect_to :: "conn_env \<Rightarrow> string \<Rightarrow> u16 \<Rightarrow> int \<times> conn_event list" where
  "connect_to env ip port =
     (if ce_socket env = -1 then (-1, [])
      else if ce_pton env ip \<noteq> 1 then (-1, [Conn_socket (ce_socket env), Conn_close (ce_socket env)])
      else if ce_connect env ip port \<noteq> 0 then (-1, [Conn_socket (ce_socket env), Conn_close (ce_socket env)])
      else (ce_socket env, [Conn_socket (ce_socket env), Conn_open (ce_socket env) port]))"

definition connect2sguard :: "conn_env \<Rightarrow> conf_vars \<Rightarrow> int \<times> conn_event list" where
  "connect2sguard env s = connect_to env (ip_sguard (vpu_conf s)) (port_sguard (vpu_conf s))"

definition connect2ma :: "conn_env \<Rightarrow> conf_vars \<Rightarrow> int \<times> conn_event list" where
  "connect2ma env s = connect_to env (ip_ma (vpu_conf s)) (port_ma (vpu_conf s))"

definition cs_add :: "conn_event list \<Rightarrow> conn_state \<Rightarrow> conn_state" where
  "cs_add es s = s\<lparr>cs_log := cs_log s @ es\<rparr>"

definition cs_close :: "conn_state \<Rightarrow> conn_state" where
  "cs_close s = cs_add [Conn_close (cs_sock s)] (s\<lparr>cs_sock := -1\<rparr>)"

definition cs_failed :: "conn_state \<Rightarrow> conn_state" where
  "cs_failed s = s\<lparr>cs_sock := -1, cs_times := (if 60 \<le> cs_times s + 1 then 0 else cs_times s + 1)\<rparr>"

text \<open>The filled packet goes to the socket; the result is what \<open>write\<close> returns.\<close>

definition cs_send :: "conn_env \<Rightarrow> (u8 list \<Rightarrow> u16 \<Rightarrow> (u32 \<times> u8 list) option) \<Rightarrow> conn_state \<Rightarrow> (int \<times> conn_state) option" where
  "cs_send env filler s = do {
     (n, pkt) \<leftarrow> filler (cs_pkt s) (cs_num s);
     bs \<leftarrow> rd_n pkt 0 (unat n);
     Some (ce_write env bs, cs_add [Conn_write (cs_sock s) bs] (s\<lparr>cs_pkt := pkt, cs_num := cs_num s + 1\<rparr>))}"

definition sguard_alive :: "pkt_layout \<Rightarrow> conn_env \<Rightarrow> conn_state \<Rightarrow> conn_state option" where
  "sguard_alive L env s = do {
     (ret, s1) \<leftarrow> cs_send env (vpu_fill_alive_packet L) s;
     Some (if ret \<le> 0 then cs_close s1 else s1)}"

text \<open>One turn of the loop of \<open>conn_sguard\<close>, when the program goes on.\<close>

definition sguard_turn :: "pkt_layout \<Rightarrow> conn_env \<Rightarrow> conn_state \<Rightarrow> conn_state option" where
  "sguard_turn L env s =
     (let s1 = (if dms_sguard_reload (cs_conf s) = 1
                then (cs_close s)\<lparr>cs_conf := (cs_conf s)\<lparr>dms_sguard_reload := 0\<rparr>\<rparr> else s) in
      if cs_sock s1 = -1
      then (let (fd, es) = connect2sguard env (cs_conf s1) in
        if fd = -1 then Some (cs_failed (cs_add es s1))
        else do {
          (_, s2) \<leftarrow> cs_send env (vpu_fill_regsguard_packet L (ce_pid env) (cs_conf s1)) (cs_add es (s1\<lparr>cs_sock := fd\<rparr>));
          sguard_alive L env s2})
      else sguard_alive L env s1)"

definition conn_start :: "u8 list \<Rightarrow> u16 \<Rightarrow> conf_vars \<Rightarrow> conn_state" where
  "conn_start pkt num s = \<lparr>cs_sock = -1, cs_times = 0, cs_num = num, cs_pkt = pkt, cs_conf = s, cs_log = []\<rparr>"

text \<open>
  The thread from its start to its end: turns of the loop, before each of which another thread may change the
  configuration, and the last close. Without a port or a serial number it does not start.
\<close>

fun sguard_run :: "pkt_layout \<Rightarrow> (conn_env \<times> conf_vars) list \<Rightarrow> conn_state \<Rightarrow> conn_state option" where
  "sguard_run L [] s = Some s"
| "sguard_run L ((env, c) # es) s = do {s' \<leftarrow> sguard_turn L env (s\<lparr>cs_conf := c\<rparr>); sguard_run L es s'}"

definition conn_sguard :: "pkt_layout \<Rightarrow> (conn_env \<times> conf_vars) list \<Rightarrow> u8 list \<Rightarrow> u16 \<Rightarrow> conf_vars \<Rightarrow> conn_state option option" where
  "conn_sguard L es pkt num s =
     (if port_sguard (vpu_conf s) = 0 \<or> sn (vpu_conf s) = 0 then Some None
      else do {s' \<leftarrow> sguard_run L es (conn_start pkt num s); Some (Some (cs_close s'))})"

text \<open>The agent's commands, read into the buffer of the packets and parsed; \<open>x\<close> and \<open>v\<close> are the parser's.\<close>

definition ma_receive :: "nat \<Rightarrow> pkt_layout \<Rightarrow> ma_ext \<Rightarrow> u32 \<Rightarrow> conn_env \<Rightarrow> conn_state \<Rightarrow> (conn_state \<times> ma_event list) conf_run loop_result" where
  "ma_receive n L x v env s =
     (if ce_select env \<le> 0 then Returned (Cont 0 (s, []))
      else (case ce_read env of
          Inl ret \<Rightarrow> Returned (Cont 0 (cs_close s, []))
        | Inr [] \<Rightarrow> Returned (Cont 0 (cs_close s, []))
        | Inr bs \<Rightarrow>
            (case wr_n (cs_pkt s) 0 bs of
               None \<Rightarrow> Undefined
             | Some pkt \<Rightarrow>
                 (case ma_cmd_parser n L x (of_nat (length bs)) \<lparr>ms_buf = pkt, ms_conf = cs_conf s, ms_v = v, ms_log = []\<rparr> of
                    Returned (Cont _ st) \<Rightarrow> Returned (Cont 0 (s\<lparr>cs_pkt := ms_buf st, cs_conf := ms_conf st\<rparr>, ms_log st))
                  | Returned (Exit c) \<Rightarrow> Returned (Exit c)
                  | Undefined \<Rightarrow> Undefined
                  | Running \<Rightarrow> Running))))"

definition ma_turn :: "nat \<Rightarrow> pkt_layout \<Rightarrow> ma_ext \<Rightarrow> u32 \<Rightarrow> conn_env \<Rightarrow> conn_state \<Rightarrow> (conn_state \<times> ma_event list) conf_run loop_result" where
  "ma_turn n L x v env s =
     (let s1 = (if dms_ma_reload (cs_conf s) = 1
                then (cs_close s)\<lparr>cs_conf := (cs_conf s)\<lparr>dms_ma_reload := 0\<rparr>\<rparr> else s) in
      if cs_sock s1 = -1
      then (let (fd, es) = connect2ma env (cs_conf s1) in
        if fd = -1 then Returned (Cont 0 (cs_failed (cs_add es s1), []))
        else (case cs_send env (vpu_fill_regma_packet L (ce_pid env) (cs_conf s1)) (cs_add es (s1\<lparr>cs_sock := fd\<rparr>)) of
            None \<Rightarrow> Undefined
          | Some (_, s2) \<Rightarrow> ma_receive n L x v env s2))
      else ma_receive n L x v env s1)"

subsection \<open>The packets on the wire\<close>

text \<open>A write inside a buffer, as a function.\<close>

definition overlay :: "nat \<Rightarrow> 'a list \<Rightarrow> 'a list \<Rightarrow> 'a list" where
  "overlay off xs b = take off b @ xs @ drop (off + length xs) b"

lemma wr_overlay: "off + length xs \<le> length b \<Longrightarrow> wr_n b off xs = Some (overlay off xs b)"
  by (simp add: wr_n_def overlay_def)

lemma length_overlay [simp]: "off + length xs \<le> length b \<Longrightarrow> length (overlay off xs b) = length b"
  by (simp add: overlay_def)

lemma overlay_overlay:
  assumes "off2 = off + length xs" "off2 + length ys \<le> length b"
  shows "overlay off2 ys (overlay off xs b) = overlay off (xs @ ys) b"
  using assms by (simp add: overlay_def add.assoc add.commute add.left_commute)

lemma rd_n_overlay_before:
  assumes "i + n \<le> off" "off + length xs \<le> length b"
  shows "rd_n (overlay off xs b) i n = rd_n b i n"
proof -
  have "take n (drop i (overlay off xs b)) = take n (drop i b)" using assms by (simp add: overlay_def drop_take)
  then show ?thesis using assms by (simp add: rd_n_def)
qed

lemma rd_n_overlay_after:
  assumes "off + length xs \<le> i" "off + length xs \<le> length b"
  shows "rd_n (overlay off xs b) i n = rd_n b i n"
proof -
  have "drop i (overlay off xs b) = drop i b" using assms by (simp add: overlay_def)
  then show ?thesis using assms by (simp add: rd_n_def)
qed

lemma rd_n_overlay_apart:
  assumes "apart (i, n) (off, length xs)" "off + length xs \<le> length b"
  shows "rd_n (overlay off xs b) i n = rd_n b i n"
  using assms rd_n_overlay_before[of i n off xs b] rd_n_overlay_after[of off xs i b n] by (auto simp: apart_def)

lemma rd_n_overlay_same: "off + length xs \<le> length b \<Longrightarrow> n = length xs \<Longrightarrow> rd_n (overlay off xs b) off n = Some xs"
  by (simp add: rd_n_def overlay_def)

lemma apart_sym: "apart a b \<Longrightarrow> apart b a"
  by (auto simp: apart_def)

text \<open>An entry: type, length and information.\<close>

definition tlv :: "u16 \<Rightarrow> u8 list \<Rightarrow> u8 list" where
  "tlv ty bs = to_be 2 ty @ to_be 2 (of_nat (length bs) :: u16) @ bs"

lemma length_tlv [simp]: "length (tlv ty bs) = 4 + length bs"
  by (simp add: tlv_def)

lemma vpu_fill_info_overlay:
  assumes "off + 4 + length bs \<le> length pkt" "length bs < 65532" "len = of_nat (length bs)"
  shows "vpu_fill_info pkt off bs len ty = Some (of_nat (4 + length bs), overlay off (tlv ty bs) pkt)"
proof -
  have "unat len = length bs" using assms(2,3) by (simp add: unat_of_nat16)
  then show ?thesis
    using assms by (simp add: vpu_fill_info_def wr_overlay overlay_overlay rd_n_whole tlv_def add.assoc)
qed

text \<open>A packet whose header has the given fields, and whose length is that of the header and the body.\<close>

definition header_is :: "pkt_layout \<Rightarrow> u8 list \<Rightarrow> u8 \<Rightarrow> u16 \<Rightarrow> u16 \<Rightarrow> bool" where
  "header_is L p reply cmd num \<longleftrightarrow> rd_n p (off_ver L) 1 = Some [1] \<and> rd_n p (off_reply L) 1 = Some [reply] \<and>
     rd_be16 p (off_cmd L) = Some cmd \<and> rd_be16 p (off_num L) = Some num"

definition message :: "pkt_layout \<Rightarrow> u8 list \<Rightarrow> u8 \<Rightarrow> u16 \<Rightarrow> u16 \<Rightarrow> u8 list \<Rightarrow> bool" where
  "message L p reply cmd num body \<longleftrightarrow> header_is L p reply cmd num \<and> length p = hd_size L + length body \<and>
     rd_be16 p (off_len L) = Some (of_nat (length p)) \<and> drop (hd_size L) p = body"

lemma layout_bounds:
  assumes "layout_ok L"
  shows "off_ver L + 1 \<le> hd_size L" "off_reply L + 1 \<le> hd_size L" "off_cmd L + 2 \<le> hd_size L" "off_num L + 2 \<le> hd_size L"
    "off_len L + 2 \<le> hd_size L" "hd_size L \<le> 64"
  using assms by (simp_all add: layout_ok_def layout_fields_def)

lemma layout_apart:
  assumes "layout_ok L"
  shows "apart (off_ver L, 1) (off_reply L, 1)" "apart (off_ver L, 1) (off_cmd L, 2)" "apart (off_ver L, 1) (off_num L, 2)"
    "apart (off_ver L, 1) (off_len L, 2)" "apart (off_reply L, 1) (off_cmd L, 2)" "apart (off_reply L, 1) (off_num L, 2)"
    "apart (off_reply L, 1) (off_len L, 2)" "apart (off_cmd L, 2) (off_num L, 2)" "apart (off_cmd L, 2) (off_len L, 2)"
    "apart (off_num L, 2) (off_len L, 2)"
  using assms by (simp_all add: layout_ok_def layout_fields_def)

lemma fill_header_is:
  assumes L: "layout_ok L" and len: "hd_size L \<le> length pkt"
  obtains p where "fill_header L pkt reply cmd num = Some p" "length p = length pkt" "header_is L p reply cmd num"
proof -
  note b = layout_bounds[OF L] and a = layout_apart[OF L]
  let ?p = "overlay (off_num L) (to_be 2 num) (overlay (off_cmd L) (to_be 2 cmd)
     (overlay (off_ver L) [1] (overlay (off_reply L) [reply] pkt)))"
  have "fill_header L pkt reply cmd num = Some ?p"
    using b len by (simp add: fill_header_def wr_overlay)
  moreover have "length ?p = length pkt" using b len by simp
  moreover have "header_is L ?p reply cmd num"
    using b len a a[THEN apart_sym]
    by (simp add: header_is_def rd_be16_def rd_n_overlay_apart rd_n_overlay_same be_roundtrip)
  ultimately show ?thesis by (rule that)
qed

lemma header_is_overlay:
  assumes "layout_ok L" "header_is L p reply cmd num" "hd_size L \<le> off" "off + length bs \<le> length p"
  shows "header_is L (overlay off bs p) reply cmd num"
  using assms layout_bounds[OF assms(1)] by (simp add: header_is_def rd_be16_def rd_n_overlay_before)

text \<open>The length is written to the header of a packet with a body.\<close>

lemma finish_message:
  assumes L: "layout_ok L" and h: "header_is L p reply cmd num" and n: "n = hd_size L + length body"
    and len: "n \<le> length p"
  shows "message L (take n (overlay (off_len L) (to_be 2 (of_nat n :: u16)) (overlay (hd_size L) body p))) reply cmd num body"
proof -
  note b = layout_bounds[OF L] and a = layout_apart[OF L]
  let ?q = "overlay (hd_size L) body p"
  let ?r = "overlay (off_len L) (to_be 2 (of_nat n :: u16)) ?q"
  have q: "length ?q = length p" "header_is L ?q reply cmd num"
    using header_is_overlay[OF L h, of "hd_size L" body] n len by simp_all
  have r: "length ?r = length p" using q(1) b n len by simp
  have rd: "rd_n (take n ?r) i k = rd_n ?r i k" if "i + k \<le> hd_size L" for i k
    using that n len r by (simp add: rd_n_def drop_take min_def)
  have l: "off_len L + length (to_be 2 (of_nat n :: u16)) \<le> length ?q" using q(1) b n len by simp
  have "header_is L (take n ?r) reply cmd num"
    using q(2) b a l unfolding header_is_def rd_be16_def
    by (simp add: rd rd_n_overlay_apart del: One_nat_def length_overlay)
  moreover have "rd_be16 (take n ?r) (off_len L) = Some (of_nat n)"
    using b l by (simp add: rd_be16_def rd rd_n_overlay_same be_roundtrip del: length_overlay)
  moreover have "drop (hd_size L) (take n ?r) = body"
    using b n len q(1) by (simp add: overlay_def drop_take)
  ultimately show ?thesis using r n len by (simp add: message_def)
qed

lemma close_packet_message:
  assumes L: "layout_ok L" and h: "header_is L p reply cmd num" and len: "hd_size L + 4 + length body \<le> length p"
    and small: "length body < 60000" and pl: "payload_len = of_nat (length body)"
  shows "\<exists>n p'. close_packet L (overlay (hd_size L + 4) body p) ty payload_len = Some (n, p') \<and> length p' = length p \<and> unat n \<le> length p \<and>
    message L (take (unat n) p') reply cmd num (tlv ty body)"
proof -
  note b = layout_bounds[OF L]
  let ?n = "hd_size L + length (tlv ty body)"
  let ?k = "ucast payload_len + 4 + of_nat (hd_size L) :: u32"
  have u: "unat payload_len = length body" using small pl by (simp add: unat_of_nat16)
  have "(ucast payload_len :: u32) = of_nat (unat payload_len)" by simp
  then have k: "?k = of_nat ?n" by (simp add: u)
  have "unat (of_nat ?n :: u32) = ?n" using b(6) small by (intro unat_of_nat32) simp
  moreover have uc: "ucast (of_nat ?n :: u32) = (of_nat ?n :: u16)" using ucast16_of_int[of "int ?n"] by simp
  moreover have s: "overlay (hd_size L + 2) (to_be 2 payload_len) (overlay (hd_size L) (to_be 2 ty) (overlay (hd_size L + 4) body p))
      = overlay (hd_size L) (tlv ty body) p"
    using len by (simp add: overlay_def tlv_def pl drop_take numeral_eq_Suc)
  ultimately show ?thesis
    using len finish_message[OF L h, of ?n "tlv ty body"] b
    by (intro exI[of _ "of_nat ?n"] exI[of _ "overlay (off_len L) (to_be 2 (of_nat ?n :: u16)) (overlay (hd_size L) (tlv ty body) p)"])
      (simp_all add: close_packet_def wr_overlay Let_def k)
qed

lemma chars_length [simp]: "length (chars s) = length s"
  by (simp add: chars_def)

lemma regsguard_message:
  assumes L: "layout_ok L" and len: "length pkt = 2048" and ip: "length (server_ip s) < 16"
  shows "\<exists>n p. vpu_fill_regsguard_packet L pid s pkt num = Some (n, p) \<and> length p = 2048 \<and> unat n \<le> 2048 \<and>
     message L (take (unat n) p) 0 16 num (tlv 1 (tlv 2 (to_be 4 pid) @ tlv 3 (to_be 4 (ucast (sn (vpu_conf s)) :: u32)) @
       tlv 4 (to_be 4 (vpu_id s)) @ tlv 5 (chars (server_ip s))))"
proof -
  have hd: "hd_size L \<le> 64" using layout_bounds[OF L] by simp
  obtain p0 where p0: "fill_header L pkt 0 16 num = Some p0" "length p0 = 2048" "header_is L p0 0 16 num"
    using fill_header_is[OF L, of pkt 0 16 num] hd len by auto
  define b1 b2 b3 b4 where b: "b1 = tlv 2 (to_be 4 pid)" "b2 = tlv 3 (to_be 4 (ucast (sn (vpu_conf s)) :: u32))"
    "b3 = tlv 4 (to_be 4 (vpu_id s))" "b4 = tlv 5 (chars (server_ip s))"
  have lb: "length b1 = 8" "length b2 = 8" "length b3 = 8" "length b4 = 4 + length (server_ip s)" by (simp_all add: b)
  let ?d = "hd_size L + 4" and ?n4 = "of_nat (4 + length (server_ip s)) :: u16"
  have f1: "vpu_fill_info p0 ?d (to_be 4 pid) 4 2 = Some (8, overlay ?d b1 p0)"
    using vpu_fill_info_overlay[of ?d "to_be 4 pid" p0 4 2] hd p0(2) by (simp add: b)
  have f2: "vpu_fill_info (overlay ?d b1 p0) (?d + 8) (to_be 4 (ucast (sn (vpu_conf s)) :: u32)) 4 3 = Some (8, overlay ?d (b1 @ b2) p0)"
    using vpu_fill_info_overlay[of "?d + 8" "to_be 4 (ucast (sn (vpu_conf s)) :: u32)" "overlay ?d b1 p0" 4 3]
      overlay_overlay[of "?d + 8" ?d b1 b2 p0] hd p0(2) lb by (simp add: b(2))
  have f3: "vpu_fill_info (overlay ?d (b1 @ b2) p0) (?d + 16) (to_be 4 (vpu_id s)) 4 4 = Some (8, overlay ?d (b1 @ b2 @ b3) p0)"
    using vpu_fill_info_overlay[of "?d + 16" "to_be 4 (vpu_id s)" "overlay ?d (b1 @ b2) p0" 4 4]
      overlay_overlay[of "?d + 16" ?d "b1 @ b2" b3 p0] hd p0(2) lb by (simp add: b(3))
  have f4: "vpu_fill_info (overlay ?d (b1 @ b2 @ b3) p0) (?d + 24) (chars (server_ip s)) (of_nat (length (server_ip s))) 5 =
      Some (?n4, overlay ?d (b1 @ b2 @ b3 @ b4) p0)"
    using vpu_fill_info_overlay[of "?d + 24" "chars (server_ip s)" "overlay ?d (b1 @ b2 @ b3) p0" "of_nat (length (server_ip s))" 5]
      overlay_overlay[of "?d + 24" ?d "b1 @ b2 @ b3" b4 p0] hd p0(2) lb ip by (simp add: b(4))
  let ?body = "b1 @ b2 @ b3 @ b4"
  have n: "(8 + 8 + 8 + ?n4 :: u16) = of_nat (length ?body)" by (simp add: lb)
  have "\<exists>n p. close_packet L (overlay ?d ?body p0) 1 (8 + 8 + 8 + ?n4) = Some (n, p) \<and> length p = length p0 \<and> unat n \<le> length p0 \<and>
      message L (take (unat n) p) 0 16 num (tlv 1 ?body)"
    by (rule close_packet_message[OF L p0(3) _ _ n]) (use lb hd p0(2) ip in simp_all)
  then obtain n p where p: "close_packet L (overlay ?d ?body p0) 1 (8 + 8 + 8 + ?n4) = Some (n, p)" "length p = length p0" "unat n \<le> length p0"
    "message L (take (unat n) p) 0 16 num (tlv 1 ?body)" by blast
  have u: "unat (8 :: u16) = 8" "unat (8 + 8 :: u16) = 16" "unat (8 + 8 + 8 :: u16) = 24" by simp_all
  have "vpu_fill_regsguard_packet L pid s pkt num = Some (n, p)"
    using p(1) by (simp only: vpu_fill_regsguard_packet_def p0(1) Let_def f1 bind.bind_lunit prod.case u f2 f3 f4)
  then show ?thesis using p p0(2) by (auto simp: b)
qed

lemma regma_message:
  assumes L: "layout_ok L" and len: "length pkt = 2048"
  shows "\<exists>n p. vpu_fill_regma_packet L pid s pkt num = Some (n, p) \<and> length p = 2048 \<and> unat n \<le> 2048 \<and>
     message L (take (unat n) p) 0 16 num (tlv 2 (tlv 1 (to_be 4 pid) @ tlv 2 (to_be 4 (ucast (sn (vpu_conf s)) :: u32))))"
proof -
  have hd: "hd_size L \<le> 64" using layout_bounds[OF L] by simp
  obtain p0 where p0: "fill_header L pkt 0 16 num = Some p0" "length p0 = 2048" "header_is L p0 0 16 num"
    using fill_header_is[OF L, of pkt 0 16 num] hd len by auto
  define b1 b2 where b: "b1 = tlv 1 (to_be 4 pid)" "b2 = tlv 2 (to_be 4 (ucast (sn (vpu_conf s)) :: u32))"
  have lb: "length b1 = 8" "length b2 = 8" by (simp_all add: b)
  let ?d = "hd_size L + 4"
  have f1: "vpu_fill_info p0 ?d (to_be 4 pid) 4 1 = Some (8, overlay ?d b1 p0)"
    using vpu_fill_info_overlay[of ?d "to_be 4 pid" p0 4 1] hd p0(2) by (simp add: b)
  have f2: "vpu_fill_info (overlay ?d b1 p0) (?d + 8) (to_be 4 (ucast (sn (vpu_conf s)) :: u32)) 4 2 = Some (8, overlay ?d (b1 @ b2) p0)"
    using vpu_fill_info_overlay[of "?d + 8" "to_be 4 (ucast (sn (vpu_conf s)) :: u32)" "overlay ?d b1 p0" 4 2]
      overlay_overlay[of "?d + 8" ?d b1 b2 p0] hd p0(2) lb by (simp add: b(2))
  have n: "(8 + 8 :: u16) = of_nat (length (b1 @ b2))" by (simp add: lb)
  have "\<exists>n p. close_packet L (overlay ?d (b1 @ b2) p0) 2 (8 + 8) = Some (n, p) \<and> length p = length p0 \<and> unat n \<le> length p0 \<and>
      message L (take (unat n) p) 0 16 num (tlv 2 (b1 @ b2))"
    by (rule close_packet_message[OF L p0(3) _ _ n]) (use lb hd p0(2) in simp_all)
  then obtain n p where p: "close_packet L (overlay ?d (b1 @ b2) p0) 2 (8 + 8) = Some (n, p)" "length p = length p0" "unat n \<le> length p0"
    "message L (take (unat n) p) 0 16 num (tlv 2 (b1 @ b2))" by blast
  have u: "unat (8 :: u16) = 8" by simp
  have "vpu_fill_regma_packet L pid s pkt num = Some (n, p)"
    using p(1) by (simp only: vpu_fill_regma_packet_def p0(1) Let_def f1 bind.bind_lunit prod.case u f2)
  then show ?thesis using p p0(2) by (auto simp: b)
qed

lemma alive_message:
  assumes L: "layout_ok L" and len: "length pkt = 2048"
  shows "\<exists>n p. vpu_fill_alive_packet L pkt num = Some (n, p) \<and> length p = 2048 \<and> unat n \<le> 2048 \<and>
     message L (take (unat n) p) 0 5 num (tlv 4 (tlv 1 (to_be 2 (1 :: u16))))"
proof -
  have hd: "hd_size L \<le> 64" using layout_bounds[OF L] by simp
  obtain p0 where p0: "fill_header L pkt 0 5 num = Some p0" "length p0 = 2048" "header_is L p0 0 5 num"
    using fill_header_is[OF L, of pkt 0 5 num] hd len by auto
  let ?d = "hd_size L + 4" and ?b = "tlv 1 (to_be 2 (1 :: u16))"
  have f1: "vpu_fill_info p0 ?d (to_be 2 (ucast get_status :: u16)) 2 1 = Some (6, overlay ?d ?b p0)"
    using vpu_fill_info_overlay[of ?d "to_be 2 (1 :: u16)" p0 2 1] hd p0(2) by (simp add: get_status_def)
  have n: "(6 :: u16) = of_nat (length ?b)" by simp
  have "\<exists>n p. close_packet L (overlay ?d ?b p0) 4 6 = Some (n, p) \<and> length p = length p0 \<and> unat n \<le> length p0 \<and>
      message L (take (unat n) p) 0 5 num (tlv 4 ?b)"
    by (rule close_packet_message[OF L p0(3) _ _ n]) (use hd p0(2) in simp_all)
  then obtain n p where p: "close_packet L (overlay ?d ?b p0) 4 6 = Some (n, p)" "length p = length p0" "unat n \<le> length p0"
    "message L (take (unat n) p) 0 5 num (tlv 4 ?b)" by blast
  have "vpu_fill_alive_packet L pkt num = Some (n, p)"
    using p(1) by (simp only: vpu_fill_alive_packet_def p0(1) f1 bind.bind_lunit prod.case)
  then show ?thesis using p p0(2) by auto
qed

lemma length_total_count [simp]: "length (total_count c) = 112"
  by (simp add: total_count_def)

lemma counter_message:
  assumes L: "layout_ok L" and len: "length stack = 1500"
  shows "\<exists>p. ma_cmd_get_counter L c now stack num = Some p \<and>
     message L p 1 19 num (tlv 2 (to_be 2 (1 :: u16)) @ tlv 1000 (to_be 8 now) @ tlv 3 (total_count c))"
proof -
  have hd: "hd_size L \<le> 64" using layout_bounds[OF L] by simp
  note b = layout_bounds[OF L]
  obtain p0 where p0: "fill_header L stack 1 19 num = Some p0" "length p0 = 1500" "header_is L p0 1 19 num"
    using fill_header_is[OF L, of stack 1 19 num] hd len by auto
  define b1 b2 b3 where bs: "b1 = tlv 2 (to_be 2 (1 :: u16))" "b2 = tlv 1000 (to_be 8 now)" "b3 = tlv 3 (total_count c)"
  have lb: "length b1 = 6" "length b2 = 12" "length b3 = 116" by (simp_all add: bs)
  let ?d = "hd_size L" and ?body = "b1 @ b2 @ b3"
  have f1: "vpu_fill_info p0 ?d (to_be 2 (1 :: u16)) 2 2 = Some (6, overlay ?d b1 p0)"
    using vpu_fill_info_overlay[of ?d "to_be 2 (1 :: u16)" p0 2 2] hd p0(2) by (simp add: bs)
  have f2: "vpu_fill_info (overlay ?d b1 p0) (?d + 6) (to_be 8 now) 8 1000 = Some (12, overlay ?d (b1 @ b2) p0)"
    using vpu_fill_info_overlay[of "?d + 6" "to_be 8 now" "overlay ?d b1 p0" 8 1000]
      overlay_overlay[of "?d + 6" ?d b1 b2 p0] hd p0(2) lb by (simp add: bs(2))
  have f3: "vpu_fill_info (overlay ?d (b1 @ b2) p0) (?d + 6 + 12) (total_count c) 112 3 = Some (116, overlay ?d ?body p0)"
    using vpu_fill_info_overlay[of "?d + 18" "total_count c" "overlay ?d (b1 @ b2) p0" 112 3]
      overlay_overlay[of "?d + 18" ?d "b1 @ b2" b3 p0] hd p0(2) lb by (simp add: bs(3) add.assoc)
  let ?n = "hd_size L + length ?body"
  have k: "of_nat (hd_size L) + 6 + 12 + 116 = (of_nat ?n :: u16)" by (simp add: lb)
  have un: "unat (of_nat ?n :: u16) = ?n" using hd lb by (intro unat_of_nat16) simp
  have u: "unat (6 :: u16) = 6" "unat (12 :: u16) = 12" by simp_all
  let ?r = "overlay (off_len L) (to_be 2 (of_nat ?n :: u16)) (overlay ?d ?body p0)"
  have lr: "length (overlay ?d ?body p0) = 1500" "length ?r = 1500" using hd p0(2) lb b by simp_all
  have "ma_cmd_get_counter L c now stack num = Some (take ?n ?r)"
    using lr b hd lb
    by (simp only: ma_cmd_get_counter_def p0(1) Let_def f1 bind.bind_lunit prod.case u f2 f3 k un)
      (simp add: wr_overlay rd_n_def del: length_overlay of_nat_add of_nat_Suc)
  moreover have "message L (take ?n ?r) 1 19 num ?body"
    using finish_message[OF L p0(3) refl, of ?body] hd p0(2) lb by simp
  ultimately show ?thesis by (auto simp: bs)
qed

text \<open>
  C37. What the program tells the guard and the agent is what they read. For every layout of the header that fits its fields, the
  registrations, the sign of life and the reply with the counters are written without leaving their
  buffers, their header carries the command, the sequence number and the length of the whole message,
  and the body is the sequence of entries of the protocol: the process id, the serial number, the server id and
  its address, the status, and the counters in their order.
\<close>

theorem manager_packets:
  assumes "layout_ok L" and "length pkt = 2048" and "length stack = 1500" and "length (server_ip s) < 16"
  shows "(\<exists>n p. vpu_fill_regsguard_packet L pid s pkt num = Some (n, p) \<and> length p = 2048 \<and> unat n \<le> 2048 \<and>
       message L (take (unat n) p) 0 16 num (tlv 1 (tlv 2 (to_be 4 pid) @ tlv 3 (to_be 4 (ucast (sn (vpu_conf s)) :: u32)) @
         tlv 4 (to_be 4 (vpu_id s)) @ tlv 5 (chars (server_ip s))))) \<and>
    (\<exists>n p. vpu_fill_regma_packet L pid s pkt num = Some (n, p) \<and> length p = 2048 \<and> unat n \<le> 2048 \<and>
       message L (take (unat n) p) 0 16 num (tlv 2 (tlv 1 (to_be 4 pid) @ tlv 2 (to_be 4 (ucast (sn (vpu_conf s)) :: u32))))) \<and>
    (\<exists>n p. vpu_fill_alive_packet L pkt num = Some (n, p) \<and> length p = 2048 \<and> unat n \<le> 2048 \<and>
       message L (take (unat n) p) 0 5 num (tlv 4 (tlv 1 (to_be 2 (1 :: u16))))) \<and>
    (\<exists>p. ma_cmd_get_counter L c now stack num = Some p \<and>
       message L p 1 19 num (tlv 2 (to_be 2 (1 :: u16)) @ tlv 1000 (to_be 8 now) @ tlv 3 (total_count c)))"
  using regsguard_message[OF assms(1,2,4), of pid num] regma_message[OF assms(1,2), of pid s num]
    alive_message[OF assms(1,2), of num] counter_message[OF assms(1,3), of c now num]
  by (intro conjI)

text \<open>The layout of the commented declaration in \<open>conn_serv.h\<close>.\<close>

definition plain_layout :: pkt_layout where
  "plain_layout = \<lparr>hd_size = 8, off_ver = 0, off_reply = 1, off_cmd = 2, off_num = 4, off_len = 6\<rparr>"

lemma plain_layout_ok: "layout_ok plain_layout"
  by (simp add: layout_ok_def layout_fields_def plain_layout_def apart_def)

theorem manager_packets_witness:
  "\<exists>n p. vpu_fill_regma_packet plain_layout 77 start_vars (replicate 2048 0) 5 = Some (n, p) \<and>
     message plain_layout (take (unat n) p) 0 16 5 (tlv 2 (tlv 1 (to_be 4 (77 :: u32)) @ tlv 2 (to_be 4 (0 :: u32))))"
proof -
  have ip: "length (server_ip start_vars) < 16" "sn (vpu_conf start_vars) = 0" by (simp_all add: start_vars_def default_param_def)
  have "length (replicate 2048 (0 :: u8)) = 2048" "length (replicate 1500 (0 :: u8)) = 1500" by simp_all
  from manager_packets[OF plain_layout_ok this ip(1), of 77 5, THEN conjunct2, THEN conjunct1] show ?thesis using ip(2) by auto
qed

end
