(* ===== verification/Conn_Commands.thy ===== *)
theory Conn_Commands
  imports Conn_Serv
begin

text \<open>
  The commands of the management agent in \<open>Conn_Serv\<close>: what each does and how far it reads, and how the parser
  goes through a stream of them.
\<close>

subsection \<open>Commands read behind their end\<close>

lemmas [simp del] = ma_reload_loop.simps status_entries.simps status_loop.simps

lemma tlv_at:
  assumes "buf = pre @ tlv ty bs @ post" "length bs < 65536" "d = length pre"
  shows "rd_be16 buf d = Some ty" "rd_be16 buf (d + 2) = Some (of_nat (length bs))" "rd_n buf (d + 4) (length bs) = Some bs"
    "unat (of_nat (length bs) :: u16) = length bs"
proof -
  show "rd_be16 buf d = Some ty" using rd_be16_at[OF assms(3), of ty] assms(1) by (simp add: tlv_def)
  show "rd_be16 buf (d + 2) = Some (of_nat (length bs))"
    using rd_be16_at[of "d + 2" "pre @ to_be 2 ty" "of_nat (length bs)" "bs @ post"] assms by (simp add: tlv_def)
  show "rd_n buf (d + 4) (length bs) = Some bs"
    using rd_n_at[of "d + 4" "pre @ to_be 2 ty @ to_be 2 (of_nat (length bs) :: u16)" "length bs" bs post] assms by (simp add: tlv_def)
  show "unat (of_nat (length bs) :: u16) = length bs" using assms(2) by (rule unat_of_nat16)
qed

lemma u32_of_len:
  assumes "length (bs :: 'a list) < 65536"
  shows "(ucast (of_nat (length bs) :: u16) :: u32) = of_nat (length bs)" "unat (of_nat (length bs) :: u32) = length bs"
proof -
  have u: "unat (of_nat (length bs) :: u16) = length bs" using assms by (rule unat_of_nat16)
  have "(ucast (of_nat (length bs) :: u16) :: u32) = of_nat (unat (of_nat (length bs) :: u16))" by simp
  then show "(ucast (of_nat (length bs) :: u16) :: u32) = of_nat (length bs)" by (simp only: u)
  show "unat (of_nat (length bs) :: u32) = length bs" using assms by (intro unat_of_nat32) simp
qed

lemma unat_ucast32: "unat (ucast (w :: u16) :: u32) = unat w"
proof -
  have e: "(ucast w :: u32) = of_nat (unat w)" by simp
  have "unat w < 4294967296" using unsigned_less[of w, where ?'a = nat] by simp
  then show ?thesis unfolding e by (rule unat_of_nat32)
qed

lemma not_less_nat: "\<not> (of_nat a :: u32) < of_nat b" if "b \<le> a" "a < 4294967296"
  using that by (simp add: word_less_nat_alt unat_of_nat32)

text \<open>One entry with a file name is reloaded, and the loop goes on behind it with more bytes than before.\<close>

lemma reload_entry:
  assumes buf: "buf = pre @ tlv 1 name @ post" and len: "8 < length name" "length name < 255"
    and left: "4 + length name \<le> left" "left < 4294967296" and r: "reload name s = Some (Cont r s')"
  shows "ma_reload_loop reload buf (length pre) (of_nat left) s =
     ma_reload_loop reload buf (length pre + 4 + length name) (of_nat (left - 4 + length name)) s'"
proof -
  let ?l = "of_nat (length name) :: u16"
  have n: "length name < 65536" using len by simp
  note t = tlv_at[OF buf n refl] and u = u32_of_len[OF n]
  have l4: "(of_nat left :: u32) - 4 = of_nat (left - 4)" using left by (simp add: of_nat_diff)
  have a: "\<not> (of_nat left :: u32) < 4" using not_less_nat[of 4 left] left by simp
  have b: "\<not> (of_nat left :: u32) - 4 < ucast ?l" unfolding l4 u(1) using left by (intro not_less_nat) simp_all
  have c: "\<not> 255 < ?l" "\<not> ?l \<le> 8" "?l \<noteq> 255" using t(4) len by (auto simp: word_less_nat_alt word_le_nat_alt)
  have e: "(of_nat left :: u32) - 4 + ucast ?l = of_nat (left - 4 + length name)" unfolding l4 u(1) by simp
  show ?thesis
    by (subst ma_reload_loop.simps, subst if_not_P[OF a])
      (simp only: t bind.bind_lunit b c simp_thms if_False if_True r conf_run.case e)
qed

lemma reload_loop_short: "length buf < d + 4 \<Longrightarrow> \<not> left < 4 \<Longrightarrow> ma_reload_loop reload buf d left s = None"
  by (subst ma_reload_loop.simps) (auto simp: rd_be16_def rd_n_def)

lemma reload_loop_other:
  assumes "rd_be16 buf d = Some ty" "ty \<noteq> 1" "d + 4 \<le> length buf" "\<not> left < 4"
  shows "ma_reload_loop reload buf d left s = Some (Cont (-1) s)"
proof -
  have "\<exists>l. rd_be16 buf (d + 2) = Some l" using assms(3) by (simp add: rd_be16_def rd_n_def)
  then show ?thesis using assms by (subst ma_reload_loop.simps) auto
qed

text \<open>The count of bytes left never falls below 4, so the loop never ends by itself.\<close>

lemma reload_never_ends:
  assumes "4 \<le> unat left" "unat left + 255 * (length buf - d) < 2 ^ 32"
  shows "ma_reload_loop reload buf d left s \<noteq> Some (Cont 0 s')"
  using assms
proof (induction reload buf d left s rule: ma_reload_loop.induct)
  case (1 reload buf d left s)
  show ?case
  proof
    assume "ma_reload_loop reload buf d left s = Some (Cont 0 s')"
    moreover have n4: "\<not> left < 4" using 1(2) by (simp add: word_less_nat_alt)
    ultimately have "do {
        ty \<leftarrow> rd_be16 buf d;
        len \<leftarrow> rd_be16 buf (d + 2);
        if left - 4 < ucast len \<or> 255 < len \<or> len \<le> 8 then Some (Cont (-1) s)
        else if ty = 1 then do {
          filename \<leftarrow> rd_n buf (d + 4) (unat len);
          if len = 255 then None
          else do {
            r \<leftarrow> reload filename s;
            (case r of
               Exit c \<Rightarrow> Some (Exit c)
             | Cont _ s' \<Rightarrow> ma_reload_loop reload buf (d + 4 + unat len) (left - 4 + ucast len) s')}}
        else Some (Cont (-1) s)} = Some (Cont 0 s')"
      by (subst (asm) ma_reload_loop.simps) (simp only: if_False)
    then obtain len filename r1 s1 where x: "rd_be16 buf d = Some 1" "rd_be16 buf (d + 2) = Some len"
        "\<not> (left - 4 < ucast len \<or> 255 < len \<or> len \<le> 8)" "rd_n buf (d + 4) (unat len) = Some filename" "len \<noteq> 255"
        "reload filename s = Some (Cont r1 s1)"
        "ma_reload_loop reload buf (d + 4 + unat len) (left - 4 + ucast len) s1 = Some (Cont 0 s')"
      by (auto split: Option.bind_splits if_splits conf_run.splits)
    have ul: "unat len \<le> 255" "8 < unat len" using x(3) by (simp_all add: word_less_nat_alt word_le_nat_alt not_less not_le)
    have fit: "d + 4 + unat len \<le> length buf" using x(4) by (simp add: rd_n_eq_Some)
    have l4: "unat (left - 4) = unat left - 4" using 1(2) by (simp add: unat_sub word_le_nat_alt)
    have ulen: "unat (ucast len :: u32) = unat len" by (rule unat_ucast32)
    have "unat left + unat len < 2 ^ 32" using 1(3) fit ul by linarith
    then have sum: "unat (left - 4 + ucast len) = unat left - 4 + unat len"
      using l4 ulen by (subst unat_add_lem[THEN iffD1]) simp_all
    have "4 \<le> unat (left - 4 + ucast len)" using sum ul by simp
    moreover have "unat (left - 4 + ucast len) + 255 * (length buf - (d + 4 + unat len)) < 2 ^ 32"
      using sum ul fit 1(3) by (simp add: diff_mult_distrib2)
    ultimately show False using 1(1)[OF n4 x(1,2,3) refl x(4,5,6) refl] x(7) by blast
  qed
qed

text \<open>
  A reload command is carried out, and never finished. A command with one file name reloads that file once; then, because the
  number of bytes left is increased where it should be decreased, the parser goes on with whatever
  follows in the buffer: another entry there is carried out too although it is not part of the command, anything
  else is reported as an error, and at the end of the buffer the parser reads behind it. No command is ever
  reported as successful.
\<close>

theorem reload_overruns:
  assumes buf: "buf = pre @ tlv 1 name @ post" and len: "8 < length name" "length name < 255" "length buf \<le> 2048"
    and r: "reload name s = Some (Cont r s')"
  shows "(length post < 4 \<longrightarrow> ma_cmd_reload reload buf (length pre) (of_nat (4 + length name)) s = None) \<and>
    (\<forall>ty bs rest. post = tlv ty bs @ rest \<and> ty \<noteq> 1 \<longrightarrow>
       ma_cmd_reload reload buf (length pre) (of_nat (4 + length name)) s = Some (Cont (-1) s')) \<and>
    (\<forall>name2 rest r2 s2. post = tlv 1 name2 @ rest \<and> 8 < length name2 \<and> length name2 < 255 \<and> 4 + length name2 \<le> 2 * length name \<and>
       4 \<le> length rest \<and> rd_be16 rest 0 \<noteq> Some 1 \<and> reload name2 s' = Some (Cont r2 s2) \<longrightarrow>
       ma_cmd_reload reload buf (length pre) (of_nat (4 + length name)) s = Some (Cont (-1) s2)) \<and>
    (\<forall>t. ma_cmd_reload reload buf (length pre) (of_nat (4 + length name)) s \<noteq> Some (Cont 0 t))"
proof (intro conjI allI impI)
  let ?x = "ma_cmd_reload reload buf (length pre) (of_nat (4 + length name)) s"
  let ?d = "length pre + 4 + length name"
  have nz: "(of_nat (4 + length name) :: u32) \<noteq> 0"
  proof
    assume "(of_nat (4 + length name) :: u32) = 0"
    then have "unat (of_nat (4 + length name) :: u32) = 0" by (simp only: unsigned_0)
    moreover have "unat (of_nat (4 + length name) :: u32) = 4 + length name" using len(2) by (intro unat_of_nat32) simp
    ultimately show False by simp
  qed
  have x0: "?x = ma_reload_loop reload buf (length pre) (of_nat (4 + length name)) s" using nz by (simp only: ma_cmd_reload_def if_False)
  have s1: "4 + length name - 4 + length name = 2 * length name" by simp
  have x: "?x = ma_reload_loop reload buf ?d (of_nat (2 * length name)) s'"
    using reload_entry[OF buf len(1,2), of "4 + length name" reload s r s'] len(2) r unfolding x0 s1 by simp
  have g: "\<not> (of_nat (2 * length name) :: u32) < 4" using not_less_nat[of 4 "2 * length name"] len by simp
  show "?x = None" if "length post < 4"
    unfolding x using that g by (intro reload_loop_short) (simp_all add: buf)
  show "?x = Some (Cont (-1) s')" if p: "post = tlv ty bs @ rest \<and> ty \<noteq> 1" for ty bs rest
  proof -
    have "rd_be16 buf ?d = Some ty"
      using rd_be16_at[of ?d "pre @ tlv 1 name" ty] p by (simp add: buf tlv_def)
    then show ?thesis unfolding x using p g by (intro reload_loop_other[of _ _ ty]) (simp_all add: buf)
  qed
  show "?x = Some (Cont (-1) s2)"
    if p: "post = tlv 1 name2 @ rest \<and> 8 < length name2 \<and> length name2 < 255 \<and> 4 + length name2 \<le> 2 * length name \<and>
      4 \<le> length rest \<and> rd_be16 rest 0 \<noteq> Some 1 \<and> reload name2 s' = Some (Cont r2 s2)" for name2 rest r2 s2
  proof -
    have b2: "buf = (pre @ tlv 1 name) @ tlv 1 name2 @ rest" using p by (simp add: buf)
    have d: "length (pre @ tlv 1 name) = ?d" by simp
    let ?e = "?d + 4 + length name2" and ?l = "2 * length name - 4 + length name2"
    have "?x = ma_reload_loop reload buf ?e (of_nat ?l) s2"
      using reload_entry[OF b2, of "2 * length name" reload s' r2 s2] p len unfolding x d by simp
    moreover obtain ty where ty: "rd_be16 rest 0 = Some ty" "ty \<noteq> 1" using p by (auto simp: rd_be16_def rd_n_def)
    then have "rd_be16 buf ?e = Some ty"
      using rd_n_append_right[of "pre @ tlv 1 name @ tlv 1 name2" ?e rest 2] b2 by (simp add: rd_be16_def add.assoc)
    moreover have "4 \<le> ?l" "?l < 4294967296" using p len by linarith+
    then have "\<not> (of_nat ?l :: u32) < 4" using not_less_nat[of 4 ?l] by (simp del: of_nat_diff of_nat_add of_nat_mult)
    moreover have "?e + 4 \<le> length buf" using p by (simp add: buf)
    ultimately show ?thesis using reload_loop_other[of buf ?e ty] ty(2) by simp
  qed
  show "?x \<noteq> Some (Cont 0 t)" for t
  proof -
    have u: "unat (of_nat (4 + length name) :: u32) = 4 + length name" using len by (intro unat_of_nat32) simp
    show ?thesis unfolding x0 by (rule reload_never_ends) (use u len in simp_all)
  qed
qed

definition count_reload :: "u8 list \<Rightarrow> conf_vars \<Rightarrow> conf_vars conf_run option" where
  "count_reload name s = Some (Cont 0 (s\<lparr>vpu_id := vpu_id s + 1\<rparr>))"

theorem reload_overruns_witness:
  "let name = chars ''vpu.yaml'' @ [0] in
     ma_cmd_reload count_reload (tlv 1 name @ tlv 1 name @ replicate 100 0) 0 13 start_vars =
       Some (Cont (-1) (start_vars\<lparr>vpu_id := 2\<rparr>))"
proof -
  define nm where nm: "nm = chars ''vpu.yaml'' @ [0]"
  let ?z = "replicate 100 (0 :: u8)"
  have l: "length nm = 9" by (simp add: nm)
  have r: "rd_be16 ?z 0 \<noteq> Some 1" by (simp add: rd_be16_def rd_n_def be_of_def numeral_eq_Suc)
  have c: "count_reload nm start_vars = Some (Cont 0 (start_vars\<lparr>vpu_id := 1\<rparr>))"
    "count_reload nm (start_vars\<lparr>vpu_id := 1\<rparr>) = Some (Cont 0 (start_vars\<lparr>vpu_id := 2\<rparr>))"
    by (simp_all add: count_reload_def start_vars_def)
  have b: "tlv 1 nm @ tlv 1 nm @ ?z = [] @ tlv 1 nm @ tlv 1 nm @ ?z" by simp
  have "ma_cmd_reload count_reload (tlv 1 nm @ tlv 1 nm @ ?z) (length ([] :: u8 list)) (of_nat (4 + length nm)) start_vars =
      Some (Cont (-1) (start_vars\<lparr>vpu_id := 2\<rparr>))"
    using reload_overruns[where reload = count_reload and s = start_vars and r = 0 and s' = "start_vars\<lparr>vpu_id := 1\<rparr>", OF b, THEN conjunct2, THEN conjunct2, THEN conjunct1, rule_format, of nm ?z 0] r c l
    by simp
  then show ?thesis by (simp add: Let_def l flip: nm)
qed

lemma rd_be32_at: "off = length pre \<Longrightarrow> rd_be32 (pre @ to_be 4 (x :: u32) @ post) off = Some x"
  by (simp add: rd_be32_def rd_n_at be_roundtrip)

lemma status_entries_pair:
  assumes buf: "buf = pre @ tlv 1 (to_be 4 (v :: u32)) @ tlv 4 (to_be 4 (i :: u32)) @ post" and d: "d = length pre"
  shows "status_entries buf d 16 v0 i0 = Some (Inr (v, i))"
proof -
  have n: "length (to_be 4 v) < 65536" "length (to_be 4 i) < 65536" by simp_all
  note t1 = tlv_at[OF buf n(1) d]
  have b2: "buf = (pre @ tlv 1 (to_be 4 v)) @ tlv 4 (to_be 4 i) @ post" by (simp add: buf)
  have d2: "d + 4 + 4 = length (pre @ tlv 1 (to_be 4 v))" by (simp add: d)
  note t2 = tlv_at[OF b2 n(2) d2]
  have v: "rd_be32 buf (d + 4) = Some v" using t1(3) by (simp add: rd_be32_def be_roundtrip)
  have i: "rd_be32 buf (d + 4 + 4 + 4) = Some i" using t2(3) by (simp add: rd_be32_def be_roundtrip)
  have e: "status_entries buf (d + 4 + 4 + 4 + 4) 0 v i = Some (Inr (v, i))" by (subst status_entries.simps) simp
  have "status_entries buf (d + 4 + 4) 8 v i0 = Some (Inr (v, i))"
    using t2 i e by (subst status_entries.simps) (simp add: add.assoc)
  then show ?thesis using t1 v by (subst status_entries.simps) (simp add: add.assoc)
qed

lemma status_loop_short: "length buf < d + 4 \<Longrightarrow> \<not> left < 4 \<Longrightarrow> status_loop buf d left fl v i s = None"
  by (subst status_loop.simps) (auto simp: rd_be16_def rd_n_def)

lemma status_loop_other:
  assumes "rd_be16 buf d = Some ty" "ty \<noteq> 1" "ty \<noteq> 2" "d + 4 \<le> length buf" "\<not> left < 4"
  shows "status_loop buf d left fl v i s = Some (-1, s)"
proof -
  have "\<exists>l. rd_be16 buf (d + 2) = Some l" using assms(4) by (simp add: rd_be16_def rd_n_def)
  then show ?thesis using assms by (subst status_loop.simps) auto
qed

lemma status_name:
  assumes buf: "buf = pre @ tlv 1 name @ post" and vpu: "take 3 name = chars ''vpu''" and len: "length name < 1000"
    and left: "4 + length name \<le> left" "left < 100000"
  shows "status_loop buf (length pre) (of_nat left) fl v i s =
    status_loop buf (length pre + 4 + length name) (of_nat (left - 4 + length name)) True v i s"
proof -
  let ?l = "of_nat (length name) :: u16"
  have n: "length name < 65536" using len by simp
  note t = tlv_at[OF buf n refl] and u = u32_of_len[OF n]
  have "length (take 3 name) = 3" by (simp only: vpu) simp
  then have n3: "3 \<le> length name" by (simp add: min_def split: if_splits)
  have m: "rd_n buf (length pre + 4) 3 = Some (chars ''vpu'')"
  proof -
    have "rd_n buf (length pre + 4) 3 = Some (take 3 name)"
      using t(3) n3 by (auto simp: rd_n_def split: if_splits) (metis min.absorb1 take_take)
    then show ?thesis by (simp only: vpu)
  qed
  have l4: "(of_nat left :: u32) - 4 = of_nat (left - 4)" using left by (simp add: of_nat_diff)
  have a: "\<not> (of_nat left :: u32) < 4" using not_less_nat[of 4 left] left by simp
  have b: "\<not> (of_nat left :: u32) - 4 < ucast ?l" unfolding l4 u(1) using left by (intro not_less_nat) simp_all
  have e: "(of_nat left :: u32) - 4 + ucast ?l = of_nat (left - 4 + length name)" unfolding l4 u(1) by simp
  show ?thesis
    by (subst status_loop.simps, subst if_not_P[OF a])
      (simp only: t bind.bind_lunit b simp_thms if_False if_True m e)
qed

lemma status_value:
  assumes buf: "buf = pre @ tlv 2 (tlv 1 (to_be 4 (v :: u32)) @ tlv 4 (to_be 4 (i :: u32))) @ post"
    and left: "20 \<le> left" "left < 100000" and c: "change_fax_status i v s = Some (c, s')"
  shows "status_loop buf (length pre) (of_nat left) True v0 i0 s =
    status_loop buf (length pre + 20) (of_nat (left + 12)) True v i s'"
proof -
  let ?bs = "tlv 1 (to_be 4 v) @ tlv 4 (to_be 4 i)"
  have n: "length ?bs < 65536" by simp
  note t = tlv_at[OF buf n refl]
  have l: "length ?bs = 16" by simp
  have b2: "buf = (pre @ to_be 2 (2 :: u16) @ to_be 2 (16 :: u16)) @ tlv 1 (to_be 4 v) @ tlv 4 (to_be 4 i) @ post"
    by (simp add: buf tlv_def)
  have e: "status_entries buf (length pre + 4) 16 v0 i0 = Some (Inr (v, i))"
    by (rule status_entries_pair[OF b2]) simp
  have l4: "(of_nat left :: u32) - 4 = of_nat (left - 4)" using left by (simp add: of_nat_diff)
  have a: "\<not> (of_nat left :: u32) < 4" using not_less_nat[of 4 left] left by simp
  have b: "\<not> (of_nat left :: u32) - 4 < 16" unfolding l4 using not_less_nat[of 16 "left - 4"] left by simp
  have f: "(of_nat left :: u32) - 4 + 16 = of_nat (left + 12)" by simp
  have g: "length pre + 4 + 16 = length pre + 20" "unat (of_nat 16 :: u16) = 16" "(ucast (of_nat 16 :: u16) :: u32) = 16"
     by simp_all
  have two: "(2 :: u16) \<noteq> 1" by simp
  show ?thesis
    by (subst status_loop.simps, subst if_not_P[OF a])
      (simp only: two t(1,2) l g bind.bind_lunit b simp_thms if_False if_True e sum.case prod.case c f refl)
qed

text \<open>
  A status command sets the flag of the fax server it names, and is reported as an error. A command with the name of this
  program and a status for a fax server changes the flag of the entries with that id in the table, and
  nothing else; then the parser goes on behind the command as for a reload: an entry of another type there makes it
  return -1, and at the end of the buffer it reads behind it.
\<close>

theorem status_applied:
  assumes buf: "buf = pre @ tlv 1 name @ tlv 2 (tlv 1 (to_be 4 (v :: u32)) @ tlv 4 (to_be 4 (i :: u32))) @ post"
    and vpu: "take 3 name = chars ''vpu''" "length name < 1000"
    and i: "i \<noteq> 0" "unat (fax_num s) \<le> length (fax_infos s)"
  shows "(length post < 4 \<longrightarrow> ma_cmd_software_status buf (length pre) (of_nat (24 + length name)) s = None) \<and>
    (\<forall>ty bs rest. post = tlv ty bs @ rest \<and> ty \<noteq> 1 \<and> ty \<noteq> 2 \<longrightarrow>
       ma_cmd_software_status buf (length pre) (of_nat (24 + length name)) s =
         Some (-1, s\<lparr>fax_infos := map (\<lambda>f. if fi_id f = i then f\<lparr>fi_flag := ucast v\<rparr> else f) (take (unat (fax_num s)) (fax_infos s)) @
           drop (unat (fax_num s)) (fax_infos s)\<rparr>))"
proof (intro conjI allI impI)
  define s' where s': "s' = s\<lparr>fax_infos := map (\<lambda>f. if fi_id f = i then f\<lparr>fi_flag := ucast v\<rparr> else f) (take (unat (fax_num s)) (fax_infos s)) @
     drop (unat (fax_num s)) (fax_infos s)\<rparr>"
  have c: "change_fax_status i v s = Some (0, s')" using i by (simp add: change_fax_status_def s')
  let ?x = "ma_cmd_software_status buf (length pre) (of_nat (24 + length name)) s"
  let ?e = "length pre + 24 + length name" and ?l = "32 + 2 * length name"
  have g4: "\<not> (of_nat (24 + length name) :: u32) < 4" using not_less_nat[of 4 "24 + length name"] vpu(2) by simp
  have x0: "?x = status_loop buf (length pre) (of_nat (24 + length name)) False 0 0 s"
    by (simp only: ma_cmd_software_status_def g4 if_False)
  have l1: "24 + length name - 4 + length name = 20 + 2 * length name" by simp
  have x1: "?x = status_loop buf (length pre + 4 + length name) (of_nat (20 + 2 * length name)) True 0 0 s"
    unfolding x0 using status_name[OF buf vpu, of "24 + length name" False 0 0 s] vpu(2) unfolding l1 by simp
  have b2: "buf = (pre @ tlv 1 name) @ tlv 2 (tlv 1 (to_be 4 v) @ tlv 4 (to_be 4 i)) @ post" by (simp add: buf)
  have d2: "length (pre @ tlv 1 name) = length pre + 4 + length name" by simp
  have e2: "length pre + 4 + length name + 20 = ?e" "20 + 2 * length name + 12 = ?l" by simp_all
  have x: "?x = status_loop buf ?e (of_nat ?l) True v i s'"
    unfolding x1 using status_value[OF b2 _ _ c, of "20 + 2 * length name" 0 0] vpu(2) unfolding d2 e2 by simp
  have g: "\<not> (of_nat ?l :: u32) < 4" using not_less_nat[of 4 ?l] vpu(2) by simp
  show "?x = None" if "length post < 4"
    unfolding x using that g by (intro status_loop_short) (simp_all add: buf)
  show "?x = Some (-1, s\<lparr>fax_infos := map (\<lambda>f. if fi_id f = i then f\<lparr>fi_flag := ucast v\<rparr> else f) (take (unat (fax_num s)) (fax_infos s)) @
           drop (unat (fax_num s)) (fax_infos s)\<rparr>)" if p: "post = tlv ty bs @ rest \<and> ty \<noteq> 1 \<and> ty \<noteq> 2" for ty bs rest
  proof -
    have "rd_be16 buf ?e = Some ty"
      using rd_be16_at[of ?e "pre @ tlv 1 name @ tlv 2 (tlv 1 (to_be 4 v) @ tlv 4 (to_be 4 i))" ty "to_be 2 (of_nat (length bs) :: u16) @ bs @ rest"] p
      by (simp add: buf tlv_def)
    then show ?thesis unfolding x s'[symmetric] using p g by (intro status_loop_other[of _ _ ty]) (simp_all add: buf)
  qed
qed

theorem status_applied_witness:
  "\<exists>s'. ma_cmd_software_status (tlv 1 (chars ''vpu'') @ tlv 2 (tlv 1 (to_be 4 (0 :: u32)) @ tlv 4 (to_be 4 (7 :: u32))) @ tlv 9 []) 0 27
     (start_vars\<lparr>fax_infos := [zero_fax\<lparr>fi_id := 7, fi_flag := 1\<rparr>], fax_num := 1\<rparr>) = Some (-1, s') \<and> map fi_flag (fax_infos s') = [0]"
proof -
  let ?s = "start_vars\<lparr>fax_infos := [zero_fax\<lparr>fi_id := 7, fi_flag := 1\<rparr>], fax_num := 1\<rparr>"
  have b: "tlv 1 (chars ''vpu'') @ tlv 2 (tlv 1 (to_be 4 (0 :: u32)) @ tlv 4 (to_be 4 (7 :: u32))) @ tlv 9 [] =
      [] @ tlv 1 (chars ''vpu'') @ tlv 2 (tlv 1 (to_be 4 (0 :: u32)) @ tlv 4 (to_be 4 (7 :: u32))) @ tlv 9 []" by simp
  from status_applied[OF b, of ?s, THEN conjunct2, rule_format, of 9 "[]" "[]"] show ?thesis by (simp add: chars_def)
qed

subsection \<open>The stream of commands\<close>

text \<open>The commands that do not read their data, and what they do.\<close>

definition simple_cmd :: "u16 \<Rightarrow> bool" where
  "simple_cmd c \<longleftrightarrow> c \<notin> set [14, 23, 32, 34]"

definition reply_events :: "pkt_layout \<Rightarrow> ma_ext \<Rightarrow> u16 \<Rightarrow> u16 \<Rightarrow> ma_event list" where
  "reply_events L x cmd num =
     (if cmd = 19 then (case ma_cmd_get_counter L (mx_counters x) (mx_now x) (mx_stack x) num of Some p \<Rightarrow> [Ma_write p] | None \<Rightarrow> [])
      else if cmd = 39 then [Ma_send (mx_count_info x num)]
      else if cmd = 30 then [Debug_on]
      else if cmd = 31 then [Debug_off]
      else if cmd = 33 then [Ma_send (mx_level_packet x num)]
      else if cmd = 35 then [Ma_send (mx_mask_packet x num), Unknown_cmd 35]
      else [Unknown_cmd cmd])"

lemma dispatch_simple:
  assumes "layout_ok L" "length (mx_stack x) = 1500" "simple_cmd cmd"
  shows "ma_dispatch L x cmd d data_len num st = Some (Cont 0 (ms_add (reply_events L x cmd num) st))"
proof -
  obtain p where "ma_cmd_get_counter L (mx_counters x) (mx_now x) (mx_stack x) num = Some p"
    using counter_message[OF assms(1,2)] by blast
  then show ?thesis using assms(3) by (simp add: ma_dispatch_def reply_events_def simple_cmd_def)
qed

lemma rd_n_mid: "i + n \<le> length m \<Longrightarrow> rd_n (pre @ m @ post) (length pre + i) n = rd_n m i n"
  by (simp add: rd_n_def)

lemma rd_be16_bytes: "rd_be16 buf i = Some c \<Longrightarrow> rd_n buf i 2 = Some (to_be 2 c)"
proof -
  assume "rd_be16 buf i = Some c"
  then obtain bs where bs: "rd_n buf i 2 = Some bs" "be_of bs = c" by (auto simp: rd_be16_def)
  then show ?thesis using to_be_be_of[of bs, where 'a = 16] rd_n_length[OF bs(1)] by simp
qed

text \<open>
  A reload and a status command read their entries from their own data on, and only from there: what the buffer
  holds before it does not matter.
\<close>

lemma rd_shift:
  "rd_n (pre @ buf) (length pre + d) n = rd_n buf d n"
  "rd_be16 (pre @ buf) (length pre + d) = rd_be16 buf d"
  "rd_be32 (pre @ buf) (length pre + d) = rd_be32 buf d"
  by (simp_all add: rd_n_def rd_be16_def rd_be32_def)

lemma reload_loop_shift:
  "ma_reload_loop reload (pre @ buf) (length pre + d) left s = ma_reload_loop reload buf d left s"
proof (induction reload buf d left s rule: ma_reload_loop.induct)
  case (1 reload buf d left s)
  show ?case
    unfolding ma_reload_loop.simps[of reload "pre @ buf" "length pre + d" left s] ma_reload_loop.simps[of reload buf d left s]
    by (auto intro!: if_cong Option.bind_cong simp: rd_shift add.assoc 1[unfolded add.assoc] simp del: add_2_eq_Suc' split: conf_run.split)
qed

lemma status_entries_shift:
  "status_entries (pre @ buf) (length pre + d) left v i = status_entries buf d left v i"
proof (induction buf d left v i rule: status_entries.induct)
  case (1 buf d left v i)
  have i: "status_entries (pre @ buf) (length pre + (d + 8)) (left - 8) u i = status_entries buf (d + 8) (left - 8) u i"
      if "rd_be16 buf d = Some 1" "\<not> left < 4" "rd_be16 buf (d + 2) = Some 4" "\<not> left - 4 < 4" "rd_be32 buf (d + 4) = Some u" for u
    using 1(1)[of 1 4 "d + 4" u] that by (simp add: add.assoc)
  moreover have "status_entries (pre @ buf) (length pre + (d + 8)) (left - 8) v u = status_entries buf (d + 8) (left - 8) v u"
      if "rd_be16 buf d = Some 4" "\<not> left < 4" "rd_be16 buf (d + 2) = Some 4" "\<not> left - 4 < 4" "rd_be32 buf (d + 4) = Some u" for u
    using 1(4)[of 4 4 "d + 4" u] that by (simp add: add.assoc)
  ultimately show ?case
    unfolding status_entries.simps[of "pre @ buf" "length pre + d" left v i] status_entries.simps[of buf d left v i]
    by (auto intro!: if_cong Option.bind_cong simp: rd_shift add.assoc Let_def 1[OF _ _ _ refl, unfolded add.assoc] simp del: add_2_eq_Suc')
qed

lemma status_loop_shift:
  "status_loop (pre @ buf) (length pre + d) left fl v i s = status_loop buf d left fl v i s"
proof (induction buf d left fl v i s rule: status_loop.induct)
  case (1 buf d left fl v i s)
  have i: "status_loop (pre @ buf) (length pre + (d + (4 + unat l))) (left - 4 + ucast l) True a b t =
      status_loop buf (d + (4 + unat l)) (left - 4 + ucast l) True a b t"
    if "\<not> left < 4" "rd_be16 buf d = Some 2" "rd_be16 buf (d + 2) = Some l" "\<not> left - 4 < ucast l" fl
      "status_entries buf (d + 4) (ucast l) v i = Some (Inr (a, b))" "change_fax_status b a s = Some (c, t)" for l a b c t
    using 1(2)[of 2 l "Inr (a, b)" "(a, b)" a b "(c, t)" c t] that by (simp add: add.assoc)
  show ?case
    unfolding status_loop.simps[of "pre @ buf" "length pre + d" left fl v i s] status_loop.simps[of buf d left fl v i s]
    by (auto intro!: if_cong Option.bind_cong simp: rd_shift add.assoc status_entries_shift 1(1)[unfolded add.assoc] i simp del: add_2_eq_Suc' split: sum.split)
qed

text \<open>
  What one command does to the configuration and the variable of the parser, and its answers: \<open>body\<close> is its data,
  \<open>after\<close> what the buffer holds behind it.
\<close>

definition command ::
  "pkt_layout \<Rightarrow> ma_ext \<Rightarrow> u16 \<Rightarrow> u16 \<Rightarrow> u8 list \<Rightarrow> u8 list \<Rightarrow> conf_vars \<times> u32 \<Rightarrow> (ma_event list \<times> conf_vars \<times> u32) conf_run option" where
  "command L x cmd num body after q =
     (let (s, v) = q; n = of_nat (length body) in
      if cmd = 23 then (case ma_cmd_reload (reload_file (mx_env x) (mx_files x)) (body @ after) 0 n s of
          None \<Rightarrow> None | Some (Exit c) \<Rightarrow> Some (Exit c) | Some (Cont c s') \<Rightarrow> Some (Cont 0 ([], s', v)))
      else if cmd = 14 then (case ma_cmd_software_status (body @ after) 0 n s of
          None \<Rightarrow> None | Some (c, s') \<Rightarrow> Some (Cont 0 ([], s', v)))
      else if cmd = 32 then (let v' = mx_level x (body @ after) n v in Some (Cont 0 ([Set_level v'], s, v')))
      else if cmd = 34 then (let v' = mx_mask x (body @ after) n v in Some (Cont 0 ([Set_mask v'], s, v')))
      else Some (Cont 0 (reply_events L x cmd num, s, v)))"

text \<open>The commands of a stream one after the other, until one is undefined or ends the program.\<close>

fun commands ::
  "pkt_layout \<Rightarrow> ma_ext \<Rightarrow> (u8 list \<times> u16 \<times> u16) list \<Rightarrow> u8 list \<Rightarrow> conf_vars \<times> u32 \<Rightarrow> (ma_event list \<times> conf_vars \<times> u32) conf_run option" where
  "commands L x [] junk q = Some (Cont 0 ([], q))"
| "commands L x ((m, cmd, num) # ms) junk q =
     (case command L x cmd num (drop (hd_size L) m) (concat (map fst ms) @ junk) q of
        None \<Rightarrow> None
      | Some (Exit c) \<Rightarrow> Some (Exit c)
      | Some (Cont c (es, q')) \<Rightarrow> (case commands L x ms junk q' of
            None \<Rightarrow> None
          | Some (Exit c) \<Rightarrow> Some (Exit c)
          | Some (Cont c (es', q'')) \<Rightarrow> Some (Cont c (es @ es', q''))))"

lemma commands_simple:
  "\<forall>(m, cmd, num) \<in> set ms. simple_cmd cmd \<Longrightarrow>
     commands L x ms junk q = Some (Cont 0 (concat (map (\<lambda>(m, cmd, num). reply_events L x cmd num) ms), q))"
  by (induction L x ms junk q rule: commands.induct) (auto simp: command_def simple_cmd_def split: prod.split)

text \<open>What the parser's dispatch does with a message whose data are \<open>body\<close>.\<close>

definition after_command :: "(ma_event list \<times> conf_vars \<times> u32) \<Rightarrow> ma_state \<Rightarrow> ma_state" where
  "after_command r st = (case r of (es, s, v) \<Rightarrow> st\<lparr>ms_conf := s, ms_v := v, ms_log := ms_log st @ es\<rparr>)"

lemma dispatch_command:
  assumes "layout_ok L" "length (mx_stack x) = 1500" "ms_buf st = pre @ body @ after" "d = length pre"
  shows "ma_dispatch L x cmd d (of_nat (length body)) num st =
    (case command L x cmd num body after (ms_conf st, ms_v st) of
       None \<Rightarrow> None | Some (Exit c) \<Rightarrow> Some (Exit c) | Some (Cont c r) \<Rightarrow> Some (Cont 0 (after_command r st)))"
proof (cases "simple_cmd cmd")
  case True
  then show ?thesis using dispatch_simple[OF assms(1,2) True]
    by (simp add: command_def simple_cmd_def after_command_def ms_add_def)
next
  case False
  let ?n = "of_nat (length body) :: u32"
  have r: "ma_cmd_reload f (ms_buf st) d ?n s = ma_cmd_reload f (body @ after) 0 ?n s" for f s
    using reload_loop_shift[of f pre "body @ after" 0 ?n s] assms(3,4) by (simp add: ma_cmd_reload_def)
  have w: "ma_cmd_software_status (ms_buf st) d ?n s = ma_cmd_software_status (body @ after) 0 ?n s" for s
    using status_loop_shift[of pre "body @ after" 0 ?n False 0 0 s] assms(3,4) by (simp add: ma_cmd_software_status_def)
  have b: "drop d (ms_buf st) = body @ after" using assms(3,4) by simp
  from False consider "cmd = 23" | "cmd = 14" | "cmd = 32" | "cmd = 34" by (auto simp: simple_cmd_def)
  then show ?thesis
  proof cases
    case 1
    then show ?thesis
      by (simp add: ma_dispatch_def command_def r after_command_def split: option.split conf_run.split)
  next
    case 2
    then show ?thesis
      by (simp add: ma_dispatch_def command_def w after_command_def split: option.split prod.split)
  qed (simp_all add: ma_dispatch_def command_def b after_command_def ms_add_def Let_def)
qed

text \<open>One message at the position of the loop.\<close>

lemma ma_loop_message:
  assumes L: "layout_ok L" and x: "length (mx_stack x) = 1500" and m: "message L m r cmd num body" "length m < 65536"
    and buf: "ms_buf st = pre @ m @ post" and left: "length m \<le> left" "left < 4294967296"
  shows "\<exists>m'. length m' = length m \<and> ma_loop L x (Suc n) (length pre) (of_nat left) st =
    (case command L x cmd num body post (ms_conf st, ms_v st) of
       None \<Rightarrow> Undefined
     | Some (Exit c) \<Rightarrow> Returned (Exit c)
     | Some (Cont c q) \<Rightarrow>
         ma_loop L x n (length (pre @ m')) (of_nat (left - length m)) (after_command q (st\<lparr>ms_buf := pre @ m' @ post\<rparr>)))"
proof -
  note b = layout_bounds[OF L] and a = layout_apart[OF L]
  have lm: "length m = hd_size L + length body" "drop (hd_size L) m = body" using m(1) by (simp_all add: message_def)
  have h: "rd_n m (off_cmd L) 2 = Some (to_be 2 cmd)" "rd_n m (off_num L) 2 = Some (to_be 2 num)" "rd_n m (off_len L) 2 = Some (to_be 2 (of_nat (length m) :: u16))"
    using m(1) by (auto simp: message_def header_is_def intro: rd_be16_bytes)
  let ?m = "overlay (off_num L) (to_le 2 num) m" and ?p = "length pre"
  have lm': "length ?m = length m" using b lm by simp
  have "off_num L + 2 + (hd_size L - (off_num L + 2)) = hd_size L" using b by linarith
  then have body: "drop (hd_size L) ?m = body" using b lm by (simp add: overlay_def)
  have buf': "wr_n (ms_buf st) (?p + off_num L) (to_le 2 num) = Some (pre @ ?m @ post)"
    using b lm by (simp add: wr_n_def buf overlay_def)
  have r1: "rd_be16 (ms_buf st) (?p + off_len L) = Some (of_nat (length m))" "rd_be16 (ms_buf st) (?p + off_num L) = Some num"
    using b lm h by (simp_all add: rd_be16_def buf rd_n_mid be_roundtrip)
  have "rd_n ?m (off_cmd L) 2 = rd_n m (off_cmd L) 2"
    by (rule rd_n_overlay_apart) (use a b lm in simp_all)
  then have r2: "rd_be16 (pre @ ?m @ post) (?p + off_cmd L) = Some cmd"
    using b lm lm' h by (simp add: rd_be16_def rd_n_mid be_roundtrip)
  have d: "(ucast (of_nat (length m) :: u16) :: u32) - of_nat (hd_size L) = of_nat (length body)"
    unfolding u32_of_len(1)[OF m(2)] by (simp add: lm)
  have ub: "unat (of_nat (length body) :: u32) = length body" using m(2) lm by (intro unat_of_nat32) simp
  have g: "\<not> (of_nat left :: u32) < of_nat (hd_size L)" using left lm by (intro not_less_nat) simp_all
  have l: "(of_nat left :: u32) - of_nat (hd_size L) - of_nat (length body) = of_nat (left - length m)"
    using left(1) lm by (simp add: of_nat_diff)
  have p: "?p + hd_size L + length body = length (pre @ ?m)" using lm lm' by simp
  let ?st = "st\<lparr>ms_buf := pre @ ?m @ post\<rparr>"
  have "pre @ ?m @ post = (pre @ take (hd_size L) ?m) @ body @ post"
    using body append_take_drop_id[of "hd_size L" ?m] by (metis append.assoc)
  moreover have "?p + hd_size L = length (pre @ take (hd_size L) ?m)" using lm lm' by simp
  ultimately have c: "ma_dispatch L x cmd (?p + hd_size L) (of_nat (length body)) num ?st =
      (case command L x cmd num body post (ms_conf st, ms_v st) of
         None \<Rightarrow> None | Some (Exit c) \<Rightarrow> Some (Exit c) | Some (Cont c r) \<Rightarrow> Some (Cont 0 (after_command r ?st)))"
    using dispatch_command[OF L x, of ?st "pre @ take (hd_size L) ?m" body post "?p + hd_size L" cmd num] by simp
  have "ma_loop L x (Suc n) ?p (of_nat left) st =
    (case command L x cmd num body post (ms_conf st, ms_v st) of
       None \<Rightarrow> Undefined
     | Some (Exit c) \<Rightarrow> Returned (Exit c)
     | Some (Cont c q) \<Rightarrow>
         ma_loop L x n (length (pre @ ?m)) (of_nat (left - length m)) (after_command q ?st))"
    by (simp only: ma_loop.simps g if_False r1 buf' r2 bind.bind_lunit Let_def d c)
      (auto simp: ub l p split: option.split conf_run.split simp del: of_nat_diff)
  with lm' show ?thesis unfolding append.assoc by (intro exI[of _ ?m] conjI)
qed

text \<open>A stream of messages, from the first to the last.\<close>

lemma ma_loop_stream:
  assumes L: "layout_ok L" and x: "length (mx_stack x) = 1500"
    and ms: "\<forall>(m, cmd, num) \<in> set ms. (\<exists>r body. message L m r cmd num body) \<and> length m < 65536"
    and buf: "ms_buf st = concat (map fst ms) @ junk" and len: "length (concat (map fst ms)) < 4294967296" and n: "length ms < n"
  shows "case commands L x ms junk (ms_conf st, ms_v st) of
      None \<Rightarrow> ma_cmd_parser n L x (of_nat (length (concat (map fst ms)))) st = Undefined
    | Some (Exit c) \<Rightarrow> ma_cmd_parser n L x (of_nat (length (concat (map fst ms)))) st = Returned (Exit c)
    | Some (Cont c (es, s, v)) \<Rightarrow> \<exists>st'. ma_cmd_parser n L x (of_nat (length (concat (map fst ms)))) st = Returned (Cont 0 st') \<and>
        ms_log st' = ms_log st @ es \<and> ms_conf st' = s \<and> ms_v st' = v"
proof -
  let ?res = "\<lambda>r st ms. case commands L x ms junk (ms_conf st, ms_v st) of
      None \<Rightarrow> r = Undefined
    | Some (Exit c) \<Rightarrow> r = Returned (Exit c)
    | Some (Cont c (es, s, v)) \<Rightarrow> \<exists>st'. r = Returned (Cont 0 st') \<and> ms_log st' = ms_log st @ es \<and> ms_conf st' = s \<and> ms_v st' = v"
  have "?res (ma_loop L x n (length pre) (of_nat (length (concat (map fst ms)))) st) st ms"
    if "ms_buf st = pre @ concat (map fst ms) @ junk" for pre
    using that ms len n
  proof (induction ms arbitrary: st pre n)
    case Nil
    have "0 < hd_size L" using layout_bounds(1)[OF L] by simp
    moreover have "unat (of_nat (hd_size L) :: u32) = hd_size L" using layout_bounds(6)[OF L] by (intro unat_of_nat32) simp
    ultimately have "(0 :: u32) < of_nat (hd_size L)" by (simp add: word_less_nat_alt)
    then show ?case using Nil.prems by (cases n) simp_all
  next
    case (Cons e ms)
    obtain m cmd num where e: "e = (m, cmd, num)" by (cases e)
    obtain k where k: "n = Suc k" using Cons.prems(4) by (cases n) auto
    obtain r body where m: "message L m r cmd num body" "length m < 65536" using Cons.prems(2) e by auto
    have body: "drop (hd_size L) m = body" using m(1) by (simp add: message_def)
    let ?t = "concat (map fst ms)"
    have buf: "ms_buf st = pre @ m @ ?t @ junk" using Cons.prems(1) e by simp
    have lt: "length (concat (map fst (e # ms))) = length m + length ?t" by (simp add: e)
    obtain m' where m': "length m' = length m" "ma_loop L x (Suc k) (length pre) (of_nat (length m + length ?t)) st =
        (case command L x cmd num body (?t @ junk) (ms_conf st, ms_v st) of
           None \<Rightarrow> Undefined
         | Some (Exit c) \<Rightarrow> Returned (Exit c)
         | Some (Cont c q) \<Rightarrow> ma_loop L x k (length (pre @ m')) (of_nat (length m + length ?t - length m))
             (after_command q (st\<lparr>ms_buf := pre @ m' @ ?t @ junk\<rparr>)))"
      using ma_loop_message[OF L x m buf, of "length m + length ?t" k] Cons.prems(3) e by auto
    have ih: "?res (ma_loop L x k (length (pre @ m')) (of_nat (length ?t)) (after_command q (st\<lparr>ms_buf := pre @ m' @ ?t @ junk\<rparr>)))
        (after_command q (st\<lparr>ms_buf := pre @ m' @ ?t @ junk\<rparr>)) ms" for q
      by (rule Cons.IH) (use Cons.prems k e in \<open>simp_all add: after_command_def split: prod.split\<close>)
    show ?case
    proof (cases "command L x cmd num body (?t @ junk) (ms_conf st, ms_v st)")
      case None
      then show ?thesis using m'(2) by (simp only: k lt) (simp add: e body)
    next
      case (Some r)
      show ?thesis
      proof (cases r)
        case (Exit c)
        then show ?thesis using Some m'(2) by (simp only: k lt) (simp add: e body)
      next
        case (Cont c q)
        obtain es s v where q: "q = (es, s, v)" by (rule prod_cases3)
        have "ma_loop L x (Suc k) (length pre) (of_nat (length m + length ?t)) st =
            ma_loop L x k (length (pre @ m')) (of_nat (length ?t)) (after_command q (st\<lparr>ms_buf := pre @ m' @ ?t @ junk\<rparr>))"
          using m'(2) Some Cont by simp
        then show ?thesis using ih[of q] Some Cont q
          by (simp only: k lt) (auto simp: e body after_command_def split: option.splits conf_run.splits)
      qed
    qed
  qed
  from this[of "[]"] show ?thesis
    unfolding ma_cmd_parser_def list.size append_Nil using buf by blast
qed

text \<open>
  C38. The parser carries out every command of a stream of whole messages once and in order. Each message is found by the length of
  its header, whatever its command: the parser does what the commands do one after the other, each with its own
  number and its own data, and stops at the end of the last one whatever the buffer holds behind it; it leaves the buffer, or the
  program ends, exactly where a command does. A request for the counters gets the packet with the counters, and
  the request for the mask is answered and also reported as unknown; only a reload and a status (and the two
  settings of the log, as far as the library reads on) can depend on what follows their data in the buffer.
\<close>

theorem ma_parser_frames:
  assumes L: "layout_ok L" and x: "length (mx_stack x) = 1500"
    and ms: "\<forall>(m, cmd, num) \<in> set ms. (\<exists>r body. message L m r cmd num body) \<and> length m < 65536"
    and buf: "ms_buf st = concat (map fst ms) @ junk" and len: "length (concat (map fst ms)) < 4294967296" and n: "length ms < n"
  shows "(case commands L x ms junk (ms_conf st, ms_v st) of
      None \<Rightarrow> ma_cmd_parser n L x (of_nat (length (concat (map fst ms)))) st = Undefined
    | Some (Exit c) \<Rightarrow> ma_cmd_parser n L x (of_nat (length (concat (map fst ms)))) st = Returned (Exit c)
    | Some (Cont c (es, s, v)) \<Rightarrow> \<exists>st'. ma_cmd_parser n L x (of_nat (length (concat (map fst ms)))) st = Returned (Cont 0 st') \<and>
        ms_log st' = ms_log st @ es \<and> ms_conf st' = s \<and> ms_v st' = v) \<and>
    ((\<forall>(m, cmd, num) \<in> set ms. simple_cmd cmd) \<longrightarrow>
       commands L x ms junk (ms_conf st, ms_v st) =
         Some (Cont 0 (concat (map (\<lambda>(m, cmd, num). reply_events L x cmd num) ms), ms_conf st, ms_v st)))"
  using ma_loop_stream[OF assms] commands_simple[of ms L x junk] by blast

definition test_ext :: ma_ext where
  "test_ext = \<lparr>mx_env = test_conf_env, mx_files = (\<lambda>_. None), mx_counters = \<lparr>all_pkts = 1, lost_pkts = 0, voice_pkts = 1, other_pkts = 0,
     call_start = 0, call_end = 0, call_online = 0, call_timeout = 0, file_ok = 0, file_fail = 0, fax_lost = 0, fax_enqueue = 0,
     fax_dequeue = 0, fax_send = 0, fax_ack = 0, fax_yes = 0, fax_no = 0\<rparr>, mx_now = 1, mx_stack = replicate 1500 0, mx_count_info = (\<lambda>_. [1]),
     mx_level_packet = (\<lambda>_. [2]), mx_mask_packet = (\<lambda>_. [3]), mx_level = (\<lambda>_ _ v. v), mx_mask = (\<lambda>_ _ v. v)\<rparr>"

definition test_msg :: "u8 \<Rightarrow> u8 \<Rightarrow> u8 list" where
  "test_msg cmd num = [1, 0, 0, cmd, 0, num, 0, 8]"

lemma test_msg_message: "message plain_layout (test_msg 35 3) 0 35 3 []" "message plain_layout (test_msg 30 4) 0 30 4 []"
  "message plain_layout (test_msg 32 5) 0 32 5 []"
  by (simp_all add: message_def header_is_def plain_layout_def test_msg_def rd_n_def rd_be16_def be_of_def)

theorem ma_parser_frames_witness:
  "\<exists>st'. ma_cmd_parser 4 plain_layout test_ext 24 \<lparr>ms_buf = test_msg 35 3 @ test_msg 30 4 @ test_msg 32 5 @ [9, 9], ms_conf = start_vars, ms_v = 6, ms_log = []\<rparr> =
     Returned (Cont 0 st') \<and> ms_log st' = [Ma_send [3], Unknown_cmd 35, Debug_on, Set_level 6]"
proof -
  let ?ms = "[(test_msg 35 3, 35, 3), (test_msg 30 4, 30, 4), (test_msg 32 5, 32, 5)]"
  let ?st = "\<lparr>ms_buf = test_msg 35 3 @ test_msg 30 4 @ test_msg 32 5 @ [9, 9], ms_conf = start_vars, ms_v = 6, ms_log = []\<rparr>"
  have l: "\<forall>(m, cmd, num) \<in> set ?ms. (\<exists>r body. message plain_layout m r cmd num body) \<and> length m < 65536"
    using test_msg_message by (auto simp: test_msg_def)
  have x: "length (mx_stack test_ext) = 1500" by (simp add: test_ext_def)
  have b: "ms_buf ?st = concat (map fst ?ms) @ [9, 9]" by simp
  have n: "length (concat (map fst ?ms)) = 24" by (simp add: test_msg_def)
  have c: "commands plain_layout test_ext ?ms [9, 9] (start_vars, 6) =
      Some (Cont 0 ([Ma_send [3], Unknown_cmd 35, Debug_on, Set_level 6], start_vars, 6))"
    by (simp add: command_def reply_events_def) (simp add: test_ext_def)
  have q: "ms_conf ?st = start_vars" "ms_v ?st = 6" "ms_log ?st = []" by simp_all
  show ?thesis
    using ma_parser_frames[OF plain_layout_ok x l b, of 4, THEN conjunct1] unfolding n c q option.case conf_run.case prod.case
    by auto
qed

lemma dispatch_buf:
  "ma_dispatch L x cmd d data_len num st = Some (Cont c st') \<Longrightarrow> ms_buf st' = ms_buf st"
  by (auto simp: ma_dispatch_def ms_add_def Let_def split: if_splits Option.bind_splits conf_run.splits)

lemma ma_loop_stops:
  assumes "layout_ok L" "length (ms_buf st) - left < n"
  shows "ma_loop L x n left left_len st \<noteq> Running"
  using assms(2)
proof (induction n arbitrary: left left_len st)
  case 0
  then show ?case by simp
next
  case (Suc n)
  show ?case
  proof (cases "left_len < of_nat (hd_size L)")
    case True
    then show ?thesis by simp
  next
    case False
    let ?step = "do {
          len \<leftarrow> rd_be16 (ms_buf st) (left + off_len L);
          let data_len = (ucast len :: u32) - of_nat (hd_size L);
          num \<leftarrow> rd_be16 (ms_buf st) (left + off_num L);
          buf' \<leftarrow> wr_n (ms_buf st) (left + off_num L) (to_le 2 num);
          cmd \<leftarrow> rd_be16 buf' (left + off_cmd L);
          r \<leftarrow> ma_dispatch L x cmd (left + hd_size L) data_len num (st\<lparr>ms_buf := buf'\<rparr>);
          Some (data_len, r)}"
    have eq: "ma_loop L x (Suc n) left left_len st = (case ?step of
          None \<Rightarrow> Undefined
        | Some (data_len, Exit c) \<Rightarrow> Returned (Exit c)
        | Some (data_len, Cont _ st') \<Rightarrow>
            ma_loop L x n (left + hd_size L + unat data_len) (left_len - of_nat (hd_size L) - data_len) st')"
      using False by (simp only: ma_loop.simps if_False)
    show ?thesis
    proof (cases ?step)
      case None
      then show ?thesis unfolding eq by simp
    next
      case (Some p)
      obtain data_len r where p: "p = (data_len, r)" by (cases p)
      show ?thesis
      proof (cases r)
        case (Exit c)
        with Some p show ?thesis unfolding eq by simp
      next
        case (Cont c st')
        have fit: "left + off_len L + 2 \<le> length (ms_buf st)"
          using Some by (auto simp: rd_be16_def rd_n_eq_Some Let_def split: Option.bind_splits)
        have "length (ms_buf st') = length (ms_buf st)"
          using Some p Cont by (auto simp: Let_def dest!: dispatch_buf wr_n_length split: Option.bind_splits)
        then have "length (ms_buf st') - (left + hd_size L + unat data_len) < n"
          using fit Suc.prems layout_bounds(1)[OF assms(1)] by simp
        from Suc.IH[OF this] show ?thesis using Some p Cont unfolding eq by simp
      qed
    qed
  qed
qed

text \<open>
  The parser of the agent's commands returns, unless it reads outside its buffer or the program ends: one turn for each byte of the
  buffer is enough whatever it holds. But a header whose length is smaller than the header itself, with at least another
  header in the buffer, makes it jump 4 GiB ahead.
\<close>

theorem ma_parser_stops:
  assumes "layout_ok L" and "length (ms_buf st) < n" and "length (ms_buf st) \<le> 2048" and "1 < n"
  shows "ma_cmd_parser n L x pkt_len st \<noteq> Running \<and>
    (\<forall>len num. length (mx_stack x) = 1500 \<and> of_nat (hd_size L) \<le> pkt_len \<and> hd_size L \<le> length (ms_buf st) \<and>
        rd_be16 (ms_buf st) (off_len L) = Some len \<and> unat len < hd_size L \<and> hd_size L \<le> unat (pkt_len - ucast len) \<and>
        rd_be16 (ms_buf st) (off_cmd L) = Some cmd \<and> simple_cmd cmd \<longrightarrow>
      ma_cmd_parser n L x pkt_len st = Undefined)"
proof (intro conjI allI impI)
  show "ma_cmd_parser n L x pkt_len st \<noteq> Running"
    unfolding ma_cmd_parser_def using assms(2) by (intro ma_loop_stops[OF assms(1)]) simp
  fix len :: u16 and num :: u16
  assume h: "length (mx_stack x) = 1500 \<and> of_nat (hd_size L) \<le> pkt_len \<and> hd_size L \<le> length (ms_buf st) \<and>
        rd_be16 (ms_buf st) (off_len L) = Some len \<and> unat len < hd_size L \<and> hd_size L \<le> unat (pkt_len - ucast len) \<and>
        rd_be16 (ms_buf st) (off_cmd L) = Some cmd \<and> simple_cmd cmd"
  note b = layout_bounds[OF assms(1)] and a = layout_apart[OF assms(1)]
  obtain k where k: "n = Suc (Suc k)" using assms(4) by (cases n; cases "n - 1") auto
  let ?hd = "of_nat (hd_size L) :: u32"
  have uh: "unat ?hd = hd_size L" using b(6) by (intro unat_of_nat32) simp
  obtain nm where nm: "rd_be16 (ms_buf st) (off_num L) = Some nm" using h b by (simp add: rd_be16_def rd_n_def)
  let ?buf = "overlay (off_num L) (to_le 2 nm) (ms_buf st)"
  have w: "wr_n (ms_buf st) (off_num L) (to_le 2 nm) = Some ?buf" using h b by (intro wr_overlay) simp
  have "rd_n ?buf (off_cmd L) 2 = rd_n (ms_buf st) (off_cmd L) 2"
    by (rule rd_n_overlay_apart) (use a b h in simp_all)
  then have c: "rd_be16 ?buf (off_cmd L) = Some cmd" using h by (simp add: rd_be16_def)
  have g: "\<not> pkt_len < ?hd" using h by (simp add: not_less)
  let ?dl = "ucast len - ?hd"
  have ud: "unat ?dl = 2 ^ 32 + unat len - hd_size L"
  proof -
    have "unat ?dl = (if ?hd \<le> ucast len then unat (ucast len :: u32) - unat ?hd else unat (ucast len :: u32) + 2 ^ 32 - unat ?hd)"
      by (simp add: unat_sub_if_size word_size word_le_nat_alt)
    moreover have "\<not> ?hd \<le> ucast len" using h uh unat_ucast32[of len] by (simp add: word_le_nat_alt)
    ultimately show ?thesis using uh unat_ucast32[of len] by simp
  qed
  let ?st = "ms_add (reply_events L x cmd nm) (st\<lparr>ms_buf := ?buf\<rparr>)"
  have "ma_loop L x (Suc (Suc k)) 0 pkt_len st = ma_loop L x (Suc k) (hd_size L + unat ?dl) (pkt_len - ?hd - ?dl) ?st"
    using h by (simp only: ma_loop.simps(2)[of L x "Suc k"] add_0 g if_False nm w c bind.bind_lunit Let_def
        dispatch_simple[OF assms(1)] option.case prod.case conf_run.case simp_thms)
  moreover have "pkt_len - ?hd - ?dl = pkt_len - ucast len" by simp
  moreover have "\<not> pkt_len - ucast len < ?hd" using h uh by (simp add: word_less_nat_alt)
  moreover have "rd_be16 (ms_buf ?st) (hd_size L + unat ?dl + off_len L) = None"
  proof -
    have "length ?buf = length (ms_buf st)" using h b by (intro length_overlay) simp
    then show ?thesis using ud assms(3) b(6) by (simp add: rd_be16_def rd_n_def ms_add_def)
  qed
  ultimately show "ma_cmd_parser n L x pkt_len st = Undefined"
    unfolding ma_cmd_parser_def k by (simp only: ma_loop.simps if_False bind.bind_lzero option.case)
qed

theorem ma_parser_stops_witness:
  "ma_cmd_parser 100 plain_layout test_ext 16 \<lparr>ms_buf = replicate 16 0, ms_conf = start_vars, ms_v = 0, ms_log = []\<rparr> = Undefined"
proof -
  let ?st = "\<lparr>ms_buf = replicate 16 0, ms_conf = start_vars, ms_v = 0, ms_log = []\<rparr>"
  have z: "rd_be16 (replicate 16 0) i = Some 0" if "i < 10" for i
  proof -
    have "rd_n (replicate 16 (0 :: u8)) i 2 = Some [0, 0]" using that by (simp add: rd_n_def min_def numeral_2_eq_2)
    then show ?thesis by (simp add: rd_be16_def be_of_def)
  qed
  from ma_parser_stops[OF plain_layout_ok, of ?st 100 test_ext 16 0, THEN conjunct2, rule_format, of 0] show ?thesis
    using z by (simp add: plain_layout_def test_ext_def simple_cmd_def)
qed

end
