(* ===== verification/Conn_Session.thy ===== *)
theory Conn_Session
  imports Conn_Commands
begin

text \<open>
  The threads of \<open>Conn_Serv\<close> from outside: the protocol their calls of the network follow, for the guard and for the
  agent, and what a reload of the configuration does to it.
\<close>

subsection \<open>The session with the guard\<close>

text \<open>
  What a session looks like from outside: a socket that is connected or closed again, one registration, signs of life, a close. Closing without
  a connection is the close of -1.
\<close>

datatype sess = Closed | Made int | Fresh int | Ready int

fun sess_step :: "pkt_layout \<Rightarrow> sess \<Rightarrow> conn_event \<Rightarrow> sess option" where
  "sess_step L Closed (Conn_socket fd) = Some (Made fd)"
| "sess_step L (Made fd) (Conn_open fd' port) = (if fd' = fd then Some (Fresh fd) else None)"
| "sess_step L (Made fd) (Conn_close fd') = (if fd' = fd then Some Closed else None)"
| "sess_step L Closed (Conn_close fd) = (if fd = -1 then Some Closed else None)"
| "sess_step L (Fresh fd) (Conn_write fd' bs) = (if fd' = fd \<and> rd_be16 bs (off_cmd L) = Some 16 then Some (Ready fd) else None)"
| "sess_step L (Ready fd) (Conn_write fd' bs) = (if fd' = fd \<and> rd_be16 bs (off_cmd L) = Some 5 then Some (Ready fd) else None)"
| "sess_step L (Ready fd) (Conn_close fd') = (if fd' = fd then Some Closed else None)"
| "sess_step L _ _ = None"

definition sess_of :: "pkt_layout \<Rightarrow> conn_event list \<Rightarrow> sess option" where
  "sess_of L es = foldl (\<lambda>a e. Option.bind a (\<lambda>s. sess_step L s e)) (Some Closed) es"

lemma sess_of_snoc: "sess_of L (es @ [e]) = Option.bind (sess_of L es) (\<lambda>s. sess_step L s e)"
  by (simp add: sess_of_def)

lemma sess_of_Nil [simp]: "sess_of L [] = Some Closed"
  by (simp add: sess_of_def)

text \<open>The sequence numbers of the packets written.\<close>

fun written_nums :: "pkt_layout \<Rightarrow> conn_event list \<Rightarrow> u16 option list" where
  "written_nums L [] = []"
| "written_nums L (Conn_write fd bs # es) = rd_be16 bs (off_num L) # written_nums L es"
| "written_nums L (e # es) = written_nums L es"

lemma written_nums_append: "written_nums L (es @ es') = written_nums L es @ written_nums L es'"
  by (induction L es rule: written_nums.induct) auto

definition nums_from :: "u16 \<Rightarrow> nat \<Rightarrow> u16 option list" where
  "nums_from n0 k = map (\<lambda>i. Some (n0 + of_nat i)) [0..<k]"

text \<open>
  The session of a thread; that of the guard also counts its packets. (The number of the agent's packets is a variable of the log
  library, which counts it up for packets of its own.)
\<close>

definition sess_ok :: "pkt_layout \<Rightarrow> sess \<Rightarrow> conn_state \<Rightarrow> bool" where
  "sess_ok L se s \<longleftrightarrow> length (cs_pkt s) = 2048 \<and> sess_of L (cs_log s) = Some se"

definition guard_ok :: "pkt_layout \<Rightarrow> u16 \<Rightarrow> sess \<Rightarrow> conn_state \<Rightarrow> bool" where
  "guard_ok L n0 se s \<longleftrightarrow> sess_ok L se s \<and>
     (\<exists>k. written_nums L (cs_log s) = nums_from n0 k \<and> cs_num s = n0 + of_nat k)"

definition idle :: "conn_state \<Rightarrow> sess" where
  "idle s = (if cs_sock s = -1 then Closed else Ready (cs_sock s))"

text \<open>A packet with the command the session expects keeps it going.\<close>

lemma cs_send_sess:
  assumes ok: "sess_ok L se s" and se: "se = Fresh (cs_sock s) \<and> cmd = 16 \<or> se = Ready (cs_sock s) \<and> cmd = 5"
    and f: "\<exists>n p. filler (cs_pkt s) (cs_num s) = Some (n, p) \<and> length p = 2048 \<and> unat n \<le> 2048 \<and> message L (take (unat n) p) 0 cmd (cs_num s) body"
  shows "\<exists>r s' b. cs_send env filler s = Some (r, s') \<and> sess_ok L (Ready (cs_sock s)) s' \<and> cs_sock s' = cs_sock s \<and> cs_conf s' = cs_conf s \<and>
    cs_num s' = cs_num s + 1 \<and> cs_log s' = cs_log s @ [Conn_write (cs_sock s) b] \<and> rd_be16 b (off_num L) = Some (cs_num s)"
proof -
  obtain n p where p: "filler (cs_pkt s) (cs_num s) = Some (n, p)" "length p = 2048" "unat n \<le> 2048"
    "message L (take (unat n) p) 0 cmd (cs_num s) body"
    using f by blast
  let ?b = "take (unat n) p"
  let ?s = "cs_add [Conn_write (cs_sock s) ?b] (s\<lparr>cs_pkt := p, cs_num := cs_num s + 1\<rparr>)"
  have hdr: "rd_be16 ?b (off_cmd L) = Some cmd" "rd_be16 ?b (off_num L) = Some (cs_num s)"
    using p(4) by (simp_all add: message_def header_is_def)
  have "cs_send env filler s = Some (ce_write env ?b, ?s)" using p by (simp add: cs_send_def rd_n_def)
  moreover have "sess_ok L (Ready (cs_sock s)) ?s"
    using ok se hdr p(2) by (auto simp: cs_add_def sess_of_snoc sess_ok_def)
  ultimately show ?thesis using hdr by (auto simp: cs_add_def)
qed

lemma cs_send_ok:
  assumes ok: "guard_ok L n0 se s" and se: "se = Fresh (cs_sock s) \<and> cmd = 16 \<or> se = Ready (cs_sock s) \<and> cmd = 5"
    and f: "\<exists>n p. filler (cs_pkt s) (cs_num s) = Some (n, p) \<and> length p = 2048 \<and> unat n \<le> 2048 \<and> message L (take (unat n) p) 0 cmd (cs_num s) body"
    and L: "layout_ok L"
  shows "\<exists>r s'. cs_send env filler s = Some (r, s') \<and> guard_ok L n0 (Ready (cs_sock s)) s' \<and> cs_sock s' = cs_sock s \<and> cs_conf s' = cs_conf s"
proof -
  obtain k where k: "sess_ok L se s" "written_nums L (cs_log s) = nums_from n0 k" "cs_num s = n0 + of_nat k" using ok by (auto simp: guard_ok_def)
  from cs_send_sess[of L se s cmd filler body, OF k(1) se f, of env] obtain r s' b where s': "cs_send env filler s = Some (r, s')" "sess_ok L (Ready (cs_sock s)) s'"
    "cs_sock s' = cs_sock s" "cs_conf s' = cs_conf s" "cs_num s' = cs_num s + 1" "cs_log s' = cs_log s @ [Conn_write (cs_sock s) b]"
    "rd_be16 b (off_num L) = Some (cs_num s)" by blast
  have "written_nums L (cs_log s') = nums_from n0 (Suc k)" "cs_num s' = n0 + of_nat (Suc k)"
    using k s'(5-7) by (simp_all add: written_nums_append nums_from_def)
  then show ?thesis using s'(1-4) unfolding guard_ok_def by blast
qed

lemma guard_close:
  assumes "guard_ok L n0 (Ready (cs_sock s)) s"
  shows "guard_ok L n0 Closed (cs_close s)"
  using assms by (auto simp: guard_ok_def sess_ok_def cs_close_def cs_add_def sess_of_snoc written_nums_append)

lemma sguard_alive_ok:
  assumes ok: "guard_ok L n0 (Ready (cs_sock s)) s" and L: "layout_ok L" and fd: "cs_sock s \<noteq> -1"
  shows "\<exists>s'. sguard_alive L env s = Some s' \<and> guard_ok L n0 (idle s') s'"
proof -
  have "length (cs_pkt s) = 2048" using ok by (simp add: guard_ok_def sess_ok_def)
  from alive_message[OF L this]
  obtain r s1 where s1: "cs_send env (vpu_fill_alive_packet L) s = Some (r, s1)" "guard_ok L n0 (Ready (cs_sock s)) s1" "cs_sock s1 = cs_sock s"
    using cs_send_ok[OF ok, of 5 "vpu_fill_alive_packet L"] L by blast
  then have "guard_ok L n0 Closed (cs_close s1)" using guard_close by simp
  then show ?thesis using s1 fd by (auto simp: sguard_alive_def idle_def cs_close_def cs_add_def)
qed

lemma sguard_turn_ok:
  assumes ok: "guard_ok L n0 (idle s) s" and L: "layout_ok L" and ip: "length (server_ip (cs_conf s)) < 16"
  shows "\<exists>s'. sguard_turn L env s = Some s' \<and> guard_ok L n0 (idle s') s'"
proof -
  define s1 where s1: "s1 = (if dms_sguard_reload (cs_conf s) = 1
     then (cs_close s)\<lparr>cs_conf := (cs_conf s)\<lparr>dms_sguard_reload := 0\<rparr>\<rparr> else s)"
  have ok1: "guard_ok L n0 (idle s1) s1" and ip1: "length (server_ip (cs_conf s1)) < 16"
    using ok ip by (auto simp: s1 idle_def guard_ok_def sess_ok_def cs_close_def cs_add_def sess_of_snoc written_nums_append)
  have turn: "sguard_turn L env s = (if cs_sock s1 = -1
      then (let (fd, es) = connect2sguard env (cs_conf s1) in
        if fd = -1 then Some (cs_failed (cs_add es s1))
        else do {
          (_, s2) \<leftarrow> cs_send env (vpu_fill_regsguard_packet L (ce_pid env) (cs_conf s1)) (cs_add es (s1\<lparr>cs_sock := fd\<rparr>));
          sguard_alive L env s2})
      else sguard_alive L env s1)"
    by (simp only: sguard_turn_def Let_def s1)
  show ?thesis
  proof (cases "cs_sock s1 = -1")
    case False
    then show ?thesis using sguard_alive_ok[of L n0 s1 env] ok1 L unfolding turn by (simp add: idle_def)
  next
    case True
    obtain fd es where c: "connect2sguard env (cs_conf s1) = (fd, es)" by (cases "connect2sguard env (cs_conf s1)")
    show ?thesis
    proof (cases "fd = -1")
      case fd: True
      have "es = [] \<or> (\<exists>k. es = [Conn_socket k, Conn_close k])"
        using c fd by (auto simp: connect2sguard_def connect_to_def split: if_splits)
      then have "guard_ok L n0 (idle (cs_failed (cs_add es s1))) (cs_failed (cs_add es s1))"
        using ok1 True sess_of_snoc[of L "cs_log s1 @ [Conn_socket k]" for k]
        by (auto simp: guard_ok_def sess_ok_def idle_def cs_failed_def cs_add_def sess_of_snoc written_nums_append)
      then show ?thesis unfolding turn using True fd c by simp
    next
      case fd: False
      let ?s = "cs_add es (s1\<lparr>cs_sock := fd\<rparr>)"
      have f: "cs_sock ?s = fd" by (simp add: cs_add_def)
      have "\<exists>p. es = [Conn_socket fd, Conn_open fd p]"
        using c fd by (auto simp: connect2sguard_def connect_to_def split: if_splits)
      then have ok2: "guard_ok L n0 (Fresh (cs_sock ?s)) ?s"
        using ok1 True sess_of_snoc[of L "cs_log s1 @ [Conn_socket fd]"]
        by (auto simp: guard_ok_def sess_ok_def idle_def cs_add_def sess_of_snoc written_nums_append)
      have "length (cs_pkt ?s) = 2048" using ok2 by (simp add: guard_ok_def sess_ok_def)
      from regsguard_message[OF L this ip1]
      obtain r s2 where s2: "cs_send env (vpu_fill_regsguard_packet L (ce_pid env) (cs_conf s1)) ?s = Some (r, s2)"
          "guard_ok L n0 (Ready (cs_sock ?s)) s2" "cs_sock s2 = cs_sock ?s"
        using cs_send_ok[OF ok2, of 16 "vpu_fill_regsguard_packet L (ce_pid env) (cs_conf s1)"] L by blast
      obtain s3 where "sguard_alive L env s2 = Some s3" "guard_ok L n0 (idle s3) s3"
        using sguard_alive_ok[of L n0 s2 env] s2 L fd f by auto
      then show ?thesis unfolding turn using True fd s2(1) c by simp
    qed
  qed
qed

text \<open>
  C39. The thread of the guard keeps to its protocol. Whatever the network answers and however the configuration changes between
  the turns, nothing undefined happens, every connection starts with one registration, goes on with signs of
  life on the same socket and is closed before the next is made, no socket is left open at the end of the thread, and the
  sequence numbers count up by one from packet to packet.
\<close>

theorem sguard_protocol:
  assumes "layout_ok L" and "length pkt = 2048" and "\<forall>(env, c) \<in> set es. length (server_ip c) < 16"
  shows "\<exists>s' k. sguard_run L es (conn_start pkt n0 conf) = Some s' \<and> sess_of L (cs_log s') = Some (idle s') \<and>
    written_nums L (cs_log s') = nums_from n0 k \<and>
    (port_sguard (vpu_conf conf) \<noteq> 0 \<and> sn (vpu_conf conf) \<noteq> 0 \<longrightarrow>
       (\<exists>s''. conn_sguard L es pkt n0 conf = Some (Some s'') \<and> sess_of L (cs_log s'') = Some Closed))"
proof -
  have "\<exists>s'. sguard_run L es s = Some s' \<and> guard_ok L n0 (idle s') s'" if "guard_ok L n0 (idle s) s" for s
    using that assms(3)
  proof (induction es arbitrary: s)
    case Nil
    then show ?case by simp
  next
    case (Cons e es)
    obtain env c where e: "e = (env, c)" by (cases e)
    have "guard_ok L n0 (idle (s\<lparr>cs_conf := c\<rparr>)) (s\<lparr>cs_conf := c\<rparr>)" using Cons.prems(1) by (simp add: guard_ok_def sess_ok_def idle_def)
    moreover have "length (server_ip (cs_conf (s\<lparr>cs_conf := c\<rparr>))) < 16" using Cons.prems(2) e by simp
    ultimately obtain s1 where s1: "sguard_turn L env (s\<lparr>cs_conf := c\<rparr>) = Some s1" "guard_ok L n0 (idle s1) s1"
      using sguard_turn_ok[of L n0 "s\<lparr>cs_conf := c\<rparr>" env] assms(1) by blast
    show ?case using Cons.IH[OF s1(2)] Cons.prems(2) s1(1) e by simp
  qed
  moreover have "guard_ok L n0 (idle (conn_start pkt n0 conf)) (conn_start pkt n0 conf)"
    using assms(2) by (auto simp: guard_ok_def sess_ok_def idle_def conn_start_def nums_from_def intro: exI[of _ 0])
  ultimately obtain s' where "sguard_run L es (conn_start pkt n0 conf) = Some s'" "guard_ok L n0 (idle s') s'" by blast
  moreover from this have "sess_of L (cs_log (cs_close s')) = Some Closed"
    by (auto simp: guard_ok_def sess_ok_def cs_close_def cs_add_def sess_of_snoc idle_def)
  ultimately show ?thesis by (auto simp: guard_ok_def sess_ok_def conn_sguard_def)
qed

definition test_conn :: conn_env where
  "test_conn = \<lparr>ce_pid = 1, ce_socket = 5, ce_pton = (\<lambda>ip. 1), ce_connect = (\<lambda>ip p. 0), ce_write = (\<lambda>bs. -1), ce_select = 0, ce_read = Inl 0\<rparr>"

theorem sguard_protocol_witness:
  "\<exists>s' k. sguard_run plain_layout [(test_conn, start_vars), (test_conn, start_vars)] (conn_start (replicate 2048 0) 9 start_vars) = Some s' \<and>
     sess_of plain_layout (cs_log s') = Some (idle s') \<and> written_nums plain_layout (cs_log s') = nums_from 9 k"
proof -
  have "\<forall>(env, c) \<in> set [(test_conn, start_vars), (test_conn, start_vars)]. length (server_ip c) < 16"
    by (simp add: start_vars_def)
  from sguard_protocol[OF plain_layout_ok _ this, of "replicate 2048 0" 9 start_vars] show ?thesis by auto
qed

text \<open>
  A new port of the guard does not reach the connection. After a reload has found another port in the file, the next turn of the
  thread closes its connection and opens one to the port it had before.
\<close>

theorem guard_keeps_port:
  assumes "reload_sguard_port c = Some (Cont r c')" and "dms_sguard_reload c' = 1"
    and "ce_socket env = fd" and "fd \<noteq> -1" and "\<forall>ip port. ce_pton env ip = 1 \<and> ce_connect env ip port = 0"
    and "sguard_turn L env (s\<lparr>cs_conf := c'\<rparr>) = Some s'"
  shows "\<exists>es. cs_log s' = cs_log s @ [Conn_close (cs_sock s), Conn_socket fd, Conn_open fd (port_sguard (vpu_conf c))] @ es"
proof -
  have p: "vpu_conf c' = vpu_conf c" using reload_sguard_keeps[OF assms(1)] by simp
  have send: "\<exists>es. cs_log s2 = cs_log s1 @ es" if "cs_send env f s1 = Some (x, s2)" for f s1 x s2
    using that by (auto simp: cs_send_def cs_add_def split: Option.bind_splits)
  have alive: "\<exists>es. cs_log s2 = cs_log s1 @ es" if a: "sguard_alive L env s1 = Some s2" for s1 s2
  proof -
    obtain x s3 where "cs_send env (vpu_fill_alive_packet L) s1 = Some (x, s3)" "s2 = (if x \<le> 0 then cs_close s3 else s3)"
      using a by (auto simp: sguard_alive_def split: Option.bind_splits)
    then show ?thesis using send by (fastforce simp: cs_close_def cs_add_def)
  qed
  let ?s = "cs_add [Conn_socket fd, Conn_open fd (port_sguard (vpu_conf c))]
     ((cs_close (s\<lparr>cs_conf := c'\<rparr>))\<lparr>cs_conf := c'\<lparr>dms_sguard_reload := 0\<rparr>, cs_sock := fd\<rparr>)"
  obtain x s2 where "cs_send env (vpu_fill_regsguard_packet L (ce_pid env) (c'\<lparr>dms_sguard_reload := 0\<rparr>)) ?s = Some (x, s2)"
      "sguard_alive L env s2 = Some s'"
    using assms(2-6) by (auto simp: sguard_turn_def Let_def p connect2sguard_def connect_to_def cs_close_def cs_add_def split: Option.bind_splits)
  then obtain es es' where "cs_log s2 = cs_log ?s @ es" "cs_log s' = cs_log s2 @ es'" using send alive by blast
  then show ?thesis by (simp add: cs_add_def cs_close_def)
qed

subsection \<open>The session with the agent\<close>

lemma ma_loop_length:
  "ma_loop L x n left left_len st = Returned (Cont c st') \<Longrightarrow> length (ms_buf st') = length (ms_buf st)"
proof (induction n arbitrary: left left_len st)
  case 0
  then show ?case by simp
next
  case (Suc n)
  show ?case
  proof (cases "left_len < of_nat (hd_size L)")
    case True
    then show ?thesis using Suc.prems by simp
  next
    case False
    obtain len num buf' cmd r where step: "rd_be16 (ms_buf st) (left + off_len L) = Some len" "rd_be16 (ms_buf st) (left + off_num L) = Some num"
        "wr_n (ms_buf st) (left + off_num L) (to_le 2 num) = Some buf'" "rd_be16 buf' (left + off_cmd L) = Some cmd"
        "ma_dispatch L x cmd (left + hd_size L) (ucast len - of_nat (hd_size L)) num (st\<lparr>ms_buf := buf'\<rparr>) = Some r"
      using Suc.prems False by (auto simp: Let_def split: option.splits Option.bind_splits conf_run.splits)
    show ?thesis
    proof (cases r)
      case (Exit e)
      then show ?thesis using Suc.prems False step by (simp add: Let_def)
    next
      case (Cont e st1)
      have "length (ms_buf st1) = length (ms_buf st)"
        using dispatch_buf[OF step(5)[unfolded Cont]] wr_n_length[OF step(3)] by simp
      then show ?thesis using Suc.prems False step Cont Suc.IH by (simp add: Let_def)
    qed
  qed
qed

lemma sess_close:
  assumes "sess_ok L (Ready (cs_sock s)) s"
  shows "sess_ok L Closed (cs_close s)"
  using assms by (auto simp: sess_ok_def cs_close_def cs_add_def sess_of_snoc)

lemma ma_receive_ok:
  assumes ok: "sess_ok L (Ready (cs_sock s)) s" and fd: "cs_sock s \<noteq> -1"
    and r: "ma_receive n L x v env s = Returned (Cont 0 (s', es))"
  shows "sess_ok L (idle s') s'"
proof -
  have c: "sess_ok L (idle (cs_close s)) (cs_close s)" using sess_close[OF ok] by (simp add: idle_def cs_close_def cs_add_def)
  have same: "sess_ok L (idle s) s" using ok fd by (simp add: idle_def)
  show ?thesis
  proof (cases "ce_select env \<le> 0")
    case True
    then show ?thesis using r same by (simp add: ma_receive_def)
  next
    case False
    show ?thesis
    proof (cases "\<exists>bs. ce_read env = Inr bs \<and> bs \<noteq> []")
      case True
      then obtain bs where bs: "ce_read env = Inr bs" "bs \<noteq> []" by blast
      obtain pkt where w: "wr_n (cs_pkt s) 0 bs = Some pkt"
        using r False bs by (cases "wr_n (cs_pkt s) 0 bs") (auto simp: ma_receive_def split: list.splits)
      obtain c st where p: "ma_cmd_parser n L x (of_nat (length bs)) \<lparr>ms_buf = pkt, ms_conf = cs_conf s, ms_v = v, ms_log = []\<rparr> = Returned (Cont c st)"
          "s' = s\<lparr>cs_pkt := ms_buf st, cs_conf := ms_conf st\<rparr>"
        using r False bs w by (auto simp: ma_receive_def split: list.splits loop_result.splits conf_run.splits)
      have "length (ms_buf st) = length (cs_pkt s)"
        using ma_loop_length[OF p(1)[unfolded ma_cmd_parser_def]] wr_n_length[OF w] by simp
      then show ?thesis using same p(2) by (simp add: sess_ok_def idle_def)
    next
      case no: False
      then have "s' = cs_close s" using r False by (auto simp: ma_receive_def split: sum.splits list.splits)
      then show ?thesis using c by simp
    qed
  qed
qed

text \<open>
  The thread of the agent opens one connection at a time. A turn that returns keeps the session in order: a connection starts with one
  registration and is closed before the next is made, whatever the network delivers and the commands do.
\<close>

theorem ma_session:
  assumes ok: "sess_ok L (idle s) s" and L: "layout_ok L"
    and r: "ma_turn n L x v env s = Returned (Cont 0 (s', es))"
  shows "sess_ok L (idle s') s' \<and> sess_of L (cs_log s') = Some (idle s')"
proof -
  define s1 where s1: "s1 = (if dms_ma_reload (cs_conf s) = 1
     then (cs_close s)\<lparr>cs_conf := (cs_conf s)\<lparr>dms_ma_reload := 0\<rparr>\<rparr> else s)"
  have ok1: "sess_ok L (idle s1) s1"
    using ok by (auto simp: s1 idle_def sess_ok_def cs_close_def cs_add_def sess_of_snoc written_nums_append)
  have turn: "ma_turn n L x v env s = (if cs_sock s1 = -1
      then (let (fd, es) = connect2ma env (cs_conf s1) in
        if fd = -1 then Returned (Cont 0 (cs_failed (cs_add es s1), []))
        else (case cs_send env (vpu_fill_regma_packet L (ce_pid env) (cs_conf s1)) (cs_add es (s1\<lparr>cs_sock := fd\<rparr>)) of
            None \<Rightarrow> Undefined
          | Some (_, s2) \<Rightarrow> ma_receive n L x v env s2))
      else ma_receive n L x v env s1)"
    by (simp only: ma_turn_def Let_def s1)
  have "sess_ok L (idle s') s'"
  proof (cases "cs_sock s1 = -1")
    case False
    then show ?thesis using ma_receive_ok[of L s1] ok1 r unfolding turn by (simp add: idle_def)
  next
    case True
    obtain fd cs where c: "connect2ma env (cs_conf s1) = (fd, cs)" by (cases "connect2ma env (cs_conf s1)")
    show ?thesis
    proof (cases "fd = -1")
      case fd: True
      have "cs = [] \<or> (\<exists>k. cs = [Conn_socket k, Conn_close k])"
        using c fd by (auto simp: connect2ma_def connect_to_def split: if_splits)
      then have "sess_ok L (idle (cs_failed (cs_add cs s1))) (cs_failed (cs_add cs s1))"
        using ok1 True sess_of_snoc[of L "cs_log s1 @ [Conn_socket k]" for k]
        by (auto simp: sess_ok_def idle_def cs_failed_def cs_add_def sess_of_snoc written_nums_append)
      then show ?thesis using r True fd c unfolding turn by simp
    next
      case fd: False
      let ?s = "cs_add cs (s1\<lparr>cs_sock := fd\<rparr>)"
      have f: "cs_sock ?s = fd" by (simp add: cs_add_def)
      have "\<exists>p. cs = [Conn_socket fd, Conn_open fd p]"
        using c fd by (auto simp: connect2ma_def connect_to_def split: if_splits)
      then have ok2: "sess_ok L (Fresh (cs_sock ?s)) ?s"
        using ok1 True sess_of_snoc[of L "cs_log s1 @ [Conn_socket fd]"]
        by (auto simp: sess_ok_def idle_def cs_add_def sess_of_snoc written_nums_append)
      have "length (cs_pkt ?s) = 2048" using ok2 by (simp add: sess_ok_def)
      from regma_message[OF L this]
      obtain a s2 where s2: "cs_send env (vpu_fill_regma_packet L (ce_pid env) (cs_conf s1)) ?s = Some (a, s2)"
          "sess_ok L (Ready (cs_sock ?s)) s2" "cs_sock s2 = cs_sock ?s"
        using cs_send_sess[OF ok2, of 16 "vpu_fill_regma_packet L (ce_pid env) (cs_conf s1)"] by blast
      then show ?thesis using ma_receive_ok[of L s2 n x v env s' es] r True fd c f unfolding turn by simp
    qed
  qed
  then show ?thesis by (simp add: sess_ok_def)
qed

theorem ma_session_witness:
  "\<exists>s' es. ma_turn 10 plain_layout test_ext 0 test_conn (conn_start (replicate 2048 0) 9 start_vars) = Returned (Cont 0 (s', es)) \<and>
     sess_of plain_layout (cs_log s') = Some (idle s')"
proof -
  let ?s = "conn_start (replicate 2048 0) 9 start_vars"
  have g: "sess_ok plain_layout (idle ?s) ?s"
    by (auto simp: sess_ok_def idle_def conn_start_def nums_from_def intro: exI[of _ 0])
  let ?t = "cs_add [Conn_socket 5, Conn_open 5 0] (?s\<lparr>cs_sock := 5\<rparr>)"
  have t: "sess_ok plain_layout (Fresh (cs_sock ?t)) ?t"
    using sess_of_snoc[of plain_layout "[Conn_socket 5]" "Conn_open 5 0"] sess_of_snoc[of plain_layout "[]" "Conn_socket 5"]
    by (auto simp: sess_ok_def conn_start_def nums_from_def cs_add_def intro: exI[of _ 0])
  have "length (cs_pkt ?t) = 2048" by (simp add: conn_start_def cs_add_def)
  from regma_message[OF plain_layout_ok this] obtain a s2 where
    "cs_send test_conn (vpu_fill_regma_packet plain_layout 1 start_vars) ?t = Some (a, s2)"
    using cs_send_sess[OF t, of 16 "vpu_fill_regma_packet plain_layout 1 start_vars"] plain_layout_ok by blast
  then have "ma_turn 10 plain_layout test_ext 0 test_conn ?s = Returned (Cont 0 (s2, []))"
    by (simp add: ma_turn_def ma_receive_def connect2ma_def connect_to_def test_conn_def conn_start_def start_vars_def default_param_def)
  from ma_session[OF g plain_layout_ok this] this show ?thesis by blast
qed

definition new_port :: conf_vars where
  "new_port = start_vars\<lparr>vpu_conf := default_param\<lparr>port_sguard := 2000\<rparr>,
     conf_root := Some (ConfNode '''' None False True [ConfNode ''ma'' None False True [leaf ''sguardport'' ''2005'']])\<rparr>"

theorem guard_keeps_port_witness:
  "\<exists>s' es. sguard_turn plain_layout test_conn ((conn_start (replicate 2048 0) 9 start_vars)\<lparr>cs_conf := new_port\<lparr>dms_sguard_reload := 1\<rparr>\<rparr>) = Some s' \<and>
     cs_log s' = [Conn_close (-1), Conn_socket 5, Conn_open 5 2000] @ es"
proof -
  have r: "reload_sguard_port new_port = Some (Cont 0 (new_port\<lparr>dms_sguard_reload := 1\<rparr>))"
  proof -
    have "atoi ''2005'' = Some 2005" by (simp add: atoi_def is_space_def is_digit_def dec_value_def Let_def)
    then show ?thesis
      by (simp add: reload_sguard_port_def new_port_def conf_value_def ConfGet_def ConfGetNode_def ConfNodeLookupChild_def leaf_def Let_def)
  qed
  let ?s = "conn_start (replicate 2048 0) 9 start_vars"
  let ?t = "?s\<lparr>cs_conf := new_port\<lparr>dms_sguard_reload := 1\<rparr>\<rparr>"
  have g: "guard_ok plain_layout 9 (idle ?t) ?t"
    by (auto simp: guard_ok_def sess_ok_def idle_def conn_start_def nums_from_def intro: exI[of _ 0])
  have "length (server_ip (cs_conf ?t)) < 16" by (simp add: new_port_def start_vars_def)
  from sguard_turn_ok[OF g plain_layout_ok this] obtain s' where s': "sguard_turn plain_layout test_conn ?t = Some s'" by blast
  have "ce_socket test_conn = 5" "\<forall>ip port. ce_pton test_conn ip = 1 \<and> ce_connect test_conn ip port = 0" by (simp_all add: test_conn_def)
  from guard_keeps_port[OF r _ this(1) _ this(2) s'] show ?thesis using s' by (auto simp: new_port_def start_vars_def conn_start_def)
qed

end
