(* ===== verification/File_Server.thy ===== *)
theory File_Server
  imports Voice_Parser
begin

text \<open>
  The replay server, \<open>src/src/file_server.c\<close>: a client sends one request, a list of tagged fields,
  and receives a result, a size and the samples of a recorded call (both directions interleaved),
  the fax pictures of a call, or a live copy of a running call, whose socket is then left
  in the slot of the call for \<open>send_voice_data\<close>.

  The file system is a parameter: the results of \<open>localtime_r\<close>, \<open>stat\<close> and \<open>open\<close>, and of the
  \<open>k\<close>-th \<open>read\<close> of a file, which is \<^const>\<open>None\<close> where it returns -1. What the server writes to
  sockets and closes is the log of events of \<open>Voice_File\<close>.
\<close>

subsection \<open>Messages\<close>

record fs_env =
  fs_localtime :: "int \<Rightarrow> tm option"
  fs_stat :: "string \<Rightarrow> (bool \<times> u64) option"
  fs_open :: "string \<Rightarrow> int"
  fs_read :: "string \<Rightarrow> nat \<Rightarrow> u8 list option"

definition send_result :: "u16 \<Rightarrow> int \<Rightarrow> io_event list \<Rightarrow> io_event list" where
  "send_result result sock log =
     log @ [Write sock (to_be 2 (0x02 :: u16) @ to_be 2 (0x02 :: u16) @ to_be 2 result)]"

definition send_voice_size :: "u32 \<Rightarrow> int \<Rightarrow> io_event list \<Rightarrow> io_event list" where
  "send_voice_size sz sock log =
     log @ [Write sock (to_be 2 (0x03 :: u16) @ to_be 2 (0x04 :: u16) @ to_be 4 sz)]"

definition send_faxpic_size :: "u32 \<Rightarrow> int \<Rightarrow> io_event list \<Rightarrow> io_event list" where
  "send_faxpic_size sz sock log =
     log @ [Write sock (to_be 2 (0x04 :: u16) @ to_be 2 (0x04 :: u16) @ to_be 4 sz)]"

subsection \<open>Requests\<close>

text \<open>The variables a request sets; \<^const>\<open>None\<close> is a variable not yet set, whose pointer is null.\<close>

record req =
  rq_callid :: "u64 option"
  rq_case :: "u16 option"
  rq_time :: "u16 option"
  rq_type :: "u16 option"

definition empty_req :: req where
  "empty_req = \<lparr>rq_callid = None, rq_case = None, rq_time = None, rq_type = None\<rparr>"

text \<open>The value of one field at \<open>off\<close>; \<open>Some None\<close> is a type the parser refuses.\<close>

definition cmd_field :: "u8 list \<Rightarrow> nat \<Rightarrow> u16 \<Rightarrow> req \<Rightarrow> req option option" where
  "cmd_field buf off data_type r =
     (if data_type = 0x01 then do {bs \<leftarrow> rd_n buf (off + 4) 8; Some (Some (r\<lparr>rq_callid := Some (le_of bs)\<rparr>))}
      else if data_type = 0x02 then do {v \<leftarrow> rd_be16 buf (off + 4); Some (Some (r\<lparr>rq_case := Some v\<rparr>))}
      else if data_type = 0x03 then do {v \<leftarrow> rd_be16 buf (off + 4); Some (Some (r\<lparr>rq_time := Some v\<rparr>))}
      else if data_type = 0x04 then do {v \<leftarrow> rd_be16 buf (off + 4); Some (Some (r\<lparr>rq_type := Some v\<rparr>))}
      else Some None)"

definition req_complete :: "req \<Rightarrow> bool" where
  "req_complete r \<longleftrightarrow> rq_callid r \<noteq> None \<and> rq_case r \<noteq> None \<and> rq_time r \<noteq> None \<and> rq_type r \<noteq> None"

function cmd_fields :: "u8 list \<Rightarrow> nat \<Rightarrow> int \<Rightarrow> req \<Rightarrow> (int \<times> req) option" where
  "cmd_fields buf off data_left r =
     (if 4 < data_left then do {
        data_type \<leftarrow> rd_be16 buf off;
        data_len \<leftarrow> rd_be16 buf (off + 2);
        v \<leftarrow> cmd_field buf off data_type r;
        case v of
          None \<Rightarrow> Some (-1, r)
        | Some r' \<Rightarrow> cmd_fields buf (off + unat data_len + 4) (data_left - int (unat data_len) - 4) r'}
      else Some (if req_complete r then 0 else -1, r))"
  by pat_completeness auto
termination by (relation "measure (\<lambda>(buf, off, left, r). nat left)") (auto intro: le_less_trans[of _ 0])

declare cmd_fields.simps [simp del]

text \<open>\<open>buf\<close> is the caller's array of 2048 bytes, \<open>buf_len\<close> what \<open>read\<close> returned.\<close>

definition cmd_parser :: "u8 list \<Rightarrow> int \<Rightarrow> (int \<times> req) option" where
  "cmd_parser buf buf_len =
     (if buf_len \<le> 4 then Some (-1, empty_req)
      else do {
        cmd_type \<leftarrow> rd_be16 buf 0;
        cmd_len \<leftarrow> rd_be16 buf 2;
        if cmd_type \<noteq> 0x01 \<or> int (unat cmd_len) \<noteq> buf_len - 4 then Some (-1, empty_req)
        else cmd_fields buf 4 (buf_len - 4) empty_req})"

subsection \<open>Recordings\<close>

record voice_names =
  vn_up :: string
  vn_down :: string
  vn_size :: u32

definition reg_size :: "fs_env \<Rightarrow> string \<Rightarrow> u32 option" where
  "reg_size env name = (case fs_stat env name of Some (True, sz) \<Rightarrow> Some (ucast sz) | _ \<Rightarrow> None)"

definition server_path :: "string \<Rightarrow> tm \<Rightarrow> u64 \<Rightarrow> string \<Rightarrow> string \<Rightarrow> string" where
  "server_path mid_dir tms callid dir suffix = snprintf MAX_DIRS_LEN (call_path dir mid_dir tms callid suffix)"

text \<open>The loop over the directories; the names of the last one tried stay in the caller's buffers.\<close>

fun check_dirs ::
  "fs_env \<Rightarrow> (string \<Rightarrow> string \<Rightarrow> string) \<Rightarrow> file_dirs_node list \<Rightarrow> nat \<Rightarrow> nat \<Rightarrow> voice_names \<Rightarrow> (int \<times> voice_names) option" where
  "check_dirs env name es i 0 v = Some (-1, v)"
| "check_dirs env name es i (Suc k) v = do {
     e \<leftarrow> rd es i;
     let up = name (dir_name e) ''_up'';
     let down = name (dir_name e) ''_down'';
     case (reg_size env up, reg_size env down) of
       (Some up_size, Some down_size) \<Rightarrow>
         Some (0, v\<lparr>vn_up := up, vn_down := down,
                    vn_size := 2 * (if up_size < down_size then up_size else down_size)\<rparr>)
     | _ \<Rightarrow> check_dirs env name es (Suc i) k (v\<lparr>vn_up := up, vn_down := down\<rparr>)}"

definition check_voice_file ::
  "fs_env \<Rightarrow> file_dirs_info \<Rightarrow> u64 \<Rightarrow> u16 \<Rightarrow> voice_names \<Rightarrow> (int \<times> voice_names) option" where
  "check_voice_file env fd callid scase v =
     (case fs_localtime env (call_time callid) of
        None \<Rightarrow> Some (-2, v)
      | Some tms \<Rightarrow> do {
          (ret, v1) \<leftarrow> check_dirs env (server_path CASE_DIR tms callid) (fd_dirs fd) 0 (unat (fd_num fd)) v;
          if scase = 1 \<or> ret = 0 then Some (ret, v1)
          else check_dirs env (server_path NORMAL_DIR tms callid) (fd_dirs fd) 0 (unat (fd_num fd)) v1})"

record fax_pic_info =
  pic_name :: string
  pic_size :: u32

definition fax_pic :: "fs_env \<Rightarrow> string \<Rightarrow> fax_pic_info list" where
  "fax_pic env filename =
     (let fname_tmp = snprintf MAX_DIRS_LEN (filename @ ''.tif'') in
      case reg_size env fname_tmp of
        Some sz \<Rightarrow> [\<lparr>pic_name = snprintf MAX_DIRS_LEN fname_tmp, pic_size = sz\<rparr>]
      | None \<Rightarrow> [])"

definition pics_size :: "fax_pic_info list \<Rightarrow> u32" where
  "pics_size ps = sum_list (map (\<lambda>p. pic_size p + 4) ps)"

text \<open>The pictures found, whose number is the result, and \<open>data_size\<close>.\<close>

definition get_fax_pic_info :: "fs_env \<Rightarrow> string \<Rightarrow> string \<Rightarrow> fax_pic_info list \<times> u32" where
  "get_fax_pic_info env up down =
     (let ps = fax_pic env up @ fax_pic env down in (ps, pics_size ps))"

subsection \<open>Sending\<close>

text \<open>The result of \<open>read\<close> in a \<open>uint32_t\<close>; at most 1024 bytes are asked for.\<close>

definition read_len :: "u8 list option \<Rightarrow> u32" where
  "read_len r = (case r of None \<Rightarrow> -1 | Some bs \<Rightarrow> of_nat (length bs))"

definition read_1024 :: "fs_env \<Rightarrow> string \<Rightarrow> nat \<Rightarrow> u8 list option" where
  "read_1024 env name k = map_option (take 1024) (fs_read env name k)"

text \<open>
  One turn of the voice loop, \<open>Some None\<close> when it leaves the loop. Two reads that fail have equal
  lengths of 4294967295, and the copy then runs out of the buffers.
\<close>

definition mix_chunk :: "u8 list option \<Rightarrow> u8 list option \<Rightarrow> u8 list option option" where
  "mix_chunk up down =
     (let up_len = read_len up; down_len = read_len down in
      if up_len \<noteq> down_len \<or> up_len \<le> 0 \<or> down_len \<le> 0 then Some None
      else (case (up, down) of
          (Some us, Some ds) \<Rightarrow> Some (Some (mix_buf us ds))
        | _ \<Rightarrow> None))"

fun send_mix :: "nat \<Rightarrow> fs_env \<Rightarrow> voice_names \<Rightarrow> int \<Rightarrow> nat \<Rightarrow> io_event list \<Rightarrow> io_event list loop_result" where
  "send_mix 0 env v connfd k log = Running"
| "send_mix (Suc n) env v connfd k log =
     (case mix_chunk (read_1024 env (vn_up v) k) (read_1024 env (vn_down v) k) of
        None \<Rightarrow> Undefined
      | Some None \<Rightarrow> Returned log
      | Some (Some bs) \<Rightarrow> send_mix n env v connfd (Suc k) (log @ [Write connfd bs]))"

text \<open>The loop over one picture; a failed \<open>read\<close> makes \<open>write\<close> read far behind the buffer.\<close>

fun send_pic_data :: "nat \<Rightarrow> fs_env \<Rightarrow> string \<Rightarrow> int \<Rightarrow> nat \<Rightarrow> io_event list \<Rightarrow> io_event list loop_result" where
  "send_pic_data 0 env name connfd k log = Running"
| "send_pic_data (Suc n) env name connfd k log =
     (let r = read_1024 env name k in
      if \<not> 0 < read_len r then Returned log
      else (case r of
          None \<Rightarrow> Undefined
        | Some bs \<Rightarrow> send_pic_data n env name connfd (Suc k) (log @ [Write connfd bs])))"

fun send_pics :: "nat \<Rightarrow> fs_env \<Rightarrow> fax_pic_info list \<Rightarrow> int \<Rightarrow> io_event list \<Rightarrow> io_event list loop_result" where
  "send_pics n env [] connfd log = Returned log"
| "send_pics n env (p # ps) connfd log =
     (let faxpic_fd = fs_open env (pic_name p) in
      if faxpic_fd \<noteq> -1
      then (case send_pic_data n env (pic_name p) connfd 0
                   (log @ [Write connfd (encrypt_voice (to_be 4 (pic_size p)))]) of
              Returned log' \<Rightarrow> send_pics n env ps connfd (log' @ [Close faxpic_fd])
            | Undefined \<Rightarrow> Undefined
            | Running \<Rightarrow> Running)
      else send_pics n env ps connfd log)"

subsection \<open>A connection\<close>

abbreviation TYPE_VOICE :: u16 where "TYPE_VOICE \<equiv> 0"
abbreviation TYPE_FAX :: u16 where "TYPE_FAX \<equiv> 1"
abbreviation REAL_TIME_PLAY :: u16 where "REAL_TIME_PLAY \<equiv> 1"
abbreviation NON_REAL_TIME_PLAY :: u16 where "NON_REAL_TIME_PLAY \<equiv> 0"

definition refuse :: "int \<Rightarrow> io_event list \<Rightarrow> io_event list" where
  "refuse connfd log = send_result 0 connfd log @ [Close connfd]"

definition no_names :: voice_names where
  "no_names = \<lparr>vn_up = '''', vn_down = '''', vn_size = 0\<rparr>"

definition tx_voice :: "nat \<Rightarrow> fs_env \<Rightarrow> file_dirs_info \<Rightarrow> int \<Rightarrow> u64 \<Rightarrow> u16 \<Rightarrow> io_event list \<Rightarrow> io_event list loop_result" where
  "tx_voice n env fd connfd callid scase log =
     (case check_voice_file env fd callid scase no_names of
        None \<Rightarrow> Undefined
      | Some (ret, v) \<Rightarrow>
          (if ret \<noteq> 0 then Returned (refuse connfd log)
           else (let fileup_fd = fs_open env (vn_up v); filedown_fd = fs_open env (vn_down v) in
             if fileup_fd = -1 \<or> filedown_fd = -1
             then Returned (send_result 0 connfd log @ [Close fileup_fd, Close filedown_fd, Close connfd])
             else (case send_mix n env v connfd 0 (send_voice_size (vn_size v) connfd (send_result 1 connfd log)) of
                 Returned log' \<Rightarrow> Returned (log' @ [Close connfd, Close fileup_fd, Close filedown_fd])
               | Undefined \<Rightarrow> Undefined
               | Running \<Rightarrow> Running))))"

definition tx_live :: "int \<Rightarrow> u64 \<Rightarrow> slots \<Rightarrow> io_event list \<Rightarrow> slots \<times> io_event list" where
  "tx_live connfd callid vf log =
     (case get_file_struct callid of
        None \<Rightarrow> (vf, refuse connfd log)
      | Some j \<Rightarrow>
          (if 0 < tx_fd (vf j) then (vf, refuse connfd log)
           else (vf(j := (vf j)\<lparr>tx_fd := connfd\<rparr>),
                 send_voice_size 0xffffffff connfd (send_result 1 connfd log))))"

definition tx_fax :: "nat \<Rightarrow> fs_env \<Rightarrow> file_dirs_info \<Rightarrow> int \<Rightarrow> u64 \<Rightarrow> u16 \<Rightarrow> io_event list \<Rightarrow> io_event list loop_result" where
  "tx_fax n env fd connfd callid scase log =
     (case check_voice_file env fd callid scase no_names of
        None \<Rightarrow> Undefined
      | Some (ret, v) \<Rightarrow>
          (if ret \<noteq> 0 then Returned (refuse connfd log)
           else (let (ps, sz) = get_fax_pic_info env (vn_up v) (vn_down v) in
             if ps = [] then Returned (refuse connfd log)
             else (case send_pics n env ps connfd (send_faxpic_size sz connfd (send_result 1 connfd log)) of
                 Returned log' \<Rightarrow> Returned (log' @ [Close connfd])
               | Undefined \<Rightarrow> Undefined
               | Running \<Rightarrow> Running))))"

definition with_slots :: "slots \<Rightarrow> io_event list loop_result \<Rightarrow> (slots \<times> io_event list) loop_result" where
  "with_slots vf r = (case r of Returned log \<Rightarrow> Returned (vf, log) | Undefined \<Rightarrow> Undefined | Running \<Rightarrow> Running)"

definition tx_request ::
  "nat \<Rightarrow> fs_env \<Rightarrow> file_dirs_info \<Rightarrow> int \<Rightarrow> u64 \<Rightarrow> u16 \<Rightarrow> u16 \<Rightarrow> u16 \<Rightarrow> slots \<Rightarrow> io_event list
     \<Rightarrow> (slots \<times> io_event list) loop_result" where
  "tx_request n env fd connfd callid scase stime stype vf log =
     (if stype = TYPE_VOICE \<and> stime = NON_REAL_TIME_PLAY then with_slots vf (tx_voice n env fd connfd callid scase log)
      else if stime = REAL_TIME_PLAY then Returned (tx_live connfd callid vf log)
      else if stype = TYPE_FAX then with_slots vf (tx_fax n env fd connfd callid scase log)
      else Returned (vf, log))"

text \<open>\<open>file_tx_thread\<close> after the \<open>read\<close> of the request; \<open>n\<close> bounds the turns of a sending loop.\<close>

definition file_tx_thread ::
  "nat \<Rightarrow> fs_env \<Rightarrow> file_dirs_info \<Rightarrow> int \<Rightarrow> u8 list \<Rightarrow> int \<Rightarrow> slots \<Rightarrow> io_event list
     \<Rightarrow> (slots \<times> io_event list) loop_result" where
  "file_tx_thread n env fd connfd buf data_len vf log =
     (case cmd_parser buf data_len of
        None \<Rightarrow> Undefined
      | Some (ret, r) \<Rightarrow>
          (if ret \<noteq> 0 then Returned (vf, refuse connfd log)
           else (case (rq_callid r, rq_case r, rq_time r, rq_type r) of
               (Some callid, Some scase, Some stime, Some stype) \<Rightarrow>
                 tx_request n env fd connfd callid scase stime stype vf log
             | _ \<Rightarrow> Undefined)))"

subsection \<open>The listening thread\<close>

datatype net_event =
    Net_socket int
  | Net_bind int "string option" u16
  | Net_listen int nat
  | Net_close int
  | Net_accept int
  | Net_serve int

text \<open>What the system answers in one turn of the loop.\<close>

record net_env =
  socket_ret :: int
  bind_ret :: int
  listen_ret :: int
  select_ret :: int
  fd_isset :: bool
  accept_ret :: int
  thread_ret :: int

record file_server =
  listenfd :: int
  srv_conn_times :: u32
  vpu_reload :: u8
  srv_log :: "net_event list"

abbreviation SERVER_PORT :: u16 where "SERVER_PORT \<equiv> 8080"

text \<open>A missing address, as \<open>INADDR_ANY\<close>, is \<^const>\<open>None\<close>.\<close>

definition create_tcp_server :: "net_env \<Rightarrow> string option \<Rightarrow> u16 \<Rightarrow> int \<times> net_event list" where
  "create_tcp_server env ip port =
     (let lfd = socket_ret env in
      if lfd = -1 then (-1, [])
      else (let port' = (if port = 0 then SERVER_PORT else port); es = [Net_socket lfd, Net_bind lfd ip port'] in
        if bind_ret env = -1 then (-1, es @ [Net_close lfd])
        else if listen_ret env = -1 then (-1, es @ [Net_listen lfd 2048, Net_close lfd])
        else (lfd, es @ [Net_listen lfd 2048])))"

definition srv_add :: "net_event list \<Rightarrow> file_server \<Rightarrow> file_server" where
  "srv_add es s = s\<lparr>srv_log := srv_log s @ es\<rparr>"

definition srv_reload :: "file_server \<Rightarrow> file_server" where
  "srv_reload s =
     (if vpu_reload s = 1 then (srv_add [Net_close (listenfd s)] s)\<lparr>listenfd := -1, vpu_reload := 0\<rparr> else s)"

definition srv_create :: "net_env \<Rightarrow> string option \<Rightarrow> u16 \<Rightarrow> file_server \<Rightarrow> file_server" where
  "srv_create env ip port s =
     (if listenfd s = -1
      then (let (lfd, es) = create_tcp_server env ip port; s1 = (srv_add es s)\<lparr>listenfd := lfd\<rparr> in
        if lfd = -1
        then s1\<lparr>srv_conn_times := (if 60 \<le> srv_conn_times s1 + 1 then 0 else srv_conn_times s1 + 1)\<rparr>
        else s1)
      else s)"

definition srv_accept :: "net_env \<Rightarrow> file_server \<Rightarrow> file_server" where
  "srv_accept env s =
     (if listenfd s = -1 \<or> select_ret env < 0 \<or> \<not> fd_isset env \<or> accept_ret env = -1 then s
      else if thread_ret env \<noteq> 0 then srv_add [Net_accept (accept_ret env)] s
      else srv_add [Net_accept (accept_ret env), Net_serve (accept_ret env)] s)"

definition server_turn :: "net_env \<Rightarrow> string option \<Rightarrow> u16 \<Rightarrow> file_server \<Rightarrow> file_server" where
  "server_turn env ip port s = srv_accept env (srv_create env ip port (srv_reload s))"

subsection \<open>The request parser\<close>

text \<open>A request as the protocol describes it.\<close>

datatype req_field = Callid_field u64 | Case_field u16 | Time_field u16 | Type_field u16

fun field_bytes :: "req_field \<Rightarrow> u8 list" where
  "field_bytes (Callid_field c) = to_be 2 (1 :: u16) @ to_be 2 (8 :: u16) @ to_le 8 c"
| "field_bytes (Case_field v) = to_be 2 (2 :: u16) @ to_be 2 (2 :: u16) @ to_be 2 v"
| "field_bytes (Time_field v) = to_be 2 (3 :: u16) @ to_be 2 (2 :: u16) @ to_be 2 v"
| "field_bytes (Type_field v) = to_be 2 (4 :: u16) @ to_be 2 (2 :: u16) @ to_be 2 v"

fun set_field :: "req \<Rightarrow> req_field \<Rightarrow> req" where
  "set_field r (Callid_field c) = r\<lparr>rq_callid := Some c\<rparr>"
| "set_field r (Case_field v) = r\<lparr>rq_case := Some v\<rparr>"
| "set_field r (Time_field v) = r\<lparr>rq_time := Some v\<rparr>"
| "set_field r (Type_field v) = r\<lparr>rq_type := Some v\<rparr>"

definition encode_fields :: "req_field list \<Rightarrow> u8 list" where
  "encode_fields fs = concat (map field_bytes fs)"

definition encode_req :: "req_field list \<Rightarrow> u8 list" where
  "encode_req fs = to_be 2 (1 :: u16) @ to_be 2 (of_nat (length (encode_fields fs)) :: u16) @ encode_fields fs"

lemma cmd_fields_step:
  assumes "off = length pre"
  shows "cmd_fields (pre @ field_bytes f @ post) off (int (length (field_bytes f) + n)) r =
     cmd_fields (pre @ field_bytes f @ post) (off + length (field_bytes f)) (int n) (set_field r f)"
proof -
  define buf where "buf = pre @ field_bytes f @ post"
  obtain t l v where f: "field_bytes f = to_be 2 (t :: u16) @ to_be 2 (l :: u16) @ v" "unat l = length v" "4 < length (field_bytes f)"
    "cmd_field buf off t r = Some (Some (set_field r f))"
  proof (cases f)
    case (Callid_field c)
    have "rd_n buf (off + 4) 8 = Some (to_le 8 c)"
      using rd_n_at[of "off + 4" "pre @ to_be 2 (1 :: u16) @ to_be 2 (8 :: u16)" 8 "to_le 8 c" post] assms
      by (simp add: buf_def Callid_field)
    then show ?thesis using that[of 1 8 "to_le 8 c"] by (simp add: Callid_field cmd_field_def le_roundtrip)
  next
    case (Case_field c)
    have "rd_be16 buf (off + 4) = Some c"
      using rd_be16_at[of "off + 4" "pre @ to_be 2 (2 :: u16) @ to_be 2 (2 :: u16)" c post] assms
      by (simp add: buf_def Case_field)
    then show ?thesis using that[of 2 2 "to_be 2 c"] by (simp add: Case_field cmd_field_def)
  next
    case (Time_field c)
    have "rd_be16 buf (off + 4) = Some c"
      using rd_be16_at[of "off + 4" "pre @ to_be 2 (3 :: u16) @ to_be 2 (2 :: u16)" c post] assms
      by (simp add: buf_def Time_field)
    then show ?thesis using that[of 3 2 "to_be 2 c"] by (simp add: Time_field cmd_field_def)
  next
    case (Type_field c)
    have "rd_be16 buf (off + 4) = Some c"
      using rd_be16_at[of "off + 4" "pre @ to_be 2 (4 :: u16) @ to_be 2 (2 :: u16)" c post] assms
      by (simp add: buf_def Type_field)
    then show ?thesis using that[of 4 2 "to_be 2 c"] by (simp add: Type_field cmd_field_def)
  qed
  have t: "rd_be16 buf off = Some t" using rd_be16_at[OF assms, of t] by (simp add: buf_def f(1))
  have l: "rd_be16 buf (off + 2) = Some l"
    using rd_be16_at[of "off + 2" "pre @ to_be 2 t" l] assms by (simp add: buf_def f(1))
  have len: "length (field_bytes f) = unat l + 4" by (simp add: f(1,2))
  have gt: "4 < int (length (field_bytes f) + n)" using f(3) by simp
  have off': "off + unat l + 4 = off + length (field_bytes f)" unfolding len by simp
  have left': "int (length (field_bytes f) + n) - int (unat l) - 4 = int n" unfolding len by simp
  show ?thesis unfolding buf_def[symmetric]
    by (subst cmd_fields.simps) (simp only: gt if_True t l f(4) bind.bind_lunit option.case off' left')
qed

lemma cmd_fields_encode:
  "off = length pre \<Longrightarrow> cmd_fields (pre @ encode_fields fs @ post) off (int (length (encode_fields fs))) r =
     Some (if req_complete (foldl set_field r fs) then 0 else -1, foldl set_field r fs)"
proof (induction fs arbitrary: pre off r)
  case Nil
  then show ?case by (simp add: encode_fields_def cmd_fields.simps)
next
  case (Cons f fs)
  have e: "encode_fields (f # fs) = field_bytes f @ encode_fields fs" by (simp add: encode_fields_def)
  have "cmd_fields (pre @ encode_fields (f # fs) @ post) off (int (length (encode_fields (f # fs)))) r =
    cmd_fields (pre @ encode_fields (f # fs) @ post) (off + length (field_bytes f)) (int (length (encode_fields fs))) (set_field r f)"
    using cmd_fields_step[OF Cons.prems, of f "encode_fields fs @ post" "length (encode_fields fs)" r]
    by (simp only: e length_append append_assoc)
  also have "\<dots> = Some (if req_complete (foldl set_field r (f # fs)) then 0 else -1, foldl set_field r (f # fs))"
    using Cons.IH[of "off + length (field_bytes f)" "pre @ field_bytes f" "set_field r f"] Cons.prems by (simp add: e)
  finally show ?case .
qed

text \<open>
  C14. The parser inverts the wire format: a request made of any fields in any order, in a buffer with
  any bytes behind it, is accepted exactly when all four fields are present, and each variable gets
  the value of the last field of its type.
\<close>

theorem cmd_parser_roundtrip:
  assumes "length (encode_fields fs) < 65536"
  shows "cmd_parser (encode_req fs @ rest) (int (length (encode_req fs))) =
     Some (if req_complete (foldl set_field empty_req fs) then 0 else -1, foldl set_field empty_req fs)"
proof (cases "fs = []")
  case True
  then show ?thesis by (simp add: cmd_parser_def encode_req_def encode_fields_def req_complete_def empty_req_def)
next
  case False
  then obtain f fs' where fs: "fs = f # fs'" by (cases fs) auto
  have "4 < length (field_bytes f)" by (cases f) auto
  then have p: "4 < length (encode_fields fs)" by (simp add: fs encode_fields_def)
  let ?l = "of_nat (length (encode_fields fs)) :: u16"
  let ?buf = "encode_req fs @ rest"
  have c: "rd_be16 ?buf 0 = Some 1"
    using rd_be16_at[of 0 "[]" "1 :: u16"] by (simp add: encode_req_def)
  have l: "rd_be16 ?buf 2 = Some ?l"
    using rd_be16_at[of 2 "to_be 2 (1 :: u16)" ?l] by (simp add: encode_req_def)
  have ul: "int (unat ?l) = int (length (encode_req fs)) - 4"
    using assms by (simp add: unat_of_nat16 encode_req_def del: unat_of_nat)
  have k: "int (length (encode_req fs)) - 4 = int (length (encode_fields fs))" by (simp add: encode_req_def)
  have "cmd_fields ?buf 4 (int (length (encode_fields fs))) empty_req =
     Some (if req_complete (foldl set_field empty_req fs) then 0 else -1, foldl set_field empty_req fs)"
    using cmd_fields_encode[of 4 "to_be 2 (1 :: u16) @ to_be 2 ?l" fs rest empty_req] by (simp add: encode_req_def)
  moreover have "\<not> int (length (encode_req fs)) \<le> 4" using p k by linarith
  ultimately show ?thesis by (simp only: cmd_parser_def c l ul k if_False bind.bind_lunit) simp
qed

theorem cmd_parser_roundtrip_witness:
  "cmd_parser (encode_req [Type_field 1, Callid_field 77, Time_field 0, Case_field 2] @ [9]) 34 =
     Some (0, \<lparr>rq_callid = Some 77, rq_case = Some 2, rq_time = Some 0, rq_type = Some 1\<rparr>)"
  using cmd_parser_roundtrip[of "[Type_field 1, Callid_field 77, Time_field 0, Case_field 2]" "[9]"]
  by (simp add: encode_fields_def encode_req_def req_complete_def empty_req_def)

lemma cmd_fields_total:
  "(4 < left \<longrightarrow> off + nat left + 7 \<le> length buf) \<Longrightarrow>
     \<exists>ret r'. cmd_fields buf off left r = Some (ret, r') \<and> (ret = 0 \<and> req_complete r' \<or> ret = -1)"
proof (induction buf off left r rule: cmd_fields.induct)
  case (1 buf off left r)
  show ?case
  proof (cases "4 < left")
    case False
    then show ?thesis by (simp add: cmd_fields.simps)
  next
    case True
    have b: "off + 12 \<le> length buf" using 1(2) True by linarith
    then have s: "\<exists>t. rd_be16 buf off = Some t" "\<exists>l. rd_be16 buf (off + 2) = Some l" "\<exists>v. rd_be16 buf (off + 4) = Some v"
      "\<exists>bs. rd_n buf (off + 4) 8 = Some bs"
      by (simp_all add: rd_be16_def rd_n_def)
    then obtain t l where tl: "rd_be16 buf off = Some t" "rd_be16 buf (off + 2) = Some l" by blast
    have "\<exists>v. cmd_field buf off t r = Some v" using s(3,4) by (auto simp: cmd_field_def)
    then obtain v where v: "cmd_field buf off t r = Some v" by blast
    show ?thesis
    proof (cases v)
      case None
      with True tl v show ?thesis by (simp add: cmd_fields.simps)
    next
      case (Some r')
      have "4 < left - int (unat l) - 4 \<longrightarrow> (off + unat l + 4) + nat (left - int (unat l) - 4) + 7 \<le> length buf"
        using 1(2) True by linarith
      from 1(1)[OF True tl v Some this] show ?thesis
        using True tl v Some by (subst cmd_fields.simps) simp
    qed
  qed
qed

definition overlong_req :: "u8 list" where
  "overlong_req = to_be 2 (1 :: u16) @ to_be 2 (2044 :: u16) @ to_be 2 (2 :: u16) @ to_be 2 (2035 :: u16) @
     replicate 2035 0 @ to_be 2 (1 :: u16) @ to_be 2 (8 :: u16) @ [0]"

lemma overlong_req_None: "length overlong_req = 2048 \<and> cmd_parser overlong_req 2048 = None"
proof -
  let ?z = "replicate 2035 (0 :: u8)" and ?b = "\<lambda>x :: u16. to_be 2 x"
  have len: "length overlong_req = 2048" by (simp add: overlong_req_def)
  have at: "rd_be16 overlong_req k = Some x" if "overlong_req = pre @ to_be 2 x @ post" "k = length pre" for k x pre post
    using rd_be16_at[OF that(2), of x post] that(1) by simp
  have r0: "rd_be16 overlong_req 0 = Some 1" by (rule at[of "[]"]) (simp_all add: overlong_req_def)
  have r2: "rd_be16 overlong_req 2 = Some 2044" by (rule at[of "?b 1"]) (simp_all add: overlong_req_def)
  have r4: "rd_be16 overlong_req 4 = Some 2" by (rule at[of "?b 1 @ ?b 2044"]) (simp_all add: overlong_req_def)
  have r6: "rd_be16 overlong_req (4 + 2) = Some 2035"
    by (rule at[of "?b 1 @ ?b 2044 @ ?b 2"]) (simp_all add: overlong_req_def)
  have r8: "\<exists>v. rd_be16 overlong_req (4 + 4) = Some v" using len by (simp add: rd_be16_def rd_n_def)
  have ra: "rd_be16 overlong_req 2043 = Some 1"
    by (rule at[of "?b 1 @ ?b 2044 @ ?b 2 @ ?b 2035 @ ?z"]) (simp_all add: overlong_req_def)
  have rb: "rd_be16 overlong_req (2043 + 2) = Some 8"
    by (rule at[of "?b 1 @ ?b 2044 @ ?b 2 @ ?b 2035 @ ?z @ ?b 1"]) (simp_all add: overlong_req_def)
  have rc: "rd_n overlong_req (2043 + 4) 8 = None" using len by (simp add: rd_n_None)
  have last: "cmd_fields overlong_req 2043 5 r = None" for r
    by (subst cmd_fields.simps) (simp only: ra rb rc cmd_field_def bind.bind_lunit bind.bind_lzero option.case, simp)
  from r8 obtain v where v: "rd_be16 overlong_req (4 + 4) = Some v" by blast
  have off: "4 + unat (2035 :: u16) + 4 = 2043" "2044 - int (unat (2035 :: u16)) - 4 = 5" by simp_all
  have "cmd_field overlong_req 4 2 empty_req = Some (Some (empty_req\<lparr>rq_case := Some v\<rparr>))"
    by (simp only: cmd_field_def v) simp
  then have "cmd_fields overlong_req 4 2044 empty_req = None"
    by (subst cmd_fields.simps) (simp only: r4 r6 bind.bind_lunit option.case off last, simp)
  then show ?thesis using len by (simp add: cmd_parser_def r0 r2)
qed

text \<open>
  The parser is safe up to 7 bytes before the end of the buffer, and no further. A request of
  any bytes is accepted or refused without a read outside the caller's 2048 bytes, and accepted only
  with all fields set, if it is at most 2041 bytes long; but the loop only asks for 5 bytes
  before it reads a field of up to 12, and there is a request that makes it read behind a full buffer.
\<close>

theorem cmd_parser_bound:
  assumes "length buf = 2048" and "buf_len \<le> 2041"
  shows "(\<exists>ret r. cmd_parser buf buf_len = Some (ret, r) \<and> (ret = 0 \<and> req_complete r \<or> ret = -1)) \<and>
    (\<exists>buf'. length buf' = 2048 \<and> cmd_parser buf' 2048 = None)"
proof -
  have "\<exists>ret r. cmd_parser buf buf_len = Some (ret, r) \<and> (ret = 0 \<and> req_complete r \<or> ret = -1)"
  proof (cases "buf_len \<le> 4")
    case True
    then show ?thesis by (simp add: cmd_parser_def)
  next
    case False
    have "\<exists>x. rd_be16 buf 0 = Some x" "\<exists>x. rd_be16 buf 2 = Some x" using assms(1) by (simp_all add: rd_be16_def rd_n_def)
    then obtain x y where "rd_be16 buf 0 = Some x" "rd_be16 buf 2 = Some y" by blast
    moreover have "4 < buf_len - 4 \<longrightarrow> 4 + nat (buf_len - 4) + 7 \<le> length buf" using assms by linarith
    from cmd_fields_total[OF this, of empty_req] obtain ret r where
      "cmd_fields buf 4 (buf_len - 4) empty_req = Some (ret, r)" "ret = 0 \<and> req_complete r \<or> ret = -1" by blast
    ultimately show ?thesis using False by (simp add: cmd_parser_def)
  qed
  then show ?thesis using overlong_req_None by blast
qed

theorem cmd_parser_bound_witness:
  "\<exists>ret r. cmd_parser (replicate 2048 7) 2041 = Some (ret, r) \<and> (ret = 0 \<and> req_complete r \<or> ret = -1)"
  using cmd_parser_bound[of "replicate 2048 7" 2041] by simp

end
