(* ===== verification/File_Replay.thy ===== *)
theory File_Replay
  imports File_Server
begin

text \<open>
  What a client of the replay server gets, \<open>src/src/file_server.c\<close>: the recording that a request
  finds, the bytes of a replay and of the fax pictures, the ways a connection ends, and
  the listening socket.
\<close>

subsection \<open>Finding a recording\<close>

definition both_files :: "fs_env \<Rightarrow> (string \<Rightarrow> string \<Rightarrow> string) \<Rightarrow> file_dirs_node \<Rightarrow> bool" where
  "both_files env name e \<longleftrightarrow> reg_size env (name (dir_name e) ''_up'') \<noteq> None \<and> reg_size env (name (dir_name e) ''_down'') \<noteq> None"

definition found_names :: "fs_env \<Rightarrow> (string \<Rightarrow> string \<Rightarrow> string) \<Rightarrow> file_dirs_node \<Rightarrow> voice_names" where
  "found_names env name e = (let up = name (dir_name e) ''_up''; down = name (dir_name e) ''_down'' in
     \<lparr>vn_up = up, vn_down = down, vn_size = 2 * min (the (reg_size env up)) (the (reg_size env down))\<rparr>)"

lemma check_dirs_find:
  "i + k \<le> length es \<Longrightarrow>
     (case find (both_files env name) (take k (drop i es)) of
        Some e \<Rightarrow> check_dirs env name es i k v = Some (0, found_names env name e)
      | None \<Rightarrow> \<exists>v'. check_dirs env name es i k v = Some (-1, v'))"
proof (induction k arbitrary: i v)
  case 0
  then show ?case by simp
next
  case (Suc k)
  then have i: "i < length es" "Suc i + k \<le> length es" by simp_all
  have t: "take (Suc k) (drop i es) = es ! i # take k (drop (Suc i) es)"
    using i(1) by (simp add: Cons_nth_drop_Suc[symmetric])
  show ?case
  proof (cases "both_files env name (es ! i)")
    case True
    then show ?thesis using i(1)
      by (auto simp: t rd_def both_files_def found_names_def Let_def min_def)
  next
    case False
    then obtain v' where "check_dirs env name es i (Suc k) v = check_dirs env name es (Suc i) k v'"
      using i(1) by (cases "reg_size env (name (dir_name (es ! i)) ''_up'')";
          cases "reg_size env (name (dir_name (es ! i)) ''_down'')")
        (auto simp: rd_def both_files_def Let_def)
    then show ?thesis using Suc.IH[OF i(2), of v'] False by (auto simp: t simp del: check_dirs.simps split: option.splits)
  qed
qed

lemma check_dirs_used:
  assumes "dirs_ok fd"
  shows "case find (both_files env name) (used_dirs fd) of
        Some e \<Rightarrow> check_dirs env name (fd_dirs fd) 0 (unat (fd_num fd)) v = Some (0, found_names env name e)
      | None \<Rightarrow> \<exists>v'. check_dirs env name (fd_dirs fd) 0 (unat (fd_num fd)) v = Some (-1, v')"
  using check_dirs_find[of 0 "unat (fd_num fd)" "fd_dirs fd" env name v] assms
  by (simp add: dirs_ok_def used_dirs_def)

lemma check_voice_file_total:
  assumes "dirs_ok fd"
  shows "\<exists>ret v'. check_voice_file env fd callid scase v = Some (ret, v') \<and> ret \<in> {0, -1, -2}"
proof (cases "fs_localtime env (call_time callid)")
  case None
  then show ?thesis by (simp add: check_voice_file_def)
next
  case (Some tms)
  let ?c = "\<lambda>mid v. check_dirs env (server_path mid tms callid) (fd_dirs fd) 0 (unat (fd_num fd)) v"
  have t: "\<exists>r v'. ?c mid v = Some (r, v') \<and> r \<in> {0, -1}" for mid v
    using check_dirs_used[OF assms, of env "server_path mid tms callid" v] by (auto split: option.splits)
  from t[of CASE_DIR v] obtain r v1 where 1: "?c CASE_DIR v = Some (r, v1)" "r \<in> {0, -1}" by blast
  from t[of NORMAL_DIR v1] obtain r2 v2 where 2: "?c NORMAL_DIR v1 = Some (r2, v2)" "r2 \<in> {0, -1}" by blast
  show ?thesis using Some 1 2 by (auto simp: check_voice_file_def)
qed

text \<open>The directory the recorder chose is in the table.\<close>

lemma search_dirs_in: "search_dirs P es i k = Some (Some e) \<Longrightarrow> i + k \<le> length es \<Longrightarrow> e \<in> set (take k (drop i es))"
proof (induction k arbitrary: i)
  case 0
  then show ?case by simp
next
  case (Suc k)
  then have t: "take (Suc k) (drop i es) = es ! i # take k (drop (Suc i) es)"
    by (simp add: Cons_nth_drop_Suc[symmetric])
  show ?case using Suc.prems Suc.IH[of "Suc i"] by (auto simp: t rd_def split: if_splits)
qed

lemma root_dir_of_in:
  assumes "sys_ok g" "root_dir_of f g = Some (Some e, f1, g1)"
  shows "e \<in> set (used_dirs (vp_dirs g))"
proof -
  let ?n = "Suc (unat (fd_num (vp_dirs g)))" and ?d = "fst (next_dir_no (vp_dirs g) (vp_dir_no g))"
  have d: "dirs_ok (vp_dirs g)" "0 < fd_num (vp_dirs g)" using assms(1) by (auto simp: sys_ok_def)
  have "unat ?d < unat (fd_num (vp_dirs g))"
    using next_dir_no_lt[OF d(2), of "vp_dir_no g"] by (simp only: word_less_nat_alt)
  from pick_dir_returns[OF d(1) this, of ?n] obtain r where r: "pick_dir ?n (vp_dirs g) ?d = Returned r"
    "case r of None \<Rightarrow> \<forall>i. \<not> writable (vp_dirs g) i | Some m \<Rightarrow> writable (vp_dirs g) m" by auto
  then obtain m where m: "r = Some m" "rd (fd_dirs (vp_dirs g)) m = Some e"
    using assms(2) by (cases r) (auto simp: root_dir_of_def get_root_dir_def case_prod_beta Let_def split: Option.bind_splits)
  then have "m < unat (fd_num (vp_dirs g))" "m < length (fd_dirs (vp_dirs g))" "e = fd_dirs (vp_dirs g) ! m"
    using r(2) by (auto simp: writable_def rd_eq_Some)
  then show ?thesis by (auto simp: used_dirs_def in_set_conv_nth)
qed

lemma get_filename_names:
  assumes "sys_ok g" "get_filename env f g = Some (0, f', g')"
  shows "\<exists>tms e. env_localtime env (call_time (vf_callid f)) = Some tms \<and> e \<in> set (used_dirs (vp_dirs g)) \<and>
     filename_up f' = file_name tms f (dir_name e) ''_up'' \<and> filename_down f' = file_name tms f (dir_name e) ''_down''"
proof -
  obtain tms where t: "vf_callid f \<noteq> 0" "env_localtime env (call_time (vf_callid f)) = Some tms"
    using assms(2) by (auto simp: get_filename_def split: if_splits option.splits)
  obtain old where o: "find_root env tms f g = Some old" using find_root_ok[OF assms(1)] by blast
  have "\<exists>e f1 g1. (case old of Some e \<Rightarrow> Some (Some e, use_dir e f, g) | None \<Rightarrow> root_dir_of f g) = Some (Some e, f1, g1) \<and>
      filename_up f' = file_name tms f (dir_name e) ''_up'' \<and> filename_down f' = file_name tms f (dir_name e) ''_down''"
    using assms(2) t o by (auto simp: get_filename_def split: Option.bind_splits option.splits)
  then obtain e f1 g1 where e: "(case old of Some e \<Rightarrow> Some (Some e, use_dir e f, g) | None \<Rightarrow> root_dir_of f g) = Some (Some e, f1, g1)"
      "filename_up f' = file_name tms f (dir_name e) ''_up''" "filename_down f' = file_name tms f (dir_name e) ''_down''" by blast
  have "e \<in> set (used_dirs (vp_dirs g))"
  proof (cases old)
    case None
    then show ?thesis using e(1) root_dir_of_in[OF assms(1)] by simp
  next
    case (Some e')
    have "unat (fd_num (vp_dirs g)) \<le> length (fd_dirs (vp_dirs g))" using assms(1) by (simp add: sys_ok_def dirs_ok_def)
    then show ?thesis using Some e(1) o search_dirs_in[of _ "fd_dirs (vp_dirs g)" 0 "unat (fd_num (vp_dirs g))" e]
      by (auto simp: find_root_def used_dirs_def split: if_splits)
  qed
  then show ?thesis using t e by blast
qed

definition call_tree :: "voice_file_info \<Rightarrow> string" where
  "call_tree f = (if case_mark f = 0 then NORMAL_DIR else CASE_DIR)"

lemma find_unique: "e \<in> set es \<Longrightarrow> P e \<Longrightarrow> \<exists>e'. find P es = Some e' \<and> e' \<in> set es \<and> P e'"
  by (induction es) auto

text \<open>
  C12. What the recorder writes the server finds. When the recorder has named the files of a call and
  both exist under those names, a later replay request for the call gets exactly these files and
  a size of twice the shorter one, whichever directory and tree they are in, if the two programs
  agree on the local time and the table, no other directory holds files of the same call, the names
  fit, and a request for case recordings only is not made for a normal one.
\<close>

theorem recording_found:
  assumes "sys_ok g" and "get_filename env f g = Some (0, f', g')"
    and "fs_localtime fs = env_localtime env"
    and "reg_size fs (filename_up f') = Some a" and "reg_size fs (filename_down f') = Some b"
    and "length (filename_up f') < 254" and "length (filename_down f') < 254"
    and "\<forall>e \<in> set (used_dirs (vp_dirs g)). \<forall>tms. \<forall>mid \<in> {NORMAL_DIR, CASE_DIR}.
           env_localtime env (call_time (vf_callid f)) = Some tms \<longrightarrow> both_files fs (server_path mid tms (vf_callid f)) e \<longrightarrow>
             server_path mid tms (vf_callid f) (dir_name e) ''_up'' = filename_up f' \<and>
             server_path mid tms (vf_callid f) (dir_name e) ''_down'' = filename_down f'"
    and "case_mark f = 0 \<longrightarrow> scase \<noteq> 1"
  shows "check_voice_file fs (vp_dirs g) (vf_callid f) scase v =
     Some (0, \<lparr>vn_up = filename_up f', vn_down = filename_down f', vn_size = 2 * min a b\<rparr>)"
proof -
  let ?id = "vf_callid f"
  obtain tms e where n: "env_localtime env (call_time ?id) = Some tms" "e \<in> set (used_dirs (vp_dirs g))"
     "filename_up f' = file_name tms f (dir_name e) ''_up''" "filename_down f' = file_name tms f (dir_name e) ''_down''"
    using get_filename_names[OF assms(1,2)] by blast
  have d: "dirs_ok (vp_dirs g)" using assms(1) by (simp add: sys_ok_def)
  have path: "file_name tms f (dir_name e) s = server_path (call_tree f) tms ?id (dir_name e) s"
    if "length (file_name tms f (dir_name e) s) < 254" for s
    using that by (simp add: file_name_def server_path_def call_tree_def snprintf_def)
  have up: "filename_up f' = server_path (call_tree f) tms ?id (dir_name e) ''_up''"
    and down: "filename_down f' = server_path (call_tree f) tms ?id (dir_name e) ''_down''"
    using path assms(6,7) n(3,4) by auto
  have both: "both_files fs (server_path (call_tree f) tms ?id) e"
    using assms(4,5) up down by (simp add: both_files_def)
  let ?c = "\<lambda>mid v. check_dirs fs (server_path mid tms ?id) (fd_dirs (vp_dirs g)) 0 (unat (fd_num (vp_dirs g))) v"
  let ?v = "\<lparr>vn_up = filename_up f', vn_down = filename_down f', vn_size = 2 * min a b\<rparr>"
  have mids: "?c mid v = Some (0, ?v) \<or> (mid \<noteq> call_tree f \<and> (\<exists>v'. ?c mid v = Some (-1, v')))"
    if m: "mid \<in> {NORMAL_DIR, CASE_DIR}" for mid v
  proof (cases "find (both_files fs (server_path mid tms ?id)) (used_dirs (vp_dirs g))")
    case None
    then have "mid \<noteq> call_tree f" using both n(2) by (auto simp: find_None_iff)
    then show ?thesis using None check_dirs_used[OF d, of fs "server_path mid tms ?id" v] by simp
  next
    case (Some e')
    then have e': "e' \<in> set (used_dirs (vp_dirs g))" "both_files fs (server_path mid tms ?id) e'"
      by (auto simp: find_Some_iff)
    then have "server_path mid tms ?id (dir_name e') ''_up'' = filename_up f'"
      "server_path mid tms ?id (dir_name e') ''_down'' = filename_down f'" using assms(8) m n(1) by blast+
    then have "found_names fs (server_path mid tms ?id) e' = ?v" using assms(4,5) by (simp add: found_names_def Let_def)
    then show ?thesis using Some check_dirs_used[OF d, of fs "server_path mid tms ?id" v] by simp
  qed
  have lt: "fs_localtime fs (call_time ?id) = Some tms" using assms(3) n(1) by simp
  have "CASE_DIR \<in> {NORMAL_DIR, CASE_DIR}" by blast
  from mids[OF this, of v] show ?thesis
  proof
    assume "?c CASE_DIR v = Some (0, ?v)"
    then show ?thesis by (simp add: check_voice_file_def lt)
  next
    assume "CASE_DIR \<noteq> call_tree f \<and> (\<exists>v'. ?c CASE_DIR v = Some (-1, v'))"
    then obtain v' where v': "?c CASE_DIR v = Some (-1, v')" "call_tree f = NORMAL_DIR" "case_mark f = 0"
      by (auto simp: call_tree_def split: if_splits)
    moreover have "?c NORMAL_DIR v' = Some (0, ?v)" using mids[of NORMAL_DIR v'] v'(2) by auto
    ultimately show ?thesis using assms(9) by (simp add: check_voice_file_def lt)
  qed
qed

text \<open>A file system that holds both files of one call, of 2000 and 1900 bytes, and a picture of the first.\<close>

abbreviation test_tm :: tm where "test_tm \<equiv> \<lparr>tm_year = 116, tm_mon = 4, tm_mday = 17\<rparr>"

definition up_path :: string where "up_path = call_path ''/d'' NORMAL_DIR test_tm 5 ''_up''"
definition down_path :: string where "down_path = call_path ''/d'' NORMAL_DIR test_tm 5 ''_down''"

definition test_fs :: fs_env where
  "test_fs = \<lparr>fs_localtime = env_localtime test_env,
     fs_stat = (\<lambda>p. if p = up_path then Some (True, 2000) else if p = down_path then Some (True, 1900)
                    else if p = up_path @ ''.tif'' then Some (True, 3) else None),
     fs_open = (\<lambda>p. if p = up_path then 5 else if p = down_path then 6 else if p = up_path @ ''.tif'' then 7 else -1),
     fs_read = (\<lambda>p k. Some (take 1024 (drop (1024 * k)
       (if p = up_path then replicate 2000 1 else if p = down_path then replicate 1900 1 else [1, 2, 3]))))\<rparr>"

definition disk_state :: vp_state where
  "disk_state = one_node_state\<lparr>vp_dirs := \<lparr>fd_dirs = \<lparr>dir_name = ''/d'', disk_num = 1, write_flag = 1\<rparr> #
     replicate 15 \<lparr>dir_name = '''', disk_num = 0, write_flag = 0\<rparr>, fd_num = 1\<rparr>\<rparr>"

lemma disk_state_sys: "sys_ok disk_state"
  using one_node_sys by (simp add: sys_ok_def disk_state_def dirs_ok_def)

lemma disk_state_used: "used_dirs (vp_dirs disk_state) = [\<lparr>dir_name = ''/d'', disk_num = 1, write_flag = 1\<rparr>]"
  by (simp add: disk_state_def used_dirs_def)

lemma length_test_path:
  "length (call_path ''/d'' NORMAL_DIR test_tm 5 s) = 43 + length s"
  "length (call_path ''/d'' CASE_DIR test_tm 5 s) = 41 + length s"
  by (simp_all add: call_path_def slot_dir_def date_dir_def length_fmt_num e1_no_def ts_no_def call_pos_def)

lemma path_ne: "up_path \<noteq> down_path"
  by (simp add: up_path_def down_path_def call_path_def)

lemma path_lengths: "length up_path = 46" "length down_path = 48"
  by (simp_all add: up_path_def down_path_def length_test_path)

lemma test_paths:
  "server_path NORMAL_DIR test_tm 5 ''/d'' ''_up'' = up_path" "server_path NORMAL_DIR test_tm 5 ''/d'' ''_down'' = down_path"
  "server_path CASE_DIR test_tm 5 ''/d'' ''_up'' \<noteq> up_path" "server_path CASE_DIR test_tm 5 ''/d'' ''_up'' \<noteq> down_path"
  "server_path CASE_DIR test_tm 5 ''/d'' ''_up'' \<noteq> up_path @ ''.tif''"
  using path_lengths
  by (auto simp: server_path_def up_path_def down_path_def snprintf_fits length_test_path dest!: arg_cong[of _ _ length])

lemma test_file_names:
  "file_name test_tm (zero_voice_file\<lparr>vf_callid := 5\<rparr>) ''/d'' ''_up'' = up_path"
  "file_name test_tm (zero_voice_file\<lparr>vf_callid := 5\<rparr>) ''/d'' ''_down'' = down_path"
  by (simp_all add: file_name_def zero_voice_file_def up_path_def down_path_def snprintf_fits length_test_path)

lemma test_sizes: "reg_size test_fs up_path = Some 2000" "reg_size test_fs down_path = Some 1900"
  using path_ne by (simp_all add: reg_size_def test_fs_def)

theorem recording_found_witness:
  "\<exists>f' g'. get_filename test_env (zero_voice_file\<lparr>vf_callid := 5\<rparr>) disk_state = Some (0, f', g') \<and>
     check_voice_file test_fs (vp_dirs disk_state) 5 0 no_names =
       Some (0, \<lparr>vn_up = filename_up f', vn_down = filename_down f', vn_size = 3800\<rparr>)"
proof -
  let ?f = "zero_voice_file\<lparr>vf_callid := 5\<rparr>"
  have "root_dir_of ?f disk_state =
      Some (Some \<lparr>dir_name = ''/d'', disk_num = 1, write_flag = 1\<rparr>, use_dir \<lparr>dir_name = ''/d'', disk_num = 1, write_flag = 1\<rparr> ?f, disk_state\<lparr>vp_dir_no := 1\<rparr>)"
    by (simp add: root_dir_of_def disk_state_def get_root_dir_def next_dir_no_def pick_dir_def atomic32_defs sync_defs rd_def one_node_state_def Let_def)
  moreover have "search_dirs (\<lambda>e. env_is_reg test_env (file_name test_tm ?f (dir_name e) ''_up'')) (fd_dirs (vp_dirs disk_state)) 0
             (unat (fd_num (vp_dirs disk_state))) = Some None"
    by (simp add: disk_state_def rd_def test_env_def)
  moreover have "call_time 5 = 0" by (simp add: call_time_def)
  moreover have "vf_callid ?f = 5" "data_mark ?f = 0" by (simp_all add: zero_voice_file_def)
  moreover have "env_localtime test_env t = Some test_tm" for t by (simp add: test_env_def)
  ultimately have g: "get_filename test_env ?f disk_state =
     Some (0, (use_dir \<lparr>dir_name = ''/d'', disk_num = 1, write_flag = 1\<rparr> ?f)\<lparr>filename_up := up_path, filename_down := down_path\<rparr>,
           disk_state\<lparr>vp_dir_no := 1\<rparr>)"
    by (simp only: get_filename_def find_root_def test_file_names file_dirs_node.simps) (simp add: test_file_names)
  show ?thesis
    using recording_found[OF disk_state_sys g, of test_fs 2000 1900 0 no_names]
    by (simp add: g test_sizes path_lengths path_ne disk_state_used both_files_def test_paths)
       (simp add: test_fs_def test_env_def reg_size_def test_paths zero_voice_file_def use_dir_def min_def)
qed

subsection \<open>Replay\<close>

text \<open>The bytes written to a descriptor, and a file that each \<open>read\<close> returns in full pieces.\<close>

fun sent_to :: "int \<Rightarrow> io_event list \<Rightarrow> u8 list" where
  "sent_to c [] = []"
| "sent_to c (Write d bs # es) = (if d = c then bs @ sent_to c es else sent_to c es)"
| "sent_to c (_ # es) = sent_to c es"

lemma sent_to_append [simp]: "sent_to c (xs @ ys) = sent_to c xs @ sent_to c ys"
  by (induction c xs rule: sent_to.induct) auto

definition regular :: "fs_env \<Rightarrow> string \<Rightarrow> u8 list \<Rightarrow> bool" where
  "regular env name bs \<longleftrightarrow> (\<forall>k. fs_read env name k = Some (take 1024 (drop (1024 * k) bs)))"

lemma read_regular: "regular env name bs \<Longrightarrow> read_1024 env name k = Some (take 1024 (drop (1024 * k) bs))"
  by (simp add: regular_def read_1024_def)

lemma of_nat32_inj: "a < 4294967296 \<Longrightarrow> b < 4294967296 \<Longrightarrow> (of_nat a :: u32) = of_nat b \<longleftrightarrow> a = b"
  by (metis unat_of_nat32)

lemma mix_chunk_val:
  assumes "length us \<le> 1024" "length ds \<le> 1024"
  shows "mix_chunk (Some us) (Some ds) = (if length us \<noteq> length ds \<or> us = [] then Some None else Some (Some (mix_buf us ds)))"
proof -
  have "read_len (Some us) = read_len (Some ds) \<longleftrightarrow> length us = length ds"
    using assms by (simp only: read_len_def option.case) (rule of_nat32_inj; simp)
  moreover have "read_len (Some xs) \<le> 0 \<longleftrightarrow> xs = []" if "length xs \<le> 1024" for xs
  proof -
    have "read_len (Some xs) = 0 \<longleftrightarrow> length xs = 0"
      using that of_nat32_inj[of "length xs" 0] by (simp add: read_len_def)
    then show ?thesis by simp
  qed
  ultimately show ?thesis using assms by (auto simp: mix_chunk_def Let_def)
qed

lemma mix_buf_append:
  "length a = length c \<Longrightarrow> mix_buf (a @ b) (c @ d) = mix_buf a c @ mix_buf b d"
  by (simp add: mix_buf_def)

text \<open>The length both directions are replayed to: a last piece of unequal lengths is dropped.\<close>

definition replay_len :: "u8 list \<Rightarrow> u8 list \<Rightarrow> nat" where
  "replay_len up down = (if length up = length down then length up else 1024 * (min (length up) (length down) div 1024))"

lemma take_split: "1024 \<le> p \<or> length xs \<le> p \<Longrightarrow> take p xs = take 1024 xs @ take (p - 1024) (drop 1024 xs)"
proof -
  assume a: "1024 \<le> p \<or> length xs \<le> p"
  have "take p xs = take p (take 1024 xs @ drop 1024 xs)" by simp
  also have "\<dots> = take p (take 1024 xs) @ take (p - length (take 1024 xs)) (drop 1024 xs)" by (rule take_append)
  finally show ?thesis using a by (cases "1024 \<le> length xs") auto
qed

lemma piece_lengths:
  "min (a - c) 1024 = min (b - c) 1024 \<Longrightarrow> c < a \<Longrightarrow> a = b \<or> c + 1024 \<le> a \<and> c + 1024 \<le> (b :: nat)"
  by (simp add: min_def split: if_splits) linarith+

lemma send_mix_regular:
  assumes "regular env (vn_up v) up" "regular env (vn_down v) down"
  shows "0 < n \<Longrightarrow> length up + 1024 \<le> 1024 * (n + k) \<Longrightarrow>
    \<exists>es. send_mix n env v c k log = Returned (log @ es) \<and>
      sent_to c es = mix_buf (take (replay_len up down - 1024 * k) (drop (1024 * k) up))
                             (take (replay_len up down - 1024 * k) (drop (1024 * k) down))"
proof (induction n arbitrary: k log)
  case 0
  then show ?case by simp
next
  case (Suc n)
  let ?us = "drop (1024 * k) up" and ?ds = "drop (1024 * k) down" and ?p = "replay_len up down - 1024 * k"
  note rs = read_regular[OF assms(1), of k] read_regular[OF assms(2), of k]
  have m: "mix_chunk (Some (take 1024 ?us)) (Some (take 1024 ?ds)) =
     (if length (take 1024 ?us) \<noteq> length (take 1024 ?ds) \<or> take 1024 ?us = [] then Some None
      else Some (Some (mix_buf (take 1024 ?us) (take 1024 ?ds))))"
    by (rule mix_chunk_val) simp_all
  show ?case
  proof (cases "length (take 1024 ?us) \<noteq> length (take 1024 ?ds) \<or> take 1024 ?us = []")
    case True
    have "mix_buf (take ?p ?us) (take ?p ?ds) = []"
    proof (cases "?us = []")
      case True
      then show ?thesis by (simp add: mix_buf_def)
    next
      case False
      then have "take 1024 ?us \<noteq> []" by simp
      with True have "length (take 1024 ?us) \<noteq> length (take 1024 ?ds)" by blast
      then have ne: "min (length up - 1024 * k) 1024 \<noteq> min (length down - 1024 * k) 1024" by (simp only: length_take length_drop min.commute not_False_eq_True)
      then have "min (length up) (length down) < 1024 * Suc k" "length up \<noteq> length down" by auto
      moreover from this(1) have "min (length up) (length down) div 1024 < Suc k"
        by (intro less_mult_imp_div_less) (simp add: mult.commute)
      ultimately have "?p = 0" by (simp add: replay_len_def)
      then show ?thesis by (simp add: mix_buf_def)
    qed
    moreover have "send_mix (Suc n) env v c k log = Returned log"
      by (simp only: send_mix.simps rs m if_P[OF True] option.case)
    ultimately show ?thesis by (intro exI[of _ "[]"]) simp
  next
    case False
    then have len: "length (take 1024 ?us) = length (take 1024 ?ds)" "1024 * k < length up" by auto
    then have "min (length up - 1024 * k) 1024 = min (length down - 1024 * k) 1024" by simp
    then have "length up = length down \<or> 1024 * Suc k \<le> min (length up) (length down)"
      using piece_lengths[of "length up" "1024 * k" "length down"] len(2) by auto
    then have "?p \<ge> 1024 \<or> length up = length down \<and> ?p = length up - 1024 * k"
    proof
      assume a: "1024 * Suc k \<le> min (length up) (length down)"
      then have "Suc k \<le> min (length up) (length down) div 1024" by (simp add: less_eq_div_iff_mult_less_eq mult.commute)
      then show ?thesis using a by (auto simp: replay_len_def)
    qed (simp add: replay_len_def)
    then have "1024 \<le> ?p \<or> length ?us \<le> ?p" "1024 \<le> ?p \<or> length ?ds \<le> ?p" by auto
    note sp = this[THEN take_split]
    have "0 < n" "length up + 1024 \<le> 1024 * (n + Suc k)" using len(2) Suc.prems(2) by (cases n; simp)+
    from Suc.IH[OF this, of "log @ [Write c (mix_buf (take 1024 ?us) (take 1024 ?ds))]"] obtain es where
      es: "send_mix n env v c (Suc k) (log @ [Write c (mix_buf (take 1024 ?us) (take 1024 ?ds))]) =
             Returned ((log @ [Write c (mix_buf (take 1024 ?us) (take 1024 ?ds))]) @ es)"
        "sent_to c es = mix_buf (take (replay_len up down - 1024 * Suc k) (drop (1024 * Suc k) up))
                             (take (replay_len up down - 1024 * Suc k) (drop (1024 * Suc k) down))" by blast
    have d: "drop (1024 * Suc k) xs = drop 1024 (drop (1024 * k) xs)" for xs :: "u8 list" by (simp add: add.commute)
    have p: "replay_len up down - 1024 * Suc k = ?p - 1024" by simp
    have "send_mix (Suc n) env v c k log = Returned (log @ (Write c (mix_buf (take 1024 ?us) (take 1024 ?ds)) # es))"
      by (simp only: send_mix.simps rs m if_not_P[OF False] option.case es(1)) simp
    moreover have "sent_to c (Write c (mix_buf (take 1024 ?us) (take 1024 ?ds)) # es) = mix_buf (take ?p ?us) (take ?p ?ds)"
      unfolding sp mix_buf_append[OF len(1)] by (simp only: sent_to.simps simp_thms if_True es(2) d p)
    ultimately show ?thesis by blast
  qed
qed

definition result_msg :: "u16 \<Rightarrow> u8 list" where
  "result_msg r = to_be 2 (2 :: u16) @ to_be 2 (2 :: u16) @ to_be 2 r"

definition size_msg :: "u16 \<Rightarrow> u32 \<Rightarrow> u8 list" where
  "size_msg t sz = to_be 2 t @ to_be 2 (4 :: u16) @ to_be 4 sz"

lemma check_dirs_size:
  assumes "dirs_ok fd" "check_dirs env name (fd_dirs fd) 0 (unat (fd_num fd)) v = Some (0, v')"
  shows "\<exists>a b. reg_size env (vn_up v') = Some a \<and> reg_size env (vn_down v') = Some b \<and> vn_size v' = 2 * min a b"
proof (cases "find (both_files env name) (used_dirs fd)")
  case None
  then show ?thesis using check_dirs_used[OF assms(1), of env name v] assms(2) by simp
next
  case (Some e)
  then have "both_files env name e" by (auto simp: find_Some_iff)
  then show ?thesis using Some check_dirs_used[OF assms(1), of env name v] assms(2)
    by (auto simp: both_files_def found_names_def Let_def)
qed

lemma check_voice_file_size:
  assumes "dirs_ok fd" "check_voice_file env fd callid scase v = Some (0, v')"
  shows "\<exists>a b. reg_size env (vn_up v') = Some a \<and> reg_size env (vn_down v') = Some b \<and> vn_size v' = 2 * min a b"
proof (cases "fs_localtime env (call_time callid)")
  case None
  then show ?thesis using assms(2) by (simp add: check_voice_file_def)
next
  case (Some tms)
  let ?c = "\<lambda>mid v. check_dirs env (server_path mid tms callid) (fd_dirs fd) 0 (unat (fd_num fd)) v"
  have "\<exists>mid v1. ?c mid v1 = Some (0, v')"
    using assms(2) Some by (auto simp: check_voice_file_def split: Option.bind_splits if_splits) blast+
  then show ?thesis using check_dirs_size[OF assms(1)] by blast
qed

text \<open>
  C15. A replay sends a result, the announced size and the samples of both directions interleaved. If
  the two files are equally long it sends them whole and the announced size is exact. If
  they are not, it stops before the first piece of 1024 bytes in which they differ, although the
  announced size is twice the length of the shorter file.
\<close>

theorem replay_sends:
  assumes "dirs_ok fd" and "check_voice_file env fd callid scase no_names = Some (0, v)"
    and "fs_open env (vn_up v) \<noteq> -1" and "fs_open env (vn_down v) \<noteq> -1"
    and "regular env (vn_up v) up" and "regular env (vn_down v) down"
    and "fs_stat env (vn_up v) = Some (True, of_nat (length up))"
    and "fs_stat env (vn_down v) = Some (True, of_nat (length down))"
    and "length up < 2 ^ 31" and "length down < 2 ^ 31" and "length up < 1024 * n"
  shows "\<exists>es. tx_voice (Suc n) env fd connfd callid scase log = Returned (log @ es) \<and>
     sent_to connfd es = result_msg 1 @ size_msg 3 (of_nat (2 * min (length up) (length down))) @
       mix_buf (take (replay_len up down) up) (take (replay_len up down) down) \<and>
     (length up = length down \<longrightarrow> length (sent_to connfd es) = 6 + 8 + 2 * length up)"
proof -
  have u: "ucast (of_nat k :: u64) = (of_nat k :: u32)" for k
    by (simp add: unsigned_of_nat word_of_nat_eq_iff)
  have rs: "reg_size env (vn_up v) = Some (of_nat (length up))" "reg_size env (vn_down v) = Some (of_nat (length down))"
    using assms(7,8) u by (simp_all add: reg_size_def)
  have "min (of_nat (length up)) (of_nat (length down)) = (of_nat (min (length up) (length down)) :: u32)"
    using assms(9,10) by (auto simp: min_def word_le_nat_alt unat_of_nat32)
  then have sz: "vn_size v = of_nat (2 * min (length up) (length down))"
    using check_voice_file_size[OF assms(1,2)] rs by auto
  have "0 < Suc n" "length up + 1024 \<le> 1024 * (Suc n + 0)" using assms(11) by simp_all
  from send_mix_regular[OF assms(5,6) this, of connfd "send_voice_size (vn_size v) connfd (send_result 1 connfd log)"]
  obtain es where es: "send_mix (Suc n) env v connfd 0 (send_voice_size (vn_size v) connfd (send_result 1 connfd log)) =
       Returned (send_voice_size (vn_size v) connfd (send_result 1 connfd log) @ es)"
    "sent_to connfd es = mix_buf (take (replay_len up down) up) (take (replay_len up down) down)" by auto
  let ?es = "[Write connfd (result_msg 1), Write connfd (size_msg 3 (vn_size v))] @ es @
     [Close connfd, Close (fs_open env (vn_up v)), Close (fs_open env (vn_down v))]"
  have "tx_voice (Suc n) env fd connfd callid scase log = Returned (log @ ?es)"
    using assms(2-4) es(1) unfolding tx_voice_def
    by (simp add: send_voice_size_def send_result_def result_msg_def size_msg_def Let_def del: send_mix.simps)
  moreover have "length (mix_buf up down) = 2 * length up" if "length up = length down"
    using that by (induction up down rule: list_induct2) (simp_all add: mix_buf_def)
  then have "length (sent_to connfd ?es) = 6 + 8 + 2 * length up" if "length up = length down"
    using that by (simp add: es(2) result_msg_def size_msg_def replay_len_def)
  moreover have "sent_to connfd ?es = result_msg 1 @ size_msg 3 (of_nat (2 * min (length up) (length down))) @
       mix_buf (take (replay_len up down) up) (take (replay_len up down) down)"
    by (simp add: es(2) sz)
  ultimately show ?thesis by blast
qed

lemma test_regular:
  "regular test_fs up_path (replicate 2000 1)" "regular test_fs down_path (replicate 1900 1)"
  using path_ne by (simp_all add: regular_def test_fs_def)

lemma test_found: "check_voice_file test_fs (vp_dirs disk_state) 5 0 no_names =
    Some (0, \<lparr>vn_up = up_path, vn_down = down_path, vn_size = 3800\<rparr>)"
proof -
  have "call_time 5 = 0" by (simp add: call_time_def)
  then have lt: "fs_localtime test_fs (call_time 5) = Some test_tm" by (simp add: test_fs_def test_env_def)
  have d: "dirs_ok (vp_dirs disk_state)" using disk_state_sys by (simp add: sys_ok_def)
  have "reg_size test_fs (server_path CASE_DIR test_tm 5 ''/d'' ''_up'') = None"
    using test_paths(3-5) by (simp add: reg_size_def test_fs_def)
  then have "find (both_files test_fs (server_path CASE_DIR test_tm 5)) (used_dirs (vp_dirs disk_state)) = None"
    by (simp add: disk_state_used both_files_def)
  then obtain v' where 1: "check_dirs test_fs (server_path CASE_DIR test_tm 5) (fd_dirs (vp_dirs disk_state)) 0
      (unat (fd_num (vp_dirs disk_state))) no_names = Some (-1, v')"
    using check_dirs_used[OF d, of test_fs "server_path CASE_DIR test_tm 5" no_names] by auto
  have "find (both_files test_fs (server_path NORMAL_DIR test_tm 5)) (used_dirs (vp_dirs disk_state)) =
      Some \<lparr>dir_name = ''/d'', disk_num = 1, write_flag = 1\<rparr>"
    by (simp add: disk_state_used both_files_def test_paths test_sizes)
  then have "check_dirs test_fs (server_path NORMAL_DIR test_tm 5) (fd_dirs (vp_dirs disk_state)) 0
      (unat (fd_num (vp_dirs disk_state))) v' = Some (0, \<lparr>vn_up = up_path, vn_down = down_path, vn_size = 3800\<rparr>)"
    using check_dirs_used[OF d, of test_fs "server_path NORMAL_DIR test_tm 5" v']
    by (simp add: found_names_def Let_def test_paths test_sizes min_def)
  then show ?thesis by (simp add: check_voice_file_def lt 1)
qed

theorem replay_sends_witness:
  "\<exists>es. tx_voice 3 test_fs (vp_dirs disk_state) 9 5 0 [] = Returned es \<and>
     sent_to 9 es = result_msg 1 @ size_msg 3 3800 @ mix_buf (replicate 1024 1) (replicate 1024 1)"
proof -
  have d: "dirs_ok (vp_dirs disk_state)" using disk_state_sys by (simp add: sys_ok_def)
  show ?thesis
    using replay_sends[OF d test_found, of "replicate 2000 1" "replicate 1900 1" 2 9 "[]"] test_regular path_ne
    by (auto simp: test_fs_def replay_len_def numeral_3_eq_3)
qed

subsection \<open>Fax pictures\<close>

lemma send_pic_data_regular:
  assumes "regular env name bs"
  shows "0 < n \<Longrightarrow> length bs + 1024 \<le> 1024 * (n + k) \<Longrightarrow>
    \<exists>es. send_pic_data n env name c k log = Returned (log @ es) \<and> sent_to c es = drop (1024 * k) bs"
proof (induction n arbitrary: k log)
  case 0
  then show ?case by simp
next
  case (Suc n)
  let ?bs = "drop (1024 * k) bs"
  note r = read_regular[OF assms, of k]
  have "read_len (Some (take 1024 ?bs)) = of_nat (min (length bs - 1024 * k) 1024)"
    by (simp add: read_len_def min.commute)
  then have z: "0 < read_len (Some (take 1024 ?bs)) \<longleftrightarrow> ?bs \<noteq> []"
    by (auto simp: word_less_nat_alt unat_of_nat32)
  show ?case
  proof (cases "?bs = []")
    case True
    then have "send_pic_data (Suc n) env name c k log = Returned log" using z by (simp add: r)
    then show ?thesis using True by (intro exI[of _ "[]"]) simp
  next
    case False
    then have l: "1024 * k < length bs" by simp
    then have "0 < n" "length bs + 1024 \<le> 1024 * (n + Suc k)" using Suc.prems(2) by (cases n; simp)+
    from Suc.IH[OF this, of "log @ [Write c (take 1024 ?bs)]"] obtain es where
      es: "send_pic_data n env name c (Suc k) (log @ [Write c (take 1024 ?bs)]) = Returned ((log @ [Write c (take 1024 ?bs)]) @ es)"
        "sent_to c es = drop (1024 * Suc k) bs" by blast
    have "drop (1024 * Suc k) bs = drop 1024 ?bs" by (simp add: add.commute)
    then have "sent_to c (Write c (take 1024 ?bs) # es) = ?bs"
      by (simp only: sent_to.simps es(2) simp_thms if_True append_take_drop_id)
    moreover have "send_pic_data (Suc n) env name c k log = Returned (log @ (Write c (take 1024 ?bs) # es))"
      using False z es(1) by (simp add: r)
    ultimately show ?thesis by blast
  qed
qed

definition pic_bytes :: "(string \<Rightarrow> u8 list) \<Rightarrow> fax_pic_info \<Rightarrow> u8 list" where
  "pic_bytes content p = encrypt_voice (to_be 4 (pic_size p)) @ content (pic_name p)"

lemma send_pics_regular:
  "\<forall>p \<in> set ps. fs_open env (pic_name p) \<noteq> -1 \<and> regular env (pic_name p) (content (pic_name p)) \<and>
      length (content (pic_name p)) < 1024 * n \<Longrightarrow>
    \<exists>es. send_pics (Suc n) env ps c log = Returned (log @ es) \<and> sent_to c es = concat (map (pic_bytes content) ps)"
proof (induction ps arbitrary: log)
  case Nil
  then show ?case by simp
next
  case (Cons p ps)
  let ?h = "Write c (encrypt_voice (to_be 4 (pic_size p)))"
  have r: "regular env (pic_name p) (content (pic_name p))" using Cons.prems by simp
  have "length (content (pic_name p)) + 1024 \<le> 1024 * (Suc n + 0)" using Cons.prems by simp
  from send_pic_data_regular[OF r _ this, of c "log @ [?h]"] obtain es where
    es: "send_pic_data (Suc n) env (pic_name p) c 0 (log @ [?h]) = Returned ((log @ [?h]) @ es)" "sent_to c es = content (pic_name p)"
    by auto
  obtain es' where es': "send_pics (Suc n) env ps c (((log @ [?h]) @ es) @ [Close (fs_open env (pic_name p))]) =
       Returned ((((log @ [?h]) @ es) @ [Close (fs_open env (pic_name p))]) @ es')" "sent_to c es' = concat (map (pic_bytes content) ps)"
    using Cons.IH[of "((log @ [?h]) @ es) @ [Close (fs_open env (pic_name p))]"] Cons.prems by auto
  have "send_pics (Suc n) env (p # ps) c log = Returned (log @ (?h # es @ [Close (fs_open env (pic_name p))] @ es'))"
    using Cons.prems es(1) es'(1) by (simp del: send_pic_data.simps)
  moreover have "sent_to c (?h # es @ [Close (fs_open env (pic_name p))] @ es') = concat (map (pic_bytes content) (p # ps))"
    by (simp add: es(2) es'(2) pic_bytes_def)
  ultimately show ?case by blast
qed

lemma pics_size_nat:
  "sum_list (map (\<lambda>p. unat (pic_size p) + 4) ps) < 4294967296 \<Longrightarrow>
     unat (pics_size ps) = sum_list (map (\<lambda>p. unat (pic_size p) + 4) ps)"
proof -
  assume a: "sum_list (map (\<lambda>p. unat (pic_size p) + 4) ps) < 4294967296"
  have "pics_size ps = of_nat (sum_list (map (\<lambda>p. unat (pic_size p) + 4) ps))"
    by (induction ps) (simp_all add: pics_size_def)
  then show ?thesis using a by (simp add: unat_of_nat32)
qed

text \<open>
  The announced size of the fax pictures is exact. For each picture the server sends its length in
  4 encrypted bytes and its contents, in the order up and down, and the size it announces first is the
  number of bytes that follow, if every picture opens, has the size it was found with, and
  all of them together stay below 4 GB.
\<close>

theorem fax_announced_sent:
  assumes "check_voice_file env fd callid scase no_names = Some (0, v)"
    and "get_fax_pic_info env (vn_up v) (vn_down v) = (ps, sz)" and "ps \<noteq> []"
    and "\<forall>p \<in> set ps. fs_open env (pic_name p) \<noteq> -1 \<and> regular env (pic_name p) (content (pic_name p)) \<and>
      length (content (pic_name p)) = unat (pic_size p) \<and> length (content (pic_name p)) < 1024 * n"
    and "sum_list (map (\<lambda>p. unat (pic_size p) + 4) ps) < 2 ^ 32"
  shows "\<exists>es body. tx_fax (Suc n) env fd connfd callid scase log = Returned (log @ es) \<and>
     sent_to connfd es = result_msg 1 @ size_msg 4 sz @ body \<and>
     body = concat (map (pic_bytes content) ps) \<and> length body = unat sz"
proof -
  let ?log = "send_faxpic_size sz connfd (send_result 1 connfd log)"
  have "\<forall>p \<in> set ps. fs_open env (pic_name p) \<noteq> -1 \<and> regular env (pic_name p) (content (pic_name p)) \<and>
      length (content (pic_name p)) < 1024 * n" using assms(4) by blast
  from send_pics_regular[OF this, of connfd ?log] obtain es where
    es: "send_pics (Suc n) env ps connfd ?log = Returned (?log @ es)"
      "sent_to connfd es = concat (map (pic_bytes content) ps)" by blast
  let ?es = "[Write connfd (result_msg 1), Write connfd (size_msg 4 sz)] @ es @ [Close connfd]"
  have "tx_fax (Suc n) env fd connfd callid scase log = Returned (log @ ?es)"
    using assms(1-3) es(1) unfolding tx_fax_def
    by (simp add: send_faxpic_size_def send_result_def result_msg_def size_msg_def del: send_pics.simps)
  moreover have "sent_to connfd ?es = result_msg 1 @ size_msg 4 sz @ concat (map (pic_bytes content) ps)"
    by (simp add: es(2))
  moreover have "\<forall>p \<in> set ps. length (content (pic_name p)) = unat (pic_size p)" using assms(4) by blast
  then have "length (concat (map (pic_bytes content) ps)) = sum_list (map (\<lambda>p. unat (pic_size p) + 4) ps)"
    by (induction ps) (auto simp: pic_bytes_def encrypt_voice_def)
  moreover have "sz = pics_size ps" using assms(2) by (auto simp: get_fax_pic_info_def Let_def)
  ultimately show ?thesis using pics_size_nat[of ps] assms(5) by auto
qed

lemma test_pics: "get_fax_pic_info test_fs up_path down_path = ([\<lparr>pic_name = up_path @ ''.tif'', pic_size = 3\<rparr>], 7)"
proof -
  have l: "length (up_path @ ''.tif'') = 50" "length (down_path @ ''.tif'') = 52" using path_lengths by simp_all
  then have s: "snprintf MAX_DIRS_LEN (up_path @ ''.tif'') = up_path @ ''.tif''"
    "snprintf MAX_DIRS_LEN (down_path @ ''.tif'') = down_path @ ''.tif''" by (simp_all only: snprintf_fits)
  have "down_path @ ''.tif'' \<noteq> up_path" "down_path @ ''.tif'' \<noteq> down_path" "up_path @ ''.tif'' \<noteq> down_path"
    "down_path @ ''.tif'' \<noteq> up_path @ ''.tif''"
    using l path_lengths path_ne by (auto dest: arg_cong[of _ _ length])
  then show ?thesis
    by (simp add: get_fax_pic_info_def fax_pic_def s reg_size_def test_fs_def pics_size_def)
qed

theorem fax_announced_sent_witness:
  "\<exists>es. tx_fax 2 test_fs (vp_dirs disk_state) 9 5 0 [] = Returned es \<and>
     sent_to 9 es = result_msg 1 @ size_msg 4 7 @ encrypt_voice [0, 0, 0, 3] @ [1, 2, 3]"
proof -
  have "up_path @ ''.tif'' \<noteq> up_path" "up_path @ ''.tif'' \<noteq> down_path"
    using path_lengths by (auto dest: arg_cong[of _ _ length])
  then have "fs_open test_fs (up_path @ ''.tif'') = 7" "regular test_fs (up_path @ ''.tif'') [1, 2, 3]"
    by (simp_all add: test_fs_def regular_def)
  moreover have "to_be 4 (3 :: u32) = [0, 0, 0, 3]" by code_simp
  ultimately show ?thesis
    using fax_announced_sent[OF test_found, of "[\<lparr>pic_name = up_path @ ''.tif'', pic_size = 3\<rparr>]" 7 "\<lambda>p. [1, 2, 3]" 1 9 "[]"] test_pics
    by (auto simp: pic_bytes_def simp flip: numeral_2_eq_2)
qed

subsection \<open>A connection is answered once\<close>

text \<open>The events at a socket, in order.\<close>

fun touches :: "int \<Rightarrow> io_event \<Rightarrow> bool" where
  "touches c (Write d bs) \<longleftrightarrow> d = c"
| "touches c (Close d) \<longleftrightarrow> d = c"
| "touches c e \<longleftrightarrow> False"

definition on_sock :: "int \<Rightarrow> io_event list \<Rightarrow> io_event list" where
  "on_sock c es = filter (touches c) es"

lemma on_sock_simps [simp]:
  "on_sock c [] = []" "on_sock c (e # es) = (if touches c e then e # on_sock c es else on_sock c es)"
  "on_sock c (xs @ ys) = on_sock c xs @ on_sock c ys" "on_sock c (map (Write c) bss) = map (Write c) bss"
  by (simp_all add: on_sock_def filter_map o_def)

text \<open>
  The two ways a request is answered and the connection closed: a refusal, or a success with a size and any
  amount of data; nothing happens at the socket behind the close.
\<close>

definition answered :: "int \<Rightarrow> io_event list \<Rightarrow> bool" where
  "answered c es \<longleftrightarrow> on_sock c es = [Write c (result_msg 0), Close c] \<or>
     (\<exists>t sz bss. on_sock c es = Write c (result_msg 1) # Write c (size_msg t sz) # map (Write c) bss @ [Close c])"

text \<open>No \<open>read\<close> fails, and \<open>n\<close> of them come to the end of any file.\<close>

definition readable :: "fs_env \<Rightarrow> nat \<Rightarrow> bool" where
  "readable env n \<longleftrightarrow> (\<forall>p k. fs_read env p k \<noteq> None) \<and> (\<forall>p. \<exists>k < n. fs_read env p k = Some [])"

lemma send_mix_ends:
  assumes "\<forall>p k. fs_read env p k \<noteq> None"
  shows "\<exists>j < n. fs_read env (vn_up v) (k + j) = Some [] \<Longrightarrow>
     \<exists>bss. send_mix n env v c k log = Returned (log @ map (Write c) bss)"
proof (induction n arbitrary: k log)
  case 0
  then show ?case by simp
next
  case (Suc n)
  obtain us ds where r: "read_1024 env (vn_up v) k = Some us" "read_1024 env (vn_down v) k = Some ds"
    using assms by (force simp: read_1024_def)
  show ?case
  proof (cases "mix_chunk (Some us) (Some ds)")
    case None
    then show ?thesis by (auto simp: mix_chunk_def Let_def split: if_splits)
  next
    case (Some x)
    show ?thesis
    proof (cases x)
      case None
      then have "send_mix (Suc n) env v c k log = Returned (log @ map (Write c) [])" using Some r by simp
      then show ?thesis by blast
    next
      case x: (Some bs)
      have "us \<noteq> []" using Some x by (auto simp: mix_chunk_def read_len_def split: if_splits)
      then have "fs_read env (vn_up v) k \<noteq> Some []" using r(1) by (auto simp: read_1024_def)
      then obtain j where "j < n" "fs_read env (vn_up v) (Suc k + j) = Some []"
        using Suc.prems by (metis add.right_neutral add_Suc_right add_Suc_shift less_Suc_eq_0_disj)
      from Suc.IH[of "Suc k" "log @ [Write c bs]"] this obtain bss where
        "send_mix n env v c (Suc k) (log @ [Write c bs]) = Returned ((log @ [Write c bs]) @ map (Write c) bss)" by blast
      then have "send_mix (Suc n) env v c k log = Returned (log @ map (Write c) (bs # bss))" using Some x r by simp
      then show ?thesis by blast
    qed
  qed
qed

lemma send_pic_data_ends:
  assumes "\<forall>p k. fs_read env p k \<noteq> None"
  shows "\<exists>j < n. fs_read env name (k + j) = Some [] \<Longrightarrow>
     \<exists>bss. send_pic_data n env name c k log = Returned (log @ map (Write c) bss)"
proof (induction n arbitrary: k log)
  case 0
  then show ?case by simp
next
  case (Suc n)
  obtain bs where r: "read_1024 env name k = Some bs" using assms by (force simp: read_1024_def)
  show ?case
  proof (cases "0 < read_len (Some bs)")
    case False
    then have "send_pic_data (Suc n) env name c k log = Returned (log @ map (Write c) [])" using r by simp
    then show ?thesis by blast
  next
    case True
    then have "bs \<noteq> []" by (auto simp: read_len_def)
    then have "fs_read env name k \<noteq> Some []" using r by (auto simp: read_1024_def)
    then obtain j where "j < n" "fs_read env name (Suc k + j) = Some []"
      using Suc.prems by (metis add.right_neutral add_Suc_right add_Suc_shift less_Suc_eq_0_disj)
    from Suc.IH[of "Suc k" "log @ [Write c bs]"] this obtain bss where
      "send_pic_data n env name c (Suc k) (log @ [Write c bs]) = Returned ((log @ [Write c bs]) @ map (Write c) bss)" by blast
    then have "send_pic_data (Suc n) env name c k log = Returned (log @ map (Write c) (bs # bss))" using True r by simp
    then show ?thesis by blast
  qed
qed

lemma send_pics_ends:
  assumes "readable env n" "\<forall>p. fs_open env p \<noteq> c"
  shows "\<exists>es bss. send_pics n env ps c log = Returned (log @ es) \<and> on_sock c es = map (Write c) bss"
proof (induction ps arbitrary: log)
  case Nil
  then show ?case by (intro exI[of _ "[]"]) simp
next
  case (Cons p ps)
  let ?h = "encrypt_voice (to_be 4 (pic_size p))" and ?fd = "fs_open env (pic_name p)"
  show ?case
  proof (cases "?fd = -1")
    case True
    then show ?thesis using Cons by simp
  next
    case False
    have e: "\<forall>p k. fs_read env p k \<noteq> None" "\<exists>j < n. fs_read env (pic_name p) (0 + j) = Some []"
      using assms(1) by (simp_all add: readable_def)
    obtain bss where b: "send_pic_data n env (pic_name p) c 0 (log @ [Write c ?h]) = Returned ((log @ [Write c ?h]) @ map (Write c) bss)"
      using send_pic_data_ends[OF e] by blast
    let ?l = "(log @ [Write c ?h]) @ map (Write c) bss @ [Close ?fd]"
    obtain es bss' where c: "send_pics n env ps c ?l = Returned (?l @ es)" "on_sock c es = map (Write c) bss'"
      using Cons.IH[of ?l] by blast
    let ?es = "Write c ?h # map (Write c) bss @ Close ?fd # es"
    have "send_pics n env (p # ps) c log = Returned (log @ ?es)" using False b c(1) by (simp add: Let_def)
    moreover have "on_sock c ?es = map (Write c) (?h # bss @ bss')" using assms(2) c(2) by simp
    ultimately show ?thesis by blast
  qed
qed

lemma refuse_answered: "\<exists>es. refuse c log = log @ es \<and> answered c es"
  by (simp add: refuse_def send_result_def answered_def result_msg_def)

text \<open>A success, a size, then events of which those at the socket are writes, and closes.\<close>

lemma success_answered:
  assumes "on_sock c es = map (Write c) bss" "on_sock c ts = []"
  shows "answered c (Write c (result_msg 1) # Write c (size_msg t sz) # es @ Close c # ts)"
proof -
  have "on_sock c (Write c (result_msg 1) # Write c (size_msg t sz) # es @ Close c # ts) =
      Write c (result_msg 1) # Write c (size_msg t sz) # map (Write c) bss @ [Close c]" using assms by simp
  then show ?thesis unfolding answered_def by blast
qed

lemma tx_voice_answered:
  assumes "dirs_ok fd" "readable env n" "\<forall>p. fs_open env p \<noteq> c"
  shows "\<exists>es. tx_voice n env fd c callid scase log = Returned (log @ es) \<and> answered c es"
proof -
  obtain ret v where v: "check_voice_file env fd callid scase no_names = Some (ret, v)"
    using check_voice_file_total[OF assms(1)] by blast
  let ?up = "fs_open env (vn_up v)" and ?down = "fs_open env (vn_down v)"
  consider "ret \<noteq> 0" | "ret = 0" "?up = -1 \<or> ?down = -1" | "ret = 0" "?up \<noteq> -1" "?down \<noteq> -1" by blast
  then show ?thesis
  proof cases
    case 1
    then show ?thesis using v refuse_answered[of c log] by (simp add: tx_voice_def)
  next
    case 2
    then have "tx_voice n env fd c callid scase log = Returned (log @ [Write c (result_msg 0), Close ?up, Close ?down, Close c])"
      using v by (simp add: tx_voice_def Let_def send_result_def result_msg_def)
    moreover have "answered c [Write c (result_msg 0), Close ?up, Close ?down, Close c]" using assms(3) by (simp add: answered_def)
    ultimately show ?thesis by blast
  next
    case 3
    have e: "\<forall>p k. fs_read env p k \<noteq> None" "\<exists>j < n. fs_read env (vn_up v) (0 + j) = Some []"
      using assms(2) by (simp_all add: readable_def)
    let ?l = "log @ [Write c (result_msg 1), Write c (size_msg 3 (vn_size v))]"
    have l: "send_voice_size (vn_size v) c (send_result 1 c log) = ?l"
      by (simp add: send_voice_size_def send_result_def result_msg_def size_msg_def)
    obtain bss where "send_mix n env v c 0 ?l = Returned (?l @ map (Write c) bss)" using send_mix_ends[OF e] by blast
    then have "tx_voice n env fd c callid scase log =
        Returned (log @ Write c (result_msg 1) # Write c (size_msg 3 (vn_size v)) # map (Write c) bss @ Close c # [Close ?up, Close ?down])"
      using 3 v by (simp add: tx_voice_def Let_def l)
    moreover have "on_sock c [Close ?up, Close ?down] = []" using assms(3) by simp
    ultimately show ?thesis using success_answered[of c "map (Write c) bss" bss] by fastforce
  qed
qed

lemma tx_fax_answered:
  assumes "dirs_ok fd" "readable env n" "\<forall>p. fs_open env p \<noteq> c"
  shows "\<exists>es. tx_fax n env fd c callid scase log = Returned (log @ es) \<and> answered c es"
proof -
  obtain ret v where v: "check_voice_file env fd callid scase no_names = Some (ret, v)"
    using check_voice_file_total[OF assms(1)] by blast
  obtain ps sz where ps: "get_fax_pic_info env (vn_up v) (vn_down v) = (ps, sz)" by fastforce
  show ?thesis
  proof (cases "ret \<noteq> 0 \<or> ps = []")
    case True
    then have "tx_fax n env fd c callid scase log = Returned (refuse c log)" using v ps by (cases "ret = 0") (auto simp: tx_fax_def)
    then show ?thesis using refuse_answered[of c log] by simp
  next
    case False
    let ?l = "log @ [Write c (result_msg 1), Write c (size_msg 4 sz)]"
    have l: "send_faxpic_size sz c (send_result 1 c log) = ?l"
      by (simp add: send_faxpic_size_def send_result_def result_msg_def size_msg_def)
    obtain es bss where es: "send_pics n env ps c ?l = Returned (?l @ es)" "on_sock c es = map (Write c) bss"
      using send_pics_ends[OF assms(2,3)] by blast
    have "tx_fax n env fd c callid scase log = Returned (log @ Write c (result_msg 1) # Write c (size_msg 4 sz) # es @ Close c # [])"
      using False v ps es(1) by (simp add: tx_fax_def l)
    then show ?thesis using success_answered[OF es(2), of "[]"] by fastforce
  qed
qed

text \<open>All outcomes of a connection's thread.\<close>

lemma file_tx_outcomes:
  assumes "dirs_ok fd" and "length buf = 2048" and "data_len \<le> 2041" and "readable env n" and "\<forall>p. fs_open env p \<noteq> connfd"
  shows "\<exists>vf' es. file_tx_thread n env fd connfd buf data_len vf log = Returned (vf', log @ es) \<and>
    (vf' = vf \<and> answered connfd es \<or>
     (\<exists>r callid j. cmd_parser buf data_len = Some (0, r) \<and> rq_time r = Some 1 \<and> rq_callid r = Some callid \<and>
        get_file_struct callid = Some j \<and> \<not> 0 < tx_fd (vf j) \<and> vf' = vf(j := (vf j)\<lparr>tx_fd := connfd\<rparr>) \<and>
        es = [Write connfd (result_msg 1), Write connfd (size_msg 3 0xffffffff)]) \<or>
     vf' = vf \<and> es = [] \<and> (\<exists>r. cmd_parser buf data_len = Some (0, r) \<and> rq_time r \<noteq> Some 1 \<and> rq_type r \<noteq> Some 1 \<and>
        (rq_type r = Some 0 \<longrightarrow> rq_time r \<noteq> Some 0)))"
proof -
  let ?run = "file_tx_thread n env fd connfd buf data_len vf log"
  have A: ?thesis if "\<exists>es. ?run = Returned (vf, log @ es) \<and> answered connfd es" using that by blast
  obtain ret r where p: "cmd_parser buf data_len = Some (ret, r)" "ret = 0 \<and> req_complete r \<or> ret = -1"
    using cmd_parser_bound[OF assms(2,3)] by blast
  show ?thesis
  proof (cases "ret = 0")
    case False
    then have "?run = Returned (vf, refuse connfd log)" using p by (simp add: file_tx_thread_def)
    then show ?thesis using refuse_answered[of connfd log] by (intro A) auto
  next
    case True
    then obtain callid scase stime stype where q: "rq_callid r = Some callid" "rq_case r = Some scase" "rq_time r = Some stime"
        "rq_type r = Some stype" using p(2) by (auto simp: req_complete_def)
    then have run: "?run = tx_request n env fd connfd callid scase stime stype vf log" using p True by (simp add: file_tx_thread_def)
    consider "stype = 0 \<and> stime = 0" | "\<not> (stype = 0 \<and> stime = 0)" "stime = 1" | "\<not> (stype = 0 \<and> stime = 0)" "stime \<noteq> 1" "stype = 1"
      | "\<not> (stype = 0 \<and> stime = 0)" "stime \<noteq> 1" "stype \<noteq> 1" by blast
    then show ?thesis
    proof cases
      case 1
      then show ?thesis using run tx_voice_answered[OF assms(1,4,5), of callid scase log]
        by (intro A) (auto simp: tx_request_def with_slots_def)
    next
      case 2
      obtain j where j: "get_file_struct callid = Some j" using get_file_struct_slot by blast
      have run2: "?run = Returned (tx_live connfd callid vf log)" using run 2 by (auto simp: tx_request_def)
      show ?thesis
      proof (cases "0 < tx_fd (vf j)")
        case True
        then have "tx_live connfd callid vf log = (vf, refuse connfd log)" using j by (simp add: tx_live_def)
        then show ?thesis using run2 refuse_answered[of connfd log] by (intro A) auto
      next
        case False
        let ?es = "[Write connfd (result_msg 1), Write connfd (size_msg 3 0xffffffff)]" and ?vf = "vf(j := (vf j)\<lparr>tx_fd := connfd\<rparr>)"
        have "tx_live connfd callid vf log = (?vf, log @ ?es)"
          using False j by (simp add: tx_live_def send_voice_size_def send_result_def result_msg_def size_msg_def)
        then have "?run = Returned (?vf, log @ ?es)" using run2 by simp
        moreover have "rq_time r = Some 1" using q(3) 2 by simp
        ultimately show ?thesis using False p(1) True q(1) \<open>ret = 0\<close> j by blast
      qed
    next
      case 3
      then show ?thesis using run tx_fax_answered[OF assms(1,4,5), of callid scase log]
        by (intro A) (auto simp: tx_request_def with_slots_def)
    next
      case 4
      then have "?run = Returned (vf, log @ [])" using run by (auto simp: tx_request_def)
      moreover have "cmd_parser buf data_len = Some (0, r)" "rq_time r \<noteq> Some 1" "rq_type r \<noteq> Some 1"
        "rq_type r = Some 0 \<longrightarrow> rq_time r \<noteq> Some 0" using 4 q(3,4) p True by auto
      ultimately show ?thesis by blast
    qed
  qed
qed

text \<open>
  C13. Every connection is answered exactly once and then closed or handed over, with one exception. For a request of at most 2041
  bytes, when no \<open>read\<close> of a file fails and no file descriptor is that of the socket, the thread of the connection ends with one of three
  outcomes. Either all that happens at the socket is a refusal and a close, or a success, a size, data and a close. Or the request was
  for a live copy: the socket is left, with a success result and an unbounded size, in the slot of the call of the
  request, which had no listener. Or the request was well-formed but of an unknown type, and then nothing is written and the socket is
  never closed.
\<close>

theorem answered_once:
  assumes "dirs_ok fd" and "length buf = 2048" and "data_len \<le> 2041" and "readable env n" and "\<forall>p. fs_open env p \<noteq> connfd"
  shows "\<exists>vf' es. file_tx_thread n env fd connfd buf data_len vf log = Returned (vf', log @ es) \<and>
    (vf' = vf \<and> answered connfd es \<or>
     (\<exists>r callid j. cmd_parser buf data_len = Some (0, r) \<and> rq_time r = Some 1 \<and> rq_callid r = Some callid \<and>
        get_file_struct callid = Some j \<and> \<not> 0 < tx_fd (vf j) \<and> vf' = vf(j := (vf j)\<lparr>tx_fd := connfd\<rparr>) \<and>
        es = [Write connfd (result_msg 1), Write connfd (size_msg 3 0xffffffff)]) \<or>
     vf' = vf \<and> es = [] \<and> (\<exists>r. cmd_parser buf data_len = Some (0, r) \<and> rq_time r \<noteq> Some 1 \<and> rq_type r \<noteq> Some 1 \<and>
        (rq_type r = Some 0 \<longrightarrow> rq_time r \<noteq> Some 0)))"
  by (rule file_tx_outcomes[OF assms])

text \<open>A request for the recording of the test file system.\<close>

definition voice_req :: "u8 list" where
  "voice_req = encode_req [Callid_field 5, Case_field 0, Time_field 0, Type_field 0] @ replicate 2014 0"

lemma voice_req_parse: "cmd_parser voice_req 34 = Some (0, \<lparr>rq_callid = Some 5, rq_case = Some 0, rq_time = Some 0, rq_type = Some 0\<rparr>)"
  using cmd_fields_encode[of 4 "to_be 2 (1 :: u16) @ to_be 2 (30 :: u16)" "[Callid_field 5, Case_field 0, Time_field 0, Type_field 0]"
      "replicate 2014 0" empty_req]
    rd_be16_at[of 0 "[]" "1 :: u16"] rd_be16_at[of 2 "to_be 2 (1 :: u16)" "30 :: u16"]
  by (simp add: voice_req_def encode_req_def encode_fields_def cmd_parser_def req_complete_def empty_req_def)

theorem answered_once_witness:
  "\<exists>es. file_tx_thread 3 test_fs (vp_dirs disk_state) 9 voice_req 34 init_voice_file [] = Returned (init_voice_file, es) \<and> answered 9 es"
proof -
  have d: "dirs_ok (vp_dirs disk_state)" using disk_state_sys by (simp add: sys_ok_def)
  have "readable test_fs 3" unfolding readable_def
    by (auto simp: test_fs_def intro!: exI[of _ "2 :: nat"])
  moreover have "\<forall>p. fs_open test_fs p \<noteq> 9" by (simp add: test_fs_def)
  moreover have "length voice_req = 2048" by (simp add: voice_req_def encode_req_def encode_fields_def)
  ultimately show ?thesis
    using answered_once[OF d, of voice_req 34 test_fs 3 9 init_voice_file "[]"] by (auto simp: voice_req_parse)
qed

subsection \<open>The listening socket\<close>

fun net_open :: "int set \<Rightarrow> net_event \<Rightarrow> int set" where
  "net_open S (Net_socket fd) = insert fd S"
| "net_open S (Net_close fd) = S - {fd}"
| "net_open S _ = S"

definition listeners :: "net_event list \<Rightarrow> int set" where
  "listeners es = foldl net_open {} es"

definition server_ok :: "file_server \<Rightarrow> bool" where
  "server_ok s \<longleftrightarrow> listeners (srv_log s) = (if listenfd s = -1 then {} else {listenfd s}) \<and> srv_conn_times s < 60"

lemma server_turn_ok:
  assumes "server_ok s"
  shows "server_ok (server_turn env ip port s)"
proof -
  have r: "server_ok (srv_reload s)" using assms by (auto simp: server_ok_def srv_reload_def srv_add_def listeners_def)
  have "server_ok (srv_create env ip port s)" if "server_ok s" for s
    using that by (auto simp: server_ok_def srv_create_def srv_add_def listeners_def create_tcp_server_def Let_def not_le)
  then have "server_ok (srv_create env ip port (srv_reload s))" using r .
  then show ?thesis by (auto simp: server_turn_def srv_accept_def server_ok_def srv_add_def listeners_def)
qed

text \<open>Turns of the loop, before each of which another thread may set the reload flag.\<close>

fun server_run :: "(bool \<times> net_env \<times> string option \<times> u16) list \<Rightarrow> file_server \<Rightarrow> file_server" where
  "server_run [] s = s"
| "server_run ((reload, env, ip, port) # es) s =
     server_run es (server_turn env ip port (if reload then s\<lparr>vpu_reload := 1\<rparr> else s))"

definition start_server :: file_server where
  "start_server = \<lparr>listenfd = -1, srv_conn_times = 0, vpu_reload = 0, srv_log = []\<rparr>"

text \<open>
  The server never leaks a listening socket. Whatever the system answers and whenever the
  configuration is reloaded, after every turn the sockets created and not closed are the one it listens
  on, or none when there is none, and the counter of failed attempts stays below 60.
\<close>

theorem one_listener:
  "listeners (srv_log (server_run es start_server)) =
     (if listenfd (server_run es start_server) = -1 then {} else {listenfd (server_run es start_server)}) \<and>
   srv_conn_times (server_run es start_server) < 60"
proof -
  have "server_ok s \<Longrightarrow> server_ok (server_run es s)" for s
  proof (induction es s rule: server_run.induct)
    case (2 reload env ip port es s)
    have "server_ok (if reload then s\<lparr>vpu_reload := 1\<rparr> else s)" using 2(2) by (simp add: server_ok_def)
    then show ?case using 2(1) server_turn_ok by simp
  qed simp
  moreover have "server_ok start_server" by (simp add: server_ok_def start_server_def listeners_def)
  ultimately show ?thesis unfolding server_ok_def by blast
qed

end
