(* ===== verification/Vpu_Managers.thy ===== *)
theory Vpu_Managers
  imports Conn_Session File_Replay
begin

text \<open>
  What the threads of \<open>src/src/conn_serv.c\<close> do to the configuration that all threads share: the commands of the agent reload files and
  switch fax servers on and off, and both threads take back the flag of their own reload. Whatever a reload of a file and a change of a
  server keep, whole turns of the threads keep.
\<close>

subsection \<open>The guard\<close>

lemma send_conf: "cs_send env f s = Some (r, s') \<Longrightarrow> cs_conf s' = cs_conf s"
  by (auto simp: cs_send_def cs_add_def split: Option.bind_splits)

lemma sguard_turn_conf:
  assumes "sguard_turn L env s = Some s'"
  shows "cs_conf s' = cs_conf s \<or> cs_conf s' = (cs_conf s)\<lparr>dms_sguard_reload := 0\<rparr>"
proof -
  have alive: "cs_conf s2 = cs_conf s1" if "sguard_alive L env s1 = Some s2" for s1 s2
    using that by (auto simp: sguard_alive_def cs_close_def cs_add_def split: Option.bind_splits if_splits dest!: send_conf)
  show ?thesis using assms
    by (auto simp: sguard_turn_def Let_def cs_failed_def cs_add_def cs_close_def split: if_splits prod.splits Option.bind_splits
        dest!: alive send_conf)
qed

subsection \<open>The interface\<close>

locale conf_keeper =
  fixes inv :: "conf_vars \<Rightarrow> bool"
  assumes reload: "reload_file env files name s = Some (Cont r s') \<Longrightarrow> inv s \<Longrightarrow> inv s'"
    and status: "change_fax_status i st s = Some (r, s') \<Longrightarrow> inv s \<Longrightarrow> inv s'"
    and guard_flag: "inv s \<Longrightarrow> inv (s\<lparr>dms_sguard_reload := 0\<rparr>)"
    and agent_flag: "inv s \<Longrightarrow> inv (s\<lparr>dms_ma_reload := 0\<rparr>)"
begin

lemma reload_loop_keeps:
  "ma_reload_loop (reload_file env files) buf d left s = Some (Cont r s') \<Longrightarrow> inv s \<Longrightarrow> inv s'"
proof (induction "reload_file env files" buf d left s arbitrary: r s' rule: ma_reload_loop.induct)
  case (1 buf d left s)
  show ?case
  proof (cases "left < 4")
    case True
    then show ?thesis using "1.prems" by (subst (asm) ma_reload_loop.simps) simp
  next
    case False
    obtain ty len where h: "rd_be16 buf d = Some ty" "rd_be16 buf (d + 2) = Some len"
      using "1.prems"(1) False by (subst (asm) ma_reload_loop.simps) (auto split: Option.bind_splits)
    show ?thesis
    proof (cases "left - 4 < ucast len \<or> 255 < len \<or> len \<le> 8 \<or> ty \<noteq> 1")
      case True
      then show ?thesis using "1.prems" False h by (subst (asm) ma_reload_loop.simps) (auto split: if_splits)
    next
      case ok: False
      obtain filename c s1 where f: "rd_n buf (d + 4) (unat len) = Some filename" "len \<noteq> 255" "reload_file env files filename s = Some (Cont c s1)"
          "ma_reload_loop (reload_file env files) buf (d + 4 + unat len) (left - 4 + ucast len) s1 = Some (Cont r s')"
        using "1.prems"(1) False h ok by (subst (asm) ma_reload_loop.simps) (auto split: Option.bind_splits if_splits conf_run.splits)
      have "inv s1" using reload f(3) "1.prems"(2) by blast
      then show ?thesis using "1.hyps"[OF False h _ _ f(1,2,3)] f(4) ok by auto
    qed
  qed
qed

lemma status_loop_keeps:
  "status_loop buf d left vpu_flag st i s = Some (r, s') \<Longrightarrow> inv s \<Longrightarrow> inv s'"
proof (induction buf d left vpu_flag st i s arbitrary: r s' rule: status_loop.induct)
  case (1 buf d left vpu_flag st i s)
  show ?case
  proof (cases "left < 4")
    case True
    then show ?thesis using "1.prems" by (subst (asm) status_loop.simps) simp
  next
    case False
    obtain ty len where h: "rd_be16 buf d = Some ty" "rd_be16 buf (d + 2) = Some len"
      using "1.prems"(1) False by (subst (asm) status_loop.simps) (auto split: Option.bind_splits)
    show ?thesis
    proof (cases "left - 4 < ucast len")
      case True
      then show ?thesis using "1.prems" False h by (subst (asm) status_loop.simps) simp
    next
      case ok: False
      consider (name) "ty = 1" | (entries) "ty = 2" "vpu_flag" | (other) "ty \<noteq> 1" "\<not> (ty = 2 \<and> vpu_flag)" by blast
      then show ?thesis
      proof cases
        case name
        obtain m where m: "rd_n buf (d + 4) 3 = Some m"
          using "1.prems"(1) False h ok name by (subst (asm) status_loop.simps) (auto split: Option.bind_splits)
        show ?thesis
        proof (cases "m = chars ''vpu''")
          case True
          then have "status_loop buf (d + 4 + unat len) (left - 4 + ucast len) True st i s = Some (r, s')"
            using "1.prems"(1) False h ok name m by (subst (asm) status_loop.simps) simp
          then show ?thesis using "1.IH"(1)[OF False h ok name m] True "1.prems"(2) by blast
        next
          case no: False
          then show ?thesis using "1.prems" False h ok name m by (subst (asm) status_loop.simps) simp
        qed
      next
        case entries
        obtain e where e: "status_entries buf (d + 4) (ucast len) st i = Some e"
          using "1.prems"(1) False h ok entries by (subst (asm) status_loop.simps) (auto split: Option.bind_splits)
        show ?thesis
        proof (cases e)
          case (Inl c)
          then show ?thesis using "1.prems" False h ok entries e by (subst (asm) status_loop.simps) simp
        next
          case (Inr p)
          obtain st' i' where p: "p = (st', i')" by (cases p)
          obtain c s1 where f: "change_fax_status i' st' s = Some (c, s1)"
              "status_loop buf (d + 4 + unat len) (left - 4 + ucast len) vpu_flag st' i' s1 = Some (r, s')"
            using "1.prems"(1) False h ok entries e Inr p by (subst (asm) status_loop.simps) (auto split: Option.bind_splits)
          have "inv s1" using status f(1) "1.prems"(2) by blast
          moreover have ty: "ty \<noteq> 1" "ty = 2 \<and> vpu_flag" using entries by simp_all
          ultimately show ?thesis using "1.IH"(2)[OF False h ok ty e Inr p[symmetric] f(1) refl f(2)] by blast
        qed
      next
        case other
        then show ?thesis using "1.prems" False h ok by (subst (asm) status_loop.simps) (auto split: if_splits)
      qed
    qed
  qed
qed

lemma dispatch_keeps:
  assumes "ma_dispatch L x cmd d data_len num st = Some (Cont c st')" "inv (ms_conf st)"
  shows "inv (ms_conf st')"
proof -
  have "inv s'" if "ma_cmd_reload (reload_file (mx_env x) (mx_files x)) (ms_buf st) d data_len (ms_conf st) = Some (Cont r s')" for r s'
    using that assms(2) reload_loop_keeps by (auto simp: ma_cmd_reload_def split: if_splits)
  moreover have "inv s'" if "ma_cmd_software_status (ms_buf st) d data_len (ms_conf st) = Some (r, s')" for r s'
    using that assms(2) status_loop_keeps by (auto simp: ma_cmd_software_status_def split: if_splits)
  ultimately show ?thesis using assms
    by (auto simp: ma_dispatch_def ms_add_def Let_def split: if_splits Option.bind_splits conf_run.splits)
qed

lemma ma_loop_keeps:
  "ma_loop L x n left left_len st = Returned (Cont c st') \<Longrightarrow> inv (ms_conf st) \<Longrightarrow> inv (ms_conf st')"
proof (induction n arbitrary: left left_len st)
  case 0
  then show ?case by simp
next
  case (Suc n)
  show ?case
  proof (cases "left_len < of_nat (hd_size L)")
    case True
    then show ?thesis using Suc.prems by simp
  next
    case False
    obtain len num buf' cmd r where step: "rd_be16 (ms_buf st) (left + off_len L) = Some len" "rd_be16 (ms_buf st) (left + off_num L) = Some num"
        "wr_n (ms_buf st) (left + off_num L) (to_le 2 num) = Some buf'" "rd_be16 buf' (left + off_cmd L) = Some cmd"
        "ma_dispatch L x cmd (left + hd_size L) (ucast len - of_nat (hd_size L)) num (st\<lparr>ms_buf := buf'\<rparr>) = Some r"
      using Suc.prems(1) False by (auto simp: Let_def split: option.splits Option.bind_splits conf_run.splits)
    show ?thesis
    proof (cases r)
      case (Exit e)
      then show ?thesis using Suc.prems False step by (simp add: Let_def)
    next
      case (Cont e st1)
      have "inv (ms_conf st1)" using dispatch_keeps[OF step(5)[unfolded Cont]] Suc.prems(2) by simp
      then show ?thesis using Suc.prems False step Cont Suc.IH by (simp add: Let_def)
    qed
  qed
qed

lemma ma_receive_keeps:
  assumes "ma_receive n L x v env s = Returned (Cont c (s', es))" "inv (cs_conf s)"
  shows "inv (cs_conf s')"
proof (cases "0 < ce_select env \<and> (\<exists>bs. ce_read env = Inr bs \<and> bs \<noteq> [])")
  case True
  then obtain bs where bs: "ce_read env = Inr bs" "bs \<noteq> []" by blast
  obtain pkt where w: "wr_n (cs_pkt s) 0 bs = Some pkt"
    using assms(1) True bs by (cases "wr_n (cs_pkt s) 0 bs") (auto simp: ma_receive_def split: list.splits)
  obtain e st where p: "ma_cmd_parser n L x (of_nat (length bs)) \<lparr>ms_buf = pkt, ms_conf = cs_conf s, ms_v = v, ms_log = []\<rparr> = Returned (Cont e st)"
      "s' = s\<lparr>cs_pkt := ms_buf st, cs_conf := ms_conf st\<rparr>"
    using assms(1) True bs w by (auto simp: ma_receive_def split: list.splits loop_result.splits conf_run.splits)
  show ?thesis using ma_loop_keeps[OF p(1)[unfolded ma_cmd_parser_def]] assms(2) p(2) by simp
next
  case False
  then have "s' = s \<or> s' = cs_close s" using assms(1) by (auto simp: ma_receive_def split: if_splits sum.splits list.splits)
  then show ?thesis using assms(2) by (auto simp: cs_close_def cs_add_def)
qed

text \<open>A turn of the agent's thread and of the guard's.\<close>

lemma ma_turn_keeps:
  assumes "ma_turn n L x v env s = Returned (Cont c (s', es))" "inv (cs_conf s)"
  shows "inv (cs_conf s')"
proof -
  define s1 where s1: "s1 = (if dms_ma_reload (cs_conf s) = 1
     then (cs_close s)\<lparr>cs_conf := (cs_conf s)\<lparr>dms_ma_reload := 0\<rparr>\<rparr> else s)"
  have i: "inv (cs_conf s1)" using assms(2) agent_flag by (simp add: s1)
  have turn: "ma_turn n L x v env s = (if cs_sock s1 = -1
      then (let (fd, es) = connect2ma env (cs_conf s1) in
        if fd = -1 then Returned (Cont 0 (cs_failed (cs_add es s1), []))
        else (case cs_send env (vpu_fill_regma_packet L (ce_pid env) (cs_conf s1)) (cs_add es (s1\<lparr>cs_sock := fd\<rparr>)) of
            None \<Rightarrow> Undefined
          | Some (_, s2) \<Rightarrow> ma_receive n L x v env s2))
      else ma_receive n L x v env s1)"
    by (simp only: ma_turn_def Let_def s1)
  show ?thesis
  proof (cases "cs_sock s1 = -1 \<and> fst (connect2ma env (cs_conf s1)) = -1")
    case True
    then show ?thesis using assms(1) i unfolding turn by (auto simp: cs_failed_def cs_add_def split: prod.splits)
  next
    case False
    then obtain s2 where s2: "ma_receive n L x v env s2 = Returned (Cont c (s', es))" "cs_conf s2 = cs_conf s1"
      using assms(1) unfolding turn by (auto simp: cs_add_def split: if_splits prod.splits option.splits dest!: send_conf)
    then show ?thesis using ma_receive_keeps i by simp
  qed
qed

lemma sguard_turn_keeps:
  assumes "sguard_turn L env s = Some s'" "inv (cs_conf s)"
  shows "inv (cs_conf s')"
  using sguard_turn_conf[OF assms(1)] assms(2) guard_flag by auto

end

subsection \<open>The configuration the threads share\<close>

text \<open>
  The parameters, the number of fax servers in use and the table of directories in use, which the commands leave alone; tables of the right size; an address of
  the replay server that fits; and a well-formed new table of directories when one is pending.
\<close>

definition conf_ok :: "vpu_param \<Rightarrow> u32 \<Rightarrow> file_dirs_info \<Rightarrow> conf_vars \<Rightarrow> bool" where
  "conf_ok p n d s \<longleftrightarrow> vpu_conf s = p \<and> fax_num s = n \<and> file_dirs s = d \<and> length (fax_infos s) = FAX_NUM_MAX \<and> length (r_fax_infos s) = FAX_NUM_MAX \<and>
     length (server_ip s) < 16 \<and> (vpu_dir_reload s = 1 \<longrightarrow> dirs_ok (rl_file_dirs s))"

lemma reload_fill_eq: "reload_fill_file_dirs = fill_file_dirs"
  by (intro ext) (simp add: reload_fill_file_dirs_def fill_file_dirs_def)

lemma fax_entry_length: "fax_entry flag cs num tab = Some tab' \<Longrightarrow> length tab' = length tab"
  by (induction flag cs num tab arbitrary: tab' rule: fax_entry.induct) (auto split: if_splits Option.bind_splits)

lemma fax_loop_length: "fax_loop flag cs num tab = Some (k, tab') \<Longrightarrow> length tab' = length tab"
  by (induction flag cs num tab rule: fax_loop.induct) (auto split: if_splits Option.bind_splits dest: fax_entry_length)

lemma short_ip_length: "length old < 16 \<Longrightarrow> length (short_ip old x) < 16"
  by (simp add: short_ip_def)

lemma server_entry_ip: "server_entry env s b cs v = Some (Cont r v') \<Longrightarrow> length (sv_ip v) < 16 \<Longrightarrow> length (sv_ip v') < 16"
  by (induction env s b cs v arbitrary: r v' rule: server_entry.induct)
    (auto simp: Let_def short_ip_length split: if_splits Option.bind_splits)

lemma server_loop_ip: "server_loop env s b cs v = Some (Cont r v') \<Longrightarrow> length (sv_ip v) < 16 \<Longrightarrow> length (sv_ip v') < 16"
proof (induction env s b cs v arbitrary: r v' rule: server_loop.induct)
  case (2 env s b c cs v)
  then show ?case by (auto simp: then_run_def split: if_splits Option.bind_splits conf_run.splits dest: server_entry_ip)
qed simp

lemma conf_ok_upd:
  "conf_ok p n d (s\<lparr>conf_root := t\<rparr>) = conf_ok p n d s" "conf_ok p n d (s\<lparr>cdr_ip := a\<rparr>) = conf_ok p n d s" "conf_ok p n d (s\<lparr>cdr_port := b\<rparr>) = conf_ok p n d s"
  "conf_ok p n d (s\<lparr>svm_fax_reload := c\<rparr>) = conf_ok p n d s" "conf_ok p n d (s\<lparr>vpu_id := e\<rparr>) = conf_ok p n d s"
  "conf_ok p n d (s\<lparr>vpu_dev_reload := c\<rparr>) = conf_ok p n d s" "conf_ok p n d (s\<lparr>storage_time := e\<rparr>) = conf_ok p n d s"
  "conf_ok p n d (s\<lparr>disk_left := e\<rparr>) = conf_ok p n d s" "conf_ok p n d (s\<lparr>dms_sguard_reload := c\<rparr>) = conf_ok p n d s"
  "conf_ok p n d (s\<lparr>dms_ma_reload := c\<rparr>) = conf_ok p n d s" "conf_ok p n d (s\<lparr>svm_cdr_reload := c\<rparr>) = conf_ok p n d s"
  "conf_ok p n d (s\<lparr>svm_vpu_reload := c\<rparr>) = conf_ok p n d s"
  by (simp_all add: conf_ok_def)

lemma load_conf_ok: "load_conf files dir name s = Some (r, s') \<Longrightarrow> conf_ok p n d s' = conf_ok p n d s"
  by (auto simp: load_conf_def conf_ok_upd split: Option.bind_splits)

lemma free_conf_ok: "conf_ok p n d (free_conf s) = conf_ok p n d s"
  by (simp add: free_conf_def conf_ok_upd)

lemma svm_parts_ok:
  "reload_cdr_ip_port s = Some (Cont r s') \<Longrightarrow> conf_ok p n d s \<Longrightarrow> conf_ok p n d s'"
  "reload_fax_ip_port s = Some (Cont r s') \<Longrightarrow> conf_ok p n d s \<Longrightarrow> conf_ok p n d s'"
  "reload_server_ip_port env s = Some (Cont r s') \<Longrightarrow> conf_ok p n d s \<Longrightarrow> conf_ok p n d s'"
proof -
  show "reload_cdr_ip_port s = Some (Cont r s') \<Longrightarrow> conf_ok p n d s \<Longrightarrow> conf_ok p n d s'"
    by (auto simp: reload_cdr_ip_port_def Let_def conf_ok_upd split: Option.bind_splits if_splits)
  show "reload_fax_ip_port s = Some (Cont r s') \<Longrightarrow> conf_ok p n d s \<Longrightarrow> conf_ok p n d s'"
    by (auto simp: reload_fax_ip_port_def Let_def conf_ok_def split: Option.bind_splits if_splits option.splits dest!: fax_loop_length)
  show "conf_ok p n d s'" if r: "reload_server_ip_port env s = Some (Cont r s')" and ok: "conf_ok p n d s"
  proof -
    obtain b where b: "ConfGetNode (conf_root s) ''vpu'' = Some b"
      using r by (auto simp: reload_server_ip_port_def split: Option.bind_splits)
    show ?thesis
    proof (cases b)
      case None
      then show ?thesis using r b ok by (simp add: reload_server_ip_port_def)
    next
      case (Some b')
      obtain c v where v: "server_loop env s True (cn_head b') no_server = Some (Cont c v)"
        using r b Some by (auto simp: reload_server_ip_port_def split: Option.bind_splits conf_run.splits)
      have "length (sv_ip v) < 16" using server_loop_ip[OF v] by (simp add: no_server_def)
      then show ?thesis using r b Some v ok by (auto simp: reload_server_ip_port_def conf_ok_def split: if_splits)
    qed
  qed
qed

lemma vpu_parts_ok:
  "reload_vpu_id s = Some (Cont r s') \<Longrightarrow> conf_ok p n d s \<Longrightarrow> conf_ok p n d s'"
  "reload_dev_parser s = Some (Cont r s') \<Longrightarrow> conf_ok p n d s \<Longrightarrow> conf_ok p n d s'"
  "reload_storage_time s = Some (Cont r s') \<Longrightarrow> conf_ok p n d s \<Longrightarrow> conf_ok p n d s'"
  "reload_disk_left s = Some (Cont r s') \<Longrightarrow> conf_ok p n d s \<Longrightarrow> conf_ok p n d s'"
  "reload_sguard_port s = Some (Cont r s') \<Longrightarrow> conf_ok p n d s \<Longrightarrow> conf_ok p n d s'"
  "reload_ma_port s = Some (Cont r s') \<Longrightarrow> conf_ok p n d s \<Longrightarrow> conf_ok p n d s'"
  by (auto simp: reload_vpu_id_def reload_dev_parser_def reload_storage_time_def reload_disk_left_def reload_sguard_port_def reload_ma_port_def
      Let_def conf_ok_upd split: Option.bind_splits if_splits option.splits)

lemma reload_dirs_ok:
  assumes "reload_file_dirs env s = Some (Cont r (s', made))" "conf_ok p n d s"
  shows "conf_ok p n d s'"
proof (cases "ConfGetNode (conf_root s) ''filedirs''")
  case (Some base)
  show ?thesis
  proof (cases base)
    case None
    then show ?thesis using assms Some by (simp add: reload_file_dirs_def)
  next
    case b: (Some b)
    obtain fd where fd: "dirs_loop (reload_fill_file_dirs (ce_is_dir env)) (cn_head b) empty_dirs = Some fd"
      using assms(1) Some b by (auto simp: reload_file_dirs_def split: Option.bind_splits)
    have "dirs_ok fd" using dirs_loop_ok[OF empty_dirs_ok(1)] fd reload_fill_eq by metis
    then show ?thesis
      using assms Some b fd
      by (auto simp: reload_file_dirs_def init_reload_file_dirs_def conf_ok_def Let_def split: if_splits Option.bind_splits option.splits)
  qed
qed (use assms in \<open>simp add: reload_file_dirs_def\<close>)

lemma then_run_keeps: "then_run f (Cont c s) = Some (Cont r s') \<longleftrightarrow> f s = Some (Cont r s')"
  by (simp add: then_run_def)

lemma reload_svm_ok:
  assumes "reload_svm_conf env files name s = Some (Cont r s')" "conf_ok p n d s"
  shows "conf_ok p n d s'"
proof (cases name)
  case (Some f)
  obtain c s0 where l: "load_conf files (svm_conf_file (vpu_conf s)) f s = Some (c, s0)"
    using assms(1) Some by (auto simp: reload_svm_conf_def split: Option.bind_splits)
  have ok: "conf_ok p n d s0" using load_conf_ok[OF l] assms(2) by simp
  show ?thesis
  proof (cases "c = 0")
    case True
    obtain r1 s1 r2 s2 r3 s3 where "reload_cdr_ip_port s0 = Some (Cont r1 s1)" "reload_fax_ip_port s1 = Some (Cont r2 s2)"
        "reload_server_ip_port env s2 = Some (Cont r3 s3)" "s' = free_conf s3"
      using assms(1) Some l True by (auto simp: reload_svm_conf_def then_run_Some split: Option.bind_splits conf_run.splits)
    then show ?thesis using ok svm_parts_ok free_conf_ok by metis
  next
    case False
    then show ?thesis using assms(1) Some l ok by (simp add: reload_svm_conf_def)
  qed
qed (use assms in \<open>simp add: reload_svm_conf_def\<close>)

lemma reload_dms_ok:
  assumes "reload_dms_conf files name s = Some (Cont r s')" "conf_ok p n d s"
  shows "conf_ok p n d s'"
proof (cases name)
  case (Some f)
  obtain c s0 where l: "load_conf files (dms_conf_file (vpu_conf s)) f s = Some (c, s0)"
    using assms(1) Some by (auto simp: reload_dms_conf_def split: Option.bind_splits)
  have ok: "conf_ok p n d s0" using load_conf_ok[OF l] assms(2) by simp
  show ?thesis
  proof (cases "c = 0")
    case True
    obtain r1 s1 r2 s2 where "reload_sguard_port s0 = Some (Cont r1 s1)" "reload_ma_port s1 = Some (Cont r2 s2)" "s' = free_conf s2"
      using assms(1) Some l True by (auto simp: reload_dms_conf_def then_run_Some split: Option.bind_splits conf_run.splits)
    then show ?thesis using ok vpu_parts_ok(5,6) free_conf_ok by metis
  next
    case False
    then show ?thesis using assms(1) Some l ok by (simp add: reload_dms_conf_def)
  qed
qed (use assms in \<open>simp add: reload_dms_conf_def\<close>)

lemma reload_vpu_ok:
  assumes "reload_vpu_conf env files name s = Some (Cont r (s', made))" "conf_ok p n d s"
  shows "conf_ok p n d s'"
proof (cases name)
  case (Some f)
  obtain c s0 where l: "load_conf files (conf_file (vpu_conf s)) f s = Some (c, s0)"
    using assms(1) Some by (auto simp: reload_vpu_conf_def split: Option.bind_splits)
  have ok: "conf_ok p n d s0" using load_conf_ok[OF l] assms(2) by simp
  show ?thesis
  proof (cases "c = 0")
    case True
    obtain r1 s1 r2 s2 r3 s3 r4 s4 r5 s5 m where s: "reload_vpu_id s0 = Some (Cont r1 s1)" "reload_dev_parser s1 = Some (Cont r2 s2)"
        "reload_storage_time s2 = Some (Cont r3 s3)" "reload_disk_left s3 = Some (Cont r4 s4)"
        "reload_file_dirs env s4 = Some (Cont r5 (s5, m))" "s' = free_conf s5"
      using assms(1) Some l True by (auto simp: reload_vpu_conf_def then_run_Some split: Option.bind_splits conf_run.splits)
    have "conf_ok p n d s4" using ok vpu_parts_ok(1-4) s(1-4) by metis
    then show ?thesis using reload_dirs_ok[OF s(5)] s(6) free_conf_ok by simp
  next
    case False
    then show ?thesis using assms(1) Some l ok by (simp add: reload_vpu_conf_def)
  qed
qed (use assms in \<open>simp add: reload_vpu_conf_def\<close>)

lemma reload_file_ok:
  assumes "reload_file env files name s = Some (Cont r s')" "conf_ok p n d s"
  shows "conf_ok p n d s'"
proof -
  have unpack: "\<exists>m. x = Cont r (s', m)" if "case_conf_run (\<lambda>r (s', made). Cont r s') Exit x = Cont r s'" for x
    using that by (auto split: conf_run.splits)
  consider "reload_svm_conf env files (Some (c_string name)) s = Some (Cont r s')"
    | "reload_dms_conf files (Some (c_string name)) s = Some (Cont r s')"
    | x where "reload_vpu_conf env files (Some (c_string name)) s = Some x" "case_conf_run (\<lambda>r (s', made). Cont r s') Exit x = Cont r s'"
    | "s' = s"
    using assms(1) by (auto simp: reload_file_def Let_def split: if_splits)
  then show ?thesis using assms(2) by cases (auto intro: reload_svm_ok reload_dms_ok reload_vpu_ok dest!: unpack)
qed

lemma fax_status_ok: "change_fax_status i st s = Some (r, s') \<Longrightarrow> conf_ok p n d s \<Longrightarrow> conf_ok p n d s'"
  by (auto simp: change_fax_status_def conf_ok_def split: if_splits)

interpretation conf: conf_keeper "conf_ok p n d" for p n d
  by unfold_locales (auto simp: conf_ok_upd intro: reload_file_ok fax_status_ok)

subsection \<open>The agent's turns that are defined\<close>

text \<open>
  What the agent may send so that the turn that reads it is defined: one read delivers whole messages of the protocol, fewer than \<open>n\<close>, none of
  them a reload or a status command, the two that can read behind the buffer. Everything else is as it may be.
\<close>

definition agent_input_ok :: "nat \<Rightarrow> pkt_layout \<Rightarrow> ma_ext \<Rightarrow> conn_env \<Rightarrow> bool" where
  "agent_input_ok n L x env \<longleftrightarrow> length (mx_stack x) = 1500 \<and>
     (\<forall>bs. ce_read env = Inr bs \<longrightarrow> length bs \<le> 2048 \<and>
        (\<exists>ms. bs = concat (map fst ms) \<and> length ms < n \<and>
           (\<forall>(m, cmd, num) \<in> set ms. (\<exists>r body. message L m r cmd num body) \<and> length m < 65536 \<and> cmd \<noteq> 14 \<and> cmd \<noteq> 23)))"

lemma commands_defined:
  "\<forall>(m, cmd, num) \<in> set ms. cmd \<noteq> 14 \<and> cmd \<noteq> 23 \<Longrightarrow> \<exists>es q'. commands L x ms junk q = Some (Cont 0 (es, q'))"
proof (induction ms arbitrary: q)
  case (Cons e ms)
  obtain m cmd num where e: "e = (m, cmd, num)" by (rule prod_cases3)
  have "\<exists>es q1. command L x cmd num (drop (hd_size L) m) (concat (map fst ms) @ junk) q = Some (Cont 0 (es, q1))"
    using Cons.prems e by (cases q) (simp add: command_def Let_def)
  then obtain es q1 where "command L x cmd num (drop (hd_size L) m) (concat (map fst ms) @ junk) q = Some (Cont 0 (es, q1))" by blast
  moreover obtain es' q2 where "commands L x ms junk q1 = Some (Cont 0 (es', q2))" using Cons.IH[of q1] Cons.prems by auto
  ultimately show ?case by (simp add: e)
qed simp

lemma ma_receive_defined:
  assumes "layout_ok L" "agent_input_ok n L x env" "length (cs_pkt s) = 2048"
  shows "\<exists>s' es. ma_receive n L x v env s = Returned (Cont 0 (s', es))"
proof (cases "0 < ce_select env \<and> (\<exists>bs. ce_read env = Inr bs \<and> bs \<noteq> [])")
  case True
  then obtain bs where bs: "ce_read env = Inr bs" "bs \<noteq> []" by blast
  obtain ms where ms: "bs = concat (map fst ms)" "length ms < n" "length bs \<le> 2048"
      "\<forall>(m, cmd, num) \<in> set ms. (\<exists>r body. message L m r cmd num body) \<and> length m < 65536 \<and> cmd \<noteq> 14 \<and> cmd \<noteq> 23"
    using assms(2) bs(1) unfolding agent_input_ok_def by blast
  have w: "wr_n (cs_pkt s) 0 bs = Some (bs @ drop (length bs) (cs_pkt s))" using ms(3) assms(3) by (simp add: wr_n_def)
  let ?st = "\<lparr>ms_buf = bs @ drop (length bs) (cs_pkt s), ms_conf = cs_conf s, ms_v = v, ms_log = []\<rparr>"
  have q: "\<forall>(m, cmd, num) \<in> set ms. (\<exists>r body. message L m r cmd num body) \<and> length m < 65536"
    "\<forall>(m, cmd, num) \<in> set ms. cmd \<noteq> 14 \<and> cmd \<noteq> 23" using ms(4) by auto
  obtain es q' where "commands L x ms (drop (length bs) (cs_pkt s)) (ms_conf ?st, ms_v ?st) = Some (Cont 0 (es, q'))"
    using commands_defined[OF q(2)] by blast
  moreover have "length (mx_stack x) = 1500" using assms(2) by (simp add: agent_input_ok_def)
  ultimately obtain st' where "ma_cmd_parser n L x (of_nat (length bs)) ?st = Returned (Cont 0 st')"
    using ma_loop_stream[OF assms(1) _ q(1), of x ?st "drop (length bs) (cs_pkt s)" n] ms(1,2,3) by (cases q') auto
  then show ?thesis using True bs w by (auto simp: ma_receive_def split: list.split)
next
  case False
  then show ?thesis by (auto simp: ma_receive_def split: sum.split list.split)
qed

lemma ma_turn_defined:
  assumes L: "layout_ok L" and x: "agent_input_ok n L x env" and len: "length (cs_pkt s) = 2048"
  shows "\<exists>s' es. ma_turn n L x v env s = Returned (Cont 0 (s', es))"
proof -
  define s1 where s1: "s1 = (if dms_ma_reload (cs_conf s) = 1
     then (cs_close s)\<lparr>cs_conf := (cs_conf s)\<lparr>dms_ma_reload := 0\<rparr>\<rparr> else s)"
  have turn: "ma_turn n L x v env s = (if cs_sock s1 = -1
      then (let (fd, es) = connect2ma env (cs_conf s1) in
        if fd = -1 then Returned (Cont 0 (cs_failed (cs_add es s1), []))
        else (case cs_send env (vpu_fill_regma_packet L (ce_pid env) (cs_conf s1)) (cs_add es (s1\<lparr>cs_sock := fd\<rparr>)) of
            None \<Rightarrow> Undefined
          | Some (_, s2) \<Rightarrow> ma_receive n L x v env s2))
      else ma_receive n L x v env s1)"
    by (simp only: ma_turn_def Let_def s1)
  have l1: "length (cs_pkt s1) = 2048" using len by (simp add: s1 cs_close_def cs_add_def)
  show ?thesis
  proof (cases "cs_sock s1 = -1")
    case False
    then show ?thesis using ma_receive_defined[OF L x l1] unfolding turn by simp
  next
    case True
    obtain fd cs where c: "connect2ma env (cs_conf s1) = (fd, cs)" by (cases "connect2ma env (cs_conf s1)")
    show ?thesis
    proof (cases "fd = -1")
      case fd: True
      then show ?thesis using True c unfolding turn by simp
    next
      case fd: False
      let ?s = "cs_add cs (s1\<lparr>cs_sock := fd\<rparr>)"
      have "length (cs_pkt ?s) = 2048" using l1 by (simp add: cs_add_def)
      from regma_message[OF L this, of "ce_pid env" "cs_conf s1" "cs_num ?s"]
      obtain k p where p: "vpu_fill_regma_packet L (ce_pid env) (cs_conf s1) (cs_pkt ?s) (cs_num ?s) = Some (k, p)" "length p = 2048" "unat k \<le> 2048"
        by blast
      then have "cs_send env (vpu_fill_regma_packet L (ce_pid env) (cs_conf s1)) ?s =
          Some (ce_write env (take (unat k) p), cs_add [Conn_write (cs_sock ?s) (take (unat k) p)] (?s\<lparr>cs_pkt := p, cs_num := cs_num ?s + 1\<rparr>))"
        unfolding cs_send_def by (simp add: rd_n_def)
      then show ?thesis using ma_receive_defined[OF L x, of "cs_add [Conn_write (cs_sock ?s) (take (unat k) p)] (?s\<lparr>cs_pkt := p, cs_num := cs_num ?s + 1\<rparr>)" v]
          True fd c p(2) unfolding turn by (simp add: cs_add_def)
    qed
  qed
qed

end
