(* ===== verification/Cycle_Operation.thy ===== *)
theory Cycle_Operation
  imports Voice_Parser Conf
begin

text \<open>
  The periodic work, \<open>src/src/cycle_operation.c\<close>: the thread that makes the directories of the next day, removes the
  oldest ones, ends silent calls, marks full disks and ends the program; and the functions that
  check and delete directories by their names, which the thread no longer calls.

  The clock, the calendar, the file system and the shell are parameters and a log.
\<close>

subsection \<open>The thread\<close>

datatype cycle_event = Made_day tm "string list" | System string

record cycle_env =
  cy_time :: int
  cy_localtime :: "int \<Rightarrow> tm option"
  cy_is_dir :: "string \<Rightarrow> bool"
  cy_mkdir :: "string \<Rightarrow> bool"
  cy_bavail :: "string \<Rightarrow> u64"
  cy_bsize :: "string \<Rightarrow> u64"
  cy_storage_time :: u32
  cy_disk_left :: u32
  cy_stop :: bool

record cycle_state =
  cy_last_day :: int
  cy_slots :: slots
  cy_vp :: vp_state
  cy_log :: "cycle_event list"

definition make_next_day :: "cycle_env \<Rightarrow> file_dirs_info \<Rightarrow> tm \<Rightarrow> string list option" where
  "make_next_day env fd t = create_all_dirs (cy_is_dir env) (cy_mkdir env) fd
     (nat (tm_year t + 1900)) (nat (tm_mon t + 1)) (nat (tm_mday t))"

text \<open>The command that removes a day from a directory, if the day is there; it goes through a buffer of 256 characters.\<close>

definition rm_day :: "cycle_env \<Rightarrow> tm \<Rightarrow> string \<Rightarrow> cycle_event list" where
  "rm_day env t root =
     (let dir = snprintf 256 (date_dir root NORMAL_DIR (nat (tm_year t + 1900)) (nat (tm_mon t + 1)) (nat (tm_mday t))) in
      if cy_is_dir env dir then [System (snprintf 256 (''rm -rf '' @ dir))] else [])"

text \<open>The storage time is multiplied in 32 bits.\<close>

definition time_before :: "cycle_env \<Rightarrow> int" where
  "time_before env = cy_time env - uint (cy_storage_time env * 24 * 60 * 60)"

definition cycle_day :: "cycle_env \<Rightarrow> file_dirs_info \<Rightarrow> cycle_event list option" where
  "cycle_day env fd = do {
     nextday \<leftarrow> cy_localtime env (cy_time env + 24 * 60 * 60);
     made \<leftarrow> make_next_day env fd nextday;
     tmp_before \<leftarrow> cy_localtime env (time_before env);
     es \<leftarrow> rd_n (fd_dirs fd) 0 (unat (fd_num fd));
     Some (Made_day nextday made # concat (map (\<lambda>e. rm_day env tmp_before (dir_name e)) es))}"

text \<open>The flag of one directory: 0 when the whole gigabytes left are not above the limit.\<close>

definition disk_flag :: "cycle_env \<Rightarrow> file_dirs_node \<Rightarrow> file_dirs_node" where
  "disk_flag env e =
     (let avail_disk = drop_bit 30 (cy_bavail env (dir_name e) * cy_bsize env (dir_name e)) in
      e\<lparr>write_flag := (if avail_disk \<le> ucast (cy_disk_left env) then 0 else 1)\<rparr>)"

definition cycle_disks :: "cycle_env \<Rightarrow> file_dirs_info \<Rightarrow> file_dirs_info option" where
  "cycle_disks env fd = do {
     es \<leftarrow> rd_n (fd_dirs fd) 0 (unat (fd_num fd));
     Some (fd\<lparr>fd_dirs := map (disk_flag env) es @ drop (unat (fd_num fd)) (fd_dirs fd)\<rparr>)}"

text \<open>One turn; the result says whether it was the last.\<close>

definition cycle_turn :: "cycle_env \<Rightarrow> cycle_state \<Rightarrow> (bool \<times> cycle_state) option" where
  "cycle_turn env s = do {
     s1 \<leftarrow> (case cy_localtime env (cy_time env) of
         None \<Rightarrow> Some s
       | Some cur_tm \<Rightarrow> do {
           es \<leftarrow> (if tm_mday cur_tm \<noteq> cy_last_day s then cycle_day env (vp_dirs (cy_vp s)) else Some []);
           (vf, g) \<leftarrow> cycle_slots (cy_time env) all_slots (cy_slots s) (cy_vp s);
           Some (s\<lparr>cy_last_day := tm_mday cur_tm, cy_slots := vf, cy_vp := g, cy_log := cy_log s @ es\<rparr>)});
     fd \<leftarrow> cycle_disks env (vp_dirs (cy_vp s1));
     let s2 = s1\<lparr>cy_vp := (cy_vp s1)\<lparr>vp_dirs := fd\<rparr>\<rparr>;
     Some (cy_stop env \<and> atomic64_read (call_online (vp_counters (cy_vp s2))) = 0, s2)}"

definition cycle_start :: "tm \<Rightarrow> slots \<Rightarrow> vp_state \<Rightarrow> cycle_state" where
  "cycle_start cur_tm vf g = \<lparr>cy_last_day = tm_mday cur_tm, cy_slots = vf, cy_vp = g, cy_log = []\<rparr>"

subsection \<open>Directories by name\<close>

text \<open>
  The loop over the characters of a name: at a hyphen it goes on without moving. The result is \<open>None\<close> for another
  character, or the numbers of digits and hyphens; the count of hyphens is an \<open>int\<close>.
\<close>

fun scan_name :: "nat \<Rightarrow> string \<Rightarrow> int \<Rightarrow> int \<Rightarrow> (int \<times> int) option loop_result" where
  "scan_name 0 p digits num = Running"
| "scan_name (Suc n) [] digits num = Returned (Some (digits, num))"
| "scan_name (Suc n) (c # cs) digits num =
     (if c = CHR ''-'' then (if num = 2 ^ 31 - 1 then Undefined else scan_name n (c # cs) digits (num + 1))
      else if \<not> is_digit c then Returned None
      else scan_name n cs (digits + 1) num)"

definition days_in :: "int \<Rightarrow> int \<Rightarrow> int" where
  "days_in year mon =
     (if mon \<in> set [1, 3, 5, 7, 8, 10, 12] then 31
      else if mon = 2 then (if year mod 4 = 0 \<and> year mod 100 \<noteq> 0 \<or> year mod 400 = 0 then 29 else 28)
      else 30)"

text \<open>
  The date of a name of digits and hyphens; \<open>st\<close> gives what \<open>stat\<close> returns and whether the mode it left is that
  of a directory.
\<close>

definition check_date :: "tm \<Rightarrow> (string \<Rightarrow> int \<times> bool) \<Rightarrow> string \<Rightarrow> int option" where
  "check_date tp st name =
     (if fst (st name) \<noteq> 0 \<and> \<not> snd (st name) then Some (-2)
      else do {
        year \<leftarrow> atoi (take 4 name);
        if year < tm_year tp + 1899 \<or> year > tm_year tp + 1901 then Some (-2)
        else do {
          mon \<leftarrow> atoi (take 2 (drop 5 name));
          if mon < 1 \<or> mon > 12 then Some (-2)
          else do {
            day \<leftarrow> atoi (take 2 (drop 8 name));
            Some (if day < 1 \<or> day > days_in year mon then -2 else 0)}}})"

definition check_filename :: "nat \<Rightarrow> tm \<Rightarrow> (string \<Rightarrow> int \<times> bool) \<Rightarrow> string \<Rightarrow> int loop_result" where
  "check_filename n tp st name =
     (case scan_name n name 0 0 of
        Running \<Rightarrow> Running
      | Undefined \<Rightarrow> Undefined
      | Returned None \<Rightarrow> Returned (-2)
      | Returned (Some (digits, num)) \<Rightarrow>
          (if digits \<noteq> 8 \<or> num \<noteq> 2 then Returned (-2)
           else (case check_date tp st name of None \<Rightarrow> Undefined | Some r \<Rightarrow> Returned r)))"

text \<open>The parts of a name between hyphens, as \<open>strtok\<close> cuts it.\<close>

fun hyphen_toks :: "string \<Rightarrow> string \<Rightarrow> string list" where
  "hyphen_toks tok [] = (if tok = [] then [] else [rev tok])"
| "hyphen_toks tok (c # cs) =
     (if c = CHR ''-'' then (if tok = [] then hyphen_toks [] cs else rev tok # hyphen_toks [] cs) else hyphen_toks (c # tok) cs)"

text \<open>What \<open>strtok\<close> leaves of the name itself: it ends after the first part.\<close>

definition strtok_left :: "string \<Rightarrow> string" where
  "strtok_left s = takeWhile (\<lambda>c. c = CHR ''-'') s @ takeWhile (\<lambda>c. c \<noteq> CHR ''-'') (dropWhile (\<lambda>c. c = CHR ''-'') s)"

text \<open>The return code, the new name and the commands given to the shell.\<close>

definition change_name_format :: "nat \<Rightarrow> tm \<Rightarrow> (string \<Rightarrow> int \<times> bool) \<Rightarrow> string \<Rightarrow> string \<Rightarrow> (int \<times> string \<times> string list) loop_result" where
  "change_name_format n tp st tmpname filename =
     (case check_filename n tp st filename of
        Running \<Rightarrow> Running
      | Undefined \<Rightarrow> Undefined
      | Returned ret \<Rightarrow>
          (if ret \<noteq> 0 then Returned (-1, tmpname, [snprintf 128 (''rm -rf '' @ filename)])
           else (case hyphen_toks [] filename of
               y # m # d # _ \<Rightarrow> (if 128 \<le> length (y @ m @ d) then Undefined else Returned (0, y @ m @ d, []))
             | _ \<Rightarrow> Undefined)))"

text \<open>The loop over the entries of the directory.\<close>

fun delete_entries ::
  "nat \<Rightarrow> tm \<Rightarrow> (string \<Rightarrow> int \<times> bool) \<Rightarrow> string \<Rightarrow> int \<Rightarrow> int \<Rightarrow> string list \<Rightarrow> string list \<Rightarrow> (int \<times> string list) loop_result" where
  "delete_entries n tp st path start until [] cmds = Returned (0, cmds)"
| "delete_entries n tp st path start until (nm # nms) cmds =
     (if nm \<noteq> [] \<and> hd nm = CHR ''.'' then delete_entries n tp st path start until nms cmds
      else (case check_filename n tp st nm of
          Running \<Rightarrow> Running
        | Undefined \<Rightarrow> Undefined
        | Returned ret \<Rightarrow>
            (if ret \<noteq> 0 then delete_entries n tp st path start until nms (cmds @ [''rm -rf '' @ path @ nm])
             else (case change_name_format n tp st '''' nm of
                 Running \<Rightarrow> Running
               | Undefined \<Rightarrow> Undefined
               | Returned (r, tmpname, cs) \<Rightarrow>
                   (if r \<noteq> 0 then Returned (-1, cmds @ cs)
                    else (case atoi tmpname of
                        None \<Rightarrow> Undefined
                      | Some now \<Rightarrow>
                          delete_entries n tp st path start until nms
                            (cmds @ cs @ (if now < start \<or> now > until then [''rm -rf '' @ path @ strtok_left nm] else []))))))))"

definition today_name :: "tm \<Rightarrow> string" where
  "today_name t = fmt_dec 0 (nat (tm_year t + 1900)) @ ''-'' @ fmt_dec 2 (nat (tm_mon t + 1)) @ ''-'' @ fmt_dec 2 (nat (tm_mday t))"

text \<open>\<open>entries\<close> is the list of entries of the directory, or none when it cannot be opened.\<close>

definition delete_invalid_file ::
  "nat \<Rightarrow> tm \<Rightarrow> (string \<Rightarrow> int \<times> bool) \<Rightarrow> string list option \<Rightarrow> string \<Rightarrow> string \<Rightarrow> (int \<times> string list) loop_result" where
  "delete_invalid_file n tp st entries filename path =
     (case check_filename n tp st filename of
        Running \<Rightarrow> Running
      | Undefined \<Rightarrow> Undefined
      | Returned ret \<Rightarrow>
          (if ret \<noteq> 0 then Returned (-1, [])
           else (case entries of
               None \<Rightarrow> Returned (-1, [])
             | Some nms \<Rightarrow>
                 (case change_name_format n tp st '''' filename of
                    Running \<Rightarrow> Running
                  | Undefined \<Rightarrow> Undefined
                  | Returned (r1, t1, c1) \<Rightarrow>
                      (if r1 \<noteq> 0 then Returned (-1, c1)
                       else (case change_name_format n tp st t1 (today_name tp) of
                           Running \<Rightarrow> Running
                         | Undefined \<Rightarrow> Undefined
                         | Returned (r2, t2, c2) \<Rightarrow>
                             (if r2 \<noteq> 0 then Returned (-1, c1 @ c2)
                              else (case (atoi t1, atoi t2) of
                                  (Some start, Some until) \<Rightarrow> delete_entries n tp st path start until nms (c1 @ c2)
                                | _ \<Rightarrow> Undefined))))))))"

subsection \<open>A turn is safe\<close>

lemma cycle_inv_dirs:
  assumes "table_inv vf g" "dirs_ok fd" "0 < fd_num fd"
  shows "table_inv vf (g\<lparr>vp_dirs := fd\<rparr>)"
  using assms by (auto simp: table_inv_def vp_inv_def sys_ok_def pool_ok_def pool_lists_def)

lemma table_dirs:
  assumes "table_inv vf g"
  shows "dirs_ok (vp_dirs g)" "0 < fd_num (vp_dirs g)"
  using assms by (auto simp: table_inv_def vp_inv_def sys_ok_def)

lemma dirs_used: "dirs_ok fd \<Longrightarrow> rd_n (fd_dirs fd) 0 (unat (fd_num fd)) = Some (used_dirs fd)"
  by (simp add: dirs_ok_def rd_n_def used_dirs_def)

lemma disk_flag_name [simp]: "dir_name (disk_flag env e) = dir_name e"
  by (simp add: disk_flag_def Let_def)

lemma cycle_disks_ok:
  assumes "dirs_ok fd"
  obtains fd' where "cycle_disks env fd = Some fd'" "dirs_ok fd'" "fd_num fd' = fd_num fd"
    "used_dirs fd' = map (disk_flag env) (used_dirs fd)"
proof -
  have len: "length (used_dirs fd) = unat (fd_num fd)" using assms by (simp add: dirs_ok_def used_dirs_def)
  then show ?thesis
    using assms that[of "fd\<lparr>fd_dirs := map (disk_flag env) (used_dirs fd) @ drop (unat (fd_num fd)) (fd_dirs fd)\<rparr>"]
    by (simp add: cycle_disks_def dirs_used dirs_ok_def used_dirs_def)
qed

lemma cycle_day_Some:
  assumes "dirs_ok fd" "\<forall>t. cy_localtime env t \<noteq> None"
  shows "\<exists>es. cycle_day env fd = Some es"
proof -
  obtain a b where "cy_localtime env (cy_time env + 24 * 60 * 60) = Some a" "cy_localtime env (time_before env) = Some b"
    using assms(2) by (metis option.exhaust)
  then show ?thesis using assms(1) by (simp add: cycle_day_def make_next_day_def create_all_dirs_def dirs_used)
qed

lemma cycle_turn_cases:
  assumes t: "table_inv (cy_slots s) (cy_vp s)" and lt: "\<forall>t. cy_localtime env t \<noteq> None"
  obtains cur es vf g fd where "cy_localtime env (cy_time env) = Some cur"
    "(if tm_mday cur \<noteq> cy_last_day s then cycle_day env (vp_dirs (cy_vp s)) else Some []) = Some es"
    "table_inv vf (g\<lparr>vp_dirs := fd\<rparr>)" "counted (cy_slots s) (cy_vp s) \<longrightarrow> counted vf (g\<lparr>vp_dirs := fd\<rparr>)"
    "fd_num fd = fd_num (vp_dirs (cy_vp s))" "used_dirs fd = map (disk_flag env) (used_dirs (vp_dirs (cy_vp s)))"
    "cycle_turn env s = Some (cy_stop env \<and> call_online (vp_counters g) = 0,
       s\<lparr>cy_last_day := tm_mday cur, cy_slots := vf, cy_vp := g\<lparr>vp_dirs := fd\<rparr>, cy_log := cy_log s @ es\<rparr>)"
proof -
  note d = table_dirs[OF t]
  obtain cur where cur: "cy_localtime env (cy_time env) = Some cur" using lt by fastforce
  obtain es where es: "(if tm_mday cur \<noteq> cy_last_day s then cycle_day env (vp_dirs (cy_vp s)) else Some []) = Some es"
  proof (cases "tm_mday cur \<noteq> cy_last_day s")
    case True
    obtain es where "cycle_day env (vp_dirs (cy_vp s)) = Some es" using cycle_day_Some[OF d(1) lt] by blast
    then show ?thesis using that[of es] True by simp
  next
    case False
    then show ?thesis using that[of "[]"] by simp
  qed
  from cycle_slots_ok[OF t, of "cy_time env" all_slots] obtain vf g where
    c: "cycle_slots (cy_time env) all_slots (cy_slots s) (cy_vp s) = Some (vf, g)" "table_inv vf g"
      "counted (cy_slots s) (cy_vp s) \<longrightarrow> counted vf g" "vp_dirs g = vp_dirs (cy_vp s)" by blast
  obtain fd where fd: "cycle_disks env (vp_dirs g) = Some fd" "dirs_ok fd" "fd_num fd = fd_num (vp_dirs g)"
    "used_dirs fd = map (disk_flag env) (used_dirs (vp_dirs g))"
    using cycle_disks_ok[OF table_dirs(1)[OF c(2)]] by blast
  have inv: "table_inv vf (g\<lparr>vp_dirs := fd\<rparr>)" using cycle_inv_dirs[OF c(2) fd(2)] fd(3) table_dirs(2)[OF c(2)] by simp
  have cnt: "counted (cy_slots s) (cy_vp s) \<longrightarrow> counted vf (g\<lparr>vp_dirs := fd\<rparr>)" using c(3) by (simp add: counted_def)
  have turn: "cycle_turn env s = Some (cy_stop env \<and> call_online (vp_counters g) = 0,
       s\<lparr>cy_last_day := tm_mday cur, cy_slots := vf, cy_vp := g\<lparr>vp_dirs := fd\<rparr>, cy_log := cy_log s @ es\<rparr>)"
    using cur es c(1) fd(1) by (simp add: cycle_turn_def atomic64_read_def)
  show ?thesis by (rule that[OF cur es inv cnt _ _ turn]) (use fd(3,4) c(4) in simp_all)
qed


definition cycle_test_env :: "int \<Rightarrow> cycle_env" where
  "cycle_test_env t = \<lparr>cy_time = t, cy_localtime = (\<lambda>t. Some \<lparr>tm_year = 116, tm_mon = 4, tm_mday = 1 + (t + 3600) div 86400\<rparr>), cy_is_dir = (\<lambda>p. False),
     cy_mkdir = (\<lambda>p. True), cy_bavail = (\<lambda>p. 1), cy_bsize = (\<lambda>p. 4096), cy_storage_time = 1, cy_disk_left = 5, cy_stop = True\<rparr>"


subsection \<open>The days on the disk\<close>

text \<open>
  A calendar without changes of the clock: the local time is \<open>off\<close> seconds ahead of the clock all year round, so a day is
  86400 seconds, and it has another day of the month than the next. \<open>day\<close> gives the date of each local day.
\<close>

definition local_day :: "int \<Rightarrow> int \<Rightarrow> int" where
  "local_day off t = (t + off) div 86400"

definition plain_calendar :: "int \<Rightarrow> (int \<Rightarrow> tm option) \<Rightarrow> (int \<Rightarrow> tm) \<Rightarrow> bool" where
  "plain_calendar off lt day \<longleftrightarrow> (\<forall>t. lt t = Some (day (local_day off t))) \<and> (\<forall>d. tm_mday (day (d + 1)) \<noteq> tm_mday (day d))"

fun cycle_run :: "cycle_env list \<Rightarrow> cycle_state \<Rightarrow> cycle_state option" where
  "cycle_run [] s = Some s"
| "cycle_run (env # es) s = do {(fin, s') \<leftarrow> cycle_turn env s; cycle_run es s'}"

text \<open>Turns at least once a day, each on the day of the one before or the next.\<close>

fun daily :: "int \<Rightarrow> (int \<Rightarrow> tm) \<Rightarrow> int \<Rightarrow> cycle_env list \<Rightarrow> bool" where
  "daily off day d [] = True"
| "daily off day d (env # es) \<longleftrightarrow> plain_calendar off (cy_localtime env) day \<and>
     (local_day off (cy_time env) = d \<or> local_day off (cy_time env) = d + 1) \<and> daily off day (local_day off (cy_time env)) es"

fun last_of :: "int \<Rightarrow> int \<Rightarrow> cycle_env list \<Rightarrow> int" where
  "last_of off d [] = d"
| "last_of off d (env # es) = last_of off (local_day off (cy_time env)) es"

definition roots :: "file_dirs_info \<Rightarrow> string list" where
  "roots fd = map dir_name (used_dirs fd)"

definition day_dir :: "string \<Rightarrow> tm \<Rightarrow> string" where
  "day_dir root t = date_dir root NORMAL_DIR (nat (tm_year t + 1900)) (nat (tm_mon t + 1)) (nat (tm_mday t))"

text \<open>All directories of a day below a storage directory, in both trees, and the directories made by the thread.\<close>

definition day_tree :: "string \<Rightarrow> tm \<Rightarrow> string list" where
  "day_tree root t =
     (let y = nat (tm_year t + 1900); m = nat (tm_mon t + 1); d = nat (tm_mday t) in
      tree_paths root NORMAL_DIR y m d @ tree_paths root CASE_DIR y m d)"

fun paths_made :: "cycle_event list \<Rightarrow> string list" where
  "paths_made [] = []"
| "paths_made (Made_day t paths # es) = paths @ paths_made es"
| "paths_made (System c # es) = paths_made es"

lemma set_paths_made: "set (paths_made es) = (\<Union>(t, paths) \<in> {(t, paths). Made_day t paths \<in> set es}. set paths)"
  by (induction es rule: paths_made.induct) auto

lemma paths_made_append: "paths_made (es @ es') = paths_made es @ paths_made es'"
  by (induction es rule: paths_made.induct) auto

text \<open>
  The directories of a day are there below every storage directory: all of them were made, or a turn found the directory of the
  day when it was to make it, and made nothing.
\<close>

definition day_there :: "string list \<Rightarrow> cycle_env list \<Rightarrow> cycle_event list \<Rightarrow> tm \<Rightarrow> bool" where
  "day_there rs envs log t \<longleftrightarrow> (\<forall>r \<in> set rs. set (day_tree r t) \<subseteq> set (paths_made log) \<or>
     (\<exists>env \<in> set envs. cy_is_dir env (snprintf 256 (day_dir r t))))"

lemma mk_all_all: "\<forall>p. ok p \<Longrightarrow> mk_all ok ps = (0, ps)"
  by (induction ps) auto

lemma make_next_day_all:
  assumes "dirs_ok fd" "\<forall>p. cy_mkdir env p" "make_next_day env fd t = Some made" "r \<in> set (roots fd)"
  shows "set (day_tree r t) \<subseteq> set made \<or> cy_is_dir env (snprintf 256 (day_dir r t))"
proof (cases "cy_is_dir env (snprintf 256 (day_dir r t))")
  case True
  then show ?thesis by simp
next
  case False
  then have "snd (create_file_dirs (cy_is_dir env) (cy_mkdir env) (Some r)
      (nat (tm_year t + 1900)) (nat (tm_mon t + 1)) (nat (tm_mday t))) = day_tree r t"
    using assms(2) by (simp add: create_file_dirs_def day_dir_def day_tree_def mk_all_all Let_def)
  then have "set (day_tree r t) \<subseteq> set made"
    using assms(1,3,4) by (force simp: make_next_day_def create_all_dirs_def dirs_used roots_def)
  then show ?thesis by simp
qed

lemma cycle_day_made:
  assumes "dirs_ok fd" "plain_calendar off (cy_localtime env) day" "cycle_day env fd = Some es" "\<forall>p. cy_mkdir env p"
  shows "day_there (roots fd) [env] es (day (local_day off (cy_time env) + 1))"
proof -
  have "(cy_time env + 24 * 60 * 60 + off) div 86400 = (cy_time env + off) div 86400 + 1"
    by (simp add: add.assoc add.commute[of _ off])
  then have day: "cy_localtime env (cy_time env + 24 * 60 * 60) = Some (day (local_day off (cy_time env) + 1))"
    using assms(2) by (simp add: plain_calendar_def local_day_def)
  obtain made es' where m: "make_next_day env fd (day (local_day off (cy_time env) + 1)) = Some made"
      "es = Made_day (day (local_day off (cy_time env) + 1)) made # es'"
    using assms(3) unfolding cycle_day_def day by (auto split: Option.bind_splits)
  show ?thesis using make_next_day_all[OF assms(1,4) m(1)] by (auto simp: day_there_def m(2))
qed

lemma day_there_mono:
  "day_there rs envs log t \<Longrightarrow> set envs \<subseteq> set envs' \<Longrightarrow> day_there rs envs' (log @ log') t"
  "day_there rs envs log' t \<Longrightarrow> set envs \<subseteq> set envs' \<Longrightarrow> day_there rs envs' (log @ log') t"
  unfolding day_there_def paths_made_append by fastforce+

lemma roots_disk: "used_dirs fd' = map (disk_flag env) (used_dirs fd) \<Longrightarrow> roots fd' = roots fd"
  by (simp add: roots_def)




subsection \<open>The days removed\<close>

definition valid_tm :: "tm \<Rightarrow> bool" where
  "valid_tm t \<longleftrightarrow> 0 \<le> tm_year t + 1900 \<and> tm_year t < 8100 \<and> 0 \<le> tm_mon t \<and> tm_mon t < 12 \<and> 1 \<le> tm_mday t \<and> tm_mday t \<le> 31"

lemma valid_tm_nat:
  assumes "valid_tm t"
  shows "nat (tm_year t + 1900) < 10 ^ 4" "nat (tm_mon t + 1) < 100" "nat (tm_mday t) < 100"
  using assms by (auto simp: valid_tm_def)

lemma length_day_dir: "valid_tm t \<Longrightarrow> length (day_dir root t) = length root + 18"
  using valid_tm_nat[of t] fmt2 length_fmt_num[of 4 10 "nat (tm_year t + 1900)"] by (simp add: day_dir_def date_dir_def)

lemma fmt_dec_inj: "fmt_dec w n = fmt_dec w m \<Longrightarrow> n = m"
  by (erule fmt_num_inj) simp_all

text \<open>The name of a directory shows its day, whatever the root.\<close>

lemma day_dir_inj:
  assumes v: "valid_tm t" "valid_tm t'" and eq: "day_dir r t = day_dir r' t'"
  shows "t = t'"
proof -
  have l: "length r = length r'" using arg_cong[OF eq, of length] by (simp add: length_day_dir v)
  note n = valid_tm_nat[OF v(1)] valid_tm_nat[OF v(2)]
  have f: "length (fmt_dec 4 (nat (tm_year t + 1900))) = length (fmt_dec 4 (nat (tm_year t' + 1900)))"
    "length (fmt_dec 2 (nat (tm_mon t + 1))) = length (fmt_dec 2 (nat (tm_mon t' + 1)))"
    using n fmt2 by (simp_all add: length_fmt_num)
  have "fmt_dec 4 (nat (tm_year t + 1900)) = fmt_dec 4 (nat (tm_year t' + 1900))"
    "fmt_dec 2 (nat (tm_mon t + 1)) = fmt_dec 2 (nat (tm_mon t' + 1))" "fmt_dec 2 (nat (tm_mday t)) = fmt_dec 2 (nat (tm_mday t'))"
    using eq l f unfolding day_dir_def date_dir_def by simp_all
  then have "nat (tm_year t + 1900) = nat (tm_year t' + 1900)" "nat (tm_mon t + 1) = nat (tm_mon t' + 1)"
    "nat (tm_mday t) = nat (tm_mday t')"
    by (auto dest: fmt_dec_inj)
  then have "tm_year t = tm_year t'" "tm_mon t = tm_mon t'" "tm_mday t = tm_mday t'"
    using v by (simp_all add: valid_tm_def eq_nat_nat_iff)
  then show ?thesis by simp
qed

lemma rm_day_eq:
  assumes "valid_tm t" "length root \<le> 230"
  shows "rm_day env t root = (if cy_is_dir env (day_dir root t) then [System (''rm -rf '' @ day_dir root t)] else [])"
proof -
  have "snprintf 256 (day_dir root t) = day_dir root t" "snprintf 256 (''rm -rf '' @ day_dir root t) = ''rm -rf '' @ day_dir root t"
    using length_day_dir[OF assms(1), of root] assms(2) by (simp_all add: snprintf_fits)
  then show ?thesis unfolding rm_day_def Let_def day_dir_def by simp
qed

lemma uint_mult_lem_small: "uint (w :: u32) * k < 2 ^ 32 \<Longrightarrow> 0 \<le> k \<Longrightarrow> k < 2 ^ 32 \<Longrightarrow> uint (w * word_of_int k) = uint w * k"
  by (simp add: uint_word_ariths uint_word_of_int)

lemma time_before_day:
  assumes "unat (cy_storage_time env) \<le> 49710"
  shows "local_day off (time_before env) = local_day off (cy_time env) - uint (cy_storage_time env)"
proof -
  have u: "uint (cy_storage_time env) \<le> 49710" using assms unfolding unat_eq_nat_uint by linarith
  have "x * 24 * 60 * 60 = x * word_of_int 86400" for x :: u32 by (simp add: mult.assoc)
  then have "uint (cy_storage_time env * 24 * 60 * 60) = uint (cy_storage_time env) * 86400"
    using uint_mult_lem_small[of "cy_storage_time env" 86400] u by (simp only:) simp
  then have "time_before env + off = (cy_time env + off) + - uint (cy_storage_time env) * 86400" by (simp add: time_before_def)
  moreover have "(a + - b * 86400) div 86400 = a div 86400 - b" for a b :: int by simp
  ultimately show ?thesis by (simp add: local_day_def)
qed

text \<open>
  C20. In the normal tree exactly the expired day is removed, in the case tree nothing. When the day changes, in a zone whose clock is not
  changed, the commands given to the shell are exactly these: for every storage directory, the removal of the directory in the
  normal tree of the day that is the storage time before today, if it is
  there; so among any days with different dates no other is removed, today and the days kept least of all. The names of
  the storage directories have at most 230 characters, for the command is cut at 255, and the storage time
  is at most 49710 days, for its seconds are computed in 32 bits.
\<close>

theorem removes_expired_day:
  assumes "dirs_ok fd" and "plain_calendar off (cy_localtime env) day" and "cycle_day env fd = Some es"
    and "unat (cy_storage_time env) \<le> 49710" and "\<forall>r \<in> set (roots fd). length r \<le> 230"
    and "today = local_day off (cy_time env)" and "expired = today - uint (cy_storage_time env)"
    and "expired \<in> W" and "inj_on day W" and "\<forall>d \<in> W. valid_tm (day d)"
  shows "(\<forall>c. System c \<in> set es \<longleftrightarrow> (\<exists>r \<in> set (roots fd). c = ''rm -rf '' @ day_dir r (day expired) \<and> cy_is_dir env (day_dir r (day expired)))) \<and>
    (\<forall>d \<in> W. \<forall>r. System (''rm -rf '' @ day_dir r (day d)) \<in> set es \<longrightarrow> d = expired)"
proof -
  have "cy_localtime env (time_before env) = Some (day expired)"
    using assms(2) by (simp add: plain_calendar_def time_before_day[OF assms(4)] assms(6,7))
  then obtain t made where es: "es = Made_day t made # concat (map (\<lambda>e. rm_day env (day expired) (dir_name e)) (used_dirs fd))"
    using assms(3) by (auto simp: cycle_day_def dirs_used[OF assms(1)] split: Option.bind_splits)
  have v: "valid_tm (day expired)" using assms(8,10) by blast
  have "(System c \<in> set es) = (\<exists>r \<in> set (roots fd). System c \<in> set (rm_day env (day expired) r))" for c
    by (auto simp: es roots_def)
  then have c: "(System c \<in> set es) = (\<exists>r \<in> set (roots fd). c = ''rm -rf '' @ day_dir r (day expired) \<and>
      cy_is_dir env (day_dir r (day expired)))" for c
    using assms(5) by (auto simp: rm_day_eq[OF v] split: if_splits)
  have only: "d = expired" if mem: "d \<in> W" and sys: "System (''rm -rf '' @ day_dir r (day d)) \<in> set es" for d r
  proof -
    obtain r' where "day_dir r (day d) = day_dir r' (day expired)" using sys c by auto
    then have "day d = day expired" using day_dir_inj v assms(10) mem by blast
    then show ?thesis using assms(8,9) mem by (simp add: inj_on_eq_iff)
  qed
  show ?thesis by (intro conjI allI ballI impI c only)
qed

definition old_day_env :: cycle_env where
  "old_day_env = (cycle_test_env 172800)\<lparr>cy_is_dir := (\<lambda>p. p = ''/normal/2016-05-02'')\<rparr>"

theorem removes_expired_day_witness:
  "\<exists>es. cycle_day old_day_env (empty_dirs\<lparr>fd_num := 1\<rparr>) = Some es \<and>
     (\<forall>r. System (''rm -rf '' @ day_dir r \<lparr>tm_year = 116, tm_mon = 4, tm_mday = 3\<rparr>) \<notin> set es)"
proof -
  let ?fd = "empty_dirs\<lparr>fd_num := 1\<rparr>" and ?day = "\<lambda>d. \<lparr>tm_year = 116, tm_mon = 4, tm_mday = 1 + d\<rparr>" and ?W = "{0, 1, 2, 3 :: int}"
  have fd: "dirs_ok ?fd" by (simp add: dirs_ok_def empty_dirs_def)
  have roots: "roots ?fd = ['''']" by (simp add: roots_def used_dirs_def empty_dirs_def numeral_eq_Suc)
  have cal: "plain_calendar 3600 (cy_localtime old_day_env) ?day"
    by (simp add: plain_calendar_def old_day_env_def cycle_test_env_def local_day_def)
  then obtain es where es: "cycle_day old_day_env ?fd = Some es"
    using cycle_day_Some[OF fd, of old_day_env] by (auto simp: plain_calendar_def)
  have storage: "unat (cy_storage_time old_day_env) \<le> 49710" "2 - uint (cy_storage_time old_day_env) = (1 :: int)"
    "local_day 3600 (cy_time old_day_env) = 2"
    by (simp_all add: old_day_env_def cycle_test_env_def local_day_def)
  have W: "inj_on ?day ?W" "\<forall>d \<in> ?W. valid_tm (?day d)" by (auto simp: inj_on_def valid_tm_def)
  have "\<forall>d \<in> ?W. \<forall>r. System (''rm -rf '' @ day_dir r (?day d)) \<in> set es \<longrightarrow> d = 1"
    by (rule removes_expired_day[OF fd cal es storage(1) _ storage(3)[symmetric] storage(2)[symmetric] _ W, THEN conjunct2]) (simp_all add: roots)
  then show ?thesis using es by force
qed

subsection \<open>The functions that check names\<close>

lemma scan_hyphen: "scan_name n (CHR ''-'' # cs) digits num \<noteq> Returned r"
proof (induction n arbitrary: num)
  case 0
  then show ?case by simp
next
  case (Suc n)
  then show ?case by simp
qed

lemma scan_name_num: "scan_name n name digits num = Returned (Some (d, k)) \<Longrightarrow> k = num"
proof (induction n name digits num rule: scan_name.induct)
  case (3 n c cs digits num)
  then show ?case using scan_hyphen[of "Suc n" cs digits num] by (auto split: if_splits)
qed simp_all

lemma scan_digits_hyphen:
  "\<forall>c \<in> set ds. is_digit c \<Longrightarrow> scan_name n (ds @ CHR ''-'' # cs) digits num \<noteq> Returned r"
proof (induction ds arbitrary: n digits)
  case Nil
  then show ?case using scan_hyphen by simp
next
  case (Cons c ds)
  then have "c \<noteq> CHR ''-''" by (auto simp: is_digit_def)
  then show ?case using Cons by (cases n) auto
qed

lemma check_filename_never_ok: "check_filename n tp st name \<noteq> Returned 0"
proof
  assume c: "check_filename n tp st name = Returned 0"
  then obtain d k where s: "scan_name n name 0 0 = Returned (Some (d, k))"
    by (auto simp: check_filename_def split: loop_result.splits option.splits)
  then have "k = 0" by (rule scan_name_num)
  then show False using c s by (simp add: check_filename_def)
qed

lemma check_filename_hangs:
  assumes "\<forall>c \<in> set ds. is_digit c"
  shows "check_filename n tp st (ds @ CHR ''-'' # cs) \<noteq> Returned r"
  using scan_digits_hyphen[OF assms, of n cs 0 0]
  by (cases "scan_name n (ds @ CHR ''-'' # cs) 0 0") (auto simp: check_filename_def)

text \<open>
  The check of names accepts nothing. No name is found to be a date: a name of digits and hyphens is never finished
  once a hyphen is reached (the loop counts hyphens without moving until the counter overflows), and
  any other is refused. So the function that deletes the files out of a range of days, if it returns,
  has returned -1 and given no command.
\<close>

theorem no_name_is_a_date:
  "check_filename n tp st name \<noteq> Returned 0 \<and>
   ((\<forall>c \<in> set ds. is_digit c) \<longrightarrow> check_filename n tp st (ds @ CHR ''-'' # cs) \<noteq> Returned r) \<and>
   (delete_invalid_file n tp st entries name path = Returned (ret, cmds) \<longrightarrow> ret = -1 \<and> cmds = [])"
  using check_filename_never_ok[of n tp st name] check_filename_hangs
  by (auto simp: delete_invalid_file_def split: loop_result.splits if_splits)

theorem no_name_is_a_date_witness:
  "check_filename 100 \<lparr>tm_year = 116, tm_mon = 4, tm_mday = 1\<rparr> (\<lambda>_. (0, True)) ''2016-05-01'' \<noteq> Returned 0 \<and>
   check_filename 100 \<lparr>tm_year = 116, tm_mon = 4, tm_mday = 1\<rparr> (\<lambda>_. (0, True)) (''2016'' @ CHR ''-'' # ''05-01'') \<noteq> Returned (-2) \<and>
   delete_invalid_file 100 \<lparr>tm_year = 116, tm_mon = 4, tm_mday = 1\<rparr> (\<lambda>_. (0, True)) (Some []) ''lost+found'' ''/d'' = Returned (-1, [])"
proof -
  let ?t = "\<lparr>tm_year = 116, tm_mon = 4, tm_mday = 1\<rparr>" and ?st = "\<lambda>_. (0, True)"
  have d: "\<forall>c \<in> set ''2016''. is_digit c" by (simp add: is_digit_def)
  have "\<exists>r c. delete_invalid_file 100 ?t ?st (Some []) ''lost+found'' ''/d'' = Returned (r, c)"
    by (simp add: delete_invalid_file_def check_filename_def is_digit_def numeral_eq_Suc)
  then obtain r c where del: "delete_invalid_file 100 ?t ?st (Some []) ''lost+found'' ''/d'' = Returned (r, c)" by blast
  show ?thesis
    using no_name_is_a_date[of 100 ?t ?st "''2016-05-01''"] no_name_is_a_date[of 100 ?t ?st _ "''2016''" "''05-01''" "-2"]
      no_name_is_a_date[of 100 ?t ?st "''lost+found''" _ _ _ "Some []" "''/d''" r c] d del by blast
qed

end
