(* ===== verification/Fax_Sender.thy ===== *)
theory Fax_Sender
  imports Voice_Parser Conf
begin

text \<open>
  The threads that handle the samples of ended calls, the second part of \<open>src/src/fax_decode.c\<close>: they take a node from the
  full-node queue, have both directions decoded, put the call record into the ring of records, and send the
  record of a fax to one of the fax servers in turn; and the reload of the table of servers.

  What the decoder answers is a parameter here (it is modelled in \<open>Fax_Decode\<close>), as are the results of the
  socket calls. The array of an address holds its string and zeros behind it.
\<close>

subsection \<open>Connections\<close>

datatype fax_event = Fax_open int string u16 | Fax_send int struct_cdr | Fax_close int

text \<open>The results of \<open>socket\<close>, \<open>inet_pton\<close> and \<open>connect\<close>.\<close>

record conn_io =
  ci_socket :: int
  ci_pton :: bool
  ci_connect :: int

definition cconnect :: "conn_io \<Rightarrow> string \<Rightarrow> u32 \<Rightarrow> fax_event list \<times> int" where
  "cconnect c ip port =
     (let fd = ci_socket c; opened = Fax_open fd ip (ucast port) in
      if fd = -1 then ([], -1)
      else if \<not> ci_pton c then ([opened, Fax_close fd], -1)
      else if ci_connect c \<noteq> 0 then ([opened, Fax_close fd], -1)
      else ([opened], fd))"

definition connect_server :: "conn_io \<Rightarrow> fax_info \<Rightarrow> fax_event list \<times> fax_info" where
  "connect_server c f = (case cconnect c (fi_ip f) (fi_port f) of (es, fd) \<Rightarrow> (es, f\<lparr>fi_fd := fd\<rparr>))"

text \<open>The loop of \<open>init_connect\<close> over the entries \<open>i, ..., i + k - 1\<close>; \<open>ios i\<close> are the results for entry \<open>i\<close>.\<close>

fun connect_from :: "(nat \<Rightarrow> conn_io) \<Rightarrow> nat \<Rightarrow> nat \<Rightarrow> fax_info list \<Rightarrow> (fax_event list \<times> fax_info list) option" where
  "connect_from ios i 0 tab = Some ([], tab)"
| "connect_from ios i (Suc k) tab = do {
     f \<leftarrow> rd tab i;
     let (es, f') = (if fi_flag f = 1 \<and> fi_fd f = -1 then connect_server (ios i) f else ([], f));
     (es', tab') \<leftarrow> connect_from ios (Suc i) k (tab[i := f']);
     Some (es @ es', tab')}"

definition init_connect :: "(nat \<Rightarrow> conn_io) \<Rightarrow> conf_vars \<Rightarrow> (fax_event list \<times> conf_vars) option" where
  "init_connect ios s = do {
     (es, tab) \<leftarrow> connect_from ios 0 (unat (fax_num s)) (fax_infos s);
     Some (es, s\<lparr>fax_infos := tab\<rparr>)}"

subsection \<open>The reload of the table\<close>

text \<open>\<open>memcpy\<close> of the characters of the new address, without the zero that ends it.\<close>

definition ip_over :: "string \<Rightarrow> string \<Rightarrow> string" where
  "ip_over new old = new @ drop (length new) old"

definition server_changed :: "fax_info \<Rightarrow> fax_info \<Rightarrow> bool" where
  "server_changed f r \<longleftrightarrow> take (length (fi_ip r)) (fi_ip f) \<noteq> fi_ip r \<or> fi_port f \<noteq> fi_port r"

definition reload_same :: "fax_info \<Rightarrow> fax_info \<Rightarrow> fax_info" where
  "reload_same f r =
     (if server_changed f r then f\<lparr>fi_ip := ip_over (fi_ip r) (fi_ip f), fi_port := fi_port r, fi_fd := -1, fi_flag := 1\<rparr> else f)"

definition reload_new :: "fax_info \<Rightarrow> fax_info \<Rightarrow> fax_info" where
  "reload_new f r = f\<lparr>fi_id := fi_id r, fi_ip := ip_over (fi_ip r) (fi_ip f), fi_port := fi_port r, fi_fd := -1, fi_flag := 1\<rparr>"

definition clear_fax :: "fax_info \<Rightarrow> fax_info" where
  "clear_fax f = f\<lparr>fi_id := 0, fi_ip := '''', fi_port := 0, fi_fd := -1, fi_flag := 0\<rparr>"

definition reload_fax :: "conf_vars \<Rightarrow> (fax_event list \<times> conf_vars) option" where
  "reload_fax s =
     (let num = unat (fax_num s); r_num = unat (r_fax_num s); k = min num r_num in do {
        fs \<leftarrow> rd_n (fax_infos s) 0 (max num r_num);
        rs \<leftarrow> rd_n (r_fax_infos s) 0 r_num;
        let pairs = zip (take k fs) (take k rs);
        let rest = (if r_num < num then map clear_fax (drop k fs) else map2 reload_new (drop k fs) (drop k rs));
        Some (map (\<lambda>(f, r). Fax_close (fi_fd f)) (filter (\<lambda>(f, r). server_changed f r) pairs),
              s\<lparr>fax_infos := map (\<lambda>(f, r). reload_same f r) pairs @ rest @ drop (max num r_num) (fax_infos s),
                r_fax_infos := map clear_fax rs @ drop r_num (r_fax_infos s),
                fax_num := r_fax_num s, svm_fax_reload := 0\<rparr>)})"

subsection \<open>Sending a record\<close>

text \<open>\<open>sizeof (STRUCT_CDR)\<close>\<close>

abbreviation CDR_SIZE :: int where "CDR_SIZE \<equiv> 24"

text \<open>
  One turn of the loop over the servers: what the other threads did to the variables before it, and the results of its
  calls.
\<close>

record fax_io =
  fo_other :: "conf_vars \<Rightarrow> conf_vars"
  fo_conn :: conn_io
  fo_send :: int

text \<open>Only thread 1 connects again. The first component says whether the record was sent.\<close>

definition try_server :: "int \<Rightarrow> struct_cdr \<Rightarrow> fax_io \<Rightarrow> fax_info \<Rightarrow> bool \<times> fax_event list \<times> fax_info" where
  "try_server thread cdr io f =
     (if fi_flag f \<noteq> 1 then (False, [], f)
      else (let (es, f1) = (if fi_fd f = -1 \<and> thread = 1 then connect_server (fo_conn io) f else ([], f)) in
        if fi_fd f1 \<le> 0 then (False, es, f1)
        else if fo_send io = CDR_SIZE then (True, es @ [Fax_send (fi_fd f1) cdr], f1)
        else (False, es @ [Fax_send (fi_fd f1) cdr, Fax_close (fi_fd f1)], f1\<lparr>fi_fd := -1\<rparr>)))"

definition next_server :: "u32 \<Rightarrow> nat \<Rightarrow> nat" where
  "next_server num m = (if Suc m = unat num then 0 else Suc m)"

text \<open>
  The loop: \<open>m\<close> is the server to try and \<open>tmp_m\<close> the one tried first. It ends when the record is sent or \<open>m\<close>
  is back at \<open>tmp_m\<close>, and is still running when the list of turns ends.
\<close>

fun send_loop ::
  "int \<Rightarrow> struct_cdr \<Rightarrow> nat \<Rightarrow> fax_io list \<Rightarrow> nat \<Rightarrow> conf_vars \<Rightarrow> fax_event list \<Rightarrow> (bool \<times> nat \<times> conf_vars \<times> fax_event list) loop_result"
where
  "send_loop thread cdr tmp_m [] m s es = Running"
| "send_loop thread cdr tmp_m (io # ios) m s es =
     (let s0 = fo_other io s in
      case (if svm_fax_reload s0 = 1 then reload_fax s0 else Some ([], s0)) of
        None \<Rightarrow> Undefined
      | Some (es1, s1) \<Rightarrow>
          (case rd (fax_infos s1) m of
             None \<Rightarrow> Undefined
           | Some f \<Rightarrow>
               (let (got, es2, f') = try_server thread cdr io f;
                    s2 = s1\<lparr>fax_infos := (fax_infos s1)[m := f']\<rparr>;
                    es' = es @ es1 @ es2;
                    m' = next_server (fax_num s2) m in
                if got then Returned (True, m, s2, es')
                else if m' = tmp_m then Returned (False, m', s2, es')
                else send_loop thread cdr tmp_m ios m' s2 es')))"

subsection \<open>The thread\<close>

text \<open>What \<open>decode_mem\<close> answers for the first and the second buffer, and the turns of the loop over the servers.\<close>

record fax_env =
  fe_done :: bool
  fe_decode :: "nat \<Rightarrow> u8 list \<Rightarrow> u64 \<Rightarrow> int"
  fe_ios :: "fax_io list"

definition fax_callflag :: "fax_env \<Rightarrow> fax_node \<Rightarrow> u8" where
  "fax_callflag env p =
     (if word_of_int (fe_decode env 0 (np_up p) (cdr_callid (np_cdr p))) = (1 :: u8) then 1
      else if word_of_int (fe_decode env 1 (np_down p) (cdr_callid (np_cdr p))) = (1 :: u8) then 1 else 0)"

record fax_thread =
  ft_m :: nat
  ft_conf :: conf_vars
  ft_vp :: vp_state
  ft_events :: "fax_event list"

datatype fax_turn = Fax_idle | Fax_handled struct_cdr bool | Fax_exit

text \<open>A fax goes to a server; the next record starts behind the server this one ended at.\<close>

definition send_fax :: "int \<Rightarrow> fax_env \<Rightarrow> struct_cdr \<Rightarrow> fax_thread \<Rightarrow> (bool \<times> fax_thread) loop_result" where
  "send_fax thread env cdr t =
     (case send_loop thread cdr (ft_m t) (fe_ios env) (ft_m t) (ft_conf t) (ft_events t) of
        Running \<Rightarrow> Running
      | Undefined \<Rightarrow> Undefined
      | Returned (got, m, s, es) \<Rightarrow>
          Returned (got, t\<lparr>ft_m := next_server (fax_num s) m, ft_conf := s, ft_events := es\<rparr>))"

definition upd_counters :: "(counters \<Rightarrow> counters) \<Rightarrow> fax_thread \<Rightarrow> fax_thread" where
  "upd_counters f t = t\<lparr>ft_vp := (ft_vp t)\<lparr>vp_counters := f (vp_counters (ft_vp t))\<rparr>\<rparr>"

definition give_back :: "addr \<Rightarrow> fax_thread \<Rightarrow> fax_thread option" where
  "give_back a t = do {
     let g = ft_vp t;
     h \<leftarrow> set_next (vp_heap g) a None;
     (_, h', q) \<leftarrow> EN_QUEUE h (Some (vp_eq g)) (Some a);
     Some (t\<lparr>ft_vp := g\<lparr>vp_heap := h', vp_eq := q\<rparr>\<rparr>)}"

definition fax_handle :: "int \<Rightarrow> fax_env \<Rightarrow> addr \<Rightarrow> fax_thread \<Rightarrow> (fax_turn \<times> fax_thread) loop_result" where
  "fax_handle thread env a t0 =
     (let t = upd_counters (\<lambda>c. c\<lparr>fax_dequeue := inc64 (fax_dequeue c)\<rparr>) t0; g = ft_vp t in
      case vp_heap g a of
        None \<Rightarrow> Undefined
      | Some p \<Rightarrow>
          (let cdr = (np_cdr p)\<lparr>cdr_callflag := fax_callflag env p\<rparr>;
               t1 = t\<lparr>ft_vp := g\<lparr>vp_heap := (vp_heap g)(a \<mapsto> p\<lparr>np_cdr := cdr\<rparr>), vp_cdrs := cdr_insert cdr (vp_cdrs g)\<rparr>\<rparr> in
           case (if cdr_callflag cdr = 1
                 then send_fax thread env cdr (upd_counters (\<lambda>c. c\<lparr>fax_yes := inc64 (fax_yes c)\<rparr>) t1)
                 else Returned (False, upd_counters (\<lambda>c. c\<lparr>fax_no := inc64 (fax_no c)\<rparr>) t1)) of
             Running \<Rightarrow> Running
           | Undefined \<Rightarrow> Undefined
           | Returned (got, t2) \<Rightarrow>
               (case give_back a t2 of None \<Rightarrow> Undefined | Some t3 \<Rightarrow> Returned (Fax_handled cdr got, t3))))"

definition fax_pre_turn :: "int \<Rightarrow> fax_env \<Rightarrow> fax_thread \<Rightarrow> (fax_turn \<times> fax_thread) loop_result" where
  "fax_pre_turn thread env t =
     (if fe_done env then Returned (Fax_exit, t)
      else (let g = ft_vp t in
        case FETCH_PHEAD (vp_heap g) (Some (vp_fq g)) of
          None \<Rightarrow> Undefined
        | Some (None, h, q) \<Rightarrow> Returned (Fax_idle, t\<lparr>ft_vp := g\<lparr>vp_heap := h, vp_fq := q\<rparr>\<rparr>)
        | Some (Some a, h, q) \<Rightarrow> fax_handle thread env a (t\<lparr>ft_vp := g\<lparr>vp_heap := h, vp_fq := q\<rparr>\<rparr>)))"


subsection \<open>The reload and the addresses\<close>

definition fax_tables_ok :: "conf_vars \<Rightarrow> bool" where
  "fax_tables_ok s \<longleftrightarrow> length (fax_infos s) = FAX_NUM_MAX \<and> length (r_fax_infos s) = FAX_NUM_MAX \<and>
     unat (fax_num s) \<le> FAX_NUM_MAX \<and> unat (r_fax_num s) \<le> FAX_NUM_MAX"

lemma reload_same_ip:
  "fi_ip (reload_same f r) = fi_ip r \<longleftrightarrow> length (fi_ip f) \<le> length (fi_ip r)"
proof (cases "length (fi_ip f) \<le> length (fi_ip r)")
  case True
  then show ?thesis by (auto simp: reload_same_def server_changed_def ip_over_def)
next
  case False
  then have "length (fi_ip (reload_same f r)) \<noteq> length (fi_ip r)"
    by (auto simp: reload_same_def ip_over_def)
  then show ?thesis using False by auto
qed

lemma reload_same_other: "fi_port (reload_same f r) = fi_port r" "fi_id (reload_same f r) = fi_id f"
  by (auto simp: reload_same_def server_changed_def)

lemma reload_new_sel: "fi_ip (reload_new f r) = fi_ip r \<longleftrightarrow> length (fi_ip f) \<le> length (fi_ip r)"
  "fi_port (reload_new f r) = fi_port r" "fi_id (reload_new f r) = fi_id r"
  by (auto simp: reload_new_def ip_over_def)

lemma reload_fax_eq:
  assumes "fax_tables_ok s"
  defines "n \<equiv> unat (fax_num s)" and "r \<equiv> unat (r_fax_num s)"
  shows "\<exists>es s'. reload_fax s = Some (es, s') \<and> fax_num s' = r_fax_num s \<and> svm_fax_reload s' = 0 \<and> fax_tables_ok s' \<and>
    (\<forall>i < r. fax_infos s' ! i = (if i < n then reload_same (fax_infos s ! i) (r_fax_infos s ! i)
                                 else reload_new (fax_infos s ! i) (r_fax_infos s ! i)))"
proof -
  let ?k = "min n r" and ?fs = "take (max n r) (fax_infos s)" and ?rs = "take r (r_fax_infos s)"
  let ?pairs = "zip (take ?k ?fs) (take ?k ?rs)"
  let ?rest = "if r < n then map clear_fax (drop ?k ?fs) else map2 reload_new (drop ?k ?fs) (drop ?k ?rs)"
  let ?tab = "map (\<lambda>(f, r). reload_same f r) ?pairs @ ?rest @ drop (max n r) (fax_infos s)"
  let ?s = "s\<lparr>fax_infos := ?tab, r_fax_infos := map clear_fax ?rs @ drop r (r_fax_infos s), fax_num := r_fax_num s, svm_fax_reload := 0\<rparr>"
  have l: "length (fax_infos s) = 32" "length (r_fax_infos s) = 32" "n \<le> 32" "r \<le> 32"
    using assms(1) by (simp_all add: fax_tables_ok_def n_def r_def)
  have rd: "rd_n (fax_infos s) 0 (max n r) = Some ?fs" "rd_n (r_fax_infos s) 0 r = Some ?rs"
    using l by (simp_all add: rd_n_def)
  have red: "\<exists>es. reload_fax s = Some (es, ?s)"
    unfolding reload_fax_def Let_def n_def[symmetric] r_def[symmetric] rd bind.bind_lunit by simp
  have lt: "length ?tab = 32" using l by (cases "r < n") auto
  then have "fax_tables_ok ?s" using l by (simp add: fax_tables_ok_def r_def del: map_append)
  moreover have "?tab ! i = (if i < n then reload_same (fax_infos s ! i) (r_fax_infos s ! i)
       else reload_new (fax_infos s ! i) (r_fax_infos s ! i))" if "i < r" for i
  proof (cases "i < n")
    case True
    then show ?thesis using that l by (simp add: nth_append)
  next
    case False
    then show ?thesis using that l by (simp add: nth_append)
  qed
  moreover obtain es where "reload_fax s = Some (es, ?s)" using red by blast
  ultimately show ?thesis by (intro exI[of _ es] exI[of _ ?s] conjI) simp_all
qed

text \<open>
  What the reload makes of the fax servers. It is defined on the tables that the configuration can hold and leaves as many
  servers as the new configuration has, each with the new port; but the new address is taken only when it is not
  shorter than the one in its place (a shorter one is ignored or mixed with the old one's last digits, since it
  is copied and compared without the zero that ends it), and a server that keeps its place keeps the old id.
\<close>

theorem reload_fax_addresses:
  assumes "fax_tables_ok s"
  shows "\<exists>es s'. reload_fax s = Some (es, s') \<and> fax_num s' = r_fax_num s \<and> fax_tables_ok s' \<and>
    (\<forall>i < unat (r_fax_num s). let old = fax_infos s ! i; new = r_fax_infos s ! i; f = fax_infos s' ! i in
       fi_port f = fi_port new \<and> (fi_ip f = fi_ip new \<longleftrightarrow> length (fi_ip old) \<le> length (fi_ip new)) \<and>
       fi_id f = (if i < unat (fax_num s) then fi_id old else fi_id new))"
proof -
  obtain es s' where r: "reload_fax s = Some (es, s')" "fax_num s' = r_fax_num s" "fax_tables_ok s'"
    "\<forall>i < unat (r_fax_num s). fax_infos s' ! i = (if i < unat (fax_num s) then reload_same (fax_infos s ! i) (r_fax_infos s ! i)
       else reload_new (fax_infos s ! i) (r_fax_infos s ! i))"
    using reload_fax_eq[OF assms] by blast
  then show ?thesis
    by (intro exI conjI r(1,2,3)) (auto simp: Let_def reload_same_ip reload_same_other reload_new_sel)
qed

definition fax_test_conf :: "fax_info list \<Rightarrow> fax_info list \<Rightarrow> conf_vars" where
  "fax_test_conf fs rs = start_vars\<lparr>fax_infos := fs @ replicate (32 - length fs) zero_fax, fax_num := of_nat (length fs),
     r_fax_infos := rs @ replicate (32 - length rs) zero_fax, r_fax_num := of_nat (length rs)\<rparr>"

theorem reload_fax_addresses_witness:
  "\<exists>es s'. reload_fax (fax_test_conf [zero_fax\<lparr>fi_ip := ''10.0.0.12'', fi_port := 9\<rparr>] [zero_fax\<lparr>fi_ip := ''10.0.0.3'', fi_port := 9\<rparr>]) =
       Some (es, s') \<and> fi_ip (fax_infos s' ! 0) \<noteq> ''10.0.0.3''"
proof -
  let ?s = "fax_test_conf [zero_fax\<lparr>fi_ip := ''10.0.0.12'', fi_port := 9\<rparr>] [zero_fax\<lparr>fi_ip := ''10.0.0.3'', fi_port := 9\<rparr>]"
  have "fax_tables_ok ?s" by (simp add: fax_tables_ok_def fax_test_conf_def)
  from reload_fax_addresses[OF this] show ?thesis by (auto simp: fax_test_conf_def Let_def)
qed

subsection \<open>The choice of the server\<close>

definition serves :: "int \<Rightarrow> fax_io \<Rightarrow> fax_info \<Rightarrow> bool" where
  "serves thread io f \<longleftrightarrow> fi_flag f = 1 \<and> fo_send io = CDR_SIZE \<and>
     0 < (if fi_fd f = -1 \<and> thread = 1 then snd (cconnect (fo_conn io) (fi_ip f) (fi_port f)) else fi_fd f)"

definition quiet :: "fax_io \<Rightarrow> bool" where
  "quiet io \<longleftrightarrow> fo_other io = (\<lambda>s. s)"

lemma try_server_got: "fst (try_server thread cdr io f) = serves thread io f"
  by (auto simp: try_server_def serves_def connect_server_def Let_def split: prod.splits)

lemma try_server_sends: "try_server thread cdr io f = (True, es, f') \<Longrightarrow> last es = Fax_send (fi_fd f') cdr"
  by (auto simp: try_server_def connect_server_def Let_def split: prod.splits if_splits)

lemma try_server_flag: "try_server thread cdr io f = (b, es, f') \<Longrightarrow> fi_flag f' = fi_flag f"
  by (auto simp: try_server_def connect_server_def Let_def split: prod.splits if_splits)

lemma send_loop_step:
  assumes "quiet io" "svm_fax_reload s \<noteq> 1" "m < length (fax_infos s)"
  shows "\<exists>es2 f'. try_server thread cdr io (fax_infos s ! m) = (serves thread io (fax_infos s ! m), es2, f') \<and>
    send_loop thread cdr tmp_m (io # ios) m s es =
     (let s2 = s\<lparr>fax_infos := (fax_infos s)[m := f']\<rparr>; m' = next_server (fax_num s) m in
      if serves thread io (fax_infos s ! m) then Returned (True, m, s2, es @ es2)
      else if m' = tmp_m then Returned (False, m', s2, es @ es2)
      else send_loop thread cdr tmp_m ios m' s2 (es @ es2))"
proof -
  obtain b es2 f' where t: "try_server thread cdr io (fax_infos s ! m) = (b, es2, f')" by (rule prod_cases3)
  then have "b = serves thread io (fax_infos s ! m)" using try_server_got[of thread cdr io "fax_infos s ! m"] by simp
  then show ?thesis using assms t by (simp add: quiet_def mem_simps Let_def)
qed

text \<open>What stays of the tables while servers are tried.\<close>

definition same_tables :: "conf_vars \<Rightarrow> conf_vars \<Rightarrow> bool" where
  "same_tables s s' \<longleftrightarrow> (\<exists>tab. s' = s\<lparr>fax_infos := tab\<rparr> \<and> length tab = length (fax_infos s))"

lemma same_tables_upd: "same_tables s s' \<Longrightarrow> same_tables s (s'\<lparr>fax_infos := (fax_infos s')[m := f]\<rparr>)"
  by (auto simp: same_tables_def)

lemma same_tablesD: "same_tables s s' \<Longrightarrow> fax_num s' = fax_num s" "same_tables s s' \<Longrightarrow> svm_fax_reload s' = svm_fax_reload s"
  "same_tables s s' \<Longrightarrow> length (fax_infos s') = length (fax_infos s)"
  by (auto simp: same_tables_def)

lemma next_server_mod:
  assumes "m < unat num" "i < unat num"
  shows "next_server num ((m + i) mod unat num) = (m + Suc i) mod unat num"
    "next_server num ((m + i) mod unat num) = m \<longleftrightarrow> Suc i = unat num"
proof -
  have "(m + Suc i) mod unat num = Suc ((m + i) mod unat num) mod unat num" by (simp add: mod_Suc_eq)
  moreover have "(m + i) mod unat num < unat num" using assms by simp
  ultimately show n: "next_server num ((m + i) mod unat num) = (m + Suc i) mod unat num"
    unfolding next_server_def by (cases "Suc ((m + i) mod unat num) = unat num") (auto simp: mod_Suc)
  show "next_server num ((m + i) mod unat num) = m \<longleftrightarrow> Suc i = unat num"
    unfolding n using assms by (cases "m + Suc i < unat num") (auto simp: mod_if)
qed

text \<open>The servers \<open>m, m + 1, ...\<close> around the table, the \<open>i\<close>-th with the results \<open>ios ! i\<close>.\<close>

definition first_serving :: "int \<Rightarrow> fax_io list \<Rightarrow> fax_info list \<Rightarrow> nat \<Rightarrow> nat \<Rightarrow> nat \<Rightarrow> nat option" where
  "first_serving thread ios tab n m i = find (\<lambda>j. serves thread (ios ! j) (tab ! ((m + j) mod n))) [i..<n]"

lemma mod_shift_inj: "i < n \<Longrightarrow> j < n \<Longrightarrow> (m + i) mod n = (m + j) mod (n :: nat) \<Longrightarrow> i = j"
proof (induction i j rule: linorder_wlog)
  case (le i j)
  then have "n dvd (m + j) - (m + i)" using mod_eq_dvd_iff_nat[of "m + i" "m + j" n] by simp
  then show ?case using le by (auto dest: dvd_imp_le)
qed auto

lemma send_loop_scan:
  assumes "svm_fax_reload s \<noteq> 1" and num: "unat (fax_num s) = n" and "n \<le> length (fax_infos s)" "m < n" "n \<le> length ios" "\<forall>io \<in> set ios. quiet io"
    and "i < n" "same_tables s u" "\<forall>j. i \<le> j \<and> j < n \<longrightarrow> fax_infos u ! ((m + j) mod n) = fax_infos s ! ((m + j) mod n)"
  shows "\<exists>s' es'. same_tables s s' \<and>
     send_loop thread cdr m (drop i ios) ((m + i) mod n) u es =
      (case first_serving thread ios (fax_infos s) n m i of
         Some j \<Rightarrow> Returned (True, (m + j) mod n, s', es' @ [Fax_send (fi_fd (fax_infos s' ! ((m + j) mod n))) cdr])
       | None \<Rightarrow> Returned (False, m, s', es'))"
  using assms(7-9)
proof (induction "n - i" arbitrary: i u es)
  case 0
  then show ?case by simp
next
  case (Suc d)
  let ?p = "(m + i) mod n" and ?io = "ios ! i"
  have p: "?p < n" using assms(4) by (intro mod_less_divisor) simp
  have i: "i < length ios" "?p < length (fax_infos u)"
    using Suc.prems(1) less_le_trans[OF p assms(3)] assms(5) same_tablesD(3)[OF Suc.prems(2)] by simp_all
  have q: "quiet ?io" using assms(6) i(1) by simp
  have f: "fax_infos u ! ?p = fax_infos s ! ?p" using Suc.prems(1,3) by simp
  have rl: "svm_fax_reload u \<noteq> 1" using assms(1) same_tablesD(2)[OF Suc.prems(2)] by simp
  obtain es2 f' where t: "try_server thread cdr ?io (fax_infos s ! ?p) = (serves thread ?io (fax_infos s ! ?p), es2, f')"
    "send_loop thread cdr m (?io # drop (Suc i) ios) ?p u es =
     (let s2 = u\<lparr>fax_infos := (fax_infos u)[?p := f']\<rparr>; m' = next_server (fax_num u) ?p in
      if serves thread ?io (fax_infos s ! ?p) then Returned (True, ?p, s2, es @ es2)
      else if m' = m then Returned (False, m', s2, es @ es2)
      else send_loop thread cdr m (drop (Suc i) ios) m' s2 (es @ es2))"
    using send_loop_step[OF q rl i(2), of thread cdr m "drop (Suc i) ios" es] unfolding f by blast
  have d: "drop i ios = ?io # drop (Suc i) ios" using i(1) by (rule Cons_nth_drop_Suc[symmetric])
  have up: "[i..<n] = i # [Suc i..<n]" using Suc.prems(1) by (rule upt_conv_Cons)
  let ?s2 = "u\<lparr>fax_infos := (fax_infos u)[?p := f']\<rparr>"
  have st: "same_tables s ?s2" by (rule same_tables_upd[OF Suc.prems(2)])
  have nx: "next_server (fax_num u) ?p = (m + Suc i) mod n" "next_server (fax_num u) ?p = m \<longleftrightarrow> Suc i = n"
    using next_server_mod[of m "fax_num s" i] assms(4) num Suc.prems(1) same_tablesD(1)[OF Suc.prems(2)] by simp_all
  show ?case
  proof (cases "serves thread ?io (fax_infos s ! ?p)")
    case True
    then have tt: "try_server thread cdr ?io (fax_infos s ! ?p) = (True, es2, f')" using t(1) by simp
    have "es2 \<noteq> []" using tt by (auto simp: try_server_def Let_def split: prod.splits if_splits)
    then have "es2 = butlast es2 @ [Fax_send (fi_fd f') cdr]" using try_server_sends[OF tt] by (metis append_butlast_last_id)
    then have "es @ es2 = (es @ butlast es2) @ [Fax_send (fi_fd (fax_infos ?s2 ! ?p)) cdr]" using i(2) by simp
    then show ?thesis using True t(2) st d up
      by (intro exI[of _ ?s2] exI[of _ "es @ butlast es2"]) (simp add: first_serving_def)
  next
    case False
    then have fs: "first_serving thread ios (fax_infos s) n m i = first_serving thread ios (fax_infos s) n m (Suc i)"
      by (simp add: first_serving_def up)
    show ?thesis
    proof (cases "Suc i = n")
      case True
      then show ?thesis using False t(2) st d nx fs
        by (intro exI[of _ ?s2] exI[of _ "es @ es2"]) (simp add: first_serving_def)
    next
      case False
      have "fax_infos ?s2 ! ((m + j) mod n) = fax_infos s ! ((m + j) mod n)" if "Suc i \<le> j" "j < n" for j
      proof -
        have "?p \<noteq> (m + j) mod n" using mod_shift_inj[of i n j m] that Suc.prems(1) by auto
        then show ?thesis using Suc.prems(3) that by simp
      qed
      then have agree: "\<forall>j. Suc i \<le> j \<and> j < n \<longrightarrow> fax_infos ?s2 ! ((m + j) mod n) = fax_infos s ! ((m + j) mod n)" by blast
      have lt: "d = n - Suc i" "Suc i < n" using Suc.hyps(2) Suc.prems(1) False by simp_all
      obtain s' es' where "same_tables s s'"
        "send_loop thread cdr m (drop (Suc i) ios) ((m + Suc i) mod n) ?s2 (es @ es2) =
          (case first_serving thread ios (fax_infos s) n m (Suc i) of
             Some j \<Rightarrow> Returned (True, (m + j) mod n, s', es' @ [Fax_send (fi_fd (fax_infos s' ! ((m + j) mod n))) cdr])
           | None \<Rightarrow> Returned (False, m, s', es'))"
        using Suc.hyps(1)[OF lt st agree, of "es @ es2"] by blast
      then show ?thesis
        using \<open>\<not> serves thread ?io (fax_infos s ! ?p)\<close> False t(2) d nx fs by (intro exI[of _ s'] exI[of _ es']) simp
    qed
  qed
qed

text \<open>The servers can be tried without a reload on the way.\<close>

definition can_send :: "conf_vars \<Rightarrow> nat \<Rightarrow> fax_io list \<Rightarrow> bool" where
  "can_send s m ios \<longleftrightarrow> svm_fax_reload s \<noteq> 1 \<and> unat (fax_num s) \<le> length (fax_infos s) \<and> m < unat (fax_num s) \<and>
     unat (fax_num s) \<le> length ios \<and> (\<forall>io \<in> set ios. quiet io)"

lemma send_loop_first:
  assumes "can_send s m ios"
  shows "\<exists>s' es'. same_tables s s' \<and> send_loop thread cdr m ios m s es =
      (case first_serving thread ios (fax_infos s) (unat (fax_num s)) m 0 of
         Some j \<Rightarrow> Returned (True, (m + j) mod unat (fax_num s), s',
             es' @ [Fax_send (fi_fd (fax_infos s' ! ((m + j) mod unat (fax_num s)))) cdr])
       | None \<Rightarrow> Returned (False, m, s', es'))"
proof -
  have "same_tables s s" unfolding same_tables_def by (rule exI[of _ "fax_infos s"]) simp
  then show ?thesis
    using send_loop_scan[where i = 0 and u = s and m = m and s = s and ios = ios and n = "unat (fax_num s)"] assms
    by (simp add: can_send_def)
qed

text \<open>
  C9. A fax goes to the first server in turn that takes it. Unless a reload comes in between, the loop over the servers tries
  them once each, from the one whose turn it is, around the table; it ends at the first that is switched on,
  connected (or, in thread 1, connected again) and takes the whole record, and says that nothing was sent only
  when there is none. With as many turns as servers it always ends.
\<close>

theorem fax_first_server:
  assumes "can_send s m ios"
  defines "n \<equiv> unat (fax_num s)"
  shows "\<exists>m' s' es'. send_loop thread cdr m ios m s es = Returned (\<exists>j < n. serves thread (ios ! j) (fax_infos s ! ((m + j) mod n)), m', s', es') \<and>
    same_tables s s' \<and> m' < n \<and>
    (\<forall>j < n. serves thread (ios ! j) (fax_infos s ! ((m + j) mod n)) \<and>
        (\<forall>i < j. \<not> serves thread (ios ! i) (fax_infos s ! ((m + i) mod n))) \<longrightarrow>
      m' = (m + j) mod n \<and> last es' = Fax_send (fi_fd (fax_infos s' ! m')) cdr)"
proof -
  let ?sv = "\<lambda>j. serves thread (ios ! j) (fax_infos s ! ((m + j) mod n))"
  obtain s' es' where s': "same_tables s s'"
    and l: "send_loop thread cdr m ios m s es = (case first_serving thread ios (fax_infos s) n m 0 of
         Some j \<Rightarrow> Returned (True, (m + j) mod n, s', es' @ [Fax_send (fi_fd (fax_infos s' ! ((m + j) mod n))) cdr])
       | None \<Rightarrow> Returned (False, m, s', es'))"
    using send_loop_first[OF assms(1), of thread cdr es] unfolding n_def by blast
  have n: "m < n" using assms(1) by (simp add: can_send_def n_def)
  show ?thesis
  proof (cases "first_serving thread ios (fax_infos s) n m 0")
    case None
    then have no: "\<not> ?sv j" if "j < n" for j using that by (auto simp: first_serving_def find_None_iff)
    then have "(\<exists>j < n. ?sv j) = False" by blast
    then show ?thesis using l None s' n no by (intro exI[of _ m] exI[of _ s'] exI[of _ es']) simp
  next
    case (Some j)
    then obtain i where "i < length [0..<n]" "?sv ([0..<n] ! i)" "j = [0..<n] ! i" "\<forall>k < i. \<not> ?sv ([0..<n] ! k)"
      unfolding first_serving_def find_Some_iff by blast
    then have j: "j < n" "?sv j" "\<forall>k < j. \<not> ?sv k" by auto
    let ?m = "(m + j) mod n" and ?es = "es' @ [Fax_send (fi_fd (fax_infos s' ! ((m + j) mod n))) cdr]"
    have only: "k = j" if "k < n" "?sv k \<and> (\<forall>i < k. \<not> ?sv i)" for k using j that by (metis linorder_neqE_nat)
    have ex: "(\<exists>j < n. ?sv j) = True" using j by blast
    have lt: "?m < n" using n by (intro mod_less_divisor) simp
    have run: "send_loop thread cdr m ios m s es = Returned (True, ?m, s', ?es)" using l by (simp only: Some option.case)
    have sends: "last ?es = Fax_send (fi_fd (fax_infos s' ! ?m)) cdr" by simp
    have "?m = (m + k) mod n \<and> last ?es = Fax_send (fi_fd (fax_infos s' ! ?m)) cdr"
      if "k < n" "?sv k \<and> (\<forall>i < k. \<not> ?sv i)" for k using only[OF that] by simp
    then show ?thesis unfolding ex
      by (intro exI[of _ ?m] exI[of _ s'] exI[of _ ?es] conjI allI impI run s' lt) blast+
  qed
qed

definition dead_io :: fax_io where
  "dead_io = \<lparr>fo_other = (\<lambda>s. s), fo_conn = \<lparr>ci_socket = 5, ci_pton = True, ci_connect = -1\<rparr>, fo_send = 24\<rparr>"

definition on_server :: "int \<Rightarrow> fax_info" where
  "on_server fd = zero_fax\<lparr>fi_flag := 1, fi_fd := fd\<rparr>"

theorem fax_first_server_witness:
  "\<exists>m' s' es'. send_loop 1 zero_cdr 1 [dead_io, dead_io, dead_io] 1 (fax_test_conf [on_server 7, on_server (-1), zero_fax] []) [] =
       Returned (True, m', s', es') \<and> m' = 0"
proof -
  let ?s = "fax_test_conf [on_server 7, on_server (-1), zero_fax] []"
  have c: "can_send ?s 1 [dead_io, dead_io, dead_io]"
    by (simp add: can_send_def fax_test_conf_def start_vars_def quiet_def dead_io_def)
  have n: "unat (fax_num ?s) = 3" by (simp add: fax_test_conf_def)
  have sv: "\<not> serves 1 dead_io (on_server (-1))" "\<not> serves 1 dead_io zero_fax" "serves 1 dead_io (on_server 7)"
    by (simp_all add: serves_def dead_io_def on_server_def zero_fax_def cconnect_def Let_def)
  have at: "fax_infos ?s ! 0 = on_server 7" "fax_infos ?s ! Suc 0 = on_server (-1)" "fax_infos ?s ! 2 = zero_fax"
    by (simp_all add: fax_test_conf_def)
  have "\<exists>j<3. serves 1 ([dead_io, dead_io, dead_io] ! j) (fax_infos ?s ! ((1 + j) mod 3))"
    using sv at by (intro exI[of _ 2]) simp
  moreover have "serves 1 ([dead_io, dead_io, dead_io] ! 2) (fax_infos ?s ! ((1 + 2) mod 3)) \<and>
      (\<forall>i<2. \<not> serves 1 ([dead_io, dead_io, dead_io] ! i) (fax_infos ?s ! ((1 + i) mod 3)))"
    using sv at by (auto simp: less_Suc_eq numeral_2_eq_2)
  moreover obtain m' s' es' where
    "send_loop 1 zero_cdr 1 [dead_io, dead_io, dead_io] 1 ?s [] =
       Returned (\<exists>j<3. serves 1 ([dead_io, dead_io, dead_io] ! j) (fax_infos ?s ! ((1 + j) mod 3)), m', s', es')"
    "\<forall>j<3. serves 1 ([dead_io, dead_io, dead_io] ! j) (fax_infos ?s ! ((1 + j) mod 3)) \<and>
        (\<forall>i<j. \<not> serves 1 ([dead_io, dead_io, dead_io] ! i) (fax_infos ?s ! ((1 + i) mod 3))) \<longrightarrow>
      m' = (1 + j) mod 3 \<and> last es' = Fax_send (fi_fd (fax_infos s' ! m')) zero_cdr"
    using fax_first_server[OF c, of 1 zero_cdr "[]"] unfolding n by blast
  moreover from this(2) calculation(2) have "m' = (1 + 2) mod 3" by (metis lessI numeral_3_eq_3 numeral_2_eq_2)
  ultimately show ?thesis by (intro exI[of _ m'] exI[of _ s'] exI[of _ es']) simp
qed

subsection \<open>Behind the table\<close>

text \<open>
  The search for a server can leave the table. When the server whose turn it is lies behind the servers in use,
  as after a reload that takes servers away, and always when there are no servers, the test that wraps the
  index never holds: unless an entry there takes the record, the loop reads on until it is behind
  the table of 32 entries.
\<close>

theorem fax_search_overruns:
  assumes "svm_fax_reload s \<noteq> 1" and "length (fax_infos s) = FAX_NUM_MAX" and "unat (fax_num s) \<le> m" and "m < FAX_NUM_MAX"
    and "\<forall>io \<in> set ios. quiet io" and "FAX_NUM_MAX < length ios + m"
    and "tmp_m \<le> m" and "\<forall>f \<in> set (drop m (fax_infos s)). fi_flag f \<noteq> 1"
  shows "send_loop thread cdr tmp_m ios m s es = Undefined"
  using assms
proof (induction "FAX_NUM_MAX - m" arbitrary: m ios s es)
  case 0
  then show ?case by simp
next
  case (Suc d)
  obtain io ios' where ios: "ios = io # ios'" using Suc.prems(4,6) by (cases ios) auto
  have q: "quiet io" using Suc.prems(5) ios by simp
  have m: "m < length (fax_infos s)" using Suc.prems(2,4) by simp
  have "fax_infos s ! m \<in> set (drop m (fax_infos s))" using m by (simp add: Cons_nth_drop_Suc[symmetric])
  then have off: "fi_flag (fax_infos s ! m) \<noteq> 1" using Suc.prems(8) by blast
  then have t: "try_server thread cdr io (fax_infos s ! m) = (False, [], fax_infos s ! m)" by (simp add: try_server_def)
  have nx: "next_server (fax_num s) m = Suc m" using Suc.prems(3) by (simp add: next_server_def)
  have step: "send_loop thread cdr tmp_m (io # ios') m s es = send_loop thread cdr tmp_m ios' (Suc m) s es"
    using q m t nx Suc.prems(1,7) by (simp add: quiet_def mem_simps Let_def)
  show ?case
  proof (cases "Suc m < FAX_NUM_MAX")
    case True
    have "\<forall>f \<in> set (drop (Suc m) (fax_infos s)). fi_flag f \<noteq> 1"
      using Suc.prems(8) set_drop_subset_set_drop[of m "Suc m" "fax_infos s"] by auto
    then show ?thesis
      using Suc.hyps(1)[of "Suc m" s ios' es] Suc.hyps(2) Suc.prems True ios step by simp
  next
    case False
    obtain io2 ios2 where "ios' = io2 # ios2" using Suc.prems(4,6) ios False by (cases ios') auto
    then show ?thesis using False Suc.prems(1,2,5) step ios by (simp add: quiet_def rd_def)
  qed
qed

theorem fax_search_overruns_witness:
  "send_loop 1 zero_cdr 0 (replicate 33 dead_io) 0 (fax_test_conf [] []) [] = Undefined"
  by (rule fax_search_overruns) (simp_all add: fax_test_conf_def start_vars_def quiet_def dead_io_def zero_fax_def)

subsection \<open>A turn of the thread\<close>

text \<open>The nodes of the slots, seen from outside all slots.\<close>

lemma table_pool:
  assumes "table_inv vf g"
  shows "\<exists>es fs. pool_lists (all_nodes vf) None g es fs"
proof -
  obtain i :: slot where True by simp
  have "vp_inv (others vf i) (vf i) g" using assms unfolding table_inv_def by (rule spec)
  then obtain es fs where "pool_lists (others vf i) (cdr_node (vf i)) g es fs" by (auto simp: vp_inv_def pool_ok_def)
  then have "pool_lists (all_nodes vf) None g es fs" by (auto simp: pool_lists_def all_nodes_split[of vf i])
  then show ?thesis by blast
qed

lemma table_frame:
  assumes t: "table_inv vf g" and p: "pool_lists (all_nodes vf) None g' es fs" and s: "same_nodes (all_nodes vf) g g'" and sys: "sys_ok g'"
  shows "table_inv vf g'"
  unfolding table_inv_def
proof
  fix i
  have v: "vp_inv (others vf i) (vf i) g" using t unfolding table_inv_def by (rule spec)
  then obtain es0 fs0 where p0: "pool_lists (others vf i) (cdr_node (vf i)) g es0 fs0" by (auto simp: vp_inv_def pool_ok_def)
  have "vp_heap g' a = vp_heap g a" if "a \<in> set_option (cdr_node (vf i))" for a
    using s that by (simp add: same_nodes_def all_nodes_split[of vf i])
  then have "pool_lists (others vf i) (cdr_node (vf i)) g' es fs"
    using p p0 by (auto simp: pool_lists_def all_nodes_split[of vf i])
  then show "vp_inv (others vf i) (vf i) g'" using v sys by (auto simp: vp_inv_def pool_ok_def)
qed

text \<open>The two queues of a pool have the same contract.\<close>

definition swap_queues :: "vp_state \<Rightarrow> vp_state" where
  "swap_queues g = g\<lparr>vp_eq := vp_fq g, vp_fq := vp_eq g\<rparr>"

lemma pool_swap_queues: "pool_lists Oth own (swap_queues g) fs es = pool_lists Oth own g es fs"
  by (auto simp: pool_lists_def swap_queues_def)

lemma pool_give_empty:
  assumes "pool_lists Oth (Some a) g es fs" "vp_heap g a = Some n" "np_next n = None"
  shows "\<exists>h q. EN_QUEUE (vp_heap g) (Some (vp_eq g)) (Some a) = Some (0, h, q) \<and>
     pool_lists Oth None (g\<lparr>vp_heap := h, vp_eq := q\<rparr>) (es @ [a]) fs \<and> (\<forall>b \<in> Oth. h b = vp_heap g b)"
proof -
  have "pool_lists Oth (Some a) (swap_queues g) fs es" using assms(1) by (simp add: pool_swap_queues)
  from pool_enqueue[OF this] assms(2,3) obtain h q where e:
    "EN_QUEUE (vp_heap g) (Some (vp_eq g)) (Some a) = Some (0, h, q)"
    "pool_lists Oth None ((swap_queues g)\<lparr>vp_heap := h, vp_fq := q\<rparr>) fs (es @ [a])" "\<forall>b \<in> Oth. h b = vp_heap g b"
    by (auto simp: swap_queues_def)
  have "(swap_queues g)\<lparr>vp_heap := h, vp_fq := q\<rparr> = swap_queues (g\<lparr>vp_heap := h, vp_eq := q\<rparr>)" by (simp add: swap_queues_def)
  then have "pool_lists Oth None (g\<lparr>vp_heap := h, vp_eq := q\<rparr>) (es @ [a]) fs" using e(2) pool_swap_queues by simp
  then show ?thesis using e by blast
qed

lemma pool_take_full:
  assumes "pool_lists Oth None g es (a # fs)"
  shows "\<exists>h q n. FETCH_PHEAD (vp_heap g) (Some (vp_fq g)) = Some (Some a, h, q) \<and> vp_heap g a = Some n \<and>
     h a = Some (n\<lparr>np_next := None\<rparr>) \<and> node_full n \<and> a \<notin> Oth \<and>
     (\<forall>b. b \<noteq> a \<longrightarrow> h b = vp_heap g b) \<and> pool_lists Oth (Some a) (g\<lparr>vp_heap := h, vp_fq := q\<rparr>) es fs"
proof -
  have p: "queue_holds (vp_heap g) (vp_eq g) es" "queue_holds (vp_heap g) (vp_fq g) (a # fs)" "distinct (es @ a # fs)"
    "(set es \<union> set (a # fs)) \<inter> Oth = {}" "\<forall>b \<in> set es \<union> set (a # fs). \<exists>n. vp_heap g b = Some n \<and> node_full n"
    using assms by (auto simp: pool_lists_def)
  obtain h q where f: "FETCH_PHEAD (vp_heap g) (Some (vp_fq g)) = Some (Some a, h, q)" "queue_holds h q fs" "detached h a"
    "\<forall>b. b \<noteq> a \<longrightarrow> h b = vp_heap g b" using fetch_holds_Cons[OF p(2)] by blast
  obtain n where n: "vp_heap g a = Some n" "node_full n" using p(5) by auto
  have "q_head (vp_fq g) = Some a" using p(2) by (simp add: queue_holds_def)
  then have "h = (vp_heap g)(a \<mapsto> n\<lparr>np_next := None\<rparr>)"
    using f(1) n(1) by (auto simp: FETCH_PHEAD_def fetch_locked_def split: Option.bind_splits)
  then have h: "h a = Some (n\<lparr>np_next := None\<rparr>)" by simp
  have full: "node_full (n\<lparr>np_next := None\<rparr>)" using n(2) by (simp add: node_full_def)
  have "chain h (q_head (vp_eq g)) es = chain (vp_heap g) (q_head (vp_eq g)) es"
    by (rule chain_cong) (use p(3) f(4) in auto)
  then have "queue_holds h (vp_eq g) es" using p(1) by (simp add: queue_holds_def)
  then have "pool_lists Oth (Some a) (g\<lparr>vp_heap := h, vp_fq := q\<rparr>) es fs"
    using p(3,4,5) f(2,4) h full by (auto simp: pool_lists_def)
  then show ?thesis using f h n p(4) by auto
qed

lemma give_back_ok:
  assumes "pool_lists Oth (Some a) (ft_vp t) es fs"
  shows "\<exists>h q. give_back a t = Some (t\<lparr>ft_vp := (ft_vp t)\<lparr>vp_heap := h, vp_eq := q\<rparr>\<rparr>) \<and>
     pool_lists Oth None ((ft_vp t)\<lparr>vp_heap := h, vp_eq := q\<rparr>) (es @ [a]) fs \<and> (\<forall>b \<in> Oth. h b = vp_heap (ft_vp t) b)"
proof -
  let ?g = "ft_vp t"
  obtain n where n: "vp_heap ?g a = Some n" "node_full n" "a \<notin> Oth" using assms by (auto simp: pool_lists_def)
  let ?h = "(vp_heap ?g)(a \<mapsto> n\<lparr>np_next := None\<rparr>)"
  have "pool_lists Oth (Some a) (?g\<lparr>vp_heap := ?h\<rparr>) es fs" using n(2) by (intro pool_upd_own[OF assms]) (simp add: node_full_def)
  from pool_give_empty[OF this] obtain h q where e: "EN_QUEUE ?h (Some (vp_eq ?g)) (Some a) = Some (0, h, q)"
    "pool_lists Oth None (?g\<lparr>vp_heap := h, vp_eq := q\<rparr>) (es @ [a]) fs" "\<forall>b \<in> Oth. h b = ?h b" by auto
  have "give_back a t = Some (t\<lparr>ft_vp := ?g\<lparr>vp_heap := h, vp_eq := q\<rparr>\<rparr>)"
    using n(1) e(1) by (simp add: give_back_def set_next_def Let_def)
  then show ?thesis using e(2,3) n(3) by (intro exI[of _ h] exI[of _ q]) auto
qed

text \<open>What the search for a server leaves of the thread.\<close>

text \<open>
  The same when a reload is pending: it takes place before the first server is tried. The server whose turn it is
  must be one of the new table.
\<close>

definition can_serve :: "conf_vars \<Rightarrow> nat \<Rightarrow> fax_io list \<Rightarrow> bool" where
  "can_serve s m ios \<longleftrightarrow> m < unat (fax_num s) \<and>
     (if svm_fax_reload s = 1 then (\<exists>es s1. reload_fax s = Some (es, s1) \<and> can_send s1 m ios) else can_send s m ios)"

definition tables_step :: "conf_vars \<Rightarrow> conf_vars \<Rightarrow> bool" where
  "tables_step s s' \<longleftrightarrow> same_tables s s' \<or> svm_fax_reload s = 1 \<and> (\<exists>es s1. reload_fax s = Some (es, s1) \<and> same_tables s1 s')"

lemma same_tables_refl [simp]: "same_tables s s"
  unfolding same_tables_def by (rule exI[of _ "fax_infos s"]) simp

lemma can_send_serve: "can_send s m ios \<Longrightarrow> can_serve s m ios"
  by (simp add: can_serve_def can_send_def)

lemma tables_step_same: "tables_step s s' \<Longrightarrow> svm_fax_reload s \<noteq> 1 \<Longrightarrow> same_tables s s'"
  by (simp add: tables_step_def)

lemma send_loop_reload:
  assumes "svm_fax_reload s = 1" "reload_fax s = Some (es1, s1)" "svm_fax_reload s1 \<noteq> 1" "quiet io"
  shows "send_loop thread cdr tmp_m (io # ios) m s es = send_loop thread cdr tmp_m (io # ios) m s1 (es @ es1)"
  using assms by (cases "rd (fax_infos s1) m") (simp_all add: quiet_def)

lemma send_loop_serves:
  assumes "can_serve s m ios"
  shows "\<exists>s0 s' es'. (s0 = s \<or> svm_fax_reload s = 1 \<and> (\<exists>es1. reload_fax s = Some (es1, s0))) \<and> can_send s0 m ios \<and> same_tables s0 s' \<and>
    send_loop thread cdr m ios m s es =
      (case first_serving thread ios (fax_infos s0) (unat (fax_num s0)) m 0 of
         Some j \<Rightarrow> Returned (True, (m + j) mod unat (fax_num s0), s',
             es' @ [Fax_send (fi_fd (fax_infos s' ! ((m + j) mod unat (fax_num s0)))) cdr])
       | None \<Rightarrow> Returned (False, m, s', es'))"
proof (cases "svm_fax_reload s = 1")
  case True
  then obtain es1 s1 where r: "reload_fax s = Some (es1, s1)" "can_send s1 m ios" using assms by (auto simp: can_serve_def)
  then obtain io ios' where io: "ios = io # ios'" by (cases ios) (auto simp: can_send_def)
  have "send_loop thread cdr m ios m s es = send_loop thread cdr m ios m s1 (es @ es1)"
    unfolding io using r True io by (intro send_loop_reload) (auto simp: can_send_def)
  moreover obtain s' es' where "same_tables s1 s'" "send_loop thread cdr m ios m s1 (es @ es1) =
      (case first_serving thread ios (fax_infos s1) (unat (fax_num s1)) m 0 of
         Some j \<Rightarrow> Returned (True, (m + j) mod unat (fax_num s1), s',
             es' @ [Fax_send (fi_fd (fax_infos s' ! ((m + j) mod unat (fax_num s1)))) cdr])
       | None \<Rightarrow> Returned (False, m, s', es'))"
    using send_loop_first[OF r(2), of thread cdr "es @ es1"] by blast
  ultimately show ?thesis using r True by (intro exI[of _ s1] exI[of _ s'] exI[of _ es']) simp
next
  case False
  then have "can_send s m ios" using assms by (simp add: can_serve_def)
  then show ?thesis using send_loop_first[of s m ios thread cdr es] by blast
qed

lemma send_fax_ok:
  assumes "can_serve (ft_conf t) (ft_m t) (fe_ios env)"
  shows "\<exists>r m s es. send_fax thread env cdr t = Returned (r, t\<lparr>ft_m := m, ft_conf := s, ft_events := es\<rparr>) \<and>
     tables_step (ft_conf t) s \<and> m < unat (fax_num s)"
proof -
  obtain s0 s' es' where s: "s0 = ft_conf t \<or> svm_fax_reload (ft_conf t) = 1 \<and> (\<exists>es1. reload_fax (ft_conf t) = Some (es1, s0))"
    "can_send s0 (ft_m t) (fe_ios env)" "same_tables s0 s'"
    "send_loop thread cdr (ft_m t) (fe_ios env) (ft_m t) (ft_conf t) (ft_events t) =
      (case first_serving thread (fe_ios env) (fax_infos s0) (unat (fax_num s0)) (ft_m t) 0 of
         Some j \<Rightarrow> Returned (True, (ft_m t + j) mod unat (fax_num s0), s',
             es' @ [Fax_send (fi_fd (fax_infos s' ! ((ft_m t + j) mod unat (fax_num s0)))) cdr])
       | None \<Rightarrow> Returned (False, ft_m t, s', es'))"
    using send_loop_serves[OF assms, of thread cdr "ft_events t"] by blast
  let ?n = "unat (fax_num s0)"
  have st: "tables_step (ft_conf t) s'" using s(1,3) by (auto simp: tables_step_def)
  have n: "ft_m t < ?n" "fax_num s' = fax_num s0" using s(2) same_tablesD(1)[OF s(3)] by (simp_all add: can_send_def)
  have nx: "next_server (fax_num s') k < unat (fax_num s')" if "k < ?n" for k
    using that n(2) by (auto simp: next_server_def)
  have lt: "(ft_m t + j) mod ?n < ?n" for j using n(1) by (intro mod_less_divisor) simp
  show ?thesis
  proof (cases "first_serving thread (fe_ios env) (fax_infos s0) ?n (ft_m t) 0")
    case None
    then have "send_fax thread env cdr t = Returned (False, t\<lparr>ft_m := next_server (fax_num s') (ft_m t), ft_conf := s', ft_events := es'\<rparr>)"
      using s(4) by (simp add: send_fax_def)
    then show ?thesis using st nx[OF n(1)] by blast
  next
    case (Some j)
    then have "send_fax thread env cdr t = Returned (True, t\<lparr>ft_m := next_server (fax_num s') ((ft_m t + j) mod ?n), ft_conf := s',
        ft_events := es' @ [Fax_send (fi_fd (fax_infos s' ! ((ft_m t + j) mod ?n))) cdr]\<rparr>)"
      using s(4) by (simp add: send_fax_def)
    then show ?thesis using st nx[OF lt] by blast
  qed
qed

text \<open>Samples taken minus samples found to be faxes or not.\<close>

definition in_hand :: "counters \<Rightarrow> u64" where
  "in_hand c = fax_dequeue c - (fax_yes c + fax_no c)"

text \<open>Everything of a thread but the servers and the log of their sockets.\<close>

lemma fax_handle_ok:
  assumes p: "pool_lists Oth (Some a) (ft_vp t) es fs" and c: "can_serve (ft_conf t) (ft_m t) (fe_ios env)" and n: "vp_heap (ft_vp t) a = Some n"
  defines "cdr \<equiv> (np_cdr n)\<lparr>cdr_callflag := fax_callflag env n\<rparr>"
  shows "\<exists>r t'. fax_handle thread env a t = Returned (Fax_handled cdr r, t') \<and> pool_lists Oth None (ft_vp t') (es @ [a]) fs \<and>
     (\<forall>b \<in> Oth. vp_heap (ft_vp t') b = vp_heap (ft_vp t) b) \<and> vp_cdrs (ft_vp t') = cdr_insert cdr (vp_cdrs (ft_vp t)) \<and>
     vp_dirs (ft_vp t') = vp_dirs (ft_vp t) \<and> calls (ft_vp t') = calls (ft_vp t) \<and>
     in_hand (vp_counters (ft_vp t')) = in_hand (vp_counters (ft_vp t)) \<and>
     tables_step (ft_conf t) (ft_conf t') \<and> ft_m t' < unat (fax_num (ft_conf t'))"
proof -
  let ?g = "ft_vp t"
  let ?t = "upd_counters (\<lambda>c. c\<lparr>fax_dequeue := inc64 (fax_dequeue c)\<rparr>) t"
  let ?t1 = "?t\<lparr>ft_vp := (ft_vp ?t)\<lparr>vp_heap := (vp_heap ?g)(a \<mapsto> n\<lparr>np_cdr := cdr\<rparr>), vp_cdrs := cdr_insert cdr (vp_cdrs ?g)\<rparr>\<rparr>"
  let ?u = "\<lambda>t2. if fax_callflag env n = 1
      then send_fax thread env cdr (upd_counters (\<lambda>c. c\<lparr>fax_yes := inc64 (fax_yes c)\<rparr>) t2)
      else Returned (False, upd_counters (\<lambda>c. c\<lparr>fax_no := inc64 (fax_no c)\<rparr>) t2)"
  have st: "tables_step s s" for s by (simp add: tables_step_def)
  have m: "ft_m t < unat (fax_num (ft_conf t))" using c by (simp add: can_serve_def)
  have f: "node_full n" "a \<notin> Oth" using p n by (auto simp: pool_lists_def)
  obtain r t2 where u: "?u ?t1 = Returned (r, t2)" "vp_heap (ft_vp t2) = (vp_heap ?g)(a \<mapsto> n\<lparr>np_cdr := cdr\<rparr>)"
    "vp_eq (ft_vp t2) = vp_eq ?g" "vp_fq (ft_vp t2) = vp_fq ?g" "vp_cdrs (ft_vp t2) = cdr_insert cdr (vp_cdrs ?g)"
    "vp_dirs (ft_vp t2) = vp_dirs ?g" "calls (ft_vp t2) = calls ?g" "in_hand (vp_counters (ft_vp t2)) = in_hand (vp_counters ?g)"
    "tables_step (ft_conf t) (ft_conf t2)" "ft_m t2 < unat (fax_num (ft_conf t2))"
  proof (cases "fax_callflag env n = 1")
    case True
    let ?t1' = "upd_counters (\<lambda>c. c\<lparr>fax_yes := inc64 (fax_yes c)\<rparr>) ?t1"
    have "ft_conf ?t1' = ft_conf t" "ft_m ?t1' = ft_m t" by (simp_all add: upd_counters_def)
    then obtain r m' s' es' where x: "send_fax thread env cdr ?t1' = Returned (r, ?t1'\<lparr>ft_m := m', ft_conf := s', ft_events := es'\<rparr>)"
      "tables_step (ft_conf t) s'" "m' < unat (fax_num s')" using send_fax_ok[of ?t1' env thread cdr] c by auto
    show ?thesis
      by (rule that[of r "?t1'\<lparr>ft_m := m', ft_conf := s', ft_events := es'\<rparr>"])
        (use x True in \<open>simp_all add: upd_counters_def calls_def in_hand_def\<close>)
  next
    case False
    show ?thesis
      by (rule that[of False "upd_counters (\<lambda>c. c\<lparr>fax_no := inc64 (fax_no c)\<rparr>) ?t1"])
        (use False st m in \<open>simp_all add: upd_counters_def calls_def in_hand_def\<close>)
  qed
  have "pool_lists Oth (Some a) (?g\<lparr>vp_heap := (vp_heap ?g)(a \<mapsto> n\<lparr>np_cdr := cdr\<rparr>)\<rparr>) es fs"
    using f(1) by (intro pool_upd_own[OF p]) (simp add: node_full_def)
  then have "pool_lists Oth (Some a) (ft_vp t2) es fs" using u(2,3,4) by (simp add: pool_lists_def)
  from give_back_ok[OF this] obtain h q where g: "give_back a t2 = Some (t2\<lparr>ft_vp := (ft_vp t2)\<lparr>vp_heap := h, vp_eq := q\<rparr>\<rparr>)"
    "pool_lists Oth None ((ft_vp t2)\<lparr>vp_heap := h, vp_eq := q\<rparr>) (es @ [a]) fs" "\<forall>b \<in> Oth. h b = vp_heap (ft_vp t2) b" by blast
  let ?t3 = "t2\<lparr>ft_vp := (ft_vp t2)\<lparr>vp_heap := h, vp_eq := q\<rparr>\<rparr>"
  have heap: "vp_heap (ft_vp ?t) a = Some n" "cdr_callflag cdr = fax_callflag env n" "vp_heap (ft_vp ?t) = vp_heap ?g" "vp_cdrs (ft_vp ?t) = vp_cdrs ?g"
    using n by (simp_all add: upd_counters_def cdr_def)
  have "fax_handle thread env a t = Returned (Fax_handled cdr r, ?t3)"
    unfolding fax_handle_def Let_def heap(3,4) n option.case cdr_def[symmetric] heap(2) u(1) loop_result.case prod.case g(1) by (rule refl)
  moreover have "\<forall>b \<in> Oth. vp_heap (ft_vp ?t3) b = vp_heap ?g b" using g(3) u(2) f(2) by auto
  ultimately show ?thesis using g(2) u(5-10)
    by (intro exI[of _ r] exI[of _ ?t3]) (simp add: calls_def)
qed

text \<open>What a turn does to the two queues, of which \<open>es\<close> and \<open>fs\<close> are the nodes before it.\<close>

definition turn_moves :: "fax_env \<Rightarrow> fax_thread \<Rightarrow> addr list \<Rightarrow> addr list \<Rightarrow> fax_turn \<Rightarrow> fax_thread \<Rightarrow> addr list \<Rightarrow> addr list \<Rightarrow> bool" where
  "turn_moves env t es fs r t' es' fs' \<longleftrightarrow>
     (case r of
        Fax_exit \<Rightarrow> fe_done env \<and> t' = t \<and> es' = es \<and> fs' = fs
      | Fax_idle \<Rightarrow> \<not> fe_done env \<and> fs = [] \<and> t' = t \<and> es' = es \<and> fs' = fs
      | Fax_handled cdr got \<Rightarrow> \<not> fe_done env \<and> (\<exists>a n. fs = a # fs' \<and> es' = es @ [a] \<and> vp_heap (ft_vp t) a = Some n \<and>
          cdr = (np_cdr n)\<lparr>cdr_callflag := fax_callflag env n\<rparr> \<and> vp_cdrs (ft_vp t') = cdr_insert cdr (vp_cdrs (ft_vp t))))"

lemma fax_turn_queues:
  assumes "table_inv vf (ft_vp t)" and "can_serve (ft_conf t) (ft_m t) (fe_ios env)" and p: "pool_lists (all_nodes vf) None (ft_vp t) es fs"
  shows "\<exists>r t' es' fs'. fax_pre_turn thread env t = Returned (r, t') \<and> table_inv vf (ft_vp t') \<and>
    pool_lists (all_nodes vf) None (ft_vp t') es' fs' \<and> turn_moves env t es fs r t' es' fs' \<and> calls (ft_vp t') = calls (ft_vp t) \<and>
    in_hand (vp_counters (ft_vp t')) = in_hand (vp_counters (ft_vp t)) \<and>
    tables_step (ft_conf t) (ft_conf t') \<and> ft_m t' < unat (fax_num (ft_conf t'))"
proof -
  let ?g = "ft_vp t"
  have sys: "sys_ok ?g" using assms(1) by (auto simp: table_inv_def vp_inv_def)
  have st: "tables_step (ft_conf t) (ft_conf t)" "ft_m t < unat (fax_num (ft_conf t))" using assms(2) by (simp_all add: tables_step_def can_serve_def)
  show ?thesis
  proof (cases "fe_done env \<or> fs = []")
    case True
    have "FETCH_PHEAD (vp_heap ?g) (Some (vp_fq ?g)) = Some (None, vp_heap ?g, vp_fq ?g)" if "fs = []"
      using p fetch_holds_Nil that by (simp add: pool_lists_def)
    then have "fax_pre_turn thread env t = Returned (if fe_done env then Fax_exit else Fax_idle, t)" using True by (auto simp: fax_pre_turn_def)
    moreover have "turn_moves env t es fs (if fe_done env then Fax_exit else Fax_idle) t es fs" using True by (auto simp: turn_moves_def)
    ultimately show ?thesis using assms(1) p st by blast
  next
    case False
    then obtain a fs' where fs: "fs = a # fs'" by (cases fs) auto
    obtain h q n where f: "FETCH_PHEAD (vp_heap ?g) (Some (vp_fq ?g)) = Some (Some a, h, q)" "vp_heap ?g a = Some n"
      "h a = Some (n\<lparr>np_next := None\<rparr>)" "a \<notin> all_nodes vf" "\<forall>b. b \<noteq> a \<longrightarrow> h b = vp_heap ?g b"
      "pool_lists (all_nodes vf) (Some a) (?g\<lparr>vp_heap := h, vp_fq := q\<rparr>) es fs'"
      using pool_take_full p fs by blast
    let ?t = "t\<lparr>ft_vp := ?g\<lparr>vp_heap := h, vp_fq := q\<rparr>\<rparr>" and ?cdr = "(np_cdr n)\<lparr>cdr_callflag := fax_callflag env n\<rparr>"
    have p': "pool_lists (all_nodes vf) (Some a) (ft_vp ?t) es fs'" "can_serve (ft_conf ?t) (ft_m ?t) (fe_ios env)"
      "vp_heap (ft_vp ?t) a = Some (n\<lparr>np_next := None\<rparr>)" using f(3,6) assms(2) by simp_all
    have cdr: "(np_cdr (n\<lparr>np_next := None\<rparr>))\<lparr>cdr_callflag := fax_callflag env (n\<lparr>np_next := None\<rparr>)\<rparr> = ?cdr" by (simp add: fax_callflag_def)
    obtain r t' where h: "fax_handle thread env a ?t = Returned (Fax_handled ?cdr r, t')"
      "pool_lists (all_nodes vf) None (ft_vp t') (es @ [a]) fs'" "\<forall>b \<in> all_nodes vf. vp_heap (ft_vp t') b = vp_heap (ft_vp ?t) b"
      "vp_cdrs (ft_vp t') = cdr_insert ?cdr (vp_cdrs (ft_vp ?t))" "vp_dirs (ft_vp t') = vp_dirs (ft_vp ?t)"
      "calls (ft_vp t') = calls (ft_vp ?t)" "in_hand (vp_counters (ft_vp t')) = in_hand (vp_counters (ft_vp ?t))"
      "tables_step (ft_conf ?t) (ft_conf t')" "ft_m t' < unat (fax_num (ft_conf t'))"
      using fax_handle_ok[OF p', of thread] unfolding cdr by blast
    have turn: "fax_pre_turn thread env t = Returned (Fax_handled ?cdr r, t')" using False f(1) h(1) by (simp add: fax_pre_turn_def)
    have "same_nodes (all_nodes vf) ?g (ft_vp t')" using h(3) f(4,5) by (auto simp: same_nodes_def)
    moreover have "sys_ok (ft_vp t')" using sys h(4,5) insert_inv[of "vp_cdrs ?g"] by (simp add: sys_ok_def)
    ultimately have "table_inv vf (ft_vp t')" by (rule table_frame[OF assms(1) h(2)])
    moreover have "turn_moves env t es fs (Fax_handled ?cdr r) t' (es @ [a]) fs'"
      using False fs f(2) h(4) by (simp add: turn_moves_def)
    moreover have "calls (ft_vp t') = calls ?g" "in_hand (vp_counters (ft_vp t')) = in_hand (vp_counters ?g)"
      "tables_step (ft_conf t) (ft_conf t')" using h(6-8) by (simp_all add: calls_def)
    ultimately show ?thesis using turn h(2,9) by blast
  qed
qed

lemma fax_turn_ok:
  assumes "table_inv vf (ft_vp t)" and "can_serve (ft_conf t) (ft_m t) (fe_ios env)"
  shows "\<exists>r t'. fax_pre_turn thread env t = Returned (r, t') \<and> table_inv vf (ft_vp t') \<and> calls (ft_vp t') = calls (ft_vp t) \<and>
    in_hand (vp_counters (ft_vp t')) = in_hand (vp_counters (ft_vp t)) \<and>
    tables_step (ft_conf t) (ft_conf t') \<and> ft_m t' < unat (fax_num (ft_conf t'))"
  using table_pool[OF assms(1)] fax_turn_queues[OF assms] by blast


definition fax_test_env :: fax_env where
  "fax_test_env = \<lparr>fe_done = False, fe_decode = (\<lambda>k buf id. 1), fe_ios = [dead_io, dead_io]\<rparr>"

lemma table_inv_swap: "table_inv vf (swap_queues g) = table_inv vf g"
proof -
  have "pool_ok Oth own (swap_queues g) = pool_ok Oth own g" for Oth own by (auto simp: pool_ok_def pool_swap_queues)
  moreover have "sys_ok (swap_queues g) = sys_ok g" by (simp add: sys_ok_def swap_queues_def)
  ultimately show ?thesis by (simp add: table_inv_def vp_inv_def)
qed


end
