(* ===== verification/Fax_Decode.thy ===== *)
theory Fax_Decode
  imports Fax_Sender
begin

text \<open>
  The fax decoder, the first part of \<open>src/src/fax_decode.c\<close>: the control frames of a fax session, the modems and the page they
  receive, the decoding of a file of samples, and the file made of the samples of a call.

  The demodulators, the frame receiver and the page receiver are those of a library. What they deliver (bits,
  status codes, frames) is input here, what they are given is a log, and the constants of the library
  are a record. One thread has one entry of every array; \<open>rx_state\<close> is that entry.
\<close>

subsection \<open>Data\<close>

record spandsp =
  T30_DCS :: u8
  T30_CFR :: u8
  T4_FCD :: u8
  ident_types :: "u8 list"
  T30_MAX_IDENT_LEN :: nat
  T30_MAX_DIS_DTC_DCS_LEN :: nat
  T4_ITU_T4_1D :: int
  T4_ITU_T4_2D :: int
  T4_ITU_T6 :: int
  T4_Y_STANDARD :: int
  T4_Y_FINE :: int
  T4_Y_SUPERFINE :: int
  SIG_CARRIER_DOWN :: int
  SIG_TRAINING_SUCCEEDED :: int
  SAMPLE_RATE :: int

datatype fax_modem = FAX_NONE | FAX_V27TER_RX | FAX_V29_RX | FAX_V17_RX

datatype t4_event = T4_start_page int int int int | T4_put_chunk "u8 list" | T4_put_bit int | T4_end_page | Hdlc_put_bit int

record rx_state =
  t4_up :: bool
  fast_trained :: fax_modem
  ecm_data :: "u8 list list"
  ecm_len :: "int list"
  line_encoding :: int
  x_resolution :: int
  y_resolution :: int
  image_width :: int
  octets_per_ecm_frame :: int
  error_correcting_mode :: bool
  current_fallback :: int
  fax_flag :: int
  rx_log :: "t4_event list"

definition rx_event :: "t4_event \<Rightarrow> rx_state \<Rightarrow> rx_state" where
  "rx_event e s = s\<lparr>rx_log := rx_log s @ [e]\<rparr>"

abbreviation DISBIT1 :: u8 where "DISBIT1 \<equiv> 0x01"
abbreviation DISBIT2 :: u8 where "DISBIT2 \<equiv> 0x02"
abbreviation DISBIT3 :: u8 where "DISBIT3 \<equiv> 0x04"
abbreviation DISBIT4 :: u8 where "DISBIT4 \<equiv> 0x08"
abbreviation DISBIT5 :: u8 where "DISBIT5 \<equiv> 0x10"
abbreviation DISBIT6 :: u8 where "DISBIT6 \<equiv> 0x20"
abbreviation DISBIT7 :: u8 where "DISBIT7 \<equiv> 0x40"
abbreviation DISBIT8 :: u8 where "DISBIT8 \<equiv> 0x80"

text \<open>The bit rate, the modem and the code of each entry; the last entry ends the table.\<close>

definition fallback_sequence :: "(int \<times> fax_modem \<times> u8) list" where
  "fallback_sequence =
    [(14400, FAX_V17_RX, DISBIT6),
     (12000, FAX_V17_RX, DISBIT6 OR DISBIT4),
     (9600, FAX_V17_RX, DISBIT6 OR DISBIT3),
     (9600, FAX_V29_RX, DISBIT3),
     (7200, FAX_V17_RX, DISBIT6 OR DISBIT4 OR DISBIT3),
     (7200, FAX_V29_RX, DISBIT4 OR DISBIT3),
     (4800, FAX_V27TER_RX, DISBIT4),
     (2400, FAX_V27TER_RX, 0),
     (0, FAX_NONE, 0)]"

subsection \<open>Control frames\<close>

text \<open>The identity of the other side: padded with spaces and sent backwards. \<open>pkt\<close> is the whole frame.\<close>

fun strip_spaces :: "u8 list \<Rightarrow> nat \<Rightarrow> nat option" where
  "strip_spaces pkt 0 = Some 0"
| "strip_spaces pkt (Suc p) =
     (if Suc p > 1 then do {
        c \<leftarrow> rd pkt p;
        if c = 32 then strip_spaces pkt p else Some (Suc p)}
      else Some (Suc p))"

definition decode_20digit_msg :: "spandsp \<Rightarrow> u8 list \<Rightarrow> int \<Rightarrow> u8 list option" where
  "decode_20digit_msg L pkt len =
     (if len > int (T30_MAX_IDENT_LEN L) + 3 then Some []
      else do {
        p \<leftarrow> strip_spaces (drop 2 pkt) (nat (len - 2));
        bs \<leftarrow> (if p > 1 then rd_n (drop 2 pkt) 1 (p - 1) else Some []);
        if T30_MAX_IDENT_LEN L + 1 \<le> length bs then None else Some (rev bs)})"

text \<open>
  What is printed of a frame: its bytes, and the identity if it holds one. Of the frames with capabilities and with the name of the maker
  the program also has the library print what they mean (\<open>t30_decode_dis_dtc_dcs\<close> and \<open>t35_decode\<close>, given the frame and its length); these
  calls are the library's and are left out.
\<close>

definition print_frame :: "spandsp \<Rightarrow> u8 list \<Rightarrow> int \<Rightarrow> (u8 list \<times> u8 list option) option" where
  "print_frame L fr frlen = do {
     t \<leftarrow> rd fr 2;
     bs \<leftarrow> rd_n fr 2 (nat (frlen - 2));
     if t AND 0xFE \<in> set (ident_types L)
     then do {i \<leftarrow> decode_20digit_msg L fr frlen; Some (bs, Some i)}
     else Some (bs, None)}"

fun find_fallback :: "(int \<times> fax_modem \<times> u8) list \<Rightarrow> u8 \<Rightarrow> int \<Rightarrow> int" where
  "find_fallback [] code i = -1"
| "find_fallback ((rate, _, c) # es) code i =
     (if rate = 0 then -1 else if c = code then i else find_fallback es code (i + 1))"

definition find_fallback_entry :: "u8 \<Rightarrow> int" where
  "find_fallback_entry dcs_code = find_fallback fallback_sequence dcs_code 0"

definition widths :: "int list list" where
  "widths = [[864, 1024, 1216, -1], [1728, 2048, 2432, -1], [3456, 4096, 4864, -1]]"

definition bit_set :: "u8 \<Rightarrow> u8 \<Rightarrow> bool" where
  "bit_set b m \<longleftrightarrow> b AND m \<noteq> 0"

definition check_rx_dcs :: "spandsp \<Rightarrow> u8 list \<Rightarrow> int \<Rightarrow> rx_state \<Rightarrow> (int \<times> rx_state) option" where
  "check_rx_dcs L msg len s =
     (let M = T30_MAX_DIS_DTC_DCS_LEN L in
      if len < 6 then Some (-1, s)
      else do {
        bs \<leftarrow> rd_n msg 0 (min (nat len) M);
        let dcs_frame = bs @ replicate (M - length bs) 0;
        b4 \<leftarrow> rd dcs_frame 4;
        b5 \<leftarrow> rd dcs_frame 5;
        b6 \<leftarrow> rd dcs_frame 6;
        b8 \<leftarrow> rd dcs_frame 8;
        row \<leftarrow> rd widths (if bit_set b8 DISBIT3 then 2 else 1);
        width \<leftarrow> rd row (unat (b5 AND (DISBIT2 OR DISBIT1)));
        Some (0, s\<lparr>octets_per_ecm_frame := (if bit_set b6 DISBIT4 then 256 else 64),
          y_resolution := (if bit_set b8 DISBIT1 then T4_Y_SUPERFINE L else if bit_set b4 DISBIT7 then T4_Y_FINE L else T4_Y_STANDARD L),
          image_width := width,
          line_encoding := (if bit_set b6 DISBIT7 then T4_ITU_T6 L else if bit_set b4 DISBIT8 then T4_ITU_T4_2D L else T4_ITU_T4_1D L),
          current_fallback := find_fallback_entry (b4 AND (DISBIT6 OR DISBIT5 OR DISBIT4 OR DISBIT3)),
          error_correcting_mode := bit_set b6 DISBIT3\<rparr>)})"

text \<open>A frame of a page: a length below 4 makes the size of the copy huge.\<close>

definition store_ecm :: "u8 list \<Rightarrow> int \<Rightarrow> rx_state \<Rightarrow> rx_state option" where
  "store_ecm msg len s =
     (if len \<le> 4 + 256 then do {
        b3 \<leftarrow> rd msg 3;
        let frame_no = unat b3;
        row \<leftarrow> rd (ecm_data s) frame_no;
        _ \<leftarrow> rd (ecm_len s) frame_no;
        if len < 4 then None
        else do {
          bs \<leftarrow> rd_n msg 4 (nat (len - 4));
          row' \<leftarrow> wr_n row 0 bs;
          Some (s\<lparr>ecm_data := (ecm_data s)[frame_no := row'], ecm_len := (ecm_len s)[frame_no := signed_take_bit 15 (len - 4)]\<rparr>)}}
      else Some s)"

text \<open>\<open>msg\<close> is the receiver's buffer, \<open>len\<close> the number of its bytes that are the frame, or a status code.\<close>

definition hdlc_accept :: "spandsp \<Rightarrow> u8 list \<Rightarrow> int \<Rightarrow> bool \<Rightarrow> rx_state \<Rightarrow> rx_state option" where
  "hdlc_accept L msg len valid s =
     (if len < 0 then Some s
      else if valid then do {
        b0 \<leftarrow> rd msg 0;
        b1 \<leftarrow> rd msg 1;
        if b0 \<noteq> 0xFF \<or> \<not> (b1 = 0x03 \<or> b1 = 0x13) then Some s
        else do {
          _ \<leftarrow> print_frame L msg len;
          b2 \<leftarrow> rd msg 2;
          let type = b2 AND 0xFE;
          if type = T4_FCD L then store_ecm msg len s
          else if type = T30_DCS L then do {(r, s') \<leftarrow> check_rx_dcs L msg len s; Some s'}
          else if type = T30_CFR L then Some (s\<lparr>fax_flag := 1\<rparr>)
          else Some s}}
      else do {_ \<leftarrow> rd_n msg 0 (nat len); Some s})"

subsection \<open>Pages\<close>

definition t4_begin :: "rx_state \<Rightarrow> rx_state" where
  "t4_begin s = (rx_event (T4_start_page (line_encoding s) (x_resolution s) (y_resolution s) (image_width s)) s)
     \<lparr>t4_up := True, ecm_len := replicate 256 (-1)\<rparr>"

text \<open>The frames of a page with error correction, by their numbers.\<close>

fun put_chunks :: "nat \<Rightarrow> nat \<Rightarrow> rx_state \<Rightarrow> rx_state option" where
  "put_chunks i 0 s = Some s"
| "put_chunks i (Suc k) s = do {
     n \<leftarrow> rd (ecm_len s) i;
     s' \<leftarrow> (if n > 0 then do {
              row \<leftarrow> rd (ecm_data s) i;
              bs \<leftarrow> rd_n row 0 (nat n);
              Some (rx_event (T4_put_chunk bs) s)}
            else Some s);
     put_chunks (Suc i) k s'}"

definition t4_end :: "rx_state \<Rightarrow> rx_state option" where
  "t4_end s =
     (if \<not> t4_up s then Some s
      else do {
        s1 \<leftarrow> (if error_correcting_mode s then put_chunks 0 256 s else Some s);
        Some ((rx_event T4_end_page s1)\<lparr>t4_up := False\<rparr>)})"

text \<open>The frames that the receiver hands to \<open>hdlc_accept\<close> while it takes a bit.\<close>

type_synonym hdlc_frame = "u8 list \<times> int \<times> bool"

fun accept_frames :: "spandsp \<Rightarrow> hdlc_frame list \<Rightarrow> rx_state \<Rightarrow> rx_state option" where
  "accept_frames L [] s = Some s"
| "accept_frames L ((msg, len, valid) # fs) s = do {s' \<leftarrow> hdlc_accept L msg len valid s; accept_frames L fs s'}"

definition hdlc_rx_put_bit :: "spandsp \<Rightarrow> int \<Rightarrow> hdlc_frame list \<Rightarrow> rx_state \<Rightarrow> rx_state option" where
  "hdlc_rx_put_bit L b fs s = accept_frames L fs (rx_event (Hdlc_put_bit b) s)"

definition v21_put_bit :: "spandsp \<Rightarrow> int \<Rightarrow> hdlc_frame list \<Rightarrow> rx_state \<Rightarrow> rx_state option" where
  "v21_put_bit L b fs s =
     (if b < 0 then Some s
      else if fast_trained s = FAX_NONE then hdlc_rx_put_bit L b fs s
      else Some s)"

text \<open>
  The three fast modems have the same function but for their names; \<open>eop\<close> is what \<open>t4_rx_put_bit\<close> answers.
\<close>

definition fast_put_bit :: "fax_modem \<Rightarrow> spandsp \<Rightarrow> int \<Rightarrow> hdlc_frame list \<Rightarrow> bool \<Rightarrow> rx_state \<Rightarrow> rx_state option" where
  "fast_put_bit modem L b fs eop s =
     (if b < 0 then
        (if b = SIG_TRAINING_SUCCEEDED L then Some (t4_begin (s\<lparr>fast_trained := modem\<rparr>))
         else if b = SIG_CARRIER_DOWN L then do {
           s1 \<leftarrow> t4_end s;
           Some (if fast_trained s1 = modem then s1\<lparr>fast_trained := FAX_NONE\<rparr> else s1)}
         else Some s)
      else if error_correcting_mode s then hdlc_rx_put_bit L b fs s
      else (let s1 = rx_event (T4_put_bit b) s in if eop then t4_end s1 else Some s1))"

definition v17_put_bit where "v17_put_bit = fast_put_bit FAX_V17_RX"
definition v29_put_bit where "v29_put_bit = fast_put_bit FAX_V29_RX"
definition v27ter_put_bit where "v27ter_put_bit = fast_put_bit FAX_V27TER_RX"

subsection \<open>Files of samples\<close>

text \<open>What the four demodulators deliver for a chunk of samples, in order.\<close>

datatype rx_signal =
    V21 int "hdlc_frame list"
  | V17 int "hdlc_frame list" bool
  | V29 int "hdlc_frame list" bool
  | V27ter int "hdlc_frame list" bool

fun put_signal :: "spandsp \<Rightarrow> rx_signal \<Rightarrow> rx_state \<Rightarrow> rx_state option" where
  "put_signal L (V21 b fs) s = v21_put_bit L b fs s"
| "put_signal L (V17 b fs eop) s = v17_put_bit L b fs eop s"
| "put_signal L (V29 b fs eop) s = v29_put_bit L b fs eop s"
| "put_signal L (V27ter b fs eop) s = v27ter_put_bit L b fs eop s"

fun put_signals :: "spandsp \<Rightarrow> rx_signal list \<Rightarrow> rx_state \<Rightarrow> rx_state option" where
  "put_signals L [] s = Some s"
| "put_signals L (x # xs) s = do {s' \<leftarrow> put_signal L x s; put_signals L xs s'}"

abbreviation SAMPLES_PER_CHUNK :: int where "SAMPLES_PER_CHUNK \<equiv> 160"

text \<open>
  What the library answers for a file: whether it opens, its rate and channels, whether the receiver of pages starts, the
  number of samples and the signals of each chunk, whether the file closes, and whether a page was written.
\<close>

record alaw_env =
  sf_opens :: bool
  sf_rate :: int
  sf_channels :: int
  t4_starts :: bool
  sf_chunks :: "(int \<times> rx_signal list) list"
  sf_close_err :: bool
  tif_there :: bool

fun decode_chunks :: "spandsp \<Rightarrow> (int \<times> rx_signal list) list \<Rightarrow> rx_state \<Rightarrow> rx_state loop_result" where
  "decode_chunks L [] s = Running"
| "decode_chunks L ((len, xs) # cs) s =
     (if len < SAMPLES_PER_CHUNK then Returned s
      else (case put_signals L xs s of None \<Rightarrow> Undefined | Some s' \<Rightarrow> decode_chunks L cs s'))"

definition decode_alaw :: "spandsp \<Rightarrow> alaw_env \<Rightarrow> rx_state \<Rightarrow> (int \<times> rx_state) loop_result" where
  "decode_alaw L env s =
     (if \<not> sf_opens env \<or> sf_rate env \<noteq> SAMPLE_RATE L \<or> sf_channels env \<noteq> 1 \<or> \<not> t4_starts env then Returned (-2, s)
      else (case decode_chunks L (sf_chunks env) s of
          Running \<Rightarrow> Running
        | Undefined \<Rightarrow> Undefined
        | Returned s' \<Rightarrow>
            Returned (if sf_close_err env then -2 else if tif_there env then 1 else fax_flag s', s')))"

record alaw_head =
  ChunkID :: u32
  ChunkSize :: u32
  Format :: u32
  SubChunk1ID :: u32
  SubChunk1Size :: u32
  AudioFormat :: u16
  NumChannels :: u16
  SampleRate :: u32
  ByteRate :: u32
  BlockAlign :: u16
  BitsPerSample :: u32
  WaveFact :: u32
  Temp1 :: u32
  Temp2 :: u32
  DataTag :: u32
  DataLen :: u32

definition init_alaw_head :: "alaw_head \<Rightarrow> alaw_head" where
  "init_alaw_head h = h\<lparr>ChunkID := 0x46464952, Format := 0x45564157, SubChunk1ID := 0x20746d66, SubChunk1Size := 0x12,
     AudioFormat := 0x06, NumChannels := 0x01, SampleRate := 0x1f40, ByteRate := 0x1f40, BlockAlign := 0x01,
     BitsPerSample := 0x08, WaveFact := 0x74636166, Temp1 := 0x04, Temp2 := 0x075300, DataTag := 0x61746164\<rparr>"

text \<open>
  The bytes of the structure: a 32 bit member is aligned to 4, so two bytes \<open>pad\<close> of unknown value lie between
  \<open>BlockAlign\<close> and \<open>BitsPerSample\<close>.
\<close>

definition head_bytes :: "u8 list \<Rightarrow> alaw_head \<Rightarrow> u8 list" where
  "head_bytes pad h = to_le 4 (ChunkID h) @ to_le 4 (ChunkSize h) @ to_le 4 (Format h) @ to_le 4 (SubChunk1ID h) @
     to_le 4 (SubChunk1Size h) @ to_le 2 (AudioFormat h) @ to_le 2 (NumChannels h) @ to_le 4 (SampleRate h) @ to_le 4 (ByteRate h) @
     to_le 2 (BlockAlign h) @ pad @ to_le 4 (BitsPerSample h) @ to_le 4 (WaveFact h) @ to_le 4 (Temp1 h) @ to_le 4 (Temp2 h) @
     to_le 4 (DataTag h) @ to_le 4 (DataLen h)"

text \<open>
  The file of the samples \<open>buf\<close>, written over an uninitialised header \<open>raw\<close>, and then what the decoder makes of
  a file with those bytes.
\<close>

definition alaw_file :: "u8 list \<Rightarrow> alaw_head \<Rightarrow> u8 list \<Rightarrow> u8 list" where
  "alaw_file pad raw buf =
     head_bytes pad ((init_alaw_head raw)\<lparr>ChunkSize := of_nat (length buf) + 50, DataLen := of_nat (length buf)\<rparr>) @ buf"

definition decode_mem ::
  "spandsp \<Rightarrow> bool \<Rightarrow> u8 list \<Rightarrow> alaw_head \<Rightarrow> (u8 list \<Rightarrow> alaw_env) \<Rightarrow> u8 list \<Rightarrow> rx_state \<Rightarrow> (int \<times> rx_state) loop_result" where
  "decode_mem L opens pad raw env buf s = (if \<not> opens then Returned (0, s) else decode_alaw L (env (alaw_file pad raw buf)) s)"

text \<open>The decoding of a node in the thread: the second buffer is only tried when the first is no fax.\<close>

definition decode_node ::
  "(u8 list \<Rightarrow> rx_state \<Rightarrow> (int \<times> rx_state) loop_result) \<Rightarrow> fax_node \<Rightarrow> rx_state \<Rightarrow> (u8 \<times> rx_state) loop_result" where
  "decode_node dec p s =
     (case dec (np_up p) s of
        Running \<Rightarrow> Running
      | Undefined \<Rightarrow> Undefined
      | Returned (r1, s1) \<Rightarrow>
          (if word_of_int r1 = (1 :: u8) then Returned (1, s1\<lparr>fax_flag := 0\<rparr>)
           else (case dec (np_down p) s1 of
               Running \<Rightarrow> Running
             | Undefined \<Rightarrow> Undefined
             | Returned (r2, s2) \<Rightarrow> Returned (if word_of_int r2 = (1 :: u8) then 1 else 0, s2\<lparr>fax_flag := 0\<rparr>))))"


subsection \<open>Frames are safe but for one kind\<close>

definition rx_ok :: "rx_state \<Rightarrow> bool" where
  "rx_ok s \<longleftrightarrow> length (ecm_data s) = 256 \<and> (\<forall>row \<in> set (ecm_data s). length row = 260) \<and>
     length (ecm_len s) = 256 \<and> (\<forall>n \<in> set (ecm_len s). n \<le> 256)"

lemma rx_ok_cong: "ecm_data s' = ecm_data s \<Longrightarrow> ecm_len s' = ecm_len s \<Longrightarrow> rx_ok s' = rx_ok s"
  by (simp add: rx_ok_def)

lemma rx_event_sel [simp]: "ecm_data (rx_event e s) = ecm_data s" "ecm_len (rx_event e s) = ecm_len s" "t4_up (rx_event e s) = t4_up s"
  "fast_trained (rx_event e s) = fast_trained s" "fax_flag (rx_event e s) = fax_flag s"
  "error_correcting_mode (rx_event e s) = error_correcting_mode s" "rx_log (rx_event e s) = rx_log s @ [e]"
  by (simp_all add: rx_event_def)

lemma strip_spaces_Some: "p \<le> length pkt \<Longrightarrow> \<exists>k. strip_spaces pkt p = Some k \<and> k \<le> p"
  by (induction p) (auto simp: rd_Some le_SucI)

lemma decode_20digit_Some:
  assumes "len \<le> int (length pkt)"
  shows "\<exists>m. decode_20digit_msg L pkt len = Some m \<and> length m \<le> T30_MAX_IDENT_LEN L"
proof (cases "len > int (T30_MAX_IDENT_LEN L) + 3")
  case True
  then show ?thesis by (simp add: decode_20digit_msg_def)
next
  case False
  have "nat (len - 2) \<le> length (drop 2 pkt)" using assms by simp
  from strip_spaces_Some[OF this] obtain p where p: "strip_spaces (drop 2 pkt) (nat (len - 2)) = Some p" "p \<le> nat (len - 2)" by blast
  have k: "p - 1 \<le> T30_MAX_IDENT_LEN L" using p(2) False by linarith
  show ?thesis
  proof (cases "p > 1")
    case True
    then have "rd_n (drop 2 pkt) 1 (p - 1) = Some (take (p - 1) (drop 3 pkt))"
      using p(2) assms by (simp add: rd_n_def numeral_3_eq_3 numeral_2_eq_2)
    then show ?thesis using False p(1) k True by (simp add: decode_20digit_msg_def)
  next
    case False
    then show ?thesis using \<open>\<not> len > int (T30_MAX_IDENT_LEN L) + 3\<close> p(1) by (simp add: decode_20digit_msg_def)
  qed
qed

lemma print_frame_Some:
  assumes "len \<le> int (length fr)" "3 \<le> length fr"
  shows "\<exists>r. print_frame L fr len = Some r"
proof -
  have "rd_n fr 2 (nat (len - 2)) = Some (take (nat (len - 2)) (drop 2 fr))" using assms by (simp add: rd_n_def)
  moreover obtain m where "decode_20digit_msg L fr len = Some m" using decode_20digit_Some[OF assms(1)] by blast
  ultimately show ?thesis using assms(2) by (simp add: print_frame_def rd_Some)
qed

lemma check_rx_dcs_ok:
  assumes "len \<le> int (length msg)" "9 \<le> T30_MAX_DIS_DTC_DCS_LEN L" "rx_ok s"
  shows "\<exists>r s'. check_rx_dcs L msg len s = Some (r, s') \<and> rx_ok s' \<and> fax_flag s' = fax_flag s \<and> fast_trained s' = fast_trained s"
proof (cases "len < 6")
  case True
  then show ?thesis using assms(3) by (simp add: check_rx_dcs_def)
next
  case False
  let ?M = "T30_MAX_DIS_DTC_DCS_LEN L" and ?bs = "take (min (nat len) (T30_MAX_DIS_DTC_DCS_LEN L)) msg"
  have "nat len \<le> length msg" using assms(1) by simp
  then have "min (nat len) ?M \<le> length msg" by (rule min.coboundedI1)
  then have bs: "rd_n msg 0 (min (nat len) ?M) = Some ?bs" by (simp add: rd_n_def)
  let ?d = "?bs @ replicate (?M - length ?bs) 0"
  have "length ?d = ?M" by simp
  then have rd: "rd ?d 4 = Some (?d ! 4)" "rd ?d 5 = Some (?d ! 5)" "rd ?d 6 = Some (?d ! 6)" "rd ?d 8 = Some (?d ! 8)"
    using assms(2) by (auto simp del: length_append intro!: rd_Some)
  have row: "rd widths (if c then 2 else 1) = Some (if c then widths ! 2 else widths ! 1)" for c
    by (simp add: rd_def widths_def)
  have len4: "length (if c then widths ! 2 else widths ! 1) = 4" for c by (simp add: widths_def)
  have "unat (b AND (DISBIT2 OR DISBIT1)) < 4" for b :: u8
  proof -
    have "DISBIT2 OR DISBIT1 = mask 2" by (simp add: mask_eq_decr_exp)
    then show ?thesis using and_mask_less_size[of 2 b] by (simp add: word_less_nat_alt word_size)
  qed
  then have "rd (if c then widths ! 2 else widths ! 1) (unat (b AND (DISBIT2 OR DISBIT1))) \<noteq> None" for b :: u8 and c
    by (simp add: rd_def len4)
  then obtain w where w: "rd (if bit_set (?d ! 8) DISBIT3 then widths ! 2 else widths ! 1) (unat (?d ! 5 AND (DISBIT2 OR DISBIT1))) = Some w"
    by blast
  show ?thesis
    unfolding check_rx_dcs_def Let_def bs bind.bind_lunit rd row w if_not_P[OF False]
    by (intro exI conjI, rule refl) (use assms(3) in \<open>simp_all add: rx_ok_def\<close>)
qed

definition frame_ok :: "spandsp \<Rightarrow> hdlc_frame \<Rightarrow> bool" where
  "frame_ok L = (\<lambda>(msg, len, valid). 4 \<le> length msg \<and> len \<le> int (length msg) \<and>
     \<not> (valid \<and> 0 \<le> len \<and> len < 4 \<and> msg ! 0 = 0xFF \<and> (msg ! 1 = 0x03 \<or> msg ! 1 = 0x13) \<and> msg ! 2 AND 0xFE = T4_FCD L))"

lemma store_ecm_ok:
  assumes "rx_ok s" "4 \<le> len" "len \<le> int (length msg)"
  shows "\<exists>s'. store_ecm msg len s = Some s' \<and> rx_ok s' \<and> fax_flag s' = fax_flag s \<and> fast_trained s' = fast_trained s \<and>
    (len \<le> 260 \<longrightarrow> s' = s\<lparr>ecm_data := (ecm_data s)[unat (msg ! 3) := take (nat (len - 4)) (drop 4 msg) @ drop (nat (len - 4)) (ecm_data s ! unat (msg ! 3))],
        ecm_len := (ecm_len s)[unat (msg ! 3) := len - 4]\<rparr>)"
proof (cases "len \<le> 260")
  case False
  then show ?thesis using assms(1) by (simp add: store_ecm_def)
next
  case True
  let ?i = "unat (msg ! 3)" and ?bs = "take (nat (len - 4)) (drop 4 msg)"
  have i: "?i < 256" by (rule less_le_trans[OF unsigned_less]) simp
  have r: "length (ecm_data s) = 256" "length (ecm_len s) = 256" "length (ecm_data s ! ?i) = 260"
    using assms(1) i by (simp_all add: rx_ok_def)
  have bs: "rd_n msg 4 (nat (len - 4)) = Some ?bs" "length ?bs = nat (len - 4)" using assms(2,3) by (simp_all add: rd_n_def)
  have wr: "wr_n (ecm_data s ! ?i) 0 ?bs = Some (?bs @ drop (nat (len - 4)) (ecm_data s ! ?i))"
    using bs(2) r(3) True by (simp add: wr_n_def)
  have sl: "signed_take_bit 15 (len - 4) = len - 4" using assms(2) True by (intro signed_take_bit_int_eq_self) simp_all
  have b3: "rd msg 3 = Some (msg ! 3)" using assms(2,3) by (intro rd_Some) linarith
  have rows: "rd (ecm_data s) ?i = Some (ecm_data s ! ?i)" "rd (ecm_len s) ?i = Some (ecm_len s ! ?i)"
    using i r by (simp_all add: rd_Some)
  let ?s = "s\<lparr>ecm_data := (ecm_data s)[?i := ?bs @ drop (nat (len - 4)) (ecm_data s ! ?i)], ecm_len := (ecm_len s)[?i := len - 4]\<rparr>"
  have st: "store_ecm msg len s = Some ?s"
    using assms(2) True by (simp add: store_ecm_def b3 rows bs wr sl Let_def)
  have "length (?bs @ drop (nat (len - 4)) (ecm_data s ! ?i)) = 260" using bs(2) r(3) True by simp
  then have "rx_ok ?s" using assms(1) True
    by (auto simp: rx_ok_def dest!: set_update_subset_insert[THEN subsetD])
  then show ?thesis using st by simp
qed

lemma hdlc_accept_ok:
  assumes "rx_ok s" "9 \<le> T30_MAX_DIS_DTC_DCS_LEN L" "frame_ok L (msg, len, valid)"
  shows "\<exists>s'. hdlc_accept L msg len valid s = Some s' \<and> rx_ok s' \<and> fast_trained s' = fast_trained s \<and>
    (fax_flag s' = fax_flag s \<or> fax_flag s' = 1)"
proof -
  have f: "4 \<le> length msg" "len \<le> int (length msg)"
    "\<not> (valid \<and> 0 \<le> len \<and> len < 4 \<and> msg ! 0 = 0xFF \<and> (msg ! 1 = 0x03 \<or> msg ! 1 = 0x13) \<and> msg ! 2 AND 0xFE = T4_FCD L)"
    using assms(3) by (simp_all add: frame_ok_def)
  have rd: "rd msg 0 = Some (msg ! 0)" "rd msg 1 = Some (msg ! 1)" "rd msg 2 = Some (msg ! 2)" using f(1) by (auto simp: rd_def)
  have "3 \<le> length msg" using f(1) by linarith
  then obtain pr where pr: "print_frame L msg len = Some pr" using print_frame_Some[OF f(2)] by blast
  show ?thesis
  proof (cases "len < 0 \<or> \<not> valid \<or> msg ! 0 \<noteq> 0xFF \<or> \<not> (msg ! 1 = 0x03 \<or> msg ! 1 = 0x13)")
    case True
    then show ?thesis using assms(1) f(2) rd by (auto simp: hdlc_accept_def rd_n_def)
  next
    case False
    have acc: "hdlc_accept L msg len valid s =
       (if msg ! 2 AND 0xFE = T4_FCD L then store_ecm msg len s
        else if msg ! 2 AND 0xFE = T30_DCS L then do {(r, s') \<leftarrow> check_rx_dcs L msg len s; Some s'}
        else if msg ! 2 AND 0xFE = T30_CFR L then Some (s\<lparr>fax_flag := 1\<rparr>) else Some s)"
      unfolding hdlc_accept_def rd bind.bind_lunit pr Let_def using False by simp
    show ?thesis
    proof (cases "msg ! 2 AND 0xFE = T4_FCD L")
      case True
      then have "4 \<le> len" using False f(3) by auto
      from store_ecm_ok[OF assms(1) this f(2)] show ?thesis using acc True by auto
    next
      case False
      then show ?thesis using acc check_rx_dcs_ok[OF f(2) assms(2,1)] assms(1)
        by (auto simp: rx_ok_cong[of "s\<lparr>fax_flag := 1\<rparr>" s])
    qed
  qed
qed

text \<open>
  C40. Exactly one kind of control frame is dangerous. With a receiver's buffer of at least four bytes and a library whose longest
  capability frame has at least nine, every frame and status is handled within the arrays and keeps them well-formed,
  except a correct frame of less than four bytes with the type of page data: its data would have a negative
  length, which becomes a huge size. So a sender can stop the program.
\<close>

theorem frame_stops_program:
  assumes "rx_ok s" and "9 \<le> T30_MAX_DIS_DTC_DCS_LEN L" and "4 \<le> length msg" and "len \<le> int (length msg)"
  shows "(hdlc_accept L msg len valid s = None \<longleftrightarrow>
      valid \<and> 0 \<le> len \<and> len < 4 \<and> msg ! 0 = 0xFF \<and> (msg ! 1 = 0x03 \<or> msg ! 1 = 0x13) \<and> msg ! 2 AND 0xFE = T4_FCD L) \<and>
    (\<forall>s'. hdlc_accept L msg len valid s = Some s' \<longrightarrow> rx_ok s')"
proof -
  let ?bad = "valid \<and> 0 \<le> len \<and> len < 4 \<and> msg ! 0 = 0xFF \<and> (msg ! 1 = 0x03 \<or> msg ! 1 = 0x13) \<and> msg ! 2 AND 0xFE = T4_FCD L"
  have none: "hdlc_accept L msg len valid s = None" if b: ?bad
  proof -
    have "3 \<le> length msg" using assms(3) by linarith
    then obtain pr where "print_frame L msg len = Some pr" using print_frame_Some[OF assms(4)] by blast
    moreover have "store_ecm msg len s = None"
      using b by (cases "rd msg 3"; cases "rd (ecm_data s) (unat (the (rd msg 3)))") (auto simp: store_ecm_def Let_def split: Option.bind_splits)
    moreover have rd: "rd msg 0 = Some (msg ! 0)" "rd msg 1 = Some (msg ! 1)" "rd msg 2 = Some (msg ! 2)" using assms(3) by (auto simp: rd_def)
    ultimately show ?thesis unfolding hdlc_accept_def rd bind.bind_lunit Let_def using b by auto
  qed
  have ok: "\<exists>s'. hdlc_accept L msg len valid s = Some s' \<and> rx_ok s'" if "\<not> ?bad"
  proof -
    have "frame_ok L (msg, len, valid)" unfolding frame_ok_def prod.case using assms(3,4) that by blast
    then show ?thesis using hdlc_accept_ok[OF assms(1,2)] by blast
  qed
  show ?thesis
  proof (cases ?bad)
    case True
    then show ?thesis using none by simp
  next
    case False
    then obtain a where "hdlc_accept L msg len valid s = Some a" "rx_ok a" using ok by blast
    then show ?thesis using False by simp
  qed
qed

definition start_rx :: rx_state where
  "start_rx = \<lparr>t4_up = False, fast_trained = FAX_NONE, ecm_data = replicate 256 (replicate 260 0), ecm_len = replicate 256 0,
     line_encoding = 1, x_resolution = 8031, y_resolution = 3850, image_width = 1728, octets_per_ecm_frame = 256,
     error_correcting_mode = False, current_fallback = 0, fax_flag = 0, rx_log = []\<rparr>"

definition test_lib :: spandsp where
  "test_lib = \<lparr>T30_DCS = 0x82, T30_CFR = 0x84, T4_FCD = 0x06, ident_types = [0x40, 0x42], T30_MAX_IDENT_LEN = 20, T30_MAX_DIS_DTC_DCS_LEN = 22,
     T4_ITU_T4_1D = 1, T4_ITU_T4_2D = 2, T4_ITU_T6 = 3, T4_Y_STANDARD = 3850, T4_Y_FINE = 7700, T4_Y_SUPERFINE = 15400,
     SIG_CARRIER_DOWN = -1, SIG_TRAINING_SUCCEEDED = -4, SAMPLE_RATE = 8000\<rparr>"

lemma start_rx_ok: "rx_ok start_rx"
  by (simp add: rx_ok_def start_rx_def)

theorem frame_stops_program_witness: "hdlc_accept test_lib [0xFF, 0x03, 0x06, 0] 3 True start_rx = None"
  using frame_stops_program[OF start_rx_ok, of test_lib "[0xFF, 0x03, 0x06, 0]" 3 True] by (simp add: test_lib_def)

subsection \<open>Pages with error correction\<close>

definition fcd_frame :: "spandsp \<Rightarrow> u8 \<times> u8 list \<Rightarrow> hdlc_frame" where
  "fcd_frame L = (\<lambda>(no, d). (0xFF # 0x13 # T4_FCD L # no # d, int (length d) + 4, True))"

text \<open>The last data received under each number.\<close>

definition page_of :: "(u8 \<times> u8 list) list \<Rightarrow> nat \<Rightarrow> u8 list" where
  "page_of fs = foldl (\<lambda>pg (no, d). pg(unat no := d)) (\<lambda>_. []) fs"

definition ecm_holds :: "rx_state \<Rightarrow> (nat \<Rightarrow> u8 list) \<Rightarrow> bool" where
  "ecm_holds s pg \<longleftrightarrow> (\<forall>i < 256. if ecm_len s ! i \<le> 0 then pg i = []
     else ecm_len s ! i = int (length (pg i)) \<and> take (length (pg i)) (ecm_data s ! i) = pg i)"

lemma unat_u8_lt: "unat (b :: u8) < 256"
  by (rule less_le_trans[OF unsigned_less]) simp

lemma store_ecm_holds:
  assumes "rx_ok s" "ecm_holds s pg" "length d \<le> 256"
  shows "\<exists>s'. store_ecm (0xFF # 0x13 # ty # no # d) (int (length d) + 4) s = Some s' \<and> rx_ok s' \<and> ecm_holds s' (pg(unat no := d)) \<and>
    rx_log s' = rx_log s \<and> t4_up s' = t4_up s \<and> error_correcting_mode s' = error_correcting_mode s"
proof -
  let ?msg = "0xFF # 0x13 # ty # no # d"
  let ?s = "s\<lparr>ecm_data := (ecm_data s)[unat no := d @ drop (length d) (ecm_data s ! unat no)], ecm_len := (ecm_len s)[unat no := int (length d)]\<rparr>"
  have m: "?msg ! 3 = no" "drop 4 ?msg = d" by simp_all
  obtain s' where st: "store_ecm ?msg (int (length d) + 4) s = Some s'" "rx_ok s'"
    and s': "s' = s\<lparr>ecm_data := (ecm_data s)[unat (?msg ! 3) := take (nat (int (length d) + 4 - 4)) (drop 4 ?msg) @
          drop (nat (int (length d) + 4 - 4)) (ecm_data s ! unat (?msg ! 3))],
        ecm_len := (ecm_len s)[unat (?msg ! 3) := int (length d) + 4 - 4]\<rparr>"
    using store_ecm_ok[OF assms(1), of "int (length d) + 4" ?msg] assms(3) by auto
  have eq: "s' = ?s" using s' unfolding m by simp
  have l: "length (ecm_len s) = 256" "length (ecm_data s) = 256" using assms(1) by (simp_all add: rx_ok_def)
  have "ecm_holds ?s (pg(unat no := d))"
    unfolding ecm_holds_def
  proof (intro allI impI)
    fix i :: nat assume i: "i < 256"
    show "if ecm_len ?s ! i \<le> 0 then (pg(unat no := d)) i = []
      else ecm_len ?s ! i = int (length ((pg(unat no := d)) i)) \<and> take (length ((pg(unat no := d)) i)) (ecm_data ?s ! i) = (pg(unat no := d)) i"
    proof (cases "i = unat no")
      case True
      then show ?thesis using l i by simp
    next
      case False
      then show ?thesis using assms(2) i l by (simp add: ecm_holds_def)
    qed
  qed
  then show ?thesis using st eq by auto
qed

lemma accept_fcd:
  assumes "rx_ok s" "ecm_holds s pg" "length d \<le> 256" "T4_FCD L AND 0xFE = T4_FCD L"
  shows "\<exists>s'. hdlc_accept L (0xFF # 0x13 # T4_FCD L # no # d) (int (length d) + 4) True s = Some s' \<and> rx_ok s' \<and>
    ecm_holds s' (pg(unat no := d)) \<and> rx_log s' = rx_log s \<and> t4_up s' = t4_up s \<and> error_correcting_mode s' = error_correcting_mode s"
proof -
  let ?msg = "0xFF # 0x13 # T4_FCD L # no # d"
  have rd: "rd ?msg 0 = Some 0xFF" "rd ?msg 1 = Some 0x13" "rd ?msg 2 = Some (T4_FCD L)" by (simp_all add: rd_def)
  obtain pr where pr: "print_frame L ?msg (int (length d) + 4) = Some pr"
    using print_frame_Some[of "int (length d) + 4" ?msg L] by auto
  have "hdlc_accept L ?msg (int (length d) + 4) True s = store_ecm ?msg (int (length d) + 4) s"
    unfolding hdlc_accept_def rd bind.bind_lunit pr Let_def by (simp add: assms(4))
  then show ?thesis using store_ecm_holds[OF assms(1-3), of "T4_FCD L" no] by simp
qed

lemma accept_fcds:
  assumes "rx_ok s" "ecm_holds s pg" "\<forall>(no, d) \<in> set fs. length d \<le> 256" "T4_FCD L AND 0xFE = T4_FCD L"
  shows "\<exists>s'. accept_frames L (map (fcd_frame L) fs) s = Some s' \<and> rx_ok s' \<and>
    ecm_holds s' (foldl (\<lambda>pg (no, d). pg(unat no := d)) pg fs) \<and> rx_log s' = rx_log s \<and> t4_up s' = t4_up s \<and>
    error_correcting_mode s' = error_correcting_mode s"
  using assms(1-3)
proof (induction fs arbitrary: s pg)
  case Nil
  then show ?case by simp
next
  case (Cons f fs)
  obtain no d where f: "f = (no, d)" by (cases f)
  have "length d \<le> 256" using Cons.prems(3) f by simp
  from accept_fcd[OF Cons.prems(1,2) this assms(4)] obtain s1 where s1:
    "hdlc_accept L (0xFF # 0x13 # T4_FCD L # no # d) (int (length d) + 4) True s = Some s1" "rx_ok s1" "ecm_holds s1 (pg(unat no := d))"
    "rx_log s1 = rx_log s" "t4_up s1 = t4_up s" "error_correcting_mode s1 = error_correcting_mode s" by blast
  have "\<forall>(no, d) \<in> set fs. length d \<le> 256" using Cons.prems(3) by simp
  from Cons.IH[OF s1(2,3) this] show ?case using s1 by (simp add: f fcd_frame_def)
qed

lemma put_chunks_log:
  assumes "rx_ok s" "ecm_holds s pg" "i + k \<le> 256"
  shows "\<exists>s'. put_chunks i k s = Some s' \<and> s' = s\<lparr>rx_log := rx_log s @ map T4_put_chunk (filter (\<lambda>b. b \<noteq> []) (map pg [i..<i + k]))\<rparr>"
  using assms
proof (induction k arbitrary: i s)
  case 0
  then show ?case by simp
next
  case (Suc k)
  have i: "i < 256" using Suc.prems(3) by simp
  have l: "length (ecm_len s) = 256" "length (ecm_data s) = 256" "length (ecm_data s ! i) = 260" "ecm_len s ! i \<le> 256"
    using Suc.prems(1) i by (simp_all add: rx_ok_def)
  have up: "[i..<i + Suc k] = i # [Suc i..<Suc i + k]" using upt_conv_Cons[of i "i + Suc k"] by simp
  show ?case
  proof (cases "ecm_len s ! i \<le> 0")
    case True
    then have "pg i = []" using Suc.prems(2) i by (simp add: ecm_holds_def)
    then show ?thesis using Suc.IH[OF Suc.prems(1,2), of "Suc i"] Suc.prems(3) True i l up by (simp add: rd_Some)
  next
    case False
    then have h: "ecm_len s ! i = int (length (pg i))" "take (length (pg i)) (ecm_data s ! i) = pg i"
      using Suc.prems(2) i by (auto simp: ecm_holds_def)
    have ne: "pg i \<noteq> []" using False h(1) by auto
    let ?s = "rx_event (T4_put_chunk (pg i)) s"
    have "length (pg i) \<le> 256" using h(1) l(4) by simp
    then have "rd_n (ecm_data s ! i) 0 (length (pg i)) = Some (pg i)" using l(3) h(2) by (simp add: rd_n_def)
    then have step: "put_chunks i (Suc k) s = put_chunks (Suc i) k ?s" using False h(1) i l by (simp add: rd_Some)
    have "rx_ok ?s" "ecm_holds ?s pg" using Suc.prems(1,2) by (simp_all add: rx_ok_def ecm_holds_def)
    from Suc.IH[OF this, of "Suc i"] Suc.prems(3) show ?thesis unfolding step up using ne by (simp add: rx_event_def)
  qed
qed

text \<open>
  C16. A page with error correction is put together from its frames. After the start of a page, frames of page data with numbers
  in any order and repeated at will are all stored, and the end of the page gives the page receiver, in the order of
  the numbers, the last data received under each number, and nothing for a number that was not received or had
  no data; so what is decoded does not depend on the order of frames with different numbers.
\<close>

theorem ecm_page_in_order:
  assumes "rx_ok s" and "error_correcting_mode s" and "\<forall>(no, d) \<in> set fs. length d \<le> 256" and "T4_FCD L AND 0xFE = T4_FCD L"
  shows "\<exists>s1 s2. accept_frames L (map (fcd_frame L) fs) (t4_begin s) = Some s1 \<and> t4_end s1 = Some s2 \<and> \<not> t4_up s2 \<and>
    rx_log s2 = rx_log s @ [T4_start_page (line_encoding s) (x_resolution s) (y_resolution s) (image_width s)] @
      map T4_put_chunk (filter (\<lambda>b. b \<noteq> []) (map (page_of fs) [0..<256])) @ [T4_end_page]"
proof -
  have b: "rx_ok (t4_begin s)" "ecm_holds (t4_begin s) (\<lambda>_. [])" using assms(1) by (simp_all add: t4_begin_def rx_ok_def ecm_holds_def)
  obtain s1 where s1: "accept_frames L (map (fcd_frame L) fs) (t4_begin s) = Some s1" "rx_ok s1" "ecm_holds s1 (page_of fs)"
    "rx_log s1 = rx_log (t4_begin s)" "t4_up s1 = t4_up (t4_begin s)" "error_correcting_mode s1 = error_correcting_mode (t4_begin s)"
    using accept_fcds[OF b assms(3,4)] unfolding page_of_def by blast
  have up: "t4_up s1" "error_correcting_mode s1" using s1(5,6) assms(2) by (simp_all add: t4_begin_def)
  have "put_chunks 0 256 s1 = Some (s1\<lparr>rx_log := rx_log s1 @ map T4_put_chunk (filter (\<lambda>b. b \<noteq> []) (map (page_of fs) [0..<256]))\<rparr>)"
    using put_chunks_log[OF s1(2,3), of 0 256] by simp
  then have "t4_end s1 = Some ((rx_event T4_end_page (s1\<lparr>rx_log := rx_log s1 @ map T4_put_chunk (filter (\<lambda>b. b \<noteq> []) (map (page_of fs) [0..<256]))\<rparr>))
      \<lparr>t4_up := False\<rparr>)" using up by (simp add: t4_end_def)
  then show ?thesis using s1(1,4) by (simp add: rx_event_def t4_begin_def)
qed

theorem ecm_page_in_order_witness:
  "\<exists>s1 s2. accept_frames test_lib (map (fcd_frame test_lib) [(1, [7]), (0, [5, 6]), (1, [8])]) (t4_begin (start_rx\<lparr>error_correcting_mode := True\<rparr>)) = Some s1 \<and>
     t4_end s1 = Some s2 \<and> T4_put_chunk [8] \<in> set (rx_log s2) \<and> T4_put_chunk [7] \<notin> set (rx_log s2)"
proof -
  let ?s = "start_rx\<lparr>error_correcting_mode := True\<rparr>" and ?fs = "[(1, [7]), (0, [5, 6]), (1, [8])] :: (u8 \<times> u8 list) list"
  have a: "rx_ok ?s" "error_correcting_mode ?s" "\<forall>(no, d) \<in> set ?fs. length d \<le> 256" "T4_FCD test_lib AND 0xFE = T4_FCD test_lib"
    using start_rx_ok by (simp_all add: rx_ok_def test_lib_def)
  have pg: "page_of ?fs 1 = [8]" "[7] \<notin> range (page_of ?fs)" by (auto simp: page_of_def)
  then have "T4_put_chunk [8] \<in> T4_put_chunk ` {b \<in> page_of ?fs ` {0..<256}. b \<noteq> []}" by (intro imageI) (auto intro!: image_eqI[of _ _ 1])
  then show ?thesis using ecm_page_in_order[OF a] pg(2) by (fastforce simp: start_rx_def)
qed

subsection \<open>The order of pages\<close>

text \<open>
  Whether a page is open after what the page receiver was given; there is no value where the data of a frame came, or a page was ended, while
  none was open. Single bits, of faxes without error correction, may come at any time.
\<close>

fun page_log :: "bool \<Rightarrow> t4_event list \<Rightarrow> bool option" where
  "page_log up [] = Some up"
| "page_log up (T4_start_page e x y w # es) = page_log True es"
| "page_log up (T4_put_chunk b # es) = (if up then page_log up es else None)"
| "page_log up (T4_end_page # es) = (if up then page_log False es else None)"
| "page_log up (e # es) = page_log up es"

lemma page_log_append: "page_log up (xs @ ys) = do {u \<leftarrow> page_log up xs; page_log u ys}"
  by (induction up xs rule: page_log.induct) auto

definition page_inv :: "rx_state \<Rightarrow> bool" where
  "page_inv s \<longleftrightarrow> page_log False (rx_log s) = Some (t4_up s)"

lemma page_inv_cong: "rx_log s' = rx_log s \<Longrightarrow> t4_up s' = t4_up s \<Longrightarrow> page_inv s' = page_inv s"
  by (simp add: page_inv_def)

lemma put_chunks_page: "put_chunks i k s = Some s' \<Longrightarrow> t4_up s \<Longrightarrow> page_inv s \<Longrightarrow> page_inv s' \<and> t4_up s'"
proof (induction k arbitrary: i s)
  case 0
  then show ?case by simp
next
  case (Suc k)
  then obtain n s1 where n: "rd (ecm_len s) i = Some n"
    "(if n > 0 then do {row \<leftarrow> rd (ecm_data s) i; bs \<leftarrow> rd_n row 0 (nat n); Some (rx_event (T4_put_chunk bs) s)} else Some s) = Some s1"
    "put_chunks (Suc i) k s1 = Some s'" by (auto split: Option.bind_splits)
  have "t4_up s1 \<and> page_inv s1"
    using n(2) Suc.prems(2,3) by (auto simp: page_inv_def page_log_append split: if_splits Option.bind_splits)
  then show ?case using Suc.IH[OF n(3)] by blast
qed

lemma t4_end_page: "t4_end s = Some s' \<Longrightarrow> page_inv s \<Longrightarrow> page_inv s'"
proof -
  assume e: "t4_end s = Some s'" and i: "page_inv s"
  show "page_inv s'"
  proof (cases "t4_up s")
    case False
    then show ?thesis using e i by (simp add: t4_end_def)
  next
    case True
    then obtain s1 where s1: "(if error_correcting_mode s then put_chunks 0 256 s else Some s) = Some s1"
      "s' = (rx_event T4_end_page s1)\<lparr>t4_up := False\<rparr>"
      using e by (auto simp: t4_end_def split: Option.bind_splits)
    have "page_inv s1 \<and> t4_up s1" using put_chunks_page[of 0 256 s s1] s1(1) i True by (auto split: if_splits)
    then show ?thesis using s1(2) by (simp add: page_inv_def page_log_append rx_event_def)
  qed
qed

lemma store_ecm_log: "store_ecm msg len s = Some s' \<Longrightarrow> rx_log s' = rx_log s \<and> t4_up s' = t4_up s"
  by (auto simp: store_ecm_def Let_def split: if_splits Option.bind_splits)

lemma check_rx_dcs_log: "check_rx_dcs L msg len s = Some (r, s') \<Longrightarrow> rx_log s' = rx_log s \<and> t4_up s' = t4_up s"
  by (cases "len < 6") (auto simp: check_rx_dcs_def Let_def bind_eq_Some_conv)

lemma hdlc_accept_log: "hdlc_accept L msg len valid s = Some s' \<Longrightarrow> rx_log s' = rx_log s \<and> t4_up s' = t4_up s"
  unfolding hdlc_accept_def Let_def
  by (auto dest: store_ecm_log check_rx_dcs_log split: if_splits Option.bind_splits)

lemma accept_frames_log: "accept_frames L fs s = Some s' \<Longrightarrow> rx_log s' = rx_log s \<and> t4_up s' = t4_up s"
  by (induction fs arbitrary: s) (auto dest!: hdlc_accept_log split: Option.bind_splits)

lemma hdlc_rx_put_bit_page: "hdlc_rx_put_bit L b fs s = Some s' \<Longrightarrow> page_inv s \<Longrightarrow> page_inv s'"
  by (auto simp: hdlc_rx_put_bit_def page_inv_def page_log_append dest!: accept_frames_log)

lemma fast_put_bit_page: "fast_put_bit m L b fs eop s = Some s' \<Longrightarrow> page_inv s \<Longrightarrow> page_inv s'"
proof -
  assume b: "fast_put_bit m L b fs eop s = Some s'" and i: "page_inv s"
  have bg: "page_inv (t4_begin (s\<lparr>fast_trained := m\<rparr>))" using i by (simp add: page_inv_def t4_begin_def page_log_append rx_event_def)
  have pb: "page_inv (rx_event (T4_put_bit b) s)" using i by (simp add: page_inv_def page_log_append)
  have nn: "page_inv (if fast_trained s1 = m then s1\<lparr>fast_trained := FAX_NONE\<rparr> else s1) = page_inv s1" for s1
    by (simp add: page_inv_def)
  consider (train) "b < 0" "b = SIG_TRAINING_SUCCEEDED L" | (down) "b < 0" "b \<noteq> SIG_TRAINING_SUCCEEDED L" "b = SIG_CARRIER_DOWN L"
    | (other) "b < 0" "b \<noteq> SIG_TRAINING_SUCCEEDED L" "b \<noteq> SIG_CARRIER_DOWN L"
    | (ecm) "\<not> b < 0" "error_correcting_mode s" | (line) "\<not> b < 0" "\<not> error_correcting_mode s" by blast
  then show "page_inv s'"
  proof cases
    case train
    then show ?thesis using b bg by (simp add: fast_put_bit_def)
  next
    case down
    then obtain s1 where "t4_end s = Some s1" "s' = (if fast_trained s1 = m then s1\<lparr>fast_trained := FAX_NONE\<rparr> else s1)"
      using b by (simp only: fast_put_bit_def if_True if_False) (auto split: Option.bind_splits)
    then show ?thesis using t4_end_page[of s s1] i by (simp only: nn)
  next
    case other
    then show ?thesis using b i by (simp add: fast_put_bit_def)
  next
    case ecm
    then show ?thesis using b i hdlc_rx_put_bit_page by (simp add: fast_put_bit_def)
  next
    case line
    then show ?thesis using b pb t4_end_page by (auto simp: fast_put_bit_def Let_def split: if_splits)
  qed
qed

lemma put_signal_page: "put_signal L x s = Some s' \<Longrightarrow> page_inv s \<Longrightarrow> page_inv s'"
  by (cases x) (auto simp: v17_put_bit_def v29_put_bit_def v27ter_put_bit_def v21_put_bit_def
      dest: fast_put_bit_page hdlc_rx_put_bit_page split: if_splits)

lemma put_signals_page: "put_signals L xs s = Some s' \<Longrightarrow> page_inv s \<Longrightarrow> page_inv s'"
  by (induction xs arbitrary: s) (auto dest: put_signal_page split: Option.bind_splits)

lemma decode_chunks_page: "decode_chunks L cs s = Returned s' \<Longrightarrow> page_inv s \<Longrightarrow> page_inv s'"
  by (induction L cs s rule: decode_chunks.induct) (auto dest: put_signals_page split: if_splits option.splits)


definition one_page :: alaw_env where
  "one_page = \<lparr>sf_opens = True, sf_rate = 8000, sf_channels = 1, t4_starts = True,
     sf_chunks = [(160, [V17 (-4) [] False, V17 1 [] True, V17 (-1) [] False]), (0, [])], sf_close_err = False, tif_there = True\<rparr>"


text \<open>
  The bits of a fax without error correction are not held back: a fast modem that delivers a bit before any page was begun, or after
  the last one was ended, has it put into the page receiver.
\<close>

theorem bits_without_page:
  assumes "\<not> t4_up s" and "\<not> error_correcting_mode s" and "0 \<le> b"
  shows "fast_put_bit m L b fs False s = Some (s\<lparr>rx_log := rx_log s @ [T4_put_bit b]\<rparr>)"
  using assms by (simp add: fast_put_bit_def rx_event_def)

theorem bits_without_page_witness:
  "v29_put_bit test_lib 1 [] False start_rx = Some (start_rx\<lparr>rx_log := [T4_put_bit 1]\<rparr>) \<and> \<not> t4_up start_rx"
  using bits_without_page[of start_rx 1 FAX_V29_RX test_lib "[]"] by (simp add: v29_put_bit_def start_rx_def)

subsection \<open>Which calls are faxes\<close>

definition only_v21 :: "(int \<times> rx_signal list) list \<Rightarrow> bool" where
  "only_v21 cs \<longleftrightarrow> (\<forall>(len, xs) \<in> set cs. \<forall>x \<in> set xs. \<exists>b fs. x = V21 b fs)"

definition file_fine :: "spandsp \<Rightarrow> alaw_env \<Rightarrow> bool" where
  "file_fine L env \<longleftrightarrow> sf_opens env \<and> sf_rate env = SAMPLE_RATE L \<and> sf_channels env = 1 \<and> t4_starts env \<and> \<not> sf_close_err env \<and>
     (\<exists>c \<in> set (sf_chunks env). fst c < SAMPLES_PER_CHUNK)"

lemma put_v21_trained:
  assumes "fast_trained s \<noteq> FAX_NONE" "\<forall>x \<in> set xs. \<exists>b fs. x = V21 b fs"
  shows "put_signals L xs s = Some s"
  using assms(2)
proof (induction xs)
  case Nil
  then show ?case by simp
next
  case (Cons x xs)
  then obtain b fs where "x = V21 b fs" by auto
  then show ?case using Cons assms(1) by (simp add: v21_put_bit_def)
qed

lemma decode_chunks_trained:
  assumes "fast_trained s \<noteq> FAX_NONE" "only_v21 cs" "\<exists>c \<in> set cs. fst c < SAMPLES_PER_CHUNK"
  shows "decode_chunks L cs s = Returned s"
  using assms(2,3)
proof (induction cs)
  case Nil
  then show ?case by simp
next
  case (Cons c cs)
  obtain len xs where c: "c = (len, xs)" by (cases c)
  have "put_signals L xs s = Some s" using put_v21_trained[OF assms(1)] Cons.prems(1) c by (simp add: only_v21_def)
  then show ?case using Cons c by (auto simp: only_v21_def)
qed

text \<open>
  A thread can become deaf to faxes. The samples of a call can end while a fast modem is trained, and the state of the
  thread is not reset between calls. From then on, as long as no fast modem reports, the control channel of every
  later call is ignored: whatever its frames, the call is no fax, unless the page receiver wrote a page.
\<close>

theorem left_trained_deaf:
  assumes "fast_trained s \<noteq> FAX_NONE" and "\<forall>buf. file_fine L (env buf) \<and> only_v21 (sf_chunks (env buf)) \<and> \<not> tif_there (env buf)"
    and "fax_flag s = 0"
  shows "decode_node (\<lambda>buf. decode_mem L True pad raw env buf) p s = Returned (0, s)"
proof -
  have "decode_mem L True pad raw env buf s = Returned (0, s)" for buf
  proof -
    let ?e = "env (alaw_file pad raw buf)"
    have "decode_chunks L (sf_chunks ?e) s = Returned s"
      using decode_chunks_trained[OF assms(1)] assms(2) by (simp add: file_fine_def)
    then show ?thesis using assms(2,3) by (simp add: decode_mem_def decode_alaw_def file_fine_def)
  qed
  moreover have "s\<lparr>fax_flag := 0\<rparr> = s" using assms(3) by simp
  ultimately show ?thesis by (simp add: decode_node_def)
qed

definition cfr_frame :: hdlc_frame where
  "cfr_frame = ([0xFF, 0x13, 0x84, 0, 0], 3, True)"

definition answer_call :: alaw_env where
  "answer_call = \<lparr>sf_opens = True, sf_rate = 8000, sf_channels = 1, t4_starts = True,
     sf_chunks = [(160, [V21 1 [cfr_frame]]), (0, [])], sf_close_err = False, tif_there = False\<rparr>"

lemma answer_call_fine: "file_fine test_lib answer_call \<and> only_v21 (sf_chunks answer_call) \<and> \<not> tif_there answer_call"
  by (simp add: file_fine_def answer_call_def test_lib_def only_v21_def)

text \<open>One call cut short behind the training of a modem makes the thread miss the next one.\<close>

theorem left_trained_deaf_witness:
  "\<exists>s. decode_alaw test_lib (one_page\<lparr>sf_chunks := [(160, [V17 (-4) [] False]), (0, [])], tif_there := False\<rparr>) start_rx = Returned (0, s) \<and>
     (\<forall>raw. decode_node (\<lambda>buf. decode_mem test_lib True [0, 0] raw (\<lambda>_. answer_call) buf) zero_fax_node s = Returned (0, s))"
proof -
  let ?s = "t4_begin (start_rx\<lparr>fast_trained := FAX_V17_RX\<rparr>)"
  have "decode_alaw test_lib (one_page\<lparr>sf_chunks := [(160, [V17 (-4) [] False]), (0, [])], tif_there := False\<rparr>) start_rx = Returned (0, ?s)"
    by (simp add: decode_alaw_def one_page_def test_lib_def v17_put_bit_def fast_put_bit_def) (simp add: t4_begin_def start_rx_def)
  moreover have "decode_node (\<lambda>buf. decode_mem test_lib True [0, 0] raw (\<lambda>_. answer_call) buf) zero_fax_node ?s = Returned (0, ?s)" for raw
    by (rule left_trained_deaf) (use answer_call_fine in \<open>simp_all add: t4_begin_def start_rx_def\<close>)
  ultimately show ?thesis by blast
qed

text \<open>The flag that the thread takes from its parameters is the one the decoder gives.\<close>

lemma callflag_decoded:
  assumes "dec (np_up p) s = Returned (fe_decode env 0 (np_up p) (cdr_callid (np_cdr p)), s1)"
    and "dec (np_down p) s1 = Returned (fe_decode env 1 (np_down p) (cdr_callid (np_cdr p)), s2)"
  shows "\<exists>s'. decode_node dec p s = Returned (fax_callflag env p, s') \<and> fax_flag s' = 0"
  using assms by (simp add: decode_node_def fax_callflag_def)

text \<open>A frame that confirms to receive.\<close>

definition is_cfr :: "spandsp \<Rightarrow> hdlc_frame \<Rightarrow> bool" where
  "is_cfr L = (\<lambda>(msg, len, valid). valid \<and> 0 \<le> len \<and> msg ! 0 = 0xFF \<and> (msg ! 1 = 0x03 \<or> msg ! 1 = 0x13) \<and> msg ! 2 AND 0xFE = T30_CFR L)"

definition lib_ok :: "spandsp \<Rightarrow> bool" where
  "lib_ok L \<longleftrightarrow> 9 \<le> T30_MAX_DIS_DTC_DCS_LEN L \<and> T30_CFR L \<noteq> T4_FCD L \<and> T30_CFR L \<noteq> T30_DCS L"

lemma accept_cfr:
  assumes "frame_ok L f" "is_cfr L f" "lib_ok L" "f = (msg, len, valid)"
  shows "hdlc_accept L msg len valid s = Some (s\<lparr>fax_flag := 1\<rparr>)"
proof -
  have f: "4 \<le> length msg" "len \<le> int (length msg)" "valid" "\<not> len < 0" "msg ! 0 = 0xFF" "msg ! 1 = 0x03 \<or> msg ! 1 = 0x13"
    "msg ! 2 AND 0xFE = T30_CFR L"
    using assms(1,2,4) by (simp_all add: frame_ok_def is_cfr_def)
  have rd: "rd msg 0 = Some (msg ! 0)" "rd msg 1 = Some (msg ! 1)" "rd msg 2 = Some (msg ! 2)" using f(1) by (auto simp: rd_def)
  have "3 \<le> length msg" using f(1) by linarith
  then obtain pr where pr: "print_frame L msg len = Some pr" using print_frame_Some[OF f(2)] by blast
  show ?thesis unfolding hdlc_accept_def rd bind.bind_lunit pr Let_def f(7) using f assms(3) by (simp add: lib_ok_def)
qed

text \<open>What a run of frames leaves behind; the mark of a call stays.\<close>

lemma accept_frames_cfr:
  assumes "lib_ok L" "\<forall>f \<in> set fs. frame_ok L f" "rx_ok s"
  shows "\<exists>s'. accept_frames L fs s = Some s' \<and> rx_ok s' \<and> (fax_flag s = 1 \<or> (\<exists>f \<in> set fs. is_cfr L f) \<longrightarrow> fax_flag s' = 1)"
  using assms(2,3)
proof (induction fs arbitrary: s)
  case Nil
  then show ?case by simp
next
  case (Cons f fs)
  obtain msg len valid where f: "f = (msg, len, valid)" by (rule prod_cases3)
  have fo: "frame_ok L (msg, len, valid)" "9 \<le> T30_MAX_DIS_DTC_DCS_LEN L" using Cons.prems(1) assms(1) f by (simp_all add: lib_ok_def)
  obtain s1 where s1: "hdlc_accept L msg len valid s = Some s1" "rx_ok s1" "fax_flag s1 = fax_flag s \<or> fax_flag s1 = 1"
    using hdlc_accept_ok[OF Cons.prems(2) fo(2,1)] by blast
  have cfr: "fax_flag s1 = 1" if "is_cfr L f"
    using accept_cfr[OF _ that assms(1) f, of s] fo(1) f s1(1) by simp
  have "\<forall>f \<in> set fs. frame_ok L f" using Cons.prems(1) by simp
  from Cons.IH[OF this s1(2)] obtain s' where s': "accept_frames L fs s1 = Some s'" "rx_ok s'"
    "fax_flag s1 = 1 \<or> (\<exists>f \<in> set fs. is_cfr L f) \<longrightarrow> fax_flag s' = 1" by blast
  have "accept_frames L (f # fs) s = Some s'" by (simp add: f s1(1) s'(1))
  moreover have "fax_flag s = 1 \<or> (\<exists>g \<in> set (f # fs). is_cfr L g) \<longrightarrow> fax_flag s' = 1" using s1(3) s'(3) cfr by auto
  ultimately show ?case using s'(2) by auto
qed

lemma hdlc_rx_put_bit_ok:
  assumes "lib_ok L" "\<forall>f \<in> set fs. frame_ok L f" "rx_ok s"
  shows "\<exists>s'. hdlc_rx_put_bit L b fs s = Some s' \<and> rx_ok s' \<and> (fax_flag s = 1 \<or> (\<exists>f \<in> set fs. is_cfr L f) \<longrightarrow> fax_flag s' = 1)"
  using accept_frames_cfr[OF assms(1,2), of "rx_event (Hdlc_put_bit b) s"] assms(3)
  by (simp add: hdlc_rx_put_bit_def rx_ok_cong[of "rx_event (Hdlc_put_bit b) s" s])

lemma put_chunks_ok: "rx_ok s \<Longrightarrow> i + k \<le> 256 \<Longrightarrow> \<exists>s'. put_chunks i k s = Some s' \<and> rx_ok s' \<and> fax_flag s' = fax_flag s"
proof (induction k arbitrary: i s)
  case 0
  then show ?case by simp
next
  case (Suc k)
  have l: "i < length (ecm_len s)" "i < length (ecm_data s)" "length (ecm_data s ! i) = 260" "ecm_len s ! i \<le> 256"
    using Suc.prems by (auto simp: rx_ok_def)
  have "nat (ecm_len s ! i) \<le> 260" using l(4) by linarith
  let ?s = "if ecm_len s ! i > 0 then rx_event (T4_put_chunk (take (nat (ecm_len s ! i)) (ecm_data s ! i))) s else s"
  have "put_chunks i (Suc k) s = put_chunks (Suc i) k ?s" using l \<open>nat (ecm_len s ! i) \<le> 260\<close> by (simp add: rd_Some rd_n_def)
  moreover have "rx_ok ?s" "fax_flag ?s = fax_flag s" using Suc.prems(1) by (simp_all add: rx_ok_def)
  ultimately show ?case using Suc.IH[of ?s "Suc i"] Suc.prems(2) by simp
qed

lemma t4_end_ok:
  assumes "rx_ok s"
  shows "\<exists>s'. t4_end s = Some s' \<and> rx_ok s' \<and> fax_flag s' = fax_flag s"
proof (cases "t4_up s")
  case False
  then show ?thesis using assms by (simp add: t4_end_def)
next
  case True
  have "\<exists>s1. (if error_correcting_mode s then put_chunks 0 256 s else Some s) = Some s1 \<and> rx_ok s1 \<and> fax_flag s1 = fax_flag s"
    using put_chunks_ok[OF assms, of 0 256] assms by simp
  then obtain s1 where "(if error_correcting_mode s then put_chunks 0 256 s else Some s) = Some s1" "rx_ok s1" "fax_flag s1 = fax_flag s" by blast
  then show ?thesis using True by (simp add: t4_end_def rx_ok_def)
qed

fun frames_of :: "rx_signal \<Rightarrow> hdlc_frame list" where
  "frames_of (V21 b fs) = fs"
| "frames_of (V17 b fs eop) = fs"
| "frames_of (V29 b fs eop) = fs"
| "frames_of (V27ter b fs eop) = fs"

lemma fast_put_bit_ok:
  assumes "lib_ok L" "\<forall>f \<in> set fs. frame_ok L f" "rx_ok s"
  shows "\<exists>s'. fast_put_bit m L b fs eop s = Some s' \<and> rx_ok s' \<and> (fax_flag s = 1 \<longrightarrow> fax_flag s' = 1)"
proof -
  have b: "rx_ok (t4_begin (s\<lparr>fast_trained := m\<rparr>))" "fax_flag (t4_begin (s\<lparr>fast_trained := m\<rparr>)) = fax_flag s"
    using assms(3) by (simp_all add: t4_begin_def rx_ok_def rx_event_def)
  have n: "rx_ok (if c then s1\<lparr>fast_trained := FAX_NONE\<rparr> else s1) = rx_ok s1"
    "fax_flag (if c then s1\<lparr>fast_trained := FAX_NONE\<rparr> else s1) = fax_flag s1" for c s1 by (simp_all add: rx_ok_def)
  have e: "rx_ok (rx_event (T4_put_bit b) s)" using assms(3) by (simp add: rx_ok_def)
  obtain s1 where s1: "t4_end s = Some s1" "rx_ok s1" "fax_flag s1 = fax_flag s" using t4_end_ok[OF assms(3)] by blast
  obtain s2 where s2: "t4_end (rx_event (T4_put_bit b) s) = Some s2" "rx_ok s2" "fax_flag s2 = fax_flag s" using t4_end_ok[OF e] by auto
  show ?thesis
  proof (cases "b < 0")
    case True
    then show ?thesis using b s1 n assms(3) by (simp add: fast_put_bit_def)
  next
    case False
    then show ?thesis using hdlc_rx_put_bit_ok[OF assms, of b] e s2 by (auto simp: fast_put_bit_def Let_def)
  qed
qed

lemma put_signal_ok:
  assumes "lib_ok L" "\<forall>f \<in> set (frames_of x). frame_ok L f" "rx_ok s"
  shows "\<exists>s'. put_signal L x s = Some s' \<and> rx_ok s' \<and> (fax_flag s = 1 \<longrightarrow> fax_flag s' = 1)"
proof (cases x)
  case (V21 b fs)
  then show ?thesis using hdlc_rx_put_bit_ok[OF assms(1) _ assms(3), of fs b] assms(2,3) by (auto simp: v21_put_bit_def)
qed (use assms(2) in \<open>auto simp: v17_put_bit_def v29_put_bit_def v27ter_put_bit_def intro: fast_put_bit_ok[OF assms(1) _ assms(3)]\<close>)

lemma put_signals_ok:
  "lib_ok L \<Longrightarrow> \<forall>x \<in> set xs. \<forall>f \<in> set (frames_of x). frame_ok L f \<Longrightarrow> rx_ok s \<Longrightarrow>
     \<exists>s'. put_signals L xs s = Some s' \<and> rx_ok s' \<and> (fax_flag s = 1 \<longrightarrow> fax_flag s' = 1)"
proof (induction xs arbitrary: s)
  case Nil
  then show ?case by simp
next
  case (Cons x xs)
  obtain s1 where s1: "put_signal L x s = Some s1" "rx_ok s1" "fax_flag s = 1 \<longrightarrow> fax_flag s1 = 1"
    using put_signal_ok[OF Cons.prems(1) _ Cons.prems(3), of x] Cons.prems(2) by auto
  then show ?case using Cons.IH[OF Cons.prems(1) _ s1(2)] Cons.prems(2) by auto
qed

text \<open>The signals of the whole chunks before the first short one.\<close>

fun heard :: "(int \<times> rx_signal list) list \<Rightarrow> rx_signal list" where
  "heard [] = []"
| "heard ((len, xs) # cs) = (if len < SAMPLES_PER_CHUNK then [] else xs @ heard cs)"

lemma put_signals_append: "put_signals L (xs @ ys) s = do {s' \<leftarrow> put_signals L xs s; put_signals L ys s'}"
  by (induction xs arbitrary: s) (auto split: Option.bind_splits)

lemma decode_chunks_heard:
  assumes "\<exists>c \<in> set cs. fst c < SAMPLES_PER_CHUNK"
  shows "decode_chunks L cs s = (case put_signals L (heard cs) s of None \<Rightarrow> Undefined | Some s' \<Rightarrow> Returned s')"
  using assms
proof (induction cs arbitrary: s)
  case Nil
  then show ?case by simp
next
  case (Cons c cs)
  obtain len xs where c: "c = (len, xs)" by (cases c)
  show ?case
  proof (cases "len < SAMPLES_PER_CHUNK")
    case True
    then show ?thesis by (simp add: c)
  next
    case False
    then have "\<exists>c \<in> set cs. fst c < SAMPLES_PER_CHUNK" using Cons.prems c by auto
    note ih = Cons.IH[OF this]
    show ?thesis using False by (cases "put_signals L xs s") (simp_all add: c put_signals_append ih)
  qed
qed

text \<open>
  C17. A confirmation on the control channel marks the call. When the samples of one direction carry, among any signals of all four
  modems and frames that are handled safely, a correct frame that confirms to receive, and no fast modem counts as trained when it
  arrives, the decoding of the file returns 1.
\<close>

theorem cfr_marks_call:
  assumes "lib_ok L" and "file_fine L env" and "rx_ok s"
    and "\<forall>x \<in> set (heard (sf_chunks env)). \<forall>f \<in> set (frames_of x). frame_ok L f"
    and "heard (sf_chunks env) = xs @ V21 b fs # ys" and "0 \<le> b" and "\<exists>f \<in> set fs. is_cfr L f"
    and "put_signals L xs s = Some s1" and "fast_trained s1 = FAX_NONE"
  shows "\<exists>s'. decode_alaw L env s = Returned (1, s') \<and> rx_ok s'"
proof -
  have f: "\<forall>x \<in> set xs. \<forall>f \<in> set (frames_of x). frame_ok L f" "\<forall>f \<in> set fs. frame_ok L f" "\<forall>x \<in> set ys. \<forall>f \<in> set (frames_of x). frame_ok L f"
    using assms(4) unfolding assms(5) by auto
  have "rx_ok s1" using put_signals_ok[OF assms(1) f(1) assms(3)] assms(8) by auto
  from hdlc_rx_put_bit_ok[OF assms(1) f(2) this, of b] assms(7) obtain s2 where
    s2: "hdlc_rx_put_bit L b fs s1 = Some s2" "rx_ok s2" "fax_flag s2 = 1" by blast
  from put_signals_ok[OF assms(1) f(3) s2(2)] s2(3) obtain s' where s': "put_signals L ys s2 = Some s'" "rx_ok s'" "fax_flag s' = 1" by blast
  have "put_signals L (heard (sf_chunks env)) s = Some s'"
    using assms(6,8,9) s2(1) s'(1) by (simp add: assms(5) put_signals_append v21_put_bit_def)
  then have "decode_chunks L (sf_chunks env) s = Returned s'"
    using decode_chunks_heard[of "sf_chunks env" L s] assms(2) by (simp add: file_fine_def)
  then show ?thesis using assms(2) s' by (simp add: decode_alaw_def file_fine_def)
qed

text \<open>A modem trains and loses its carrier before the confirmation comes.\<close>

definition late_answer :: alaw_env where
  "late_answer = answer_call\<lparr>sf_chunks := [(160, [V17 (-4) [] False, V17 (-1) [] False, V21 1 [cfr_frame]]), (0, [])]\<rparr>"

theorem cfr_marks_call_witness:
  "\<exists>s'. decode_alaw test_lib late_answer start_rx = Returned (1, s') \<and> rx_ok s'"
proof -
  have "lib_ok test_lib" "file_fine test_lib late_answer"
    by (simp_all add: lib_ok_def test_lib_def file_fine_def late_answer_def answer_call_def)
  moreover have h: "heard (sf_chunks late_answer) = [V17 (-4) [] False, V17 (-1) [] False] @ V21 1 [cfr_frame] # []"
    by (simp add: late_answer_def)
  moreover have "\<forall>x \<in> set (heard (sf_chunks late_answer)). \<forall>f \<in> set (frames_of x). frame_ok test_lib f" "\<exists>f \<in> set [cfr_frame]. is_cfr test_lib f"
    by (simp_all add: h cfr_frame_def frame_ok_def is_cfr_def test_lib_def)
  moreover have "\<exists>s1. put_signals test_lib [V17 (-4) [] False, V17 (-1) [] False] start_rx = Some s1 \<and> fast_trained s1 = FAX_NONE"
    by (simp add: v17_put_bit_def fast_put_bit_def test_lib_def t4_begin_def t4_end_def start_rx_def rx_event_def)
  ultimately show ?thesis using cfr_marks_call[OF _ _ start_rx_ok] by (metis zero_le_one)
qed

subsection \<open>The file of the samples\<close>

text \<open>
  The file given to the decoder has a shifted header. It is the header of 60 bytes and the samples, and its last field is
  the number of samples; but the structure has two bytes of padding, so the field at 34 that should be the bits per sample
  is never written, the chunk behind the 18 bytes of the format chunk does not start with its name, and
  the length in the header is 10, not 8, less than that of the file.
\<close>

theorem alaw_header_shifted:
  assumes "length pad = 2"
  shows "length (alaw_file pad raw buf) = 60 + length buf \<and> drop 60 (alaw_file pad raw buf) = buf \<and>
    le_of (take 4 (drop 56 (alaw_file pad raw buf))) = (of_nat (length buf) :: u32) \<and>
    take 2 (drop 34 (alaw_file pad raw buf)) = pad \<and>
    take 4 (drop (20 + 18) (alaw_file pad raw buf)) \<noteq> [0x66, 0x61, 0x63, 0x74] \<and>
    take 4 (drop 40 (alaw_file pad raw buf)) = [0x66, 0x61, 0x63, 0x74] \<and>
    le_of (take 4 (drop 4 (alaw_file pad raw buf))) + 10 = (of_nat (length (alaw_file pad raw buf)) :: u32)"
proof -
  let ?n = "of_nat (length buf) :: u32"
  let ?h = "(init_alaw_head raw)\<lparr>ChunkSize := ?n + 50, DataLen := ?n\<rparr>"
  have l: "length (head_bytes pad ?h) = 60" by (simp add: head_bytes_def assms(1))
  have sl: "take k (drop i (alaw_file pad raw buf)) = take k (drop i (head_bytes pad ?h))" if "i + k \<le> 60" for i k
    using that l by (simp add: alaw_file_def)
  have parts: "take 4 (drop 56 (head_bytes pad ?h)) = to_le 4 ?n" "take 4 (drop 4 (head_bytes pad ?h)) = to_le 4 (?n + 50)"
    "take 2 (drop 34 (head_bytes pad ?h)) = pad"
    "take 4 (drop 38 (head_bytes pad ?h)) = drop 2 (to_le 4 (0x08 :: u32)) @ take 2 (to_le 4 (0x74636166 :: u32))"
    "take 4 (drop 40 (head_bytes pad ?h)) = to_le 4 (0x74636166 :: u32)"
    by (simp_all add: head_bytes_def assms(1) init_alaw_head_def)
  have c: "drop 2 (to_le 4 (0x08 :: u32)) @ take 2 (to_le 4 (0x74636166 :: u32)) \<noteq> [0x66, 0x61, 0x63, 0x74]"
    "to_le 4 (0x74636166 :: u32) = [0x66, 0x61, 0x63, 0x74]" by code_simp+
  have le: "le_of (to_le 4 w) = w" for w :: u32 by (rule le_roundtrip) simp
  have "length (alaw_file pad raw buf) = 60 + length buf" "drop 60 (alaw_file pad raw buf) = buf"
    using l by (simp_all add: alaw_file_def)
  moreover have "(of_nat (60 + length buf) :: u32) = ?n + 50 + 10" by simp
  ultimately show ?thesis using sl[of 56 4] sl[of 34 2] sl[of 38 4] sl[of 40 4] sl[of 4 4] by (simp add: parts c le)
qed

theorem alaw_header_shifted_witness:
  "length (alaw_file [1, 2] \<lparr>ChunkID = 0, ChunkSize = 0, Format = 0, SubChunk1ID = 0, SubChunk1Size = 0, AudioFormat = 0, NumChannels = 0,
     SampleRate = 0, ByteRate = 0, BlockAlign = 0, BitsPerSample = 0, WaveFact = 0, Temp1 = 0, Temp2 = 0, DataTag = 0, DataLen = 0\<rparr>
     [0xD5, 0xD5]) = 62"
  by (subst alaw_header_shifted[THEN conjunct1]) simp_all

end
