(* ===== verification/Vpu_Program.thy ===== *)
theory Vpu_Program
  imports Vpu_Capture Vpu_Managers Cycle_Operation Fax_Decode
begin

text \<open>
  The program as a whole, \<open>src/src/vpu.c\<close>: the initialisation in \<open>main\<close>, the signal flags, and the threads that
  share the recorder's state and the configuration (the capture, the workers, the periodic work, the fax threads, the sender of
  records, the threads of the guard and of the agent, the replay server and its connections), interleaved turn by turn.
\<close>

subsection \<open>State\<close>

abbreviation SVM_STOP :: u8 where "SVM_STOP \<equiv> 1"
abbreviation SVM_KILL :: u8 where "SVM_KILL \<equiv> 2"
abbreviation SVM_DONE :: u8 where "SVM_DONE \<equiv> 4"

text \<open>
  \<open>v_fax_m k\<close> is the server whose turn it is in fax thread \<open>k\<close>, and \<open>v_device\<close> what the capture thread did with the device. The
  parts of the configuration that other parts keep are theirs: the ring of \<open>v_conn\<close> and the tables of directories are those of
  the recorder.
\<close>

record vpu_program =
  v_rec :: recorder
  v_conn :: conn_cdr
  v_conf :: conf_vars
  v_fax_m :: "nat \<Rightarrow> nat"
  v_last_day :: int
  v_device :: "cap_event list"
  v_guard :: conn_state
  v_agent :: conn_state
  v_server :: file_server
  v_flags :: u8

definition flag_set :: "u8 \<Rightarrow> vpu_program \<Rightarrow> bool" where
  "flag_set m v \<longleftrightarrow> v_flags v AND m \<noteq> 0"

definition signal_handler_sigint :: "vpu_program \<Rightarrow> vpu_program" where
  "signal_handler_sigint v = v\<lparr>v_flags := v_flags v OR SVM_STOP\<rparr>"

text \<open>What fresh memory holds: the nodes, and the buffers on the stacks of the sender, the guard and the agent.\<close>

record fresh_mem =
  fm_node :: "addr \<Rightarrow> fax_node"
  fm_rcv :: "u8 list"
  fm_guard :: "u8 list"
  fm_agent :: "u8 list"

text \<open>
  What \<open>main\<close> sets up, with a configuration that was read and a capture device that opens: \<open>ms\<close> are the results of \<open>malloc\<close> for the
  nodes, \<open>ios\<close> the results of the connections to the fax servers and \<open>day\<close> the day of the start.
\<close>

definition vpu_main :: "fresh_mem \<Rightarrow> addr option list \<Rightarrow> (nat \<Rightarrow> conn_io) \<Rightarrow> int \<Rightarrow> conf_vars \<Rightarrow> vpu_program loop_result" where
  "vpu_main raw ms ios day conf =
     (case INIT_QUEUE (fm_node raw) Map.empty 1024 True True ms of
        Returned (Some eq, Some fq, h) \<Rightarrow>
          (case init_connect ios conf of
             None \<Rightarrow> Undefined
           | Some (es, conf') \<Rightarrow>
               Returned \<lparr>v_rec = \<lparr>r_fifos = init_pkt_fifo, r_slots = init_voice_file,
                    r_vp = \<lparr>vp_counters = init_atomic_counter zero_counters, vp_dirs = file_dirs conf', vp_dir_no = 0,
                       vp_heap = h, vp_eq = eq, vp_fq = fq, vp_cdrs = cdr_init, vp_log = []\<rparr>,
                    dir_reload = False, r_file_dirs = rl_file_dirs conf'\<rparr>,
                  v_conn = conn_cdr_start (fm_rcv raw), v_conf = conf', v_fax_m = (\<lambda>k. 0), v_last_day = day,
                  v_device = [Cap_open (get_dev conf')], v_guard = conn_start (fm_guard raw) 0 conf', v_agent = conn_start (fm_agent raw) 0 conf',
                  v_server = start_server, v_flags = 0\<rparr>)
      | Returned _ \<Rightarrow> Undefined
      | Undefined \<Rightarrow> Undefined
      | Running \<Rightarrow> Running)"

subsection \<open>The configuration\<close>

text \<open>The variables of \<open>conf.c\<close> as the threads see them, and the program after one has changed them.\<close>

definition conf_part :: "vpu_program \<Rightarrow> conf_vars" where
  "conf_part v = (v_conf v)\<lparr>file_dirs := vp_dirs (r_vp (v_rec v)), rl_file_dirs := r_file_dirs (v_rec v),
     vpu_dir_reload := (if dir_reload (v_rec v) then 1 else 0)\<rparr>"

definition put_conf :: "conf_vars \<Rightarrow> vpu_program \<Rightarrow> vpu_program" where
  "put_conf s v = v\<lparr>v_conf := s, v_rec := (v_rec v)\<lparr>r_vp := (r_vp (v_rec v))\<lparr>vp_dirs := file_dirs s\<rparr>,
     r_file_dirs := rl_file_dirs s, dir_reload := (vpu_dir_reload s = 1)\<rparr>\<rparr>"

subsection \<open>Turns of the threads\<close>

definition cap_part :: "vpu_program \<Rightarrow> capture" where
  "cap_part v = \<lparr>cp_rec = v_rec v, cp_conf = v_conf v, cp_log = v_device v\<rparr>"

definition put_cap :: "capture \<Rightarrow> vpu_program \<Rightarrow> vpu_program" where
  "put_cap c v = v\<lparr>v_rec := cp_rec c, v_conf := cp_conf c, v_device := cp_log c\<rparr>"

definition cycle_part :: "vpu_program \<Rightarrow> cycle_state" where
  "cycle_part v = \<lparr>cy_last_day = v_last_day v, cy_slots = r_slots (v_rec v), cy_vp = r_vp (v_rec v), cy_log = []\<rparr>"

definition put_cycle :: "bool \<Rightarrow> cycle_state \<Rightarrow> vpu_program \<Rightarrow> vpu_program" where
  "put_cycle fin s v =
     v\<lparr>v_rec := (v_rec v)\<lparr>r_slots := cy_slots s, r_vp := cy_vp s\<rparr>, v_last_day := cy_last_day s,
       v_flags := (if fin then v_flags v OR SVM_DONE else v_flags v)\<rparr>"

definition fax_part :: "nat \<Rightarrow> vpu_program \<Rightarrow> fax_thread" where
  "fax_part k v = \<lparr>ft_m = v_fax_m v k, ft_conf = v_conf v, ft_vp = r_vp (v_rec v), ft_events = []\<rparr>"

definition put_fax :: "nat \<Rightarrow> fax_thread \<Rightarrow> vpu_program \<Rightarrow> vpu_program" where
  "put_fax k t v =
     v\<lparr>v_rec := (v_rec v)\<lparr>r_vp := ft_vp t\<rparr>, v_conf := ft_conf t, v_fax_m := (v_fax_m v)(k := ft_m t)\<rparr>"

definition cdr_part :: "vpu_program \<Rightarrow> conn_cdr" where
  "cdr_part v = (v_conn v)\<lparr>g_cdr_buff := vp_cdrs (r_vp (v_rec v))\<rparr>"

text \<open>The sender takes back the flag of its reload.\<close>

definition put_cdr :: "conn_cdr \<Rightarrow> vpu_program \<Rightarrow> vpu_program" where
  "put_cdr c v = v\<lparr>v_conn := c, v_rec := (v_rec v)\<lparr>r_vp := (r_vp (v_rec v))\<lparr>vp_cdrs := g_cdr_buff c\<rparr>\<rparr>,
     v_conf := (v_conf v)\<lparr>svm_cdr_reload := (if svm_cdr_reload (v_conf v) = 1 then 0 else svm_cdr_reload (v_conf v))\<rparr>\<rparr>"

definition guard_part :: "vpu_program \<Rightarrow> conn_state" where
  "guard_part v = (v_guard v)\<lparr>cs_conf := conf_part v\<rparr>"

definition put_guard :: "conn_state \<Rightarrow> vpu_program \<Rightarrow> vpu_program" where
  "put_guard s v = (put_conf (cs_conf s) v)\<lparr>v_guard := s\<rparr>"

text \<open>The number of the agent's next packet is a variable of the log library.\<close>

definition agent_part :: "u16 \<Rightarrow> vpu_program \<Rightarrow> conn_state" where
  "agent_part num v = (v_agent v)\<lparr>cs_conf := conf_part v, cs_num := num\<rparr>"

definition put_agent :: "conn_state \<Rightarrow> vpu_program \<Rightarrow> vpu_program" where
  "put_agent s v = (put_conf (cs_conf s) v)\<lparr>v_agent := s\<rparr>"

definition server_part :: "vpu_program \<Rightarrow> file_server" where
  "server_part v = (v_server v)\<lparr>vpu_reload := svm_vpu_reload (v_conf v)\<rparr>"

definition put_server :: "file_server \<Rightarrow> vpu_program \<Rightarrow> vpu_program" where
  "put_server s v = v\<lparr>v_server := s, v_conf := (v_conf v)\<lparr>svm_vpu_reload := vpu_reload s\<rparr>\<rparr>"

definition replay_turn :: "net_env \<Rightarrow> vpu_program \<Rightarrow> file_server" where
  "replay_turn env v = server_turn env (Some (server_ip (v_conf v))) (ucast (server_port (v_conf v))) (server_part v)"

definition put_slots :: "slots \<Rightarrow> vpu_program \<Rightarrow> vpu_program" where
  "put_slots vf v = v\<lparr>v_rec := (v_rec v)\<lparr>r_slots := vf\<rparr>\<rparr>"

text \<open>The threads of the guard and of the agent end at once without a port or a serial number.\<close>

definition guard_runs :: "vpu_program \<Rightarrow> bool" where
  "guard_runs v \<longleftrightarrow> port_sguard (vpu_conf (v_conf v)) \<noteq> 0 \<and> sn (vpu_conf (v_conf v)) \<noteq> 0"

definition agent_runs :: "vpu_program \<Rightarrow> bool" where
  "agent_runs v \<longleftrightarrow> port_ma (vpu_conf (v_conf v)) \<noteq> 0 \<and> sn (vpu_conf (v_conf v)) \<noteq> 0"

text \<open>What the system may deliver to a turn of each thread.\<close>

definition cap_input_ok :: "cap_env \<Rightarrow> vpu_program \<Rightarrow> bool" where
  "cap_input_ok env v \<longleftrightarrow> ca_done env = flag_set SVM_DONE v \<and> cap_frame_ok env"

definition cycle_input_ok :: "cycle_env \<Rightarrow> vpu_program \<Rightarrow> bool" where
  "cycle_input_ok env v \<longleftrightarrow> cy_stop env = (flag_set SVM_STOP v \<or> flag_set SVM_KILL v) \<and>
     cy_storage_time env = storage_time (v_conf v) \<and> cy_disk_left env = disk_left (v_conf v) \<and> (\<forall>t. cy_localtime env t \<noteq> None)"

definition fax_input_ok :: "fax_env \<Rightarrow> vpu_program \<Rightarrow> bool" where
  "fax_input_ok env v \<longleftrightarrow> fe_done env = flag_set SVM_DONE v \<and> FAX_NUM_MAX \<le> length (fe_ios env) \<and> (\<forall>io \<in> set (fe_ios env). quiet io)"

definition cdr_input_ok :: "cdr_env \<Rightarrow> vpu_program \<Rightarrow> bool" where
  "cdr_input_ok e v \<longleftrightarrow> e_done e = flag_set SVM_DONE v \<and> (e_reload e \<longleftrightarrow> svm_cdr_reload (v_conf v) = 1) \<and> recv_ok (cdr_part v) e"

text \<open>
  The files a command of the agent reloads leave the program at least the fax servers and one directory: when a reload of the servers
  is pending, there are at least as many new ones as are in use, and no more than the table holds; when a reload of
  the directories is pending, the new table is not empty.
\<close>

definition reload_fits :: "conf_vars \<Rightarrow> bool" where
  "reload_fits s \<longleftrightarrow> unat (r_fax_num s) \<le> FAX_NUM_MAX \<and> (svm_fax_reload s = 1 \<longrightarrow> fax_num s \<le> r_fax_num s) \<and>
     (vpu_dir_reload s = 1 \<longrightarrow> 0 < fd_num (rl_file_dirs s))"

inductive vpu_step :: "pkt_layout \<Rightarrow> vpu_program \<Rightarrow> vpu_program \<Rightarrow> bool" for L where
  sigint: "vpu_step L v (signal_handler_sigint v)"
| capture: "cap_input_ok kenv v \<Longrightarrow> \<not> flag_set SVM_DONE v \<Longrightarrow> io_turn kenv (cap_part v) = Some (Cont x k) \<Longrightarrow> vpu_step L v (put_cap k v)"
| work: "w < WORKER_NUM \<Longrightarrow> \<not> flag_set SVM_DONE v \<Longrightarrow> worker_turn env w (v_rec v) = Some r \<Longrightarrow> vpu_step L v (v\<lparr>v_rec := r\<rparr>)"
| cycle: "cycle_input_ok cenv v \<Longrightarrow> \<not> flag_set SVM_DONE v \<Longrightarrow> cycle_turn cenv (cycle_part v) = Some (fin, s) \<Longrightarrow>
    vpu_step L v (put_cycle fin s v)"
| fax: "fax_input_ok fenv v \<Longrightarrow> fax_pre_turn (int k) fenv (fax_part k v) = Returned (x, t) \<Longrightarrow> vpu_step L v (put_fax k t v)"
| cdr: "cdr_input_ok e v \<Longrightarrow> conn_cdr_iter e (cdr_part v) = Returned (Some (out, c)) \<Longrightarrow> vpu_step L v (put_cdr c v)"
| guard: "guard_runs v \<Longrightarrow> \<not> flag_set SVM_DONE v \<Longrightarrow> sguard_turn L genv (guard_part v) = Some g \<Longrightarrow> vpu_step L v (put_guard g v)"
| agent: "agent_runs v \<Longrightarrow> \<not> flag_set SVM_DONE v \<Longrightarrow> ma_turn n L mx lv genv (agent_part num v) = Returned (Cont 0 (a, es)) \<Longrightarrow>
    reload_fits (cs_conf a) \<Longrightarrow> vpu_step L v (put_agent a v)"
| server: "\<not> flag_set SVM_DONE v \<Longrightarrow> vpu_step L v (put_server (replay_turn nenv v) v)"
| replay: "Net_serve fd \<in> set (srv_log (v_server v)) \<Longrightarrow>
    file_tx_thread n senv (vp_dirs (r_vp (v_rec v))) fd buf len (r_slots (v_rec v)) [] = Returned (vf, log) \<Longrightarrow> vpu_step L v (put_slots vf v)"

lemmas put_defs = put_cap_def put_cycle_def put_fax_def put_cdr_def put_conf_def put_guard_def put_agent_def put_server_def put_slots_def

inductive_cases vpu_stepE: "vpu_step L v v'"

subsection \<open>The invariant\<close>

text \<open>
  The tables of fax servers have the right sizes, every fax thread is at a server in use, and a pending reload leaves enough servers.
  The recorder and the sender are consistent, the threads with a connection keep to their sessions, one capture device is
  open, and the replay server has at most one listening socket.
\<close>

definition servers_ok :: "conf_vars \<Rightarrow> (nat \<Rightarrow> nat) \<Rightarrow> bool" where
  "servers_ok s m \<longleftrightarrow> fax_tables_ok s \<and> (\<forall>k. m k < unat (fax_num s)) \<and> (svm_fax_reload s = 1 \<longrightarrow> fax_num s \<le> r_fax_num s)"

definition links_ok :: "pkt_layout \<Rightarrow> vpu_program \<Rightarrow> bool" where
  "links_ok L v \<longleftrightarrow> (\<exists>d. cap_device (v_device v) = Some (Some d)) \<and> guard_ok L 0 (idle (v_guard v)) (v_guard v) \<and>
     sess_ok L (idle (v_agent v)) (v_agent v) \<and> server_ok (v_server v)"

definition vpu_inv :: "pkt_layout \<Rightarrow> vpu_program \<Rightarrow> bool" where
  "vpu_inv L v \<longleftrightarrow> rec_inv (v_rec v) \<and> conn_inv (cdr_part v) \<and> servers_ok (v_conf v) (v_fax_m v) \<and>
     length (server_ip (v_conf v)) < 16 \<and> links_ok L v"

lemma rec_inv_parts:
  "rec_inv r \<Longrightarrow> table_inv vf g \<Longrightarrow> rec_inv (r\<lparr>r_slots := vf, r_vp := g\<rparr>)"
  by (simp add: rec_inv_def)

lemma rec_inv_vp: "rec_inv r \<Longrightarrow> table_inv (r_slots r) g \<Longrightarrow> rec_inv (r\<lparr>r_vp := g\<rparr>)"
  by (simp add: rec_inv_def)

lemma rec_inv_table: "rec_inv r \<Longrightarrow> table_inv (r_slots r) (r_vp r)"
  by (simp add: rec_inv_def)

lemma table_inv_ring: "table_inv vf g \<Longrightarrow> ring_inv (vp_cdrs g)"
  by (auto simp: table_inv_def vp_inv_def sys_ok_def)

lemma table_inv_cdrs: "table_inv vf g \<Longrightarrow> ring_inv r \<Longrightarrow> table_inv vf (g\<lparr>vp_cdrs := r\<rparr>)"
  by (simp add: table_inv_def vp_inv_def sys_ok_def pool_ok_def pool_lists_def)

lemma conn_inv_ring: "conn_inv c \<Longrightarrow> ring_inv r \<Longrightarrow> conn_inv (c\<lparr>g_cdr_buff := r\<rparr>)"
  by (simp add: conn_inv_def)

lemma vpu_inv_rec:
  assumes "vpu_inv L v" "rec_inv r"
  shows "vpu_inv L (v\<lparr>v_rec := r\<rparr>)"
proof -
  have "ring_inv (vp_cdrs (r_vp r))" using rec_inv_table[OF assms(2)] by (rule table_inv_ring)
  then have "conn_inv ((cdr_part v)\<lparr>g_cdr_buff := vp_cdrs (r_vp r)\<rparr>)" using assms(1) by (intro conn_inv_ring) (simp add: vpu_inv_def)
  then show ?thesis using assms by (simp add: vpu_inv_def cdr_part_def links_ok_def)
qed

text \<open>Changes of the configuration that do not touch the tables of fax servers, and the turn of a fax thread.\<close>

lemma servers_ok_upd [simp]:
  "servers_ok (s\<lparr>vpu_dev_reload := f\<rparr>) m = servers_ok s m" "servers_ok (s\<lparr>svm_cdr_reload := f\<rparr>) m = servers_ok s m"
  "servers_ok (s\<lparr>svm_vpu_reload := f\<rparr>) m = servers_ok s m" "servers_ok (s\<lparr>dms_sguard_reload := f\<rparr>) m = servers_ok s m"
  by (simp_all add: servers_ok_def fax_tables_ok_def)

lemma servers_ok_cong:
  "fax_infos s' = fax_infos s \<Longrightarrow> r_fax_infos s' = r_fax_infos s \<Longrightarrow> fax_num s' = fax_num s \<Longrightarrow> r_fax_num s' = r_fax_num s \<Longrightarrow>
   svm_fax_reload s' = svm_fax_reload s \<Longrightarrow> servers_ok s' m = servers_ok s m"
  by (simp add: servers_ok_def fax_tables_ok_def)

lemma same_tables_servers: "same_tables s s' \<Longrightarrow> servers_ok s m \<Longrightarrow> n < unat (fax_num s') \<Longrightarrow> servers_ok s' (m(k := n)) \<and> server_ip s' = server_ip s"
  by (auto simp: same_tables_def servers_ok_def fax_tables_ok_def)

lemma reload_fax_servers:
  assumes "servers_ok s m" "svm_fax_reload s = 1" "reload_fax s = Some (es, s')"
  shows "servers_ok s' m \<and> svm_fax_reload s' \<noteq> 1 \<and> server_ip s' = server_ip s"
proof -
  have t: "fax_tables_ok s" using assms(1) by (simp add: servers_ok_def)
  have "fax_num s' = r_fax_num s" "svm_fax_reload s' = 0" "fax_tables_ok s'" using reload_fax_eq[OF t] assms(3) by auto
  moreover have "m k < unat (r_fax_num s)" for k
    using assms(1,2) by (metis servers_ok_def order_less_le_trans word_le_nat_alt)
  moreover have "server_ip s' = server_ip s" using assms(3) by (auto simp: reload_fax_def Let_def split: Option.bind_splits)
  ultimately show ?thesis by (simp add: servers_ok_def)
qed

lemma tables_step_servers:
  assumes "tables_step s s'" "servers_ok s m" "n < unat (fax_num s')"
  shows "servers_ok s' (m(k := n)) \<and> server_ip s' = server_ip s"
  using assms(1) unfolding tables_step_def
proof (elim disjE conjE exE)
  assume "same_tables s s'"
  then show ?thesis using same_tables_servers assms(2,3) by blast
next
  fix es s1
  assume "svm_fax_reload s = 1" "reload_fax s = Some (es, s1)" "same_tables s1 s'"
  then show ?thesis using reload_fax_servers[OF assms(2)] same_tables_servers[of s1 s' m n k] assms(3) by auto
qed

lemma can_serve_part:
  assumes "vpu_inv L v" "fax_input_ok fenv v"
  shows "can_serve (ft_conf (fax_part k v)) (ft_m (fax_part k v)) (fe_ios fenv)"
proof -
  have s: "servers_ok (v_conf v) (v_fax_m v)" using assms(1) by (simp add: vpu_inv_def)
  have send: "can_send s' (v_fax_m v k) (fe_ios fenv)" if "servers_ok s' (v_fax_m v)" "svm_fax_reload s' \<noteq> 1" for s'
    using that assms(2) by (auto simp: can_send_def servers_ok_def fax_tables_ok_def fax_input_ok_def)
  have "\<exists>es s1. reload_fax (v_conf v) = Some (es, s1) \<and> can_send s1 (v_fax_m v k) (fe_ios fenv)" if r: "svm_fax_reload (v_conf v) = 1"
  proof -
    have "fax_tables_ok (v_conf v)" using s by (simp add: servers_ok_def)
    then obtain es s1 where "reload_fax (v_conf v) = Some (es, s1)" using reload_fax_eq by blast
    then show ?thesis using reload_fax_servers[OF s r] send by blast
  qed
  then show ?thesis using s send by (auto simp: can_serve_def fax_part_def servers_ok_def)
qed

text \<open>What the threads of the managers leave of the configuration.\<close>

lemma conf_part_ok: "vpu_inv L v \<Longrightarrow> conf_ok (vpu_conf (v_conf v)) (fax_num (v_conf v)) (vp_dirs (r_vp (v_rec v))) (conf_part v)"
  by (simp add: conf_ok_def conf_part_def vpu_inv_def servers_ok_def fax_tables_ok_def rec_inv_def)

lemma rec_inv_conf:
  assumes "rec_inv r" "d = vp_dirs (r_vp r)" "b \<longrightarrow> dirs_ok rl \<and> 0 < fd_num rl"
  shows "rec_inv (r\<lparr>r_vp := (r_vp r)\<lparr>vp_dirs := d\<rparr>, r_file_dirs := rl, dir_reload := b\<rparr>)"
proof -
  have "(r_vp r)\<lparr>vp_dirs := d\<rparr> = r_vp r" using assms(2) by simp
  then show ?thesis using assms(1,3) by (simp add: rec_inv_def)
qed

lemma put_conf_ok:
  assumes v: "vpu_inv L v" and c: "conf_ok (vpu_conf (v_conf v)) (fax_num (v_conf v)) (vp_dirs (r_vp (v_rec v))) s" and r: "reload_fits s"
  shows "vpu_inv L (put_conf s v)"
proof -
  have "servers_ok (v_conf v) (v_fax_m v)" using v by (simp add: vpu_inv_def)
  then have "servers_ok s (v_fax_m v)" using c r by (simp add: servers_ok_def conf_ok_def reload_fits_def fax_tables_ok_def)
  moreover have "rec_inv ((v_rec v)\<lparr>r_vp := (r_vp (v_rec v))\<lparr>vp_dirs := file_dirs s\<rparr>, r_file_dirs := rl_file_dirs s,
      dir_reload := (vpu_dir_reload s = 1)\<rparr>)"
    using v c r by (intro rec_inv_conf) (auto simp: vpu_inv_def conf_ok_def reload_fits_def)
  from vpu_inv_rec[OF v this] have "conn_inv (cdr_part (put_conf s v)) \<and> rec_inv (v_rec (put_conf s v)) \<and> links_ok L (put_conf s v)"
    by (simp add: vpu_inv_def put_conf_def cdr_part_def links_ok_def)
  ultimately show ?thesis using c by (simp add: vpu_inv_def put_conf_def conf_ok_def)
qed

lemma own_conf_fits:
  assumes "vpu_inv L v"
  shows "reload_fits (conf_part v)"
  using assms by (simp add: reload_fits_def conf_part_def vpu_inv_def servers_ok_def fax_tables_ok_def rec_inv_def)

text \<open>A turn of the periodic thread, of a fax thread and of the guard's, on the whole state.\<close>

lemma cycle_on_program:
  assumes "vpu_inv L v" "cycle_input_ok env v"
  shows "\<exists>fin s. cycle_turn env (cycle_part v) = Some (fin, s) \<and> table_inv (cy_slots s) (cy_vp s)"
proof -
  have t: "table_inv (cy_slots (cycle_part v)) (cy_vp (cycle_part v))"
    using assms(1) by (simp add: cycle_part_def vpu_inv_def rec_inv_def)
  have lt: "\<forall>t. cy_localtime env t \<noteq> None" using assms(2) by (simp add: cycle_input_ok_def)
  show ?thesis
    by (rule cycle_turn_cases[OF t lt]) simp
qed

lemma fax_on_program:
  assumes "vpu_inv L v" "fax_input_ok env v"
  shows "\<exists>x t. fax_pre_turn (int k) env (fax_part k v) = Returned (x, t) \<and> table_inv (r_slots (v_rec v)) (ft_vp t) \<and>
    tables_step (v_conf v) (ft_conf t) \<and> ft_m t < unat (fax_num (ft_conf t))"
proof -
  have t: "table_inv (r_slots (v_rec v)) (ft_vp (fax_part k v))" using assms(1) by (simp add: fax_part_def vpu_inv_def rec_inv_def)
  show ?thesis using fax_turn_ok[OF t can_serve_part[OF assms], of "int k"] by (auto simp: fax_part_def)
qed

lemma guard_on_program:
  assumes "vpu_inv L v" "layout_ok L"
  shows "\<exists>g. sguard_turn L env (guard_part v) = Some g \<and> guard_ok L 0 (idle g) g"
proof -
  have "guard_ok L 0 (idle (guard_part v)) (guard_part v)" "length (server_ip (cs_conf (guard_part v))) < 16"
    using assms(1) by (simp_all add: vpu_inv_def links_ok_def guard_part_def guard_ok_def sess_ok_def idle_def conf_part_def)
  then show ?thesis using sguard_turn_ok assms(2) by blast
qed

lemma capture_on_program:
  assumes "vpu_inv L v" "cap_input_ok env v" "\<not> flag_set SVM_DONE v"
  shows "io_turn env (cap_part v) = Some (Exit (-1)) \<and> \<not> ca_opens env \<or>
    (\<exists>k d. io_turn env (cap_part v) = Some (Cont 0 k) \<and> cap_device (cp_log k) = Some (Some d) \<and> rec_inv (cp_rec k) \<and>
       r_slots (cp_rec k) = r_slots (v_rec v) \<and> device_taken (v_conf v) (cp_conf k))"
proof -
  obtain d where "cap_device (cp_log (cap_part v)) = Some (Some d)" using assms(1) by (auto simp: vpu_inv_def links_ok_def cap_part_def)
  moreover have "rec_inv (cp_rec (cap_part v))" "cap_frame_ok env" "\<not> ca_done env"
    using assms by (simp_all add: vpu_inv_def cap_part_def cap_input_ok_def)
  ultimately show ?thesis using io_turn_ok[of "cap_part v" d env] by (auto simp: cap_part_def)
qed

lemma tx_live_slots: "fst (tx_live c callid vf log) = vf \<or> (\<exists>j. fst (tx_live c callid vf log) = vf(j := (vf j)\<lparr>tx_fd := c\<rparr>))"
  by (auto simp: tx_live_def split: option.splits)

lemma file_tx_slots:
  assumes "file_tx_thread n env fd connfd buf len vf log = Returned (vf', log')"
  shows "vf' = vf \<or> (\<exists>j. vf' = vf(j := (vf j)\<lparr>tx_fd := connfd\<rparr>))"
  using assms using tx_live_slots[of connfd _ vf log]
  by (auto simp: file_tx_thread_def tx_request_def with_slots_def split: option.splits if_splits loop_result.splits) (metis fst_conv)+

lemma table_inv_slot: "table_inv vf g \<Longrightarrow> vp_inv (others vf i) (vf i) g"
  unfolding table_inv_def by blast

lemma table_inv_tx:
  assumes "table_inv vf g"
  shows "table_inv (vf(j := (vf j)\<lparr>tx_fd := c\<rparr>)) g"
proof -
  have "others (vf(j := (vf j)\<lparr>tx_fd := c\<rparr>)) i = others vf i" for i by (auto simp: others_def split: if_splits)
  moreover have "vp_inv (others vf i) ((vf(j := (vf j)\<lparr>tx_fd := c\<rparr>)) i) g" for i
    using table_inv_slot[OF assms, of i] by (cases "i = j") (simp_all add: vp_inv_def slot_ok_def)
  ultimately show ?thesis by (simp add: table_inv_def)
qed

lemma vpu_step_inv:
  assumes "vpu_step L v v'" "vpu_inv L v" "layout_ok L"
  shows "vpu_inv L v'"
  using assms(1)
proof cases
  case sigint
  then show ?thesis using assms(2) by (simp add: vpu_inv_def signal_handler_sigint_def cdr_part_def links_ok_def)
next
  case (capture kenv x k)
  then obtain d where k: "cap_device (cp_log k) = Some (Some d)" "rec_inv (cp_rec k)"
      "device_taken (v_conf v) (cp_conf k)"
    using capture_on_program[OF assms(2) capture(2,3)] by auto
  from vpu_inv_rec[OF assms(2) k(2)] show ?thesis using k(1,3) capture(1)
    by (auto simp: vpu_inv_def put_cap_def cdr_part_def links_ok_def device_taken_def)
next
  case (work w env r)
  have "rec_inv r" using worker_turn_ok[of "v_rec v" w env] work assms(2) by (auto simp: vpu_inv_def)
  then show ?thesis using vpu_inv_rec[OF assms(2)] work(1) by simp
next
  case (cycle cenv fin s)
  have "table_inv (cy_slots s) (cy_vp s)" using cycle_on_program[OF assms(2) cycle(2)] cycle(4) by auto
  then have "rec_inv ((v_rec v)\<lparr>r_slots := cy_slots s, r_vp := cy_vp s\<rparr>)" using assms(2) by (intro rec_inv_parts) (simp add: vpu_inv_def)
  from vpu_inv_rec[OF assms(2) this] show ?thesis using cycle(1) by (simp add: vpu_inv_def put_cycle_def cdr_part_def links_ok_def)
next
  case (fax fenv k x t)
  have f: "table_inv (r_slots (v_rec v)) (ft_vp t)" "tables_step (v_conf v) (ft_conf t)" "ft_m t < unat (fax_num (ft_conf t))"
    using fax_on_program[OF assms(2) fax(2), of k] fax(3) by auto
  have "rec_inv ((v_rec v)\<lparr>r_vp := ft_vp t\<rparr>)" using assms(2) f(1) by (intro rec_inv_vp) (simp_all add: vpu_inv_def)
  note i = vpu_inv_rec[OF assms(2) this]
  have "servers_ok (ft_conf t) ((v_fax_m v)(k := ft_m t)) \<and> server_ip (ft_conf t) = server_ip (v_conf v)"
    using assms(2) by (intro tables_step_servers[OF f(2) _ f(3)]) (simp add: vpu_inv_def)
  then show ?thesis using i fax(1) by (simp add: vpu_inv_def put_fax_def cdr_part_def links_ok_def)
next
  case (cdr e out c)
  have "conn_inv (cdr_part v)" "recv_ok (cdr_part v) e" using assms(2) cdr(2) by (simp_all add: vpu_inv_def cdr_input_ok_def)
  from cdr_iter_ok[OF this] cdr(3) have c: "conn_inv c" by blast
  have r: "rec_inv (v_rec v)" using assms(2) by (simp add: vpu_inv_def)
  have "ring_inv (g_cdr_buff c)" using c by (simp add: conn_inv_def)
  then have "rec_inv ((v_rec v)\<lparr>r_vp := (r_vp (v_rec v))\<lparr>vp_cdrs := g_cdr_buff c\<rparr>\<rparr>)"
    using rec_inv_table[OF r] by (intro rec_inv_vp[OF r] table_inv_cdrs)
  then show ?thesis using assms(2) c cdr(1) by (simp add: vpu_inv_def put_cdr_def cdr_part_def links_ok_def)
next
  case (guard genv g)
  have g: "guard_ok L 0 (idle g) g" using guard_on_program[OF assms(2,3), of genv] guard(4) by auto
  have c: "cs_conf g = conf_part v \<or> cs_conf g = (conf_part v)\<lparr>dms_sguard_reload := 0\<rparr>"
    using sguard_turn_conf[OF guard(4)] by (simp add: guard_part_def)
  then have "vpu_inv L (put_conf (cs_conf g) v)"
    using conf_part_ok[OF assms(2)] own_conf_fits[OF assms(2)] by (intro put_conf_ok[OF assms(2)]) (auto simp: conf_ok_upd reload_fits_def)
  then show ?thesis using g guard(1) by (simp add: vpu_inv_def put_guard_def links_ok_def cdr_part_def)
next
  case (agent n mx lv genv num a es)
  have "sess_ok L (idle (agent_part num v)) (agent_part num v)"
    using assms(2) by (simp add: vpu_inv_def links_ok_def agent_part_def sess_ok_def idle_def)
  from ma_session[OF this assms(3) agent(4)] have a: "sess_ok L (idle a) a" by blast
  have "conf_ok (vpu_conf (v_conf v)) (fax_num (v_conf v)) (vp_dirs (r_vp (v_rec v))) (cs_conf a)"
    using conf.ma_turn_keeps[OF agent(4)] conf_part_ok[OF assms(2)] by (simp add: agent_part_def)
  from put_conf_ok[OF assms(2) this agent(5)] show ?thesis
    using a agent(1) by (simp add: vpu_inv_def put_agent_def links_ok_def cdr_part_def)
next
  case (server nenv)
  have "server_ok (server_part v)" using assms(2) by (simp add: vpu_inv_def links_ok_def server_ok_def server_part_def)
  then have "server_ok (replay_turn nenv v)" unfolding replay_turn_def by (rule server_turn_ok)
  then show ?thesis using assms(2) server(1) by (simp add: vpu_inv_def put_server_def cdr_part_def links_ok_def)
next
  case (replay fd n senv buf len vf log)
  have t: "table_inv (r_slots (v_rec v)) (r_vp (v_rec v))" using assms(2) by (simp add: vpu_inv_def rec_inv_def)
  then have "table_inv vf (r_vp (v_rec v))" using file_tx_slots[OF replay(3)] table_inv_tx by auto
  then have "rec_inv ((v_rec v)\<lparr>r_slots := vf\<rparr>)" using assms(2) by (simp add: vpu_inv_def rec_inv_def)
  from vpu_inv_rec[OF assms(2) this] show ?thesis using replay(1) by (simp add: put_slots_def)
qed

lemma vpu_reach_inv: "(vpu_step L)\<^sup>*\<^sup>* v v' \<Longrightarrow> vpu_inv L v \<Longrightarrow> layout_ok L \<Longrightarrow> vpu_inv L v'"
  by (induction rule: rtranclp_induct) (auto intro: vpu_step_inv)

subsection \<open>The start\<close>

definition full_heap :: "fax_heap \<Rightarrow> bool" where
  "full_heap h \<longleftrightarrow> (\<forall>a n. h a = Some n \<longrightarrow> node_full n)"

lemma set_next_full: "set_next h a nx = Some h' \<Longrightarrow> full_heap h \<Longrightarrow> full_heap h'"
  by (auto simp: set_next_def full_heap_def node_full_def split: option.splits if_splits)

lemma init_nodes_full:
  "init_nodes raw num eq h p ms = Returned (q', h') \<Longrightarrow> full_heap h \<Longrightarrow> \<forall>a. node_full (raw a) \<Longrightarrow> full_heap h'"
proof (induction raw num eq h p ms rule: init_nodes.induct)
  case (3 raw num eq h p q ms)
  let ?h1 = "h(q \<mapsto> (raw q)\<lparr>np_next := None\<rparr>)"
  let ?c = "if q_head eq = None then Some (eq\<lparr>q_head := Some q\<rparr>, ?h1) else do {a \<leftarrow> p; h2 \<leftarrow> set_next ?h1 a (Some q); Some (eq, h2)}"
  have h1: "full_heap ?h1" using "3.prems"(2,3) by (simp add: full_heap_def node_full_def)
  obtain eq' h2 where c: "?c = Some (eq', h2)" using "3.prems"(1) by (cases ?c) (auto simp: Let_def)
  have h2: "full_heap h2" using c h1 set_next_full[of ?h1] by (auto split: if_splits Option.bind_splits)
  let ?e = "eq'\<lparr>q_len := q_len eq' + 1\<rparr>"
  show ?case
  proof (cases "q_len ?e < num")
    case True
    then have "init_nodes raw num ?e h2 (Some q) ms = Returned (q', h')" using "3.prems"(1) c by (simp add: Let_def)
    then show ?thesis using "3.IH"[OF refl c refl refl True _ h2 "3.prems"(3)] by blast
  next
    case False
    then have "h' = h2" using "3.prems"(1) c by (simp add: Let_def)
    then show ?thesis using h2 by simp
  qed
qed (auto split: if_splits)

text \<open>The fax servers are connected without a change of their number.\<close>

lemma connect_from_length: "connect_from ios i k tab = Some (es, tab') \<Longrightarrow> length tab' = length tab"
proof (induction k arbitrary: i tab es tab')
  case 0
  then show ?case by simp
next
  case (Suc k)
  obtain f where f: "rd tab i = Some f" using Suc.prems by (cases "rd tab i") simp_all
  obtain es1 f' where g: "(if fi_flag f = 1 \<and> fi_fd f = -1 then connect_server (ios i) f else ([], f)) = (es1, f')" by (rule prod.exhaust)
  obtain es2 where "connect_from ios (Suc i) k (tab[i := f']) = Some (es2, tab')"
    using Suc.prems unfolding connect_from.simps f bind.bind_lunit Let_def g prod.case
    by (cases "connect_from ios (Suc i) k (tab[i := f'])") auto
  from Suc.IH[OF this] show ?case by simp
qed

lemma connect_from_Some: "i + k \<le> length tab \<Longrightarrow> \<exists>es tab'. connect_from ios i k tab = Some (es, tab')"
proof (induction k arbitrary: i tab)
  case 0
  then show ?case by simp
next
  case (Suc k)
  then have i: "rd tab i = Some (tab ! i)" by (simp add: rd_Some)
  obtain es f' where f: "(if fi_flag (tab ! i) = 1 \<and> fi_fd (tab ! i) = -1 then connect_server (ios i) (tab ! i) else ([], tab ! i)) = (es, f')"
    by (rule prod.exhaust)
  have "Suc i + k \<le> length (tab[i := f'])" using Suc.prems by simp
  from Suc.IH[OF this] obtain es' tab' where "connect_from ios (Suc i) k (tab[i := f']) = Some (es', tab')" by blast
  then have "connect_from ios i (Suc k) tab = Some (es @ es', tab')"
    unfolding connect_from.simps i bind.bind_lunit Let_def f prod.case by simp
  then show ?case by blast
qed

lemma init_connect_ok:
  assumes "unat (fax_num s) \<le> length (fax_infos s)"
  shows "\<exists>es s'. init_connect ios s = Some (es, s') \<and> same_tables s s'"
proof -
  have "0 + unat (fax_num s) \<le> length (fax_infos s)" using assms by simp
  from connect_from_Some[OF this] obtain es tab where c: "connect_from ios 0 (unat (fax_num s)) (fax_infos s) = Some (es, tab)" by blast
  have "same_tables s (s\<lparr>fax_infos := tab\<rparr>)" unfolding same_tables_def using connect_from_length[OF c] by blast
  then show ?thesis using c by (simp add: init_connect_def)
qed

lemma zero_counters_init: "init_atomic_counter zero_counters = zero_counters"
  by (simp add: init_atomic_counter_def zero_counters_def atomic64_init_def)

text \<open>
  What the program needs at its start: memory, a buffer of each thread, directories, the tables and at least one of the fax servers and an
  address of the replay server that fits. No reload is pending.
\<close>

definition start_ok :: "fresh_mem \<Rightarrow> addr option list \<Rightarrow> conf_vars \<Rightarrow> bool" where
  "start_ok raw ms conf \<longleftrightarrow> (\<forall>a. node_full (fm_node raw a)) \<and> length (successes 1024 ms) = 1024 \<and> distinct (successes 1024 ms) \<and>
     length (fm_rcv raw) = 4 \<and> length (fm_guard raw) = 2048 \<and> length (fm_agent raw) = 2048 \<and>
     dirs_ok (file_dirs conf) \<and> 0 < fd_num (file_dirs conf) \<and> fax_tables_ok conf \<and> 0 < fax_num conf \<and> svm_fax_reload conf \<noteq> 1 \<and>
     length (server_ip conf) < 16"

lemma conn_start_idle: "length pkt = 2048 \<Longrightarrow> guard_ok L n (idle (conn_start pkt n c)) (conn_start pkt n c)"
  by (auto simp: guard_ok_def sess_ok_def idle_def conn_start_def nums_from_def intro: exI[of _ 0])

lemma vpu_main_inv:
  assumes "start_ok raw ms conf"
  shows "\<exists>v. vpu_main raw ms ios day conf = Returned v \<and> vpu_inv L v \<and>
    queue_holds (vp_heap (r_vp (v_rec v))) (vp_eq (r_vp (v_rec v))) (successes 1024 ms)"
proof -
  note a = assms[unfolded start_ok_def]
  let ?ns = "successes 1024 ms"
  obtain eq h where q: "INIT_QUEUE (fm_node raw) Map.empty 1024 True True ms = Returned (Some eq, Some empty_queue, h)"
    "queue_holds h eq ?ns" "queue_holds h empty_queue []"
    using INIT_QUEUE_fills[of 1024 ms Map.empty "fm_node raw"] a by auto
  have full: "full_heap h"
    using q(1) a init_nodes_full[of "fm_node raw" 1024 empty_queue Map.empty None ms eq h]
    by (auto simp: INIT_QUEUE_def full_heap_def split: loop_result.splits)
  obtain es conf' where c: "init_connect ios conf = Some (es, conf')" "same_tables conf conf'"
    using init_connect_ok[of conf ios] a by (auto simp: fax_tables_ok_def)
  let ?g = "\<lparr>vp_counters = init_atomic_counter zero_counters, vp_dirs = file_dirs conf', vp_dir_no = 0,
                       vp_heap = h, vp_eq = eq, vp_fq = empty_queue, vp_cdrs = cdr_init, vp_log = []\<rparr>"
  let ?r = "\<lparr>r_fifos = init_pkt_fifo, r_slots = init_voice_file, r_vp = ?g, dir_reload = False, r_file_dirs = rl_file_dirs conf'\<rparr>"
  let ?v = "\<lparr>v_rec = ?r, v_conn = conn_cdr_start (fm_rcv raw), v_conf = conf', v_fax_m = (\<lambda>k. 0), v_last_day = day,
     v_device = [Cap_open (get_dev conf')], v_guard = conn_start (fm_guard raw) 0 conf', v_agent = conn_start (fm_agent raw) 0 conf',
     v_server = start_server, v_flags = 0\<rparr>"
  have main: "vpu_main raw ms ios day conf = Returned ?v" by (simp add: vpu_main_def q(1) c(1))
  have d: "file_dirs conf' = file_dirs conf" "server_ip conf' = server_ip conf" using c(2) by (auto simp: same_tables_def)
  have alloc: "\<forall>b \<in> set ?ns. \<exists>n. h b = Some n \<and> node_full n"
    using q(2) full chain_allocated by (fastforce simp: queue_holds_def full_heap_def)
  have "pool_lists {} None ?g ?ns []" using q(2,3) alloc a by (simp add: pool_lists_def)
  then have "pool_ok {} None ?g" unfolding pool_ok_def by blast
  moreover have "sys_ok ?g" using a d by (simp add: sys_ok_def init_ring)
  ultimately have "table_inv init_voice_file ?g"
    using zero_slot_ok by (simp add: table_inv_def others_def init_voice_file_def vp_inv_def) (simp add: zero_voice_file_def)
  then have "rec_inv ?r" using start_rec_inv by (simp add: rec_inv_def start_recorder_def)
  moreover have "conn_inv (cdr_part ?v)"
    using a init_ring(1) by (simp add: cdr_part_def conn_inv_def conn_cdr_start_def)
  moreover have "servers_ok conf' (\<lambda>k. 0)"
    using a c(2) by (auto simp: servers_ok_def same_tables_def word_less_nat_alt fax_tables_ok_def)
  moreover have "links_ok L ?v"
    using a conn_start_idle[of "fm_guard raw" L 0 conf'] conn_start_idle[of "fm_agent raw" L 0 conf']
    by (auto simp: links_ok_def cap_device_def guard_ok_def server_ok_def start_server_def listeners_def)
  ultimately have "vpu_inv L ?v" using a d by (simp add: vpu_inv_def)
  then show ?thesis using main q(2) by (intro exI[of _ ?v]) simp
qed

subsection \<open>The program\<close>

text \<open>
  What a connection of the replay server is given: its buffer, at most 2041 bytes of a request in it, files that can be read and are
  not longer than \<open>n\<close> pieces, and a socket that is no file.
\<close>

definition replay_input_ok :: "nat \<Rightarrow> fs_env \<Rightarrow> int \<Rightarrow> u8 list \<Rightarrow> int \<Rightarrow> bool" where
  "replay_input_ok n env fd buf len \<longleftrightarrow> length buf = 2048 \<and> len \<le> 2041 \<and> readable env n \<and> (\<forall>p. fs_open env p \<noteq> fd)"

text \<open>
  What is next in a state: for every thread, whatever the system delivers to it within its input condition, its turn is defined. The
  signal handler and the replay server's turn are total functions.
\<close>

definition turns_defined :: "pkt_layout \<Rightarrow> vpu_program \<Rightarrow> bool" where
  "turns_defined L v \<longleftrightarrow>
    (\<forall>env. cap_input_ok env v \<longrightarrow> io_turn env (cap_part v) \<noteq> None) \<and>
    (\<forall>env. \<forall>w < WORKER_NUM. worker_turn env w (v_rec v) \<noteq> None) \<and>
    (\<forall>env. cycle_input_ok env v \<longrightarrow> cycle_turn env (cycle_part v) \<noteq> None) \<and>
    (\<forall>env k. fax_input_ok env v \<longrightarrow> (\<exists>x t. fax_pre_turn (int k) env (fax_part k v) = Returned (x, t))) \<and>
    (\<forall>e. cdr_input_ok e v \<longrightarrow> conn_cdr_iter e (cdr_part v) \<noteq> Undefined) \<and>
    (\<forall>env. sguard_turn L env (guard_part v) \<noteq> None) \<and>
    (\<forall>n x lv env num. agent_input_ok n L x env \<longrightarrow> (\<exists>a es. ma_turn n L x lv env (agent_part num v) = Returned (Cont 0 (a, es)))) \<and>
    (\<forall>n env fd buf len. replay_input_ok n env fd buf len \<longrightarrow>
       (\<exists>vf es. file_tx_thread n env (vp_dirs (r_vp (v_rec v))) fd buf len (r_slots (v_rec v)) [] = Returned (vf, es)))"

lemma vpu_inv_turns:
  assumes i: "vpu_inv L v" and L: "layout_ok L"
  shows "turns_defined L v"
proof -
  have r: "rec_inv (v_rec v)" and c: "conn_inv (cdr_part v)" using i by (simp_all add: vpu_inv_def)
  have cap: "io_turn env (cap_part v) \<noteq> None" if "cap_input_ok env v" for env
  proof (cases "flag_set SVM_DONE v")
    case True
    then show ?thesis using that by (simp add: io_turn_def cap_input_ok_def)
  next
    case False
    then show ?thesis using capture_on_program[OF i that] by auto
  qed
  have wk: "worker_turn env w (v_rec v) \<noteq> None" if "w < WORKER_NUM" for env w using worker_turn_ok[OF r that, of env] by auto
  have cy: "cycle_turn env (cycle_part v) \<noteq> None" if "cycle_input_ok env v" for env using cycle_on_program[OF i that] by auto
  have fx: "\<exists>x t. fax_pre_turn (int k) env (fax_part k v) = Returned (x, t)" if "fax_input_ok env v" for env k
    using fax_on_program[OF i that] by blast
  have cd: "conn_cdr_iter e (cdr_part v) \<noteq> Undefined" if "cdr_input_ok e v" for e
    using cdr_iter_ok[OF c] that by (auto simp: cdr_input_ok_def)
  have gd: "sguard_turn L env (guard_part v) \<noteq> None" for env using guard_on_program[OF i L, of env] by auto
  have ag: "\<exists>a es. ma_turn n L x lv env (agent_part num v) = Returned (Cont 0 (a, es))" if "agent_input_ok n L x env" for n x lv env num
    using ma_turn_defined[OF L that, of "agent_part num v" lv] i by (simp add: vpu_inv_def links_ok_def agent_part_def sess_ok_def)
  have d: "dirs_ok (vp_dirs (r_vp (v_rec v)))" using r by (simp add: rec_inv_def table_inv_def vp_inv_def sys_ok_def)
  have rp: "\<exists>vf es. file_tx_thread n env (vp_dirs (r_vp (v_rec v))) fd buf len (r_slots (v_rec v)) [] = Returned (vf, es)"
    if "replay_input_ok n env fd buf len" for n env fd buf len
    using file_tx_outcomes[OF d, of buf len env n fd "r_slots (v_rec v)" "[]"] that by (auto simp: replay_input_ok_def)
  show ?thesis unfolding turns_defined_def using cap wk cy fx cd gd ag rp by blast
qed


definition one_server_conf :: conf_vars where
  "one_server_conf = (fax_test_conf [on_server 7] [])\<lparr>file_dirs := empty_dirs\<lparr>fd_num := 1\<rparr>\<rparr>"

lemma successes_all: "successes k (map Some [i..<i + k]) = [i..<i + k]"
proof (induction k arbitrary: i)
  case 0
  then show ?case by simp
next
  case (Suc k)
  have "[i..<i + Suc k] = i # [Suc i..<Suc i + k]" using upt_conv_Cons[of i "i + Suc k"] by simp
  then show ?case using Suc.IH[of "Suc i"] by simp
qed

definition test_mem :: fresh_mem where
  "test_mem = \<lparr>fm_node = (\<lambda>_. zero_fax_node), fm_rcv = [0, 0, 0, 0], fm_guard = replicate 2048 0, fm_agent = replicate 2048 0\<rparr>"

lemma one_server_start: "start_ok test_mem (map Some [0..<1024]) one_server_conf"
  using successes_all[of 1024 0]
  by (simp add: start_ok_def test_mem_def node_full_def zero_fax_node_def one_server_conf_def fax_test_conf_def start_vars_def dirs_ok_def
      empty_dirs_def fax_tables_ok_def del: upt_rec_numeral)


end
