(* ===== verification/Daemon.thy ===== *)
theory Daemon
  imports VPU_Prelude
begin

text \<open>
  The start as a daemon, \<open>src/src/daemon.c\<close>: the process forks, the child leaves the session and the standard streams and goes on, and
  the parent waits for the child's signal and ends. The results of the system calls are inputs, what is done is a log.
\<close>

datatype daemon_event = Setsid | Dup2 int nat | Close_fd int | Kill_parent | Wait_child

text \<open>What one turn of the parent's loop finds: the flag of the signal, what \<open>waitpid\<close> returns, and whether the status says that the child has ended.\<close>

record daemon_env =
  de_fork :: int
  de_setsid :: int
  de_open :: int
  de_dup2 :: "nat \<Rightarrow> int"
  de_polls :: "(bool \<times> int \<times> bool) list"

datatype daemon_result = Goes_on "daemon_event list" | Ends int "daemon_event list"

text \<open>The first three streams; a failure leaves the descriptor open.\<close>

fun dup_streams :: "daemon_env \<Rightarrow> nat list \<Rightarrow> daemon_event list" where
  "dup_streams env [] = [Close_fd (de_open env)]"
| "dup_streams env (k # ks) = Dup2 (de_open env) k # (if de_dup2 env k < 0 then [] else dup_streams env ks)"

definition SetupLogging :: "daemon_env \<Rightarrow> daemon_event list" where
  "SetupLogging env = (if de_open env < 0 then [] else dup_streams env [0, 1, 2])"

text \<open>The exit code, or none when the child is ready.\<close>

fun WaitForChild :: "(bool \<times> int \<times> bool) list \<Rightarrow> int option loop_result" where
  "WaitForChild [] = Running"
| "WaitForChild ((sigflag, r, ended) # ps) =
     (if sigflag then Returned None
      else if r \<noteq> 0 \<and> ended then Returned (Some 1)
      else WaitForChild ps)"

definition daemonize :: "daemon_env \<Rightarrow> daemon_result loop_result" where
  "daemonize env =
     (if de_fork env < 0 then Returned (Ends 1 [])
      else if de_fork env = 0
      then (if de_setsid env < 0 then Returned (Ends 1 [Setsid])
            else Returned (Goes_on ([Setsid] @ SetupLogging env @ [Kill_parent])))
      else (case WaitForChild (de_polls env) of
          Returned None \<Rightarrow> Returned (Ends 0 [Wait_child])
        | Returned (Some c) \<Rightarrow> Returned (Ends c [Wait_child])
        | Undefined \<Rightarrow> Undefined
        | Running \<Rightarrow> Running))"

subsection \<open>Who goes on\<close>

lemma WaitForChild_ready:
  "WaitForChild ps = Returned None \<longleftrightarrow>
     (\<exists>qs r e rs. ps = qs @ (True, r, e) # rs \<and> (\<forall>(s, r, e) \<in> set qs. \<not> s \<and> (r = 0 \<or> \<not> e)))"
proof (induction ps rule: WaitForChild.induct)
  case 1
  then show ?case by simp
next
  case (2 s r e ps)
  show ?case
  proof (cases "s \<or> r \<noteq> 0 \<and> e")
    case True
    show ?thesis
    proof (cases s)
      case s: True
      have "WaitForChild ((s, r, e) # ps) = Returned None" using s by simp
      moreover have "(s, r, e) # ps = [] @ (True, r, e) # ps \<and> (\<forall>(s, r, e) \<in> set []. \<not> s \<and> (r = 0 \<or> \<not> e))" using s by simp
      ultimately show ?thesis by blast
    next
      case s: False
      have "WaitForChild ((s, r, e) # ps) = Returned (Some 1)" using s True by simp
      moreover have "\<not> ((s, r, e) # ps = qs @ (True, r', e') # rs \<and> (\<forall>(s, r, e) \<in> set qs. \<not> s \<and> (r = 0 \<or> \<not> e)))" for qs r' e' rs
        using s True by (cases qs) auto
      ultimately show ?thesis by auto
    qed
  next
    case False
    then have step: "WaitForChild ((s, r, e) # ps) = WaitForChild ps" by auto
    show ?thesis
    proof
      assume "WaitForChild ((s, r, e) # ps) = Returned None"
      then obtain qs r' e' rs where q: "ps = qs @ (True, r', e') # rs" "\<forall>(s, r, e) \<in> set qs. \<not> s \<and> (r = 0 \<or> \<not> e)"
        using 2 False step by auto
      show "\<exists>qs r' e' rs. (s, r, e) # ps = qs @ (True, r', e') # rs \<and> (\<forall>(s, r, e) \<in> set qs. \<not> s \<and> (r = 0 \<or> \<not> e))"
        using q False by (intro exI[of _ "(s, r, e) # qs"]) auto
    next
      assume "\<exists>qs r' e' rs. (s, r, e) # ps = qs @ (True, r', e') # rs \<and> (\<forall>(s, r, e) \<in> set qs. \<not> s \<and> (r = 0 \<or> \<not> e))"
      then obtain qs r' e' rs where q: "(s, r, e) # ps = qs @ (True, r', e') # rs" "\<forall>(s, r, e) \<in> set qs. \<not> s \<and> (r = 0 \<or> \<not> e)" by blast
      then obtain qs' where "qs = (s, r, e) # qs'" "ps = qs' @ (True, r', e') # rs" using False by (cases qs) auto
      then show "WaitForChild ((s, r, e) # ps) = Returned None" using 2 False q(2) step by auto
    qed
  qed
qed

text \<open>
  Of the two processes only the child goes on, and only in a session of its own; its last act is the signal to the parent. The
  parent ends with 0 exactly when it saw the signal before it found the child ended.
\<close>

theorem only_child_goes_on:
  "(\<exists>es. daemonize env = Returned (Goes_on es)) \<longleftrightarrow> de_fork env = 0 \<and> 0 \<le> de_setsid env"
  "daemonize env = Returned (Goes_on es) \<Longrightarrow> hd es = Setsid \<and> last es = Kill_parent"
  "0 < de_fork env \<Longrightarrow> (\<exists>es. daemonize env = Returned (Ends 0 es)) \<longleftrightarrow>
     (\<exists>qs r e rs. de_polls env = qs @ (True, r, e) # rs \<and> (\<forall>(s, r, e) \<in> set qs. \<not> s \<and> (r = 0 \<or> \<not> e)))"
proof -
  have one: "WaitForChild ps = Returned (Some c) \<Longrightarrow> c = 1" for ps c by (induction ps rule: WaitForChild.induct) (auto split: if_splits)
  show "(\<exists>es. daemonize env = Returned (Goes_on es)) \<longleftrightarrow> de_fork env = 0 \<and> 0 \<le> de_setsid env"
    by (auto simp: daemonize_def split: loop_result.splits option.splits)
  show "daemonize env = Returned (Goes_on es) \<Longrightarrow> hd es = Setsid \<and> last es = Kill_parent"
    by (auto simp: daemonize_def split: if_splits loop_result.splits option.splits)
  assume "0 < de_fork env"
  then have "(\<exists>es. daemonize env = Returned (Ends 0 es)) \<longleftrightarrow> WaitForChild (de_polls env) = Returned None"
    using one[of "de_polls env" 0] by (auto simp: daemonize_def split: loop_result.splits option.splits)
  then show "(\<exists>es. daemonize env = Returned (Ends 0 es)) \<longleftrightarrow>
     (\<exists>qs r e rs. de_polls env = qs @ (True, r, e) # rs \<and> (\<forall>(s, r, e) \<in> set qs. \<not> s \<and> (r = 0 \<or> \<not> e)))"
    by (simp only: WaitForChild_ready)
qed

end
