(* ===== verification/Vpu_Main.thy ===== *)
theory Vpu_Main
  imports Vpu_Program Daemon
begin

text \<open>
  The frame of the program, \<open>main\<close> of \<open>src/src/vpu.c\<close>: it becomes a daemon, reads the command line and the three configuration files
  and sets up the state of \<open>Vpu_Program\<close>; then it starts the threads, gives the fax threads their numbers through one variable, and waits for
  the threads at the end.
\<close>

subsection \<open>From the command line to the threads\<close>

text \<open>The result of \<open>param_parser\<close> is not looked at.\<close>

definition read_conf :: "conf_env \<Rightarrow> (string \<Rightarrow> yaml_event list option) \<Rightarrow> string list \<Rightarrow> conf_vars conf_run option" where
  "read_conf env files argv = do {
     (_, p) \<leftarrow> param_parser argv;
     r1 \<leftarrow> get_vpu_conf env files (start_vars\<lparr>vpu_conf := p\<rparr>);
     r2 \<leftarrow> then_run (\<lambda>(s, made). get_svm_conf env files s) r1;
     then_run (get_dms_conf files) r2}"

definition vpu_start ::
  "daemon_env \<Rightarrow> conf_env \<Rightarrow> (string \<Rightarrow> yaml_event list option) \<Rightarrow> string list \<Rightarrow> fresh_mem \<Rightarrow> addr option list \<Rightarrow> (nat \<Rightarrow> conn_io) \<Rightarrow> int
     \<Rightarrow> vpu_program conf_run loop_result" where
  "vpu_start denv env files argv raw ms ios day =
     (case daemonize denv of
        Returned (Goes_on _) \<Rightarrow>
          (case read_conf env files argv of
             None \<Rightarrow> Undefined
           | Some (Exit c) \<Rightarrow> Returned (Exit c)
           | Some (Cont _ conf) \<Rightarrow>
               (case vpu_main raw ms ios day conf of
                  Returned v \<Rightarrow> Returned (Cont 0 v)
                | Undefined \<Rightarrow> Undefined
                | Running \<Rightarrow> Running))
      | Returned (Ends c _) \<Rightarrow> Returned (Exit c)
      | Undefined \<Rightarrow> Undefined
      | Running \<Rightarrow> Running)"

text \<open>What the files give, whatever they hold.\<close>

definition conf_sane :: "conf_vars \<Rightarrow> bool" where
  "conf_sane s \<longleftrightarrow> dirs_ok (file_dirs s) \<and> 0 < fd_num (file_dirs s) \<and> length (fax_infos s) = FAX_NUM_MAX \<and>
     length (r_fax_infos s) = FAX_NUM_MAX \<and> r_fax_num s = 0 \<and> svm_fax_reload s = 0 \<and> length (server_ip s) < 16"

lemma conf_sane_upd:
  "conf_sane (s\<lparr>conf_root := t\<rparr>) = conf_sane s" "conf_sane (s\<lparr>vpu_conf := p\<rparr>) = conf_sane s" "conf_sane (s\<lparr>cdr_ip := a\<rparr>) = conf_sane s"
  "conf_sane (s\<lparr>cdr_port := b\<rparr>) = conf_sane s" "conf_sane (s\<lparr>server_port := c\<rparr>) = conf_sane s" "conf_sane (s\<lparr>fax_num := d\<rparr>) = conf_sane s"
  by (simp_all add: conf_sane_def)

lemma load_conf_sane: "load_conf files dir name s = Some (r, s') \<Longrightarrow> conf_sane s' = conf_sane s"
  by (auto simp: load_conf_def conf_sane_upd split: Option.bind_splits)

lemma get_vpu_rest:
  assumes "get_vpu_conf env files s = Some (Cont r (s', made))"
  shows "fax_infos s' = fax_infos s \<and> r_fax_infos s' = r_fax_infos s \<and> r_fax_num s' = r_fax_num s \<and> svm_fax_reload s' = svm_fax_reload s \<and>
    server_ip s' = server_ip s \<and> dirs_ok (file_dirs s') \<and> 0 < fd_num (file_dirs s')"
proof -
  from assms obtain c s0 r1 s1 r2 s2 r3 s3 r4 s4 r5 s5 where l: "load_conf files (conf_file (vpu_conf s)) ''vpu.yaml'' s = Some (c, s0)"
    and st: "get_vpu_id s0 = Some (Cont r1 s1)" "dev_parser env s1 = Some (Cont r2 s2)" "get_storage_time s2 = Some (Cont r3 s3)"
      "get_disk_left s3 = Some (Cont r4 s4)" "file_dirs_parser env s4 = Some (Cont r5 (s5, made))" "s' = free_conf s5"
    by (auto simp: get_vpu_conf_def then_run_Some split: Option.bind_splits if_splits conf_run.splits)
  obtain t where "s0 = s\<lparr>conf_root := t\<rparr>" using l by (auto simp: load_conf_def split: Option.bind_splits)
  moreover from get_vpu_id_frame[OF st(1)] dev_parser_frame[OF st(2)] get_storage_time_frame[OF st(3)] get_disk_left_frame[OF st(4)]
    file_dirs_parser_frame[OF st(5)]
  obtain i p v d fd where "s1 = s0\<lparr>vpu_id := i\<rparr>" "s2 = s1\<lparr>vpu_conf := p\<rparr>" "s3 = s2\<lparr>storage_time := v\<rparr>" "s4 = s3\<lparr>disk_left := d\<rparr>"
    "s5 = s4\<lparr>file_dirs := fd, file_dir_no := 0\<rparr>" "dirs_ok fd" "fd_num fd \<noteq> 0" by blast
  ultimately show ?thesis using st(6) by (simp add: free_conf_def word_neq_0_conv)
qed

lemma get_svm_sane:
  assumes "get_svm_conf env files s = Some (Cont r s')" "conf_sane s"
  shows "conf_sane s'"
proof -
  obtain c s0 r1 s1 r2 s2 r3 s3 where l: "load_conf files (svm_conf_file (vpu_conf s)) ''svm.yaml'' s = Some (c, s0)"
    and st: "get_cdr_ip_port s0 = Some (Cont r1 s1)" "get_fax_ip_port s1 = Some (Cont r2 s2)" "get_server_ip_port env s2 = Some (Cont r3 s3)"
      "s' = free_conf s3"
    using assms(1) by (auto simp: get_svm_conf_def then_run_Some split: Option.bind_splits if_splits conf_run.splits)
  have "conf_sane s0" using load_conf_sane[OF l] assms(2) by simp
  then have "conf_sane s1" using st(1) by (auto simp: get_cdr_ip_port_def conf_sane_upd split: Option.bind_splits)
  then have s2: "conf_sane s2"
    using st(2) by (auto simp: get_fax_ip_port_def Let_def conf_sane_def split: Option.bind_splits option.splits dest!: fax_loop_length)
  have "conf_sane s3"
  proof (cases "ConfGetNode (conf_root s2) ''vpu''")
    case None
    then show ?thesis using st(3) by (simp add: get_server_ip_port_def)
  next
    case (Some b)
    show ?thesis
    proof (cases b)
      case None
      then show ?thesis using st(3) Some s2 by (simp add: get_server_ip_port_def)
    next
      case b: (Some b')
      obtain e v where v: "server_loop env s2 False (cn_head b') no_server = Some (Cont e v)"
        using st(3) Some b by (auto simp: get_server_ip_port_def split: Option.bind_splits conf_run.splits)
      have "length (sv_ip v) < 16" using server_loop_ip[OF v] by (simp add: no_server_def)
      then show ?thesis using st(3) Some b v s2 by (auto simp: get_server_ip_port_def conf_sane_def split: if_splits)
    qed
  qed
  then show ?thesis using st(4) by (simp add: free_conf_def conf_sane_upd)
qed

lemma get_dms_sane:
  assumes "get_dms_conf files s = Some (Cont r s')" "conf_sane s"
  shows "conf_sane s'"
proof -
  obtain c s0 r1 s1 r2 s2 where l: "load_conf files (dms_conf_file (vpu_conf s)) ''dms.yaml'' s = Some (c, s0)"
    and st: "get_sguard_port s0 = Some (Cont r1 s1)" "get_ma_port s1 = Some (Cont r2 s2)" "s' = free_conf s2"
    using assms(1) by (auto simp: get_dms_conf_def then_run_Some split: Option.bind_splits if_splits conf_run.splits)
  have "conf_sane s0" using load_conf_sane[OF l] assms(2) by simp
  then have "conf_sane s1" using st(1) by (auto simp: get_sguard_port_def conf_sane_upd split: Option.bind_splits)
  then have "conf_sane s2" using st(2) by (auto simp: get_ma_port_def conf_sane_upd split: Option.bind_splits)
  then show ?thesis using st(3) by (simp add: free_conf_def conf_sane_upd)
qed

lemma read_conf_sane:
  assumes "read_conf env files argv = Some (Cont r s)"
  shows "conf_sane s"
proof -
  obtain c p m s1 made m2 s2 where st: "param_parser argv = Some (c, p)" "get_vpu_conf env files (start_vars\<lparr>vpu_conf := p\<rparr>) = Some (Cont m (s1, made))"
      "get_svm_conf env files s1 = Some (Cont m2 s2)" "get_dms_conf files s2 = Some (Cont r s)"
    using assms by (auto simp: read_conf_def then_run_Some split: Option.bind_splits)
  have "conf_sane s1" using get_vpu_rest[OF st(2)] by (simp add: conf_sane_def start_vars_def)
  then show ?thesis using get_svm_sane[OF st(3)] get_dms_sane[OF st(4)] by blast
qed

text \<open>What must be true of memory and of the file of servers beside.\<close>

definition mem_ok :: "fresh_mem \<Rightarrow> addr option list \<Rightarrow> bool" where
  "mem_ok raw ms \<longleftrightarrow> (\<forall>a. node_full (fm_node raw a)) \<and> length (successes 1024 ms) = 1024 \<and> distinct (successes 1024 ms) \<and>
     length (fm_rcv raw) = 4 \<and> length (fm_guard raw) = 2048 \<and> length (fm_agent raw) = 2048"

lemma sane_start_ok: "conf_sane s \<Longrightarrow> mem_ok raw ms \<Longrightarrow> 0 < fax_num s \<Longrightarrow> unat (fax_num s) \<le> FAX_NUM_MAX \<Longrightarrow> start_ok raw ms s"
  by (simp add: conf_sane_def mem_ok_def start_ok_def fax_tables_ok_def)


definition fax_doc :: "(string \<times> ydoc) list" where
  "fax_doc = [(''fax'', YSeq [YMap [(''id'', YScalar ''1''), (''ip'', YScalar ''10.0.0.2''), (''port'', YScalar ''2000'')]])]"

definition test_files :: "string \<Rightarrow> yaml_event list option" where
  "test_files p = Some (doc_events (if p = ''/usr/local/etc/vpu/vpu.yaml'' then vpu_doc else fax_doc))"

lemma load_doc:
  assumes "files (snprintf 255 (d @ n)) = Some (doc_events kvs)" "yok (YMap kvs)" "conf_root s = None"
  shows "load_conf files d n s = Some (0, s\<lparr>conf_root := Some (fill (YMap kvs) ConfNodeNew)\<rparr>)"
  using assms(1,3) yaml_load_doc[OF assms(2)] by (simp add: load_conf_def doc_events_def)

lemma fax_doc_root: "yok (YMap fax_doc)" "fill (YMap fax_doc) ConfNodeNew = ConfNode '''' None False True
   [ConfNode ''fax'' None False True [ConfNode (seq_name 0) (Some ''id'') True True [leaf ''id'' ''1'', leaf ''ip'' ''10.0.0.2'', leaf ''port'' ''2000'']]]"
  by (simp_all add: fax_doc_def named_def ConfNodeNew_def first_key_def Mangle_def item_node_def leaf_def)

lemma vpu_doc_root: "yok (YMap vpu_doc)" "fill (YMap vpu_doc) ConfNodeNew = ConfNode '''' None False True
   [leaf ''id'' ''7'', leaf ''dev'' ''eth0'', leaf ''storage-time'' ''2000'',
       ConfNode ''filedirs'' None False True [ConfNode (seq_name 0) (Some ''dir'') True True [leaf ''dir'' ''/d'', leaf ''disk'' ''1'']]]"
  by (simp_all add: vpu_doc_def named_def ConfNodeNew_def first_key_def Mangle_def item_node_def leaf_def)

definition vpu_read :: conf_vars where
  "vpu_read = start_vars\<lparr>vpu_conf := default_param\<lparr>dev := ''eth0'', dev_mac := replicate 6 1\<rparr>, vpu_id := 7,
     file_dirs := empty_dirs\<lparr>fd_dirs := (fd_dirs empty_dirs)[0 := \<lparr>dir_name = ''/d'', disk_num = 1, write_flag = 1\<rparr>], fd_num := 1\<rparr>\<rparr>"

lemma read_vpu_doc: "\<exists>made. get_vpu_conf test_conf_env test_files (start_vars\<lparr>vpu_conf := default_param\<rparr>) = Some (Cont 0 (vpu_read, made))"
proof -
  have "start_vars\<lparr>vpu_conf := default_param\<rparr> = start_vars" by (simp add: start_vars_def)
  moreover have "load_conf test_files (conf_file (vpu_conf start_vars)) ''vpu.yaml'' start_vars =
      Some (0, start_vars\<lparr>conf_root := Some (fill (YMap vpu_doc) ConfNodeNew)\<rparr>)"
    using vpu_doc_root by (intro load_doc) (simp_all add: test_files_def start_vars_def default_param_def snprintf_def)
  ultimately show ?thesis
    by (simp add: get_vpu_conf_def vpu_doc_root(2) del: fill.simps)
      (simp add: get_vpu_id_def dev_parser_def get_local_mac_def get_storage_time_def get_disk_left_def file_dirs_parser_def then_run_def conf_value_def
        ConfGet_def ConfGetNode_def ConfNodeLookupChild_def leaf_def start_vars_def atoi_samples fill_file_dirs_def empty_dirs_def
        test_conf_env_def init_file_dirs_def make_trees_def rd_n_def snprintf_def take_one_update vpu_read_def free_conf_def ConfDeInit_def
        storage_range_def disk_range_def atomic32_init_def)
qed

definition svm_read :: conf_vars where
  "svm_read = vpu_read\<lparr>cdr_port := 0, fax_infos := (replicate FAX_NUM_MAX zero_fax)[0 := \<lparr>fi_id = 1, fi_ip = ''10.0.0.2'', fi_port = 2000, fi_fd = -1, fi_flag = 1\<rparr>],
     fax_num := 1\<rparr>"

definition all_read :: conf_vars where
  "all_read = svm_read\<lparr>vpu_conf := (vpu_conf vpu_read)\<lparr>port_sguard := 2000, ip_sguard := SERV_IP, port_ma := 2001, ip_ma := SERV_IP\<rparr>\<rparr>"

lemma vpu_read_parts: "conf_root vpu_read = None" "svm_conf_file (vpu_conf vpu_read) = ''/usr/local/etc/''" "dms_conf_file (vpu_conf vpu_read) = ''/usr/local/etc/''"
  "cdr_ip vpu_read = ''''"
  by (simp_all add: vpu_read_def start_vars_def default_param_def)

lemma read_fax_doc: "get_svm_conf test_conf_env test_files vpu_read = Some (Cont 0 svm_read)"
proof -
  have "load_conf test_files (svm_conf_file (vpu_conf vpu_read)) ''svm.yaml'' vpu_read =
      Some (0, vpu_read\<lparr>conf_root := Some (fill (YMap fax_doc) ConfNodeNew)\<rparr>)"
    using fax_doc_root by (intro load_doc) (simp_all add: test_files_def vpu_read_parts snprintf_def)
  then show ?thesis
    by (simp add: get_svm_conf_def fax_doc_root(2) del: fill.simps)
      (simp add: get_cdr_ip_port_def cdr_values_def get_fax_ip_port_def get_server_ip_port_def then_run_def conf_value_def
        ConfGet_def ConfGetNode_def ConfNodeLookupChild_def leaf_def atoi_samples free_conf_def ConfDeInit_def rd_def svm_read_def vpu_read_parts
        zero_fax_def)
qed

lemma read_dms_doc: "get_dms_conf test_files svm_read = Some (Cont 0 all_read)"
proof -
  have "load_conf test_files (dms_conf_file (vpu_conf svm_read)) ''dms.yaml'' svm_read =
      Some (0, svm_read\<lparr>conf_root := Some (fill (YMap fax_doc) ConfNodeNew)\<rparr>)"
    using fax_doc_root by (intro load_doc) (simp_all add: test_files_def vpu_read_parts svm_read_def snprintf_def)
  then show ?thesis
    by (simp add: get_dms_conf_def fax_doc_root(2) del: fill.simps)
      (simp add: get_sguard_port_def get_ma_port_def then_run_def conf_value_def
        ConfGet_def ConfGetNode_def ConfNodeLookupChild_def leaf_def free_conf_def ConfDeInit_def svm_read_def all_read_def vpu_read_parts)
qed

lemma read_test_files: "read_conf test_conf_env test_files [''vpu''] = Some (Cont 0 all_read)"
  using read_vpu_doc read_fax_doc read_dms_doc by (auto simp: read_conf_def param_parser_def then_run_def)

definition test_daemon :: daemon_env where
  "test_daemon = \<lparr>de_fork = 0, de_setsid = 5, de_open = -1, de_dup2 = (\<lambda>k. 0), de_polls = []\<rparr>"


subsection \<open>The threads\<close>

datatype vpu_thread = Sguard_thread | Ma_thread | Cdr_thread | Worker_thread nat | Io_thread | Server_thread | Cycle_thread | Fax_thread nat

text \<open>The threads in the order they are created, and those \<open>main\<close> waits for, in the order it does.\<close>

definition main_creates :: "vpu_thread list" where
  "main_creates = [Sguard_thread, Ma_thread, Cdr_thread] @ map Worker_thread [0..<WORKER_NUM] @ [Io_thread, Server_thread, Cycle_thread] @
     map Fax_thread [0..<4]"

definition main_joins :: "vpu_thread list" where
  "main_joins = [Sguard_thread, Ma_thread, Io_thread, Server_thread, Cycle_thread] @ map Worker_thread [0..<WORKER_NUM] @ map Fax_thread [0..<4]"

text \<open>
  A thread that could not be created is only reported, and its identifier is never set: to wait for it is undefined. To wait for one that
  has not ended is to go on waiting.
\<close>

fun join_threads :: "vpu_thread list \<Rightarrow> vpu_thread list \<Rightarrow> vpu_thread list \<Rightarrow> unit loop_result" where
  "join_threads made fin [] = Returned ()"
| "join_threads made fin (t # ts) =
     (if t \<notin> set made then Undefined
      else if t \<notin> set fin then Running
      else join_threads made fin ts)"

definition main_end :: "(vpu_thread \<Rightarrow> bool) \<Rightarrow> vpu_thread list \<Rightarrow> unit loop_result" where
  "main_end creates fin = join_threads (filter creates main_creates) fin main_joins"

lemma first_Cons:
  "(\<exists>us x vs. t # ts = us @ x # vs \<and> P x \<and> (\<forall>u \<in> set us. Q u)) \<longleftrightarrow> P t \<or> Q t \<and> (\<exists>us x vs. ts = us @ x # vs \<and> P x \<and> (\<forall>u \<in> set us. Q u))"
  (is "?l \<longleftrightarrow> ?r")
proof
  assume ?l
  then obtain us x vs where "t # ts = us @ x # vs" "P x" "\<forall>u \<in> set us. Q u" by blast
  then show ?r by (cases us) auto
next
  assume ?r
  then show ?l
  proof (elim disjE conjE exE)
    assume "P t"
    then show ?l by (intro exI[of _ "[]"]) simp
  next
    fix us x vs
    assume "Q t" "ts = us @ x # vs" "P x" "\<forall>u \<in> set us. Q u"
    then show ?l by (intro exI[of _ "t # us"]) simp
  qed
qed

lemma join_threads_ends:
  assumes "\<forall>t \<in> set ts. t \<in> set made \<longleftrightarrow> c t"
  shows "join_threads made fin ts = Returned () \<longleftrightarrow> (\<forall>t \<in> set ts. c t \<and> t \<in> set fin)"
    "join_threads made fin ts = Undefined \<longleftrightarrow> (\<exists>us t vs. ts = us @ t # vs \<and> \<not> c t \<and> (\<forall>u \<in> set us. c u \<and> u \<in> set fin))"
proof -
  show "join_threads made fin ts = Returned () \<longleftrightarrow> (\<forall>t \<in> set ts. c t \<and> t \<in> set fin)" using assms by (induction ts) auto
  show "join_threads made fin ts = Undefined \<longleftrightarrow> (\<exists>us t vs. ts = us @ t # vs \<and> \<not> c t \<and> (\<forall>u \<in> set us. c u \<and> u \<in> set fin))"
    using assms
  proof (induction ts)
    case Nil
    then show ?case by simp
  next
    case (Cons t ts)
    then show ?case unfolding first_Cons[of t ts "\<lambda>t. \<not> c t"] by auto
  qed
qed

lemma joins_created: "set main_joins = set main_creates - {Cdr_thread}"
  by (auto simp: main_joins_def main_creates_def)

text \<open>
  The program ends with its threads, but for one. When every thread could be created, \<open>main\<close> returns exactly when all threads except the
  sender of records have ended: that one is not waited for, and records still in the ring are lost. When a thread could not be
  created, \<open>main\<close> never returns properly: it waits for the threads before it and then for an identifier that was never set.
\<close>

theorem main_waits:
  "(main_end creates fin = Returned () \<longleftrightarrow> (\<forall>t \<in> set main_creates - {Cdr_thread}. creates t \<and> t \<in> set fin)) \<and>
   (main_end creates fin = Undefined \<longleftrightarrow>
     (\<exists>us t vs. main_joins = us @ t # vs \<and> \<not> creates t \<and> (\<forall>u \<in> set us. creates u \<and> u \<in> set fin)))"
proof -
  have made: "\<forall>t \<in> set main_joins. t \<in> set (filter creates main_creates) \<longleftrightarrow> creates t" using joins_created by auto
  show ?thesis
    unfolding main_end_def join_threads_ends(1)[OF made] join_threads_ends(2)[OF made] joins_created by blast
qed

text \<open>With all threads created, the sender may still run when \<open>main\<close> returns; without the thread of the guard it does not get past it.\<close>

theorem main_waits_witness:
  "main_end (\<lambda>t. True) (filter (\<lambda>t. t \<noteq> Cdr_thread) main_creates) = Returned () \<and>
   main_end (\<lambda>t. t \<noteq> Sguard_thread) main_creates = Undefined"
proof
  show "main_end (\<lambda>t. True) (filter (\<lambda>t. t \<noteq> Cdr_thread) main_creates) = Returned ()"
    by (rule main_waits[THEN conjunct1, THEN iffD2]) simp
  have "main_joins = [] @ Sguard_thread # tl main_joins" by (simp add: main_joins_def)
  then have "\<exists>us t vs. main_joins = us @ t # vs \<and> \<not> t \<noteq> Sguard_thread \<and> (\<forall>u \<in> set us. u \<noteq> Sguard_thread \<and> u \<in> set main_creates)"
    by (intro exI[of _ "[]"] exI[of _ Sguard_thread] exI[of _ "tl main_joins"]) simp
  then show "main_end (\<lambda>t. t \<noteq> Sguard_thread) main_creates = Undefined" by (rule main_waits[THEN conjunct2, THEN iffD2])
qed

subsection \<open>The numbers of the fax threads\<close>

text \<open>
  \<open>main\<close> stores the number of the next fax thread in \<open>queue.flag\<close>, creates it and sleeps for 5 ms; the thread reads its number when it gets to
  run. \<open>fs_next\<close> is the number \<open>main\<close> has come to, \<open>fs_made\<close> are the threads there are and \<open>fs_num\<close> the numbers they have read.
\<close>

record fax_start =
  fs_next :: nat
  fs_flag :: nat
  fs_made :: "nat list"
  fs_num :: "nat \<rightharpoonup> nat"

definition fax_create :: "bool \<Rightarrow> fax_start \<Rightarrow> fax_start" where
  "fax_create ok s = s\<lparr>fs_flag := fs_next s, fs_made := (if ok then fs_next s # fs_made s else fs_made s), fs_next := fs_next s + 1\<rparr>"

definition fax_read_flag :: "nat \<Rightarrow> fax_start \<Rightarrow> fax_start" where
  "fax_read_flag k s = s\<lparr>fs_num := (fs_num s)(k \<mapsto> fs_flag s)\<rparr>"

definition all_numbered :: "fax_start \<Rightarrow> bool" where
  "all_numbered s \<longleftrightarrow> (\<forall>k \<in> set (fs_made s). fs_num s k \<noteq> None)"

text \<open>The flag says whether the pause is long enough: whether \<open>main\<close> goes on only when every thread has read its number.\<close>

inductive start_step :: "bool \<Rightarrow> fax_start \<Rightarrow> fax_start \<Rightarrow> bool" for slow where
  create: "fs_next s < 4 \<Longrightarrow> slow \<longrightarrow> all_numbered s \<Longrightarrow> start_step slow s (fax_create ok s)"
| read: "k \<in> set (fs_made s) \<Longrightarrow> fs_num s k = None \<Longrightarrow> start_step slow s (fax_read_flag k s)"

definition no_fax_threads :: fax_start where
  "no_fax_threads = \<lparr>fs_next = 0, fs_flag = 0, fs_made = [], fs_num = Map.empty\<rparr>"

definition numbers_ok :: "bool \<Rightarrow> fax_start \<Rightarrow> bool" where
  "numbers_ok slow s \<longleftrightarrow> fs_next s \<le> 4 \<and> (\<forall>k \<in> set (fs_made s). k \<le> fs_flag s \<and> fs_flag s < fs_next s) \<and>
     (\<forall>k n. fs_num s k = Some n \<longrightarrow> k \<in> set (fs_made s) \<and> k \<le> n \<and> n < 4 \<and> (slow \<longrightarrow> n = k)) \<and>
     (slow \<longrightarrow> (\<forall>k \<in> set (fs_made s). fs_num s k = None \<longrightarrow> k = fs_flag s))"

lemma create_ok:
  assumes "numbers_ok slow s" "fs_next s < 4" "slow \<longrightarrow> all_numbered s"
  shows "numbers_ok slow (fax_create ok s)"
proof -
  have a: "\<forall>k \<in> set (fs_made (fax_create ok s)). k \<le> fs_next s" using assms(1) by (auto simp: numbers_ok_def fax_create_def)
  have b: "k \<in> set (fs_made (fax_create ok s)) \<and> k \<le> n \<and> n < 4 \<and> (slow \<longrightarrow> n = k)" if "fs_num s k = Some n" for k n
    using assms(1) that by (auto simp: numbers_ok_def fax_create_def)
  have c: "k = fs_next s" if "slow" "k \<in> set (fs_made (fax_create ok s))" "fs_num s k = None" for k
    using assms(3) that by (auto simp: all_numbered_def fax_create_def split: if_splits)
  show ?thesis using a b c assms(2) by (simp add: numbers_ok_def fax_create_def)
qed

lemma read_ok:
  assumes ok: "numbers_ok slow s" and k: "k \<in> set (fs_made s)" "fs_num s k = None"
  shows "numbers_ok slow (fax_read_flag k s)"
proof -
  note a = ok[unfolded numbers_ok_def]
  have f: "fs_flag s < 4" "k \<le> fs_flag s" using a k(1) by auto
  have e: "slow \<longrightarrow> fs_flag s = k" using a k by blast
  have n: "j \<in> set (fs_made s) \<and> j \<le> n \<and> n < 4 \<and> (slow \<longrightarrow> n = j)" if "fs_num (fax_read_flag k s) j = Some n" for j n
  proof (cases "j = k")
    case True
    then have "n = fs_flag s" using that by (simp add: fax_read_flag_def)
    then show ?thesis using f e k(1) True by simp
  next
    case False
    then have "fs_num s j = Some n" using that by (simp add: fax_read_flag_def)
    then show ?thesis using a by blast
  qed
  have m: "j = fs_flag s" if "slow" "j \<in> set (fs_made s)" "fs_num (fax_read_flag k s) j = None" for j
  proof -
    have "fs_num s j = None" using that(3) by (simp add: fax_read_flag_def split: if_splits)
    then show ?thesis using a that(1,2) by blast
  qed
  have sel: "fs_next (fax_read_flag k s) = fs_next s" "fs_made (fax_read_flag k s) = fs_made s" "fs_flag (fax_read_flag k s) = fs_flag s"
    by (simp_all add: fax_read_flag_def)
  have p: "fs_next s \<le> 4" "\<forall>k \<in> set (fs_made s). k \<le> fs_flag s \<and> fs_flag s < fs_next s" by (rule a[THEN conjunct1], rule a[THEN conjunct2, THEN conjunct1])
  have "\<forall>j n. fs_num (fax_read_flag k s) j = Some n \<longrightarrow> j \<in> set (fs_made s) \<and> j \<le> n \<and> n < 4 \<and> (slow \<longrightarrow> n = j)"
    by (intro allI impI n)
  moreover have "slow \<longrightarrow> (\<forall>j \<in> set (fs_made s). fs_num (fax_read_flag k s) j = None \<longrightarrow> j = fs_flag s)"
    by (intro ballI impI m)
  ultimately show ?thesis unfolding numbers_ok_def sel using p by (intro conjI)
qed

lemma start_step_ok: "start_step slow s s' \<Longrightarrow> numbers_ok slow s \<Longrightarrow> numbers_ok slow s'"
  by (induction rule: start_step.induct) (auto intro: create_ok read_ok)

text \<open>
  The pause carries the numbers. Whatever the scheduler does, a fax thread gets a number between its own and 3, and when the pause is
  long enough for every thread to read its number, each gets its own.
\<close>

theorem fax_numbers:
  assumes "(start_step slow)\<^sup>*\<^sup>* no_fax_threads s" and "fs_num s k = Some n"
  shows "k \<le> n \<and> n < 4 \<and> (slow \<longrightarrow> n = k)"
proof -
  have "numbers_ok slow s"
    using assms(1)
  proof (induction rule: rtranclp_induct)
    case base
    then show ?case by (simp add: numbers_ok_def no_fax_threads_def)
  next
    case (step y z)
    then show ?case using start_step_ok by blast
  qed
  then show ?thesis using assms(2) by (simp add: numbers_ok_def)
qed

text \<open>
  Without that all four threads can have the number 3. Then they share the flag \<open>fax_flag[3]\<close> of the decoder, and no thread is number 1,
  which is the only one that connects to a fax server again.
\<close>

theorem fax_numbers_shared:
  "\<exists>s. (start_step False)\<^sup>*\<^sup>* no_fax_threads s \<and> fs_next s = 4 \<and> (\<forall>k < 4. fs_num s k = Some 3)"
proof -
  have create: "(start_step False)\<^sup>*\<^sup>* s t \<Longrightarrow> fs_next t < 4 \<Longrightarrow> (start_step False)\<^sup>*\<^sup>* s (fax_create True t)" for s t
    by (erule rtranclp.rtrancl_into_rtrancl) (simp add: start_step.create)
  have read: "(start_step False)\<^sup>*\<^sup>* s t \<Longrightarrow> k \<in> set (fs_made t) \<Longrightarrow> fs_num t k = None \<Longrightarrow> (start_step False)\<^sup>*\<^sup>* s (fax_read_flag k t)" for s t k
    by (erule rtranclp.rtrancl_into_rtrancl) (simp add: start_step.read)
  let ?c = "fax_create True (fax_create True (fax_create True (fax_create True no_fax_threads)))"
  let ?s = "fax_read_flag 3 (fax_read_flag 2 (fax_read_flag 1 (fax_read_flag 0 ?c)))"
  have c: "fs_next ?c = 4" "fs_flag ?c = 3" "fs_made ?c = [3, 2, 1, 0]" "fs_num ?c = Map.empty"
    by (simp_all add: fax_create_def no_fax_threads_def)
  have "(start_step False)\<^sup>*\<^sup>* no_fax_threads ?c"
    by (intro create rtranclp.rtrancl_refl) (simp_all add: fax_create_def no_fax_threads_def)
  then have "(start_step False)\<^sup>*\<^sup>* no_fax_threads ?s" by (intro read) (simp_all add: fax_read_flag_def c)
  moreover have "fs_next ?s = 4" "\<forall>k < 4. fs_num ?s k = Some 3" using c by (auto simp: fax_read_flag_def numeral_eq_Suc less_Suc_eq)
  ultimately show ?thesis by blast
qed

theorem fax_numbers_witness:
  "fs_num (fax_read_flag 0 (fax_create True no_fax_threads)) 0 = Some 0"
proof -
  have "start_step True no_fax_threads (fax_create True no_fax_threads)"
    by (rule start_step.create) (simp_all add: no_fax_threads_def all_numbered_def)
  moreover have "start_step True (fax_create True no_fax_threads) (fax_read_flag 0 (fax_create True no_fax_threads))"
    by (rule start_step.read) (simp_all add: no_fax_threads_def fax_create_def)
  ultimately have "(start_step True)\<^sup>*\<^sup>* no_fax_threads (fax_read_flag 0 (fax_create True no_fax_threads))" by auto
  moreover have "fs_num (fax_read_flag 0 (fax_create True no_fax_threads)) 0 = Some (fs_flag (fax_create True no_fax_threads))"
    by (simp add: fax_read_flag_def)
  ultimately show ?thesis using fax_numbers[of True "fax_read_flag 0 (fax_create True no_fax_threads)" 0] by auto
qed

end
