(* ===== verification/Thread_Ends.thy ===== *)
theory Thread_Ends
  imports Vpu_Managers Send_Cdr
begin

text \<open>
  The threads that hold a socket, from their start to their end: \<open>conn_sguard\<close> and \<open>conn_ma\<close> of \<open>src/src/conn_serv.c\<close>, \<open>conn_cdr_thread\<close>
  of \<open>src/src/send_cdr.c\<close> and \<open>file_server_thread\<close> of \<open>src/src/file_server.c\<close>. Each keeps at most one socket open and closes it when it leaves
  its loop. A run is a list of turns, before each of which the other threads leave what they share as they like.
\<close>

subsection \<open>The interface\<close>

text \<open>A thread with a socket: \<open>sock\<close> is its variable, \<open>opened\<close> the sockets that were made and not closed, \<open>finish\<close> the close behind the loop.\<close>

locale socket_thread =
  fixes inv :: "'s \<Rightarrow> bool" and step :: "'s \<Rightarrow> 's \<Rightarrow> bool" and sock :: "'s \<Rightarrow> int" and opened :: "'s \<Rightarrow> int set" and finish :: "'s \<Rightarrow> 's"
  assumes keeps: "inv s \<Longrightarrow> step s s' \<Longrightarrow> inv s'"
    and one: "inv s \<Longrightarrow> opened s = {sock s} - {-1}"
    and finished: "opened (finish s) = opened s - {sock s}"
begin

lemma run_keeps: "step\<^sup>*\<^sup>* s s' \<Longrightarrow> inv s \<Longrightarrow> inv s'"
  by (induction rule: rtranclp_induct) (auto intro: keeps)

lemma run_ends: "step\<^sup>*\<^sup>* s s' \<Longrightarrow> inv s \<Longrightarrow> opened s' = {sock s'} - {-1} \<and> opened (finish s') = {}"
  using run_keeps[of s s'] one[of s'] finished[of s'] by auto

end

subsection \<open>Sockets\<close>

fun sock_step :: "int set \<Rightarrow> conn_event \<Rightarrow> int set" where
  "sock_step S (Conn_socket fd) = insert fd S"
| "sock_step S (Conn_close fd) = S - {fd}"
| "sock_step S _ = S"

definition open_socks :: "conn_event list \<Rightarrow> int set" where
  "open_socks es = foldl sock_step {} es"

lemma open_socks_append: "open_socks (es @ es') = foldl sock_step (open_socks es) es'"
  by (simp add: open_socks_def)

fun sess_socks :: "sess \<Rightarrow> int set" where
  "sess_socks Closed = {}"
| "sess_socks (Made fd) = {fd}"
| "sess_socks (Fresh fd) = {fd}"
| "sess_socks (Ready fd) = {fd}"

lemma sess_step_socks: "sess_step L s e = Some s' \<Longrightarrow> sock_step (sess_socks s) e = sess_socks s'"
  by (induction L s e rule: sess_step.induct) (auto split: if_splits)

lemma sess_open: "sess_of L es = Some s \<Longrightarrow> open_socks es = sess_socks s"
proof (induction es arbitrary: s rule: rev_induct)
  case Nil
  then show ?case by (simp add: open_socks_def)
next
  case (snoc e es)
  then obtain s1 where "sess_of L es = Some s1" "sess_step L s1 e = Some s" by (auto simp: sess_of_snoc split: Option.bind_splits)
  then show ?case using snoc.IH sess_step_socks by (simp add: open_socks_append)
qed

lemma sess_ok_open:
  assumes "sess_ok L (Conn_Session.idle s) s"
  shows "open_socks (cs_log s) = {cs_sock s} - {-1}"
proof -
  have "open_socks (cs_log s) = sess_socks (Conn_Session.idle s)" using assms by (intro sess_open[of L]) (simp add: sess_ok_def)
  then show ?thesis by (simp add: Conn_Session.idle_def)
qed

lemma cs_close_open: "open_socks (cs_log (cs_close s)) = open_socks (cs_log s) - {cs_sock s}"
  by (simp add: cs_close_def cs_add_def open_socks_append)

subsection \<open>The guard and the agent\<close>

definition sguard_step :: "pkt_layout \<Rightarrow> conn_state \<Rightarrow> conn_state \<Rightarrow> bool" where
  "sguard_step L s s' \<longleftrightarrow> (\<exists>env c. length (server_ip c) < 16 \<and> sguard_turn L env (s\<lparr>cs_conf := c\<rparr>) = Some s')"

text \<open>
  The thread of the agent; a command can end the program. The inputs of a turn are those of \<open>ma_turn\<close>, the configuration and the number of
  the next packet.
\<close>

fun ma_run :: "nat \<Rightarrow> pkt_layout \<Rightarrow> (ma_ext \<times> u32 \<times> conn_env \<times> conf_vars \<times> u16) list \<Rightarrow> conn_state \<Rightarrow> conn_state conf_run loop_result" where
  "ma_run n L [] s = Returned (Cont 0 s)"
| "ma_run n L ((x, v, env, c, num) # es) s =
     (case ma_turn n L x v env (s\<lparr>cs_conf := c, cs_num := num\<rparr>) of
        Returned (Cont _ (s', _)) \<Rightarrow> ma_run n L es s'
      | Returned (Exit e) \<Rightarrow> Returned (Exit e)
      | Undefined \<Rightarrow> Undefined
      | Running \<Rightarrow> Running)"

definition conn_ma ::
  "nat \<Rightarrow> pkt_layout \<Rightarrow> (ma_ext \<times> u32 \<times> conn_env \<times> conf_vars \<times> u16) list \<Rightarrow> u8 list \<Rightarrow> conf_vars \<Rightarrow> conn_state option conf_run loop_result" where
  "conn_ma n L es pkt s =
     (if port_ma (vpu_conf s) = 0 \<or> sn (vpu_conf s) = 0 then Returned (Cont 0 None)
      else (case ma_run n L es (conn_start pkt 0 s) of
              Returned (Cont _ s') \<Rightarrow> Returned (Cont 0 (Some (cs_close s')))
            | Returned (Exit e) \<Rightarrow> Returned (Exit e)
            | Undefined \<Rightarrow> Undefined
            | Running \<Rightarrow> Running))"

definition ma_step :: "pkt_layout \<Rightarrow> conn_state \<Rightarrow> conn_state \<Rightarrow> bool" where
  "ma_step L s s' \<longleftrightarrow> (\<exists>n x v env c num es. ma_turn n L x v env (s\<lparr>cs_conf := c, cs_num := num\<rparr>) = Returned (Cont 0 (s', es)))"

lemma guard_shared: "guard_ok L n0 (Conn_Session.idle (s\<lparr>cs_conf := c\<rparr>)) (s\<lparr>cs_conf := c\<rparr>) = guard_ok L n0 (Conn_Session.idle s) s"
  "sess_ok L (Conn_Session.idle (s\<lparr>cs_conf := c, cs_num := num\<rparr>)) (s\<lparr>cs_conf := c, cs_num := num\<rparr>) = sess_ok L (Conn_Session.idle s) s"
  by (simp_all add: guard_ok_def sess_ok_def Conn_Session.idle_def)

interpretation guard: socket_thread "\<lambda>s. layout_ok L \<and> guard_ok L n0 (Conn_Session.idle s) s" "sguard_step L" cs_sock "\<lambda>s. open_socks (cs_log s)" cs_close
  for L n0
proof (unfold_locales, goal_cases)
  case (1 s s')
  then obtain env c where t: "sguard_turn L env (s\<lparr>cs_conf := c\<rparr>) = Some s'" "length (server_ip c) < 16" by (auto simp: sguard_step_def)
  then show ?case using sguard_turn_ok[of L n0 "s\<lparr>cs_conf := c\<rparr>" env] 1 guard_shared(1) by auto
next
  case (2 s)
  then show ?case using sess_ok_open by (auto simp: guard_ok_def)
next
  case (3 s)
  then show ?case by (rule cs_close_open)
qed

interpretation agent: socket_thread "\<lambda>s. layout_ok L \<and> sess_ok L (Conn_Session.idle s) s" "ma_step L" cs_sock "\<lambda>s. open_socks (cs_log s)" cs_close
  for L
proof (unfold_locales, goal_cases)
  case (1 s s')
  then show ?case using ma_session guard_shared(2) by (auto simp: ma_step_def) metis
next
  case (2 s)
  then show ?case using sess_ok_open by auto
next
  case (3 s)
  then show ?case by (rule cs_close_open)
qed

subsection \<open>The sender of records\<close>

definition connect2cdr :: "conn_env \<Rightarrow> conf_vars \<Rightarrow> int \<times> conn_event list" where
  "connect2cdr env s = connect_to env (cdr_ip s) (cdr_port s)"

record cdr_thread =
  ct_conn :: conn_cdr
  ct_log :: "conn_event list"

text \<open>
  A turn of the loop with its calls of the network; there is no state behind a turn that leaves the loop. Of \<open>e\<close> the flag of the reload
  and the new socket are replaced by what the configuration and \<open>connect2cdr\<close> say.
\<close>

definition cdr_turn :: "conn_env \<Rightarrow> conf_vars \<Rightarrow> cdr_env \<Rightarrow> cdr_thread \<Rightarrow> cdr_thread option loop_result" where
  "cdr_turn env s e t =
     (let (fd, es) = connect2cdr env s;
          reload = (svm_cdr_reload s = 1);
          e1 = e\<lparr>e_reload := reload, e_connect := fd\<rparr>;
          c = ct_conn t;
          c1 = cdr_connect e1 c in
      case conn_cdr_iter e1 c of
        Returned None \<Rightarrow> Returned None
      | Returned (Some (out, c')) \<Rightarrow>
          Returned (Some \<lparr>ct_conn = c', ct_log = ct_log t @
            (if reload then [Conn_close (sockfd c)] else []) @
            (if reload \<or> sockfd c = -1 then es else []) @
            (if out = [] then [] else [Conn_write (sockfd c1) out]) @
            (if sockfd c1 \<noteq> -1 \<and> sockfd c' = -1 then [Conn_close (sockfd c1)] else [])\<rparr>)
      | Undefined \<Rightarrow> Undefined
      | Running \<Rightarrow> Running)"

definition cdr_finish :: "cdr_thread \<Rightarrow> cdr_thread" where
  "cdr_finish t = t\<lparr>ct_log := ct_log t @ [Conn_close (sockfd (ct_conn t))]\<rparr>"

fun cdr_run :: "(conn_env \<times> conf_vars \<times> cdr_env \<times> cdr_ring) list \<Rightarrow> cdr_thread \<Rightarrow> cdr_thread loop_result" where
  "cdr_run [] t = Returned t"
| "cdr_run ((env, s, e, r) # ts) t =
     (case cdr_turn env s e (t\<lparr>ct_conn := (ct_conn t)\<lparr>g_cdr_buff := r\<rparr>\<rparr>) of
        Returned None \<Rightarrow> Returned (t\<lparr>ct_conn := (ct_conn t)\<lparr>g_cdr_buff := r\<rparr>\<rparr>)
      | Returned (Some t') \<Rightarrow> cdr_run ts t'
      | Undefined \<Rightarrow> Undefined
      | Running \<Rightarrow> Running)"

definition conn_cdr_thread :: "(conn_env \<times> conf_vars \<times> cdr_env \<times> cdr_ring) list \<Rightarrow> u8 list \<Rightarrow> cdr_thread loop_result" where
  "conn_cdr_thread ts raw =
     (case cdr_run ts \<lparr>ct_conn = conn_cdr_start raw, ct_log = []\<rparr> of
        Returned t \<Rightarrow> Returned (cdr_finish t)
      | Undefined \<Rightarrow> Undefined
      | Running \<Rightarrow> Running)"

definition cdr_step :: "cdr_thread \<Rightarrow> cdr_thread \<Rightarrow> bool" where
  "cdr_step t t' \<longleftrightarrow> (\<exists>r. t' = t\<lparr>ct_conn := (ct_conn t)\<lparr>g_cdr_buff := r\<rparr>\<rparr>) \<or>
     (\<exists>env s e r. cdr_turn env s e (t\<lparr>ct_conn := (ct_conn t)\<lparr>g_cdr_buff := r\<rparr>\<rparr>) = Returned (Some t'))"

lemma connect_to_socks:
  assumes "connect_to env ip port = (fd, es)" "S = {}"
  shows "foldl sock_step S es = {fd} - {-1}"
  using assms by (auto simp: connect_to_def split: if_splits)

lemma cdr_recv_sock: "cdr_recv got c = Some c' \<Longrightarrow> sockfd c' = sockfd c \<or> sockfd c' = -1"
  by (auto simp: cdr_recv_def cdr_command_def Let_def split: option.splits if_splits Option.bind_splits)

lemma cdr_iter_sock:
  assumes "conn_cdr_iter e c = Returned (Some (out, c'))"
  shows "sockfd c' = sockfd (cdr_connect e c) \<or> sockfd c' = -1"
  using assms cdr_recv_sock[of "e_recv e" "cdr_connect e c"]
  by (auto simp: conn_cdr_iter_def Let_def split: if_splits option.splits loop_result.splits)

lemma send_socks:
  assumes "open_socks l = {k} - {-1}" "k' = k \<or> k' = -1"
  shows "open_socks (l @ (if out = [] then [] else [Conn_write k out]) @ (if k \<noteq> -1 \<and> k' = -1 then [Conn_close k] else [])) = {k'} - {-1}"
  using assms by (cases "k' = k") (simp_all add: open_socks_append)

lemma cdr_turn_sock:
  assumes "cdr_turn env s e t = Returned (Some t')" "open_socks (ct_log t) = {sockfd (ct_conn t)} - {-1}"
  shows "open_socks (ct_log t') = {sockfd (ct_conn t')} - {-1}"
proof -
  obtain fd es where c: "connect2cdr env s = (fd, es)" by (cases "connect2cdr env s")
  let ?re = "svm_cdr_reload s = 1"
  let ?e = "e\<lparr>e_reload := ?re, e_connect := fd\<rparr>" and ?c = "ct_conn t"
  obtain out c' where i: "conn_cdr_iter ?e ?c = Returned (Some (out, c'))"
    and t': "t' = \<lparr>ct_conn = c', ct_log = ct_log t @ (if ?re then [Conn_close (sockfd ?c)] else []) @
            (if ?re \<or> sockfd ?c = -1 then es else []) @ (if out = [] then [] else [Conn_write (sockfd (cdr_connect ?e ?c)) out]) @
            (if sockfd (cdr_connect ?e ?c) \<noteq> -1 \<and> sockfd c' = -1 then [Conn_close (sockfd (cdr_connect ?e ?c))] else [])\<rparr>"
    using assms(1) c by (auto simp: cdr_turn_def Let_def split: loop_result.splits option.splits)
  have "sockfd (cdr_connect ?e ?c) = (if ?re \<or> sockfd ?c = -1 then fd else sockfd ?c)" by (auto simp: cdr_connect_def Let_def)
  moreover have "open_socks (ct_log t @ (if ?re then [Conn_close (sockfd ?c)] else []) @ (if ?re \<or> sockfd ?c = -1 then es else [])) =
      {if ?re \<or> sockfd ?c = -1 then fd else sockfd ?c} - {-1}"
  proof (cases "?re \<or> sockfd ?c = -1")
    case True
    have "foldl sock_step (open_socks (ct_log t)) (if ?re then [Conn_close (sockfd ?c)] else []) = {}" using True assms(2) by auto
    from connect_to_socks[OF c[unfolded connect2cdr_def] this] show ?thesis using True by (simp add: open_socks_append)
  next
    case False
    then show ?thesis using assms(2) by (simp add: open_socks_append)
  qed
  ultimately have "open_socks (ct_log t @ (if ?re then [Conn_close (sockfd ?c)] else []) @ (if ?re \<or> sockfd ?c = -1 then es else [])) =
      {sockfd (cdr_connect ?e ?c)} - {-1}" by simp
  from send_socks[OF this cdr_iter_sock[OF i], of out] show ?thesis by (simp only: t' append_assoc cdr_thread.simps)
qed

interpretation sender: socket_thread "\<lambda>t. open_socks (ct_log t) = {sockfd (ct_conn t)} - {-1}" cdr_step "\<lambda>t. sockfd (ct_conn t)"
  "\<lambda>t. open_socks (ct_log t)" cdr_finish
proof (unfold_locales, goal_cases)
  case (1 t t')
  then show ?case unfolding cdr_step_def
  proof (elim disjE exE)
    fix env s e r
    assume "cdr_turn env s e (t\<lparr>ct_conn := (ct_conn t)\<lparr>g_cdr_buff := r\<rparr>\<rparr>) = Returned (Some t')"
    from cdr_turn_sock[OF this] 1(1) show ?thesis by simp
  qed simp
next
  case (3 t)
  then show ?case by (simp add: cdr_finish_def open_socks_append)
qed

subsection \<open>The replay server\<close>

definition srv_finish :: "file_server \<Rightarrow> file_server" where
  "srv_finish s = srv_add [Net_close (listenfd s)] s"

definition file_server_thread :: "(bool \<times> net_env \<times> string option \<times> u16) list \<Rightarrow> file_server" where
  "file_server_thread es = srv_finish (server_run es start_server)"

definition srv_step :: "file_server \<Rightarrow> file_server \<Rightarrow> bool" where
  "srv_step s s' \<longleftrightarrow> (\<exists>reload env ip port. s' = server_turn env ip port (if reload then s\<lparr>vpu_reload := 1\<rparr> else s))"

interpretation server: socket_thread server_ok srv_step listenfd "\<lambda>s. listeners (srv_log s)" srv_finish
proof (unfold_locales, goal_cases)
  case (1 s s')
  then obtain reload env ip port where "s' = server_turn env ip port (if reload then s\<lparr>vpu_reload := 1\<rparr> else s)" by (auto simp: srv_step_def)
  moreover have "server_ok (if reload then s\<lparr>vpu_reload := 1\<rparr> else s)" using 1(1) by (simp add: server_ok_def)
  ultimately show ?case using server_turn_ok by simp
next
  case (2 s)
  then show ?case by (simp add: server_ok_def)
next
  case (3 s)
  then show ?case by (simp add: srv_finish_def srv_add_def listeners_def)
qed

subsection \<open>Whole threads\<close>

lemma sguard_run_steps:
  "sguard_run L es s = Some s' \<Longrightarrow> \<forall>(env, c) \<in> set es. length (server_ip c) < 16 \<Longrightarrow> (sguard_step L)\<^sup>*\<^sup>* s s'"
proof (induction L es s rule: sguard_run.induct)
  case (2 L env c es s)
  obtain s1 where s1: "sguard_turn L env (s\<lparr>cs_conf := c\<rparr>) = Some s1" "sguard_run L es s1 = Some s'"
    using "2.prems"(1) by (auto split: Option.bind_splits)
  have "sguard_step L s s1" using s1(1) "2.prems"(2) by (auto simp: sguard_step_def)
  moreover have "(sguard_step L)\<^sup>*\<^sup>* s1 s'" using "2.IH"[OF s1] "2.prems"(2) by simp
  ultimately show ?case by (rule converse_rtranclp_into_rtranclp)
qed simp

lemma ma_receive_code: "ma_receive n L x v env s = Returned (Cont c r) \<Longrightarrow> c = 0"
  by (auto simp: ma_receive_def split: if_splits sum.splits list.splits option.splits loop_result.splits conf_run.splits)

lemma ma_turn_code: "ma_turn n L x v env s = Returned (Cont c r) \<Longrightarrow> c = 0"
  by (auto simp: ma_turn_def Let_def split: if_splits prod.splits option.splits dest: ma_receive_code)

lemma ma_run_steps: "ma_run n L es s = Returned (Cont c s') \<Longrightarrow> (ma_step L)\<^sup>*\<^sup>* s s'"
proof (induction n L es s rule: ma_run.induct)
  case (2 n L x v env c1 num es s)
  obtain e s1 ev where s1: "ma_turn n L x v env (s\<lparr>cs_conf := c1, cs_num := num\<rparr>) = Returned (Cont e (s1, ev))" "ma_run n L es s1 = Returned (Cont c s')"
    using "2.prems" by (auto split: loop_result.splits conf_run.splits)
  have "ma_step L s s1" using s1(1) ma_turn_code[OF s1(1)] unfolding ma_step_def by blast
  moreover have "(ma_step L)\<^sup>*\<^sup>* s1 s'" using "2.IH"[OF s1(1) refl refl s1(2)] .
  ultimately show ?case by (rule converse_rtranclp_into_rtranclp)
qed simp

lemma cdr_turn_step:
  assumes "cdr_turn env s e (t\<lparr>ct_conn := (ct_conn t)\<lparr>g_cdr_buff := r\<rparr>\<rparr>) = Returned (Some t')"
  shows "cdr_step t t'"
  unfolding cdr_step_def by (rule disjI2, intro exI) (rule assms)

lemma cdr_ring_step: "cdr_step t (t\<lparr>ct_conn := (ct_conn t)\<lparr>g_cdr_buff := r\<rparr>\<rparr>)"
  unfolding cdr_step_def by (rule disjI1, rule exI[of _ r], rule refl)

lemma cdr_run_steps: "cdr_run ts t = Returned t' \<Longrightarrow> cdr_step\<^sup>*\<^sup>* t t'"
proof (induction ts arbitrary: t)
  case (Cons x ts t)
  obtain env s e r where x: "x = (env, s, e, r)" by (rule prod_cases4)
  define u where u: "u = t\<lparr>ct_conn := (ct_conn t)\<lparr>g_cdr_buff := r\<rparr>\<rparr>"
  have run: "cdr_run (x # ts) t = (case cdr_turn env s e u of
        Returned None \<Rightarrow> Returned u
      | Returned (Some t') \<Rightarrow> cdr_run ts t'
      | Undefined \<Rightarrow> Undefined
      | Running \<Rightarrow> Running)" by (simp only: x u cdr_run.simps)
  show ?case
  proof (cases "cdr_turn env s e u")
    case (Returned y)
    show ?thesis
    proof (cases y)
      case None
      then have "cdr_run (x # ts) t = Returned u" using run Returned by (simp only: loop_result.case option.case)
      then have "t' = u" using Cons.prems by simp
      moreover have "cdr_step t u" unfolding u by (rule cdr_ring_step)
      ultimately show ?thesis by (simp only: r_into_rtranclp)
    next
      case (Some t1)
      then have "cdr_run (x # ts) t = cdr_run ts t1" using run Returned by (simp only: loop_result.case option.case)
      then have "cdr_step\<^sup>*\<^sup>* t1 t'" using Cons.prems by (intro Cons.IH) (simp only:)
      moreover have "cdr_step t t1" by (rule cdr_turn_step[of env s e]) (use Returned Some in \<open>simp only: u\<close>)
      ultimately show ?thesis by (rule converse_rtranclp_into_rtranclp[rotated])
    qed
  qed (use Cons.prems run in \<open>simp_all only: loop_result.case loop_result.distinct\<close>)
qed simp

lemma server_run_steps: "srv_step\<^sup>*\<^sup>* s (server_run es s)"
proof (induction es s rule: server_run.induct)
  case (2 reload env ip port es s)
  have "srv_step s (server_turn env ip port (if reload then s\<lparr>vpu_reload := 1\<rparr> else s))" unfolding srv_step_def by blast
  with 2 show ?case by (simp add: converse_rtranclp_into_rtranclp)
qed simp

lemma start_sess: "length pkt = 2048 \<Longrightarrow> guard_ok L n (Conn_Session.idle (conn_start pkt n c)) (conn_start pkt n c)"
  by (auto simp: guard_ok_def sess_ok_def Conn_Session.idle_def conn_start_def nums_from_def intro: exI[of _ 0])

lemma conn_ma_closed:
  "conn_ma n L es pkt conf = Returned (Cont c (Some s)) \<Longrightarrow> \<exists>c1 s1. ma_run n L es (conn_start pkt 0 conf) = Returned (Cont c1 s1) \<and> s = cs_close s1"
  by (auto simp: conn_ma_def split: if_splits loop_result.splits conf_run.splits)


text \<open>A network that makes a socket and refuses the connection, and one turn of the sender in it that is closed by the other side.\<close>

definition refusing :: conn_env where
  "refusing = \<lparr>ce_pid = 1, ce_socket = 7, ce_pton = (\<lambda>_. 1), ce_connect = (\<lambda>_ _. -1), ce_write = (\<lambda>_. 0), ce_select = 0, ce_read = Inl 0\<rparr>"

definition closed_turn :: cdr_env where
  "closed_turn = \<lparr>e_done = False, e_reload = False, e_connect = 0, e_select = 1, e_recv = Some [], e_send = []\<rparr>"


end
