(* ===== verification/Spec2Isabelle.thy ===== *)
theory Spec2Isabelle
  imports Conf_Nodes Conf_Values Vpu_Main Thread_Ends
begin

text \<open>
  \<^bold>\<open>The voice recorder daemon.\<close> The program under \<open>src/src\<close> captures voice packets of telephone lines from a network
  interface, writes the two directions of every call to files, looks for faxes in the samples of ended calls, reports
  each call as a record to a server, lets clients listen to and fetch recordings, and is watched and configured by two
  managing programs. This library models it function by function and proves what makes the parts correct, and that
  the threads work together.

  \<^bold>\<open>The parts and how they interact.\<close> A capture thread puts each packet into one of eight rings, chosen by the time slot of the call
  (\<open>pkt_fifo.c\<close>, \<open>vpu_worker.c\<close>). Eight workers take packets from their rings and give them to the parser (\<open>voice_parser.c\<close>), which keeps a
  slot for each line with the files and buffers of its call. When a call starts, its slot takes a node from the queue of
  empty nodes (\<open>fax_queue.c\<close>) and collects the first samples there; when it ends, the node goes to the queue of full nodes. Four fax threads
  (\<open>fax_decode.c\<close>) take full nodes, decode the samples, put the record of the call into the ring of records (\<open>send_cdr.c\<close>), send
  faxes to a fax server, and give the node back. Another thread sends the records in batches and takes their acknowledgements. The thread of
  \<open>cycle_operation.c\<close> makes and removes the directories of the days, ends silent calls, watches the disks and ends the program. A
  server (\<open>file_server.c\<close>) answers requests for live or stored calls. Two more threads (\<open>conn_serv.c\<close>) register at a guard and an agent, send signs of
  life and statistics, and carry out commands, among them the reload of the configuration (\<open>conf.c\<close> on the tree of \<open>yaml_conf.c\<close>).

  \<^bold>\<open>Theories.\<close> In the order of their imports:
  \<^item> \<open>VPU_Prelude\<close>: machine words, reads and writes of buffers with their bounds, byte orders, numbers in text, results of loops.
  \<^item> \<open>Atomic_Counter\<close>: \<open>atomic.h\<close> and \<open>counter.c\<close>. Updates from several threads are not lost.
  \<^item> \<open>Pkt_Fifo\<close>: \<open>pkt_fifo.c\<close>. The ring refines a bounded queue; with one producer and one consumer, interleaved by their accesses to shared
    memory, every packet is given to the consumer once and in order; as it is read behind its release, its slot can have been written again,
    and it is stated exactly when.
  \<^item> \<open>Fax_Queue\<close>: \<open>fax_queue.c\<close>. Linked lists on a heap; no node is lost or shared when the operations run one at a time, and one is lost
    by the store after the unlock.
  \<^item> \<open>Send_Cdr\<close>: \<open>send_cdr.c\<close>. The ring refines a list of records with its bound and its losses; records leave it only after they were sent;
    the bytes on the wire parse back; acknowledgements are understood however they are cut; a turn of the thread does nothing undefined.
  \<^item> \<open>File_Dirs\<close>: the storage directories of \<open>conf.c\<close>, \<open>conf.h\<close> and \<open>voice_parser.c\<close>. The choice of a directory ends and finds a writable one;
    the directory of every call of a day is made.
  \<^item> \<open>Voice_File\<close>, \<open>Voice_Parser\<close>: \<open>voice_parser.c\<close>. No packet makes the parser touch memory it must not; slots, queues and counts stay consistent; a packet
    that starts a call unlocks a mutex its own \<open>memset\<close> has cleared; without packets of the call id 0 the number of
    calls online is exact; the bytes of an up packet are appended to its stream.
  \<^item> \<open>Vpu_Worker\<close>, \<open>Vpu_Capture\<close>: \<open>vpu_worker.c\<close>. The rings, the workers and the slots together; the loop of the capture thread, which holds one
    device at a time.
  \<^item> \<open>File_Server\<close>, \<open>File_Replay\<close>: \<open>file_server.c\<close>. Requests are parsed in any order of their fields; the file of a call is found; a replay
    sends what it announced; a connection with a request that fits its buffer and files that can be read is answered once, except one of an
    unknown type.
  \<^item> \<open>Conf_Tree\<close>, \<open>Conf_Values\<close>: \<open>yaml_conf.c\<close> and the bounded copies of strings (\<open>util-strlcpyu.c\<close>, \<open>util-strlcatu.c\<close>). The loader builds the tree of
    the document; a value that was set is found; the copies truncate and never overrun.
  \<^item> \<open>Conf_Nodes\<close>: the nodes of \<open>yaml_conf.c\<close> as structures on the heap, linked by the macros of \<open>yaml_conf.h\<close>. \<open>ConfSet\<close> on pointers refines
    \<open>ConfSet\<close> on trees; freeing and removing free exactly what they should, except for nodes that were loaded, which stay linked.
  \<^item> \<open>Conf\<close>: \<open>conf.c\<close>. A configuration that is accepted has its values in range.
  \<^item> \<open>Conn_Serv\<close>, \<open>Conn_Commands\<close>, \<open>Conn_Session\<close>, \<open>Vpu_Managers\<close>: \<open>conn_serv.c\<close>. The packets, the parser of commands and the threads of the two
    connections; what their commands and reloads keep of the configuration; and for which commands a turn of the agent is defined.
  \<^item> \<open>Cycle_Operation\<close>: \<open>cycle_operation.c\<close>. A turn keeps everything consistent; in a zone whose clock is not changed today's directories
    are made, and of the normal tree exactly the expired day is removed, of the case tree nothing; the check of names accepts nothing.
  \<^item> \<open>Fax_Sender\<close>, \<open>Fax_Decode\<close>: \<open>fax_decode.c\<close>. The fax threads keep the pool of nodes and the ring of records; a fax goes to the first server
    that takes it; the decoder puts pages together and marks calls; and how it fails.
  \<^item> \<open>Vpu_Program\<close>: \<open>vpu.c\<close>. The state that \<open>main\<close> sets up, the step relation of the threads that share the recorder and the configuration,
    and the properties of every reachable state.
  \<^item> \<open>Vpu_Main\<close>: the rest of \<open>main\<close>. From the command line and the files to the threads; the numbers the fax threads get; what \<open>main\<close> waits for.
  \<^item> \<open>Thread_Ends\<close>: the threads of the guard, the agent, the sender of records and the replay server from start to end; they close the sockets they make.
  \<^item> \<open>Daemon\<close>: \<open>daemon.c\<close>. Of the two processes after the fork only the child goes on, and when the parent succeeds.

  \<^bold>\<open>How the model corresponds to the code.\<close> A structure is a record with its members, an enumeration a datatype, an unsigned integer a word of its width; a signed
  \<open>int\<close> is an \<^typ>\<open>int\<close>, and where it could leave its range the model says so. An undefined operation of C, such as an access outside of an array or
  through a null or freed pointer, is \<^const>\<open>None\<close>, or \<^const>\<open>Undefined\<close> for functions with loops that need not end; \<^const>\<open>Running\<close> says that
  such a loop has not ended with the inputs it was given. Pointers into the heap of nodes are addresses; other structures have one owner at a time and are
  passed and returned. What a call of the system or of a library answers is an argument or a record of inputs, and what the program gives them (bytes
  written, sockets closed, commands of the shell) is a log or part of the result. A thread is its turn: the body of its loop, from one test of the flags to the next. Code that is
  protected by a mutex is atomic; the places where the code leaves the protection or shares data without it are modelled by their accesses
  (\<open>spsc_step\<close> in \<open>Pkt_Fifo\<close>, \<open>fq_step\<close> in \<open>Fax_Queue\<close>, the races in \<open>File_Dirs\<close>).

  \<^bold>\<open>Interfaces.\<close> Where one part relies on another the contract is a locale: the queues of nodes (\<open>node_queue\<close>), the ring of records (\<open>cdr_spool\<close>), the configuration that commands change (\<open>conf_keeper\<close>) and others;
  each is interpreted on the functions of the code, and the properties are those of the interpretation.

  \<^bold>\<open>Bounds and fuel.\<close> Functions with fuel are the scan for a directory, which needs one turn more than there are directories (it is proved to end within
  them), the scan of a name in \<open>check_filename\<close>, whose theorem holds for every fuel, and the loop over include files, which need not end: the
  theorem says of a file that includes itself that it does not, with any fuel. Freeing and looking up nodes on the heap are partial functions
  (\<^const>\<open>None\<close> when they do not return), and proved to return on every well-formed heap. The loops that send files take as many turns as the
  longest file has pieces (\<open>readable\<close>), and the parser of the agent's commands as many as there are messages. Loops over inputs of the system recurse on the list of the
  inputs. The search for a fax server ends within as many turns as there are servers.

  \<^bold>\<open>Assumptions that are hypotheses.\<close> The network carries frames of 28 to 1518 bytes, which the capture, opened for 1518 bytes, delivers whole;
  \<open>recv\<close> returns no more than it was asked for; \<open>localtime_r\<close> succeeds; the constants of
  the fax library are different and its longest capability frame has at least nine bytes. In the theorems on the whole program turns are
  atomic, and a file that the agent reloads names at least the fax servers in use and one directory (\<open>reload_fits\<close>); with fewer servers a fax thread
  can be left behind the end of the table, and with no directory a call finds none. There the turn of the agent is shown to be defined only for
  messages other than a reload and a status, whose handlers can read behind their data (\<open>reload_overruns\<close>, \<open>status_applied\<close>), and the turn of a connection only
  for a request of at most 2041 bytes and files that can be read; a turn that is not defined is no step of the model.

  \<^bold>\<open>Not modelled.\<close> The registration of handlers, the affinity of threads and the opening of the log (calls of the system without state of the program's own);
  conversions to floating point themselves (\<open>strtod\<close> and \<open>strtof\<close> are parameters); the demodulators and receivers of the fax library;
  the packet header, log and counter functions that are declared outside of the repository (parameters); the diagnostics that are only printed.
\<close>

end
